(* ===== verification/Prelude.thy ===== *)
theory Prelude
  imports Main "HOL-Library.Word"
begin

text \<open>
  Shared vocabulary of the development: the machine integer types of the sources, the
  result type of code that can fail, checked access to arrays, and the generic lemmas on
  lists and modular indices that the component theories use.

  Every operation that can fail returns a value of \<open>fault + 'a\<close>. The three ways a C or
  C++ operation can fail in these sources are kept apart: a failed \<open>assert\<close>
  (\<open>Abort\<close>), an access outside an object or a division by zero (\<open>Undef\<close>), and an
  exception with its message (\<open>Throw\<close>).
\<close>

type_synonym byte = "8 word"
type_synonym u16 = "16 word"
type_synonym u32 = "32 word"
type_synonym u64 = "64 word"

datatype fault = Abort | Undef | Throw string

type_synonym 'a res = "fault + 'a"

named_theorems res_simps \<open>evaluation of the failure monad and of checked accesses\<close>

section \<open>Sequencing of operations that can fail\<close>

definition rbind :: "'a res \<Rightarrow> ('a \<Rightarrow> 'b res) \<Rightarrow> 'b res" where
  "rbind m f = (case m of Inl e \<Rightarrow> Inl e | Inr x \<Rightarrow> f x)"

lemma rbind_Inl [simp, res_simps]: "rbind (Inl e) f = Inl e"
  by (simp add: rbind_def)

lemma rbind_Inr [simp, res_simps]: "rbind (Inr x) f = f x"
  by (simp add: rbind_def)

lemma rbind_cong [fundef_cong]:
  "m = m' \<Longrightarrow> (\<And>x. m' = Inr x \<Longrightarrow> f x = f' x) \<Longrightarrow> rbind m f = rbind m' f'"
  by (cases m') (auto simp: rbind_def)

lemma rbind_eq_Inr_iff: "rbind m f = Inr y \<longleftrightarrow> (\<exists>x. m = Inr x \<and> f x = Inr y)"
  by (cases m) auto

lemma rbind_assoc: "rbind (rbind m f) g = rbind m (\<lambda>x. rbind (f x) g)"
  by (cases m) auto

section \<open>Checked access to arrays\<close>

text \<open>Reading an array outside its bounds is \<open>Undef\<close>, and so is writing there.\<close>

definition rd :: "'a list \<Rightarrow> nat \<Rightarrow> 'a res" where
  "rd xs i = (if i < length xs then Inr (xs ! i) else Inl Undef)"

definition wr :: "'a list \<Rightarrow> nat \<Rightarrow> 'a \<Rightarrow> 'a list res" where
  "wr xs i v = (if i < length xs then Inr (xs[i := v]) else Inl Undef)"

lemma rd_in [simp, res_simps]: "i < length xs \<Longrightarrow> rd xs i = Inr (xs ! i)"
  by (simp add: rd_def)

lemma rd_out [simp, res_simps]: "\<not> i < length xs \<Longrightarrow> rd xs i = Inl Undef"
  by (simp add: rd_def)

lemma wr_in [simp, res_simps]: "i < length xs \<Longrightarrow> wr xs i v = Inr (xs[i := v])"
  by (simp add: wr_def)

lemma wr_out [simp, res_simps]: "\<not> i < length xs \<Longrightarrow> wr xs i v = Inl Undef"
  by (simp add: wr_def)

lemma rd_eq_Inr_iff: "rd xs i = Inr x \<longleftrightarrow> i < length xs \<and> xs ! i = x"
  by (auto simp: rd_def)

section \<open>Integer conversions of the C and C++ sources\<close>

text \<open>
  \<open>size_t\<close> values are naturals below \<open>2 ^ 64\<close>; a result that can leave the range is
  reduced with \<open>szt\<close> (from \<open>int\<close>). \<open>i64\<close> is the conversion to
  \<open>int64_t\<close>.
\<close>

definition szt :: "int \<Rightarrow> nat" where
  "szt x = nat (x mod 2 ^ 64)"

definition i64 :: "int \<Rightarrow> int" where
  "i64 x = (x + 2 ^ 63) mod 2 ^ 64 - 2 ^ 63"

lemma szt_small [simp]: "0 \<le> x \<Longrightarrow> x < 2 ^ 64 \<Longrightarrow> szt x = nat x"
  by (simp add: szt_def)

lemma szt_bound: "szt x < 2 ^ 64"
  by (simp add: szt_def nat_less_iff)

lemma i64_small [simp]: "- (2 ^ 63) \<le> x \<Longrightarrow> x < 2 ^ 63 \<Longrightarrow> i64 x = x"
  by (simp add: i64_def)

section \<open>Lists and indices modulo a capacity\<close>

lemma mod_add_inj:
  fixes h i j c :: nat
  assumes "i < c" and "j < c" and "(h + i) mod c = (h + j) mod c"
  shows "i = j"
proof -
  have False if "a < b" "b < c" "(h + a) mod c = (h + b) mod c" for a b :: nat
  proof -
    have "c dvd (h + b) - (h + a)"
      using that by (metis add_le_cancel_left less_imp_le mod_eq_dvd_iff_nat)
    then show False using that by (auto dest: dvd_imp_le)
  qed
  then show ?thesis using assms by (metis linorder_neqE_nat)
qed

lemma nth_append_take:
  "i < length xs \<Longrightarrow> (xs @ ys) ! i = xs ! i"
  by (simp add: nth_append)

lemma map_nth_upt_drop:
  "n \<le> m \<Longrightarrow> drop n (map f [0..<m]) = map (\<lambda>i. f (n + i)) [0..<m - n]"
  by (rule nth_equalityI) auto

lemma take_map_upt: "n \<le> m \<Longrightarrow> take n (map f [0..<m]) = map f [0..<n]"
  by (rule nth_equalityI) auto

lemma map_upt_append:
  "map f [0..<m] @ map (\<lambda>i. f (m + i)) [0..<n] = map f [0..<m + n]"
  by (rule nth_equalityI) (auto simp: nth_append)

section \<open>Words as naturals\<close>

lemma unat_round_down:
  fixes w :: "'a::len word"
  shows "unat (push_bit k (drop_bit k w)) = unat w div 2 ^ k * 2 ^ k"
proof -
  have le: "unat w div 2 ^ k * 2 ^ k < 2 ^ LENGTH('a)"
    by (rule le_less_trans[OF div_times_less_eq_dividend]) simp
  have "take_bit LENGTH('a) (unat w) = unat w" by (simp add: take_bit_nat_eq_self)
  then have "unat (push_bit k (drop_bit k w)) = take_bit LENGTH('a) (push_bit k (drop_bit k (unat w)))"
    by (simp add: unsigned_push_bit_eq unsigned_drop_bit_eq take_bit_drop_bit)
  then show ?thesis using le by (simp add: push_bit_eq_mult drop_bit_eq_div take_bit_nat_eq_self)
qed

lemma unat_ucast_small:
  fixes w :: "'a::len word"
  assumes "unat w < 2 ^ LENGTH('b)"
  shows "unat (ucast w :: 'b::len word) = unat w"
  using assms by (simp add: unsigned_ucast_eq take_bit_nat_eq_self)

lemma unat_pow2: "k < LENGTH('a) \<Longrightarrow> unat ((2 :: 'a::len word) ^ k) = 2 ^ k"
  using unat_of_nat[of "2 ^ k", where 'a = 'a] by simp

lemma div_round_up:
  fixes m p :: nat
  assumes "0 < p"
  shows "(m + p - 1) div p = (if m mod p = 0 then m div p else Suc (m div p))"
proof -
  have m: "m = p * (m div p) + m mod p" and r: "m mod p < p" using assms by simp_all
  have "(m + p - 1) div p = q"
    if "p * q \<le> m + p - 1" "m + p - 1 < p * q + p" for q
    using that by (intro div_nat_eqI) simp_all
  note eq = this
  show ?thesis
  proof (cases "m mod p = 0")
    case True
    have "(m + p - 1) div p = m div p" by (rule eq) (use m r True assms in linarith)+
    then show ?thesis using True by simp
  next
    case False
    have "(m + p - 1) div p = Suc (m div p)"
      by (rule eq; subst mult_Suc_right) (use m r False assms in linarith)+
    then show ?thesis using False by simp
  qed
qed

lemma unat_of_nat_small: "k < 2 ^ LENGTH('a) \<Longrightarrow> unat (of_nat k :: 'a::len word) = k"
  by (simp add: unat_of_nat)

lemma sint_of_nat_small: "k < 2 ^ (LENGTH('a) - 1) \<Longrightarrow> sint (of_nat k :: 'a::len word) = int k"
proof -
  assume "k < 2 ^ (LENGTH('a) - 1)"
  then have "int k < 2 ^ (LENGTH('a) - 1)" by (metis of_nat_less_iff of_nat_numeral of_nat_power)
  moreover have "- (2 ^ (LENGTH('a) - 1)) \<le> int k" by (rule order_trans[of _ 0]) simp_all
  ultimately show ?thesis
    using signed_take_bit_int_eq_self[of "LENGTH('a) - 1" "int k"] by (simp add: signed_of_nat)
qed

lemma unat_drop: "unat (drop_bit n w) = unat w div 2 ^ n" for w :: "'a::len word"
  unfolding unat_drop_bit_eq by (simp add: drop_bit_eq_div)

lemma unat_and_mask: "unat (and w (mask k)) = unat w mod 2 ^ k" for w :: "'a::len word"
  unfolding take_bit_eq_mask[symmetric] unsigned_take_bit_eq by (simp add: take_bit_eq_mod)

text \<open>The carry of an addition shows in its wrapped sum.\<close>

lemma div_carry:
  fixes m k M :: nat
  assumes "0 < M"
  shows "(m + k) div M = m div M + k div M + (if (m + k) mod M < k mod M then 1 else 0)"
proof -
  have r: "m mod M < M" "k mod M < M" using assms by simp_all
  have s: "(m + k) div M = m div M + k div M + (m mod M + k mod M) div M" by (rule div_add1_eq)
  have e: "(m + k) mod M = (m mod M + k mod M) mod M" by (simp only: mod_add_eq)
  show ?thesis
  proof (cases "m mod M + k mod M < M")
    case True
    then show ?thesis using s e by simp
  next
    case False
    have x: "m mod M + k mod M < M + M" using r by linarith
    then have "(m mod M + k mod M) div M = 1" using False by (intro div_nat_eqI) simp_all
    moreover have "(m mod M + k mod M) mod M = m mod M + k mod M - M"
      using le_mod_geq[of M "m mod M + k mod M"] mod_less[of "m mod M + k mod M - M" M] x False by linarith
    moreover have "m mod M + k mod M - M < k mod M" using r False by linarith
    ultimately show ?thesis using s e by simp
  qed
qed

end
