(* ===== verification/Ringbuffer.thy ===== *)
theory Ringbuffer
  imports Prelude
begin

text \<open>
  \<open>src/src/common/packet_buffer.hh\<close>: the receive buffer of every TCP session,
  \<open>linear_ringbuffer_<int64_t>\<close>. Its pages are mapped twice in a row, so the bytes
  between the read head and the write head are always contiguous in the address space.

  The record holds the fields of the class; \<open>rb_buffer\<close> is the content of the physical
  pages, one byte per cell, and an address is an offset from \<open>buffer_\<close>. Offsets below
  twice the capacity are mapped, offset \<open>a\<close> to the cell \<open>a mod capacity\<close>;
  any other access is \<open>Undef\<close>. The asserts are active in the build (no \<open>NDEBUG\<close>),
  so a failed one is \<open>Abort\<close>. Sizes are \<open>size_t\<close>; \<open>size_\<close> is \<open>int64_t\<close>.
\<close>

unbundle bit_operations_syntax

record ringbuffer =
  rb_buffer :: "byte list"
  rb_capacity :: nat
  rb_head :: nat
  rb_tail :: nat
  rb_size :: int

section \<open>Operations\<close>

definition rb_delayed_init :: ringbuffer where
  "rb_delayed_init = \<lparr>rb_buffer = [], rb_capacity = 0, rb_head = 0, rb_tail = 0, rb_size = 0\<rparr>"

definition rb_commit :: "nat \<Rightarrow> ringbuffer \<Rightarrow> ringbuffer res" where
  "rb_commit n rb =
     (if \<not> n \<le> szt (int (rb_capacity rb) - rb_size rb) then Inl Abort
      else if rb_capacity rb = 0 then Inl Undef
      else Inr (rb\<lparr>rb_tail := szt (int (rb_tail rb + n)) mod rb_capacity rb,
                  rb_size := i64 (rb_size rb + int n)\<rparr>))"

definition rb_consume :: "nat \<Rightarrow> ringbuffer \<Rightarrow> ringbuffer res" where
  "rb_consume n rb =
     (if \<not> n \<le> szt (rb_size rb) then Inl Abort
      else if rb_capacity rb = 0 then Inl Undef
      else Inr (rb\<lparr>rb_head := szt (int (rb_head rb + n)) mod rb_capacity rb,
                  rb_size := i64 (rb_size rb - int n)\<rparr>))"

definition rb_clear :: "ringbuffer \<Rightarrow> ringbuffer" where
  "rb_clear rb = rb\<lparr>rb_size := 0, rb_head := 0, rb_tail := 0\<rparr>"

definition rb_len :: "ringbuffer \<Rightarrow> nat" where
  "rb_len rb = szt (rb_size rb)"

definition rb_empty :: "ringbuffer \<Rightarrow> bool" where
  "rb_empty rb \<longleftrightarrow> rb_size rb = 0"

definition rb_cap :: "ringbuffer \<Rightarrow> nat" where
  "rb_cap rb = rb_capacity rb"

definition rb_free_size :: "ringbuffer \<Rightarrow> nat" where
  "rb_free_size rb = szt (int (rb_capacity rb) - rb_size rb)"

definition rb_cbegin :: "ringbuffer \<Rightarrow> nat" where
  "rb_cbegin rb = rb_head rb"

definition rb_begin :: "ringbuffer \<Rightarrow> nat" where
  "rb_begin rb = rb_cbegin rb"

definition rb_read_head :: "ringbuffer \<Rightarrow> nat" where
  "rb_read_head rb = rb_head rb"

definition rb_cend :: "ringbuffer \<Rightarrow> nat" where
  "rb_cend rb = (if rb_head rb < rb_tail rb then rb_tail rb else rb_tail rb + rb_capacity rb)"

definition rb_end :: "ringbuffer \<Rightarrow> nat" where
  "rb_end rb = rb_cend rb"

definition rb_write_head :: "ringbuffer \<Rightarrow> nat" where
  "rb_write_head rb = rb_tail rb"

text \<open>The move constructor and the move assignment leave the moved-from buffer in the
  delayed-init state; both are built from \<open>swap\<close>.\<close>

definition rb_swap :: "ringbuffer \<times> ringbuffer \<Rightarrow> ringbuffer \<times> ringbuffer" where
  "rb_swap p = (snd p, fst p)"

definition rb_move_construct :: "ringbuffer \<Rightarrow> ringbuffer \<Rightarrow> ringbuffer \<times> ringbuffer" where
  \<comment> \<open>the new object (whose fields start out as \<open>this\<close>) and the moved-from one\<close>
  "rb_move_construct this other =
     (let tmp = rb_delayed_init;
          (tmp, other) = rb_swap (tmp, other);
          (this, tmp) = rb_swap (this, tmp)
      in (this, other))"

definition rb_move_assign :: "ringbuffer \<Rightarrow> ringbuffer \<Rightarrow> ringbuffer \<times> ringbuffer \<times> ringbuffer" where
  \<comment> \<open>the assigned object, the moved-from one and the temporary, which is destroyed\<close>
  "rb_move_assign this other =
     (let tmp = rb_delayed_init;
          (tmp, other) = rb_swap (tmp, other);
          (this, tmp) = rb_swap (this, tmp)
      in (this, other, tmp))"

text \<open>Access through an address of the doubled mapping.\<close>

fun rb_load :: "ringbuffer \<Rightarrow> nat \<Rightarrow> nat \<Rightarrow> byte list res" where
  "rb_load rb a 0 = Inr []"
| "rb_load rb a (Suc n) =
     (if a < 2 * rb_capacity rb
      then rbind (rd (rb_buffer rb) (a mod rb_capacity rb))
             (\<lambda>b. rbind (rb_load rb (Suc a) n) (\<lambda>bs. Inr (b # bs)))
      else Inl Undef)"

fun rb_store :: "ringbuffer \<Rightarrow> nat \<Rightarrow> byte list \<Rightarrow> ringbuffer res" where
  "rb_store rb a [] = Inr rb"
| "rb_store rb a (b # bs) =
     (if a < 2 * rb_capacity rb
      then rbind (wr (rb_buffer rb) (a mod rb_capacity rb) b)
             (\<lambda>m. rb_store (rb\<lparr>rb_buffer := m\<rparr>) (Suc a) bs)
      else Inl Undef)"

definition rb_pop_bytes :: "nat \<Rightarrow> ringbuffer \<Rightarrow> (byte list \<times> ringbuffer) res" where
  "rb_pop_bytes len rb =
     rbind (rb_load rb (rb_read_head rb) len) (\<lambda>out.
     rbind (rb_consume len rb) (\<lambda>rb'. Inr (out, rb')))"

text \<open>Multi-byte integers are copied as they lie in memory; the host is x86-64, so the
  first byte is the least significant one.\<close>

definition u16_of_le :: "byte \<Rightarrow> byte \<Rightarrow> u16" where
  "u16_of_le lo hi = ucast lo OR push_bit 8 (ucast hi)"

definition rb_pop_uint_16 :: "ringbuffer \<Rightarrow> (u16 \<times> ringbuffer) res" where
  "rb_pop_uint_16 rb =
     rbind (rb_pop_bytes 2 rb) (\<lambda>(bs, rb'). Inr (u16_of_le (bs ! 0) (bs ! 1), rb'))"

definition rb_pop_uint_8 :: "ringbuffer \<Rightarrow> (byte \<times> ringbuffer) res" where
  "rb_pop_uint_8 rb = rbind (rb_pop_bytes 1 rb) (\<lambda>(bs, rb'). Inr (bs ! 0, rb'))"

definition rb_pop_string :: "ringbuffer \<Rightarrow> (byte list \<times> ringbuffer) res" where
  \<comment> \<open>\<open>s.resize(l+1); pop_bytes(s.data(), l); s[l] = 0\<close>\<close>
  "rb_pop_string rb =
     rbind (rb_pop_uint_16 rb) (\<lambda>(l, rb1).
     rbind (rb_pop_bytes (unat l) rb1) (\<lambda>(bs, rb2). Inr (bs @ [0], rb2)))"

section \<open>Initialisation\<close>

text \<open>
  \<open>initialize\<close> asks the operating system for the doubled mapping. The results of the
  three calls (\<open>mmap\<close> and the two \<open>mremap\<close>), the page size and the
  \<open>errno\<close> a failing call leaves are arguments. \<open>MAP_FAILED\<close> is the all-ones
  address. The result is the return value, \<open>errno\<close>, the ranges given to
  \<open>munmap\<close>, and the buffer.
\<close>

definition map_failed :: u64 where
  "map_failed = - 1"

definition EINVAL :: int where
  "EINVAL = 22"

definition EAGAIN :: int where
  "EAGAIN = 11"

definition rb_round_bytes :: "u32 \<Rightarrow> u64 \<Rightarrow> u32" where
  \<comment> \<open>\<open>int bytes = minsize & ~(PAGE_SIZE-1); if (minsize % PAGE_SIZE) bytes += PAGE_SIZE;\<close>\<close>
  "rb_round_bytes page minsize =
     (let bytes = (ucast (minsize AND ucast (NOT (page - 1))) :: u32)
      in if minsize mod ucast page \<noteq> 0 then bytes + page else bytes)"

record rb_init_result =
  ri_ret :: int
  ri_errno :: int
  ri_unmapped :: "(u64 \<times> u32) list"
  ri_buf :: ringbuffer

definition rb_initialize ::
  "u32 \<Rightarrow> u64 \<Rightarrow> u64 \<Rightarrow> u64 \<Rightarrow> int \<Rightarrow> int \<Rightarrow> u64 \<Rightarrow> ringbuffer \<Rightarrow> rb_init_result" where
  "rb_initialize page m1 m2 m3 err err0 minsize rb =
     (let bytes = rb_round_bytes page minsize;
          errout = (\<lambda>e addr addr2.
            \<lparr>ri_ret = - 1, ri_errno = e,
             ri_unmapped = (if addr \<noteq> 0 then [(addr, bytes)] else []) @
                           (if addr2 \<noteq> 0 then [(addr2, bytes)] else []),
             ri_buf = rb\<rparr>)
      in if minsize = 0 then \<lparr>ri_ret = - 1, ri_errno = EINVAL, ri_unmapped = [], ri_buf = rb\<rparr>
         else if bytes * 2 < bytes
           then \<lparr>ri_ret = - 1, ri_errno = EINVAL, ri_unmapped = [], ri_buf = rb\<rparr>
         else if m1 = map_failed then errout err m1 0
         else if m2 = map_failed then errout err m2 0
         else if m3 = map_failed then errout err m2 m3
         else if m3 \<noteq> m2 + scast bytes then errout EAGAIN m2 m3
         else \<lparr>ri_ret = 0, ri_errno = err0, ri_unmapped = [],
               ri_buf = rb\<lparr>rb_capacity := unat bytes,
                           rb_buffer := 0x79 # replicate (unat bytes - 1) 0\<rparr>\<rparr>)"

section \<open>Invariant and abstraction\<close>

definition rb_inv :: "ringbuffer \<Rightarrow> bool" where
  "rb_inv rb \<longleftrightarrow>
     0 < rb_capacity rb \<and> rb_capacity rb < 2 ^ 31 \<and>
     length (rb_buffer rb) = rb_capacity rb \<and>
     rb_head rb < rb_capacity rb \<and>
     0 \<le> rb_size rb \<and> rb_size rb \<le> int (rb_capacity rb) \<and>
     rb_tail rb = (rb_head rb + nat (rb_size rb)) mod rb_capacity rb"

definition rb_contents :: "ringbuffer \<Rightarrow> byte list" where
  "rb_contents rb =
     map (\<lambda>i. rb_buffer rb ! ((rb_head rb + i) mod rb_capacity rb)) [0..<nat (rb_size rb)]"

lemma rb_contents_length [simp]: "length (rb_contents rb) = nat (rb_size rb)"
  by (simp add: rb_contents_def)

lemma rb_len_contents: "rb_inv rb \<Longrightarrow> rb_len rb = length (rb_contents rb)"
  by (simp add: rb_len_def rb_inv_def)

lemma rb_empty_contents: "rb_inv rb \<Longrightarrow> rb_empty rb \<longleftrightarrow> rb_contents rb = []"
  by (auto simp: rb_empty_def rb_inv_def rb_contents_def)

lemma rb_free_size_inv: "rb_inv rb \<Longrightarrow> rb_free_size rb = rb_capacity rb - length (rb_contents rb)"
  by (simp add: rb_free_size_def rb_inv_def nat_diff_distrib)

lemma rb_load_spec:
  assumes "0 < rb_capacity rb" and "length (rb_buffer rb) = rb_capacity rb"
    and "a + n \<le> 2 * rb_capacity rb"
  shows "rb_load rb a n = Inr (map (\<lambda>i. rb_buffer rb ! ((a + i) mod rb_capacity rb)) [0..<n])"
  using assms(3)
proof (induction n arbitrary: a)
  case (Suc n)
  have "a mod rb_capacity rb < length (rb_buffer rb)" using assms(1,2) by simp
  then show ?case using Suc.prems Suc.IH[of "Suc a"]
    by (simp add: map_upt_Suc del: upt_Suc)
qed simp

lemma rb_load_contents:
  assumes "rb_inv rb" and "n \<le> length (rb_contents rb)"
  shows "rb_load rb (rb_read_head rb) n = Inr (take n (rb_contents rb))"
proof -
  have "rb_head rb + n \<le> 2 * rb_capacity rb"
    using assms by (auto simp: rb_inv_def)
  then show ?thesis
    using assms rb_load_spec[of rb "rb_head rb" n]
    by (simp add: rb_inv_def rb_read_head_def rb_contents_def take_map_upt)
qed

lemma rb_consume_ok:
  assumes "rb_inv rb" and "n \<le> length (rb_contents rb)"
  shows "rb_consume n rb = Inr (rb\<lparr>rb_head := (rb_head rb + n) mod rb_capacity rb,
                                    rb_size := rb_size rb - int n\<rparr>)"
  using assms by (auto simp: rb_consume_def rb_inv_def nat_int_add)

lemma rb_consume_spec:
  assumes "rb_inv rb" and "n \<le> length (rb_contents rb)"
  shows "\<exists>rb'. rb_consume n rb = Inr rb' \<and> rb_inv rb' \<and>
               rb_contents rb' = drop n (rb_contents rb) \<and> rb_capacity rb' = rb_capacity rb"
proof -
  let ?rb' = "rb\<lparr>rb_head := (rb_head rb + n) mod rb_capacity rb, rb_size := rb_size rb - int n\<rparr>"
  have n: "n \<le> nat (rb_size rb)" "int n \<le> rb_size rb" using assms by (auto simp: rb_inv_def)
  have "((rb_head rb + n) mod rb_capacity rb + (nat (rb_size rb) - n)) mod rb_capacity rb
        = (rb_head rb + nat (rb_size rb)) mod rb_capacity rb"
    by (subst mod_add_left_eq) (use n(1) in simp)
  then have "rb_inv ?rb'"
    using assms n by (auto simp: rb_inv_def nat_diff_distrib)
  moreover have "rb_contents ?rb' = drop n (rb_contents rb)"
    using assms n
    by (simp add: rb_contents_def map_nth_upt_drop mod_add_left_eq nat_diff_distrib add.assoc)
  ultimately show ?thesis using rb_consume_ok[OF assms] by simp
qed

lemma rb_consume_abort:
  "rb_inv rb \<Longrightarrow> length (rb_contents rb) < n \<Longrightarrow> rb_consume n rb = Inl Abort"
  by (simp add: rb_consume_def rb_inv_def)

text \<open>Writing \<open>bs\<close> at an address changes exactly the cells that address maps to.\<close>

lemma rb_store_spec:
  assumes "0 < rb_capacity rb" and "length (rb_buffer rb) = rb_capacity rb"
    and "a + length bs \<le> 2 * rb_capacity rb" and "length bs \<le> rb_capacity rb"
  shows "\<exists>m. rb_store rb a bs = Inr (rb\<lparr>rb_buffer := m\<rparr>) \<and> length m = rb_capacity rb \<and>
     (\<forall>i < length bs. m ! ((a + i) mod rb_capacity rb) = bs ! i) \<and>
     (\<forall>j < rb_capacity rb. (\<forall>i < length bs. j \<noteq> (a + i) mod rb_capacity rb) \<longrightarrow>
        m ! j = rb_buffer rb ! j)"
  using assms
proof (induction bs arbitrary: a rb)
  case Nil
  then show ?case by (intro exI[of _ "rb_buffer rb"]) simp
next
  case (Cons b bs)
  let ?c = "rb_capacity rb"
  let ?rb1 = "rb\<lparr>rb_buffer := (rb_buffer rb)[a mod ?c := b]\<rparr>"
  have a: "a mod ?c < length (rb_buffer rb)" using Cons.prems by simp
  obtain m where m: "rb_store ?rb1 (Suc a) bs = Inr (?rb1\<lparr>rb_buffer := m\<rparr>)" "length m = ?c"
      "\<And>i. i < length bs \<Longrightarrow> m ! ((Suc a + i) mod ?c) = bs ! i"
      "\<And>j. j < ?c \<Longrightarrow> (\<forall>i < length bs. j \<noteq> (Suc a + i) mod ?c) \<Longrightarrow>
         m ! j = (rb_buffer rb)[a mod ?c := b] ! j"
    using Cons.IH[of ?rb1 "Suc a"] Cons.prems by auto
  have fresh: "a mod ?c \<noteq> (Suc a + i) mod ?c" if "i < length bs" for i
  proof
    assume "a mod ?c = (Suc a + i) mod ?c"
    then have "(a + 0) mod ?c = (a + Suc i) mod ?c" by simp
    then have "0 = Suc i" using mod_add_inj[of 0 ?c "Suc i" a] that Cons.prems by simp
    then show False by simp
  qed
  have hit: "m ! ((a + i) mod ?c) = (b # bs) ! i" if "i < length (b # bs)" for i
    using that m(3)[of "i - 1"] m(4)[of "a mod ?c"] fresh a Cons.prems by (cases i) auto
  have miss: "m ! j = rb_buffer rb ! j"
    if "j < ?c" "\<forall>i < length (b # bs). j \<noteq> (a + i) mod ?c" for j
  proof -
    have "\<forall>i < length bs. j \<noteq> (Suc a + i) mod ?c"
      using that(2) by (metis Suc_less_eq add_Suc_shift length_Cons)
    moreover have "j \<noteq> a mod ?c" using that(2) by (metis add.right_neutral length_greater_0_conv list.discI)
    ultimately show ?thesis using m(4)[OF that(1)] by simp
  qed
  show ?case using m(1,2) hit miss a Cons.prems by (intro exI[of _ m]) auto
qed

lemma rb_commit_ok:
  assumes "rb_inv rb" and "n \<le> rb_free_size rb"
  shows "rb_commit n rb = Inr (rb\<lparr>rb_tail := (rb_tail rb + n) mod rb_capacity rb,
                                   rb_size := rb_size rb + int n\<rparr>)"
proof -
  have "n \<le> rb_capacity rb - nat (rb_size rb)" "rb_tail rb < rb_capacity rb"
    using assms by (auto simp: rb_free_size_inv rb_inv_def)
  moreover have "rb_capacity rb < 2 ^ 31" using assms(1) by (simp add: rb_inv_def)
  ultimately have "szt (int (rb_tail rb + n)) = rb_tail rb + n" by simp
  moreover have "i64 (rb_size rb + int n) = rb_size rb + int n"
    using assms by (intro i64_small) (auto simp: rb_inv_def rb_free_size_inv)
  ultimately show ?thesis using assms
    by (simp add: rb_commit_def rb_inv_def rb_free_size_def)
qed

text \<open>The receive path as the buffer is meant to be used: store at the write head, then
  commit.\<close>

definition rb_append :: "byte list \<Rightarrow> ringbuffer \<Rightarrow> ringbuffer res" where
  "rb_append bs rb =
     rbind (rb_store rb (rb_write_head rb) bs) (rb_commit (length bs))"

lemma rb_append_spec:
  assumes "rb_inv rb" and "length bs \<le> rb_free_size rb"
  shows "\<exists>rb'. rb_append bs rb = Inr rb' \<and> rb_inv rb' \<and>
               rb_contents rb' = rb_contents rb @ bs \<and> rb_capacity rb' = rb_capacity rb"
proof -
  let ?c = "rb_capacity rb" and ?h = "rb_head rb" and ?n = "nat (rb_size rb)"
  have n: "length bs \<le> ?c - ?n" "?n \<le> ?c" "rb_tail rb < ?c" "0 < ?c" "rb_tail rb = (?h + ?n) mod ?c"
    using assms by (auto simp: rb_free_size_inv rb_inv_def)
  have pre: "length (rb_buffer rb) = ?c" "rb_tail rb + length bs \<le> 2 * ?c" "length bs \<le> ?c"
    using assms(1) n(1-3) unfolding rb_inv_def by linarith+
  obtain m where m: "rb_store rb (rb_tail rb) bs = Inr (rb\<lparr>rb_buffer := m\<rparr>)" "length m = ?c"
      "\<And>i. i < length bs \<Longrightarrow> m ! ((rb_tail rb + i) mod ?c) = bs ! i"
      "\<And>j. j < ?c \<Longrightarrow> (\<forall>i < length bs. j \<noteq> (rb_tail rb + i) mod ?c) \<Longrightarrow> m ! j = rb_buffer rb ! j"
    using rb_store_spec[OF n(4) pre] by blast
  let ?rb1 = "rb\<lparr>rb_buffer := m\<rparr>"
  let ?rb' = "?rb1\<lparr>rb_tail := (rb_tail rb + length bs) mod ?c, rb_size := rb_size rb + int (length bs)\<rparr>"
  have inv1: "rb_inv ?rb1" and free1: "length bs \<le> rb_free_size ?rb1"
    using assms m(2) by (auto simp: rb_inv_def rb_free_size_def)
  have "rb_append bs rb = Inr ?rb'"
    using m(1) rb_commit_ok[OF inv1 free1] by (simp add: rb_append_def rb_write_head_def)
  moreover have "rb_inv ?rb'"
    using inv1 n by (auto simp: rb_inv_def mod_add_left_eq nat_add_distrib add.assoc)
  moreover have "rb_contents ?rb' = rb_contents rb @ bs"
  proof (rule nth_equalityI)
    show "length (rb_contents ?rb') = length (rb_contents rb @ bs)"
      using assms(1) by (simp add: rb_inv_def nat_add_distrib)
  next
    fix i assume "i < length (rb_contents ?rb')"
    then have i: "i < ?n + length bs" using assms(1) by (simp add: rb_inv_def nat_add_distrib)
    have lhs: "rb_contents ?rb' ! i = m ! ((?h + i) mod ?c)"
      using i assms(1) by (simp add: rb_contents_def rb_inv_def nat_add_distrib)
    show "rb_contents ?rb' ! i = (rb_contents rb @ bs) ! i"
    proof (cases "i < ?n")
      case True
      have "(?h + i) mod ?c \<noteq> (rb_tail rb + k) mod ?c" if "k < length bs" for k
      proof -
        have "i < ?c" "?n + k < ?c" using that True n by linarith+
        then show ?thesis
          using mod_add_inj[of i ?c "?n + k" ?h] True n(5) by (auto simp: mod_add_left_eq add.assoc)
      qed
      then have "m ! ((?h + i) mod ?c) = rb_buffer rb ! ((?h + i) mod ?c)"
        using n by (intro m(4)) auto
      then show ?thesis using lhs True by (simp add: nth_append rb_contents_def)
    next
      case False
      then have "(rb_tail rb + (i - ?n)) mod ?c = (?h + i) mod ?c"
        unfolding n(5) by (subst mod_add_left_eq) simp
      then show ?thesis using lhs False i m(3)[of "i - ?n"] by (simp add: nth_append)
    qed
  qed
  ultimately show ?thesis by simp
qed

section \<open>The buffer as a first-in first-out byte queue\<close>

text \<open>
  What a reader of the buffer relies on: the bytes form a queue, taking from its front
  returns the oldest bytes and fails cleanly when there are not enough, and appending puts
  bytes at its end as long as they fit.
\<close>

locale byte_fifo =
  fixes inv :: "'q \<Rightarrow> bool"
    and contents :: "'q \<Rightarrow> byte list"
    and room :: "'q \<Rightarrow> nat"
    and append :: "byte list \<Rightarrow> 'q \<Rightarrow> 'q res"
    and pop :: "nat \<Rightarrow> 'q \<Rightarrow> (byte list \<times> 'q) res"
  assumes append_ok: "inv q \<Longrightarrow> length bs \<le> room q \<Longrightarrow>
      \<exists>q'. append bs q = Inr q' \<and> inv q' \<and> contents q' = contents q @ bs \<and>
           room q' = room q - length bs"
    and pop_ok: "inv q \<Longrightarrow> n \<le> length (contents q) \<Longrightarrow>
      \<exists>q'. pop n q = Inr (take n (contents q), q') \<and> inv q' \<and>
           contents q' = drop n (contents q) \<and> room q' = room q + n"
begin

lemma pop_front:
  assumes "inv q" and "contents q = xs @ ys"
  shows "\<exists>q'. pop (length xs) q = Inr (xs, q') \<and> inv q' \<and> contents q' = ys"
  using pop_ok[OF assms(1), of "length xs"] assms(2) by auto

lemma append_then_pop:
  assumes "inv q" and "contents q = []" and "length bs \<le> room q"
  shows "\<exists>q' q''. append bs q = Inr q' \<and> pop (length bs) q' = Inr (bs, q'') \<and>
                  inv q'' \<and> contents q'' = [] \<and> room q'' = room q"
proof -
  obtain q' where q': "append bs q = Inr q'" "inv q'" "contents q' = bs" "room q' = room q - length bs"
    using append_ok[OF assms(1,3)] assms(2) by auto
  then show ?thesis using pop_ok[OF q'(2), of "length bs"] assms(3) by auto
qed

lemma append_append:
  assumes "inv q" and "length as + length bs \<le> room q"
  shows "\<exists>q' q''. append as q = Inr q' \<and> append bs q' = Inr q'' \<and> inv q'' \<and>
                  contents q'' = contents q @ as @ bs"
proof -
  obtain q' where q': "append as q = Inr q'" "inv q'" "contents q' = contents q @ as"
      "room q' = room q - length as"
    using append_ok[OF assms(1), of as] assms(2) by auto
  moreover have "length bs \<le> room q'" using q'(4) assms(2) by simp
  ultimately show ?thesis using append_ok[of q' bs] by auto
qed

end

lemma rb_pop_bytes_spec:
  assumes "rb_inv rb" and "n \<le> length (rb_contents rb)"
  shows "\<exists>rb'. rb_pop_bytes n rb = Inr (take n (rb_contents rb), rb') \<and> rb_inv rb' \<and>
               rb_contents rb' = drop n (rb_contents rb) \<and> rb_capacity rb' = rb_capacity rb"
  using rb_load_contents[OF assms] rb_consume_spec[OF assms] by (auto simp: rb_pop_bytes_def)

lemma rb_free_contents:
  "rb_inv rb \<Longrightarrow> length (rb_contents rb) \<le> rb_capacity rb"
  by (auto simp: rb_inv_def)

interpretation rbq: byte_fifo rb_inv rb_contents rb_free_size rb_append rb_pop_bytes
proof
  fix q :: ringbuffer and bs :: "byte list"
  assume "rb_inv q" and "length bs \<le> rb_free_size q"
  then show "\<exists>q'. rb_append bs q = Inr q' \<and> rb_inv q' \<and> rb_contents q' = rb_contents q @ bs \<and>
      rb_free_size q' = rb_free_size q - length bs"
    using rb_append_spec[of q bs] by (metis diff_diff_left length_append rb_free_size_inv)
next
  fix q :: ringbuffer and n :: nat
  assume q: "rb_inv q" and n: "n \<le> length (rb_contents q)"
  obtain q' where "rb_pop_bytes n q = Inr (take n (rb_contents q), q')" "rb_inv q'"
      "rb_contents q' = drop n (rb_contents q)" "rb_capacity q' = rb_capacity q"
    using rb_pop_bytes_spec[OF q n] by blast
  moreover from this have "rb_free_size q' = rb_free_size q + n"
    using q n rb_free_contents[OF q] by (simp add: rb_free_size_inv)
  ultimately show "\<exists>q'. rb_pop_bytes n q = Inr (take n (rb_contents q), q') \<and> rb_inv q' \<and>
      rb_contents q' = drop n (rb_contents q) \<and> rb_free_size q' = rb_free_size q + n"
    by blast
qed

section \<open>Typed reads\<close>

text \<open>A read past the data: the copy runs first, then the assert of \<open>consume\<close> fails.\<close>

lemma rb_pop_bytes_short:
  assumes "rb_inv rb" and "length (rb_contents rb) < n" and "rb_head rb + n \<le> 2 * rb_capacity rb"
  shows "rb_pop_bytes n rb = Inl Abort"
  using assms rb_load_spec[of rb "rb_head rb" n] rb_consume_abort[OF assms(1,2)]
  by (simp add: rb_pop_bytes_def rb_inv_def rb_read_head_def)

lemma rb_pop_uint_8_front:
  assumes "rb_inv rb" and "rb_contents rb = b # bs"
  shows "\<exists>rb'. rb_pop_uint_8 rb = Inr (b, rb') \<and> rb_inv rb' \<and> rb_contents rb' = bs"
  using rbq.pop_front[OF assms(1), of "[b]" bs] assms(2) by (auto simp: rb_pop_uint_8_def)

lemma rb_pop_uint_16_front:
  assumes "rb_inv rb" and "rb_contents rb = lo # hi # bs"
  shows "\<exists>rb'. rb_pop_uint_16 rb = Inr (u16_of_le lo hi, rb') \<and> rb_inv rb' \<and> rb_contents rb' = bs"
  using rbq.pop_front[OF assms(1), of "[lo, hi]" bs] assms(2)
  by (auto simp: rb_pop_uint_16_def numeral_2_eq_2)

lemma rb_pop_string_front:
  assumes "rb_inv rb" and "rb_contents rb = lo # hi # s @ bs" and "length s = unat (u16_of_le lo hi)"
  shows "\<exists>rb'. rb_pop_string rb = Inr (s @ [0], rb') \<and> rb_inv rb' \<and> rb_contents rb' = bs"
proof -
  obtain rb1 where rb1: "rb_pop_uint_16 rb = Inr (u16_of_le lo hi, rb1)" "rb_inv rb1"
      "rb_contents rb1 = s @ bs"
    using rb_pop_uint_16_front[OF assms(1,2)] by blast
  then show ?thesis
    using rbq.pop_front[OF rb1(2,3)] assms(3) by (auto simp: rb_pop_string_def)
qed

section \<open>Rounding to whole pages\<close>

lemma mask_ucast_word:
  fixes minsize :: u64
  shows "(ucast (minsize AND ucast (NOT (mask k :: u32))) :: u32) = push_bit k (drop_bit k (ucast minsize))"
  by (rule bit_word_eqI) (auto simp: bit_simps)

lemma rb_round_bytes_unat:
  fixes minsize :: u64
  assumes "k < 31" and "unat minsize \<le> 2 ^ 31 - 2 ^ k"
  shows "unat (rb_round_bytes (2 ^ k) minsize) = (unat minsize + 2 ^ k - 1) div 2 ^ k * 2 ^ k"
proof -
  let ?m = "unat minsize" and ?p = "(2::nat) ^ k"
  let ?b = "ucast (minsize AND ucast (NOT ((2 ^ k :: u32) - 1))) :: u32"
  have p: "0 < ?p" "?p \<le> 2 ^ 31" using assms(1) power_increasing[of k 31 "2::nat"] by auto
  have "unat (ucast minsize :: u32) = ?m" using assms(2) p by (intro unat_ucast_small) simp
  then have b: "unat ?b = ?m div ?p * ?p"
    by (simp add: mask_ucast_word unat_round_down flip: mask_eq_exp_minus_1)
  have up: "unat (ucast (2 ^ k :: u32) :: u64) = ?p"
    using assms(1) p unat_pow2[of k, where 'a = 32] unat_ucast_small[of "2 ^ k :: u32", where 'b = 64]
    by simp
  have z: "minsize mod ucast (2 ^ k :: u32) = 0 \<longleftrightarrow> ?m mod ?p = 0"
    using unat_mod[of minsize "ucast (2 ^ k :: u32)"] up by (simp add: word_unat_eq_iff)
  show ?thesis
  proof (cases "?m mod ?p = 0")
    case True
    then show ?thesis using b z div_round_up[OF p(1), of ?m] by (simp add: rb_round_bytes_def Let_def)
  next
    case False
    have lt: "?m div ?p * ?p + ?p < 2 ^ 32"
    proof -
      have "?m + ?p \<le> 2 ^ 31" using assms(2) p(2) by (simp only: le_diff_conv2)
      moreover have "?m div ?p * ?p \<le> ?m" by (rule div_times_less_eq_dividend)
      moreover have "(2::nat) ^ 31 < 2 ^ 32" by simp
      ultimately show ?thesis by linarith
    qed
    have "unat (?b + 2 ^ k) = ?m div ?p * ?p + ?p"
      using lt b assms(1) by (simp add: unat_word_ariths(1) unat_pow2)
    then show ?thesis using False z div_round_up[OF p(1), of ?m] by (simp add: rb_round_bytes_def Let_def)
  qed
qed

section \<open>Properties\<close>

lemma rb_initial_inv:
  assumes "0 < bytes" and "bytes < 2 ^ 31"
  shows "rb_inv (rb_delayed_init\<lparr>rb_capacity := bytes, rb_buffer := 0x79 # replicate (bytes - 1) 0\<rparr>)"
  using assms by (auto simp: rb_inv_def rb_delayed_init_def)

lemma rb_pop_bytes_inv_abort:
  assumes "rb_inv rb" and "length (rb_contents rb) < n" and "n \<le> rb_capacity rb"
  shows "rb_pop_bytes n rb = Inl Abort"
  using assms by (intro rb_pop_bytes_short) (auto simp: rb_inv_def)

lemma rb_round_bytes_no_wrap:
  fixes b :: u32
  assumes "unat b < 2 ^ 31"
  shows "\<not> b * 2 < b"
  using assms by (simp add: word_less_nat_alt unat_word_ariths)

text \<open>
  Property C1. The receive buffer is a first-in first-out byte queue: in every state that
  satisfies its invariant, storing bytes at the write head and committing them succeeds
  when they fit, keeps the invariant and puts exactly these bytes behind the ones already
  held, whatever the positions of head and tail on the ring.
\<close>

theorem ringbuffer_append_fifo:
  assumes "rb_inv rb" and "length bs \<le> rb_free_size rb"
  shows "\<exists>rb'. rbind (rb_store rb (rb_write_head rb) bs) (rb_commit (length bs)) = Inr rb' \<and>
               rb_inv rb' \<and> rb_contents rb' = rb_contents rb @ bs \<and>
               rb_free_size rb' = rb_free_size rb - length bs"
  using rbq.append_ok[OF assms] by (simp add: rb_append_def)

definition rb_example :: ringbuffer where
  "rb_example = \<lparr>rb_buffer = [10, 11, 12, 13], rb_capacity = 4, rb_head = 3, rb_tail = 1, rb_size = 2\<rparr>"

lemma rb_example_facts:
  "rb_inv rb_example" "rb_free_size rb_example = 2" "rb_contents rb_example = [13, 10]"
  by (simp_all add: rb_inv_def rb_example_def rb_free_size_def rb_contents_def upt_rec)

theorem ringbuffer_append_fifo_witness:
  "\<exists>rb'. rbind (rb_store rb_example (rb_write_head rb_example) [1, 2]) (rb_commit (length [1, 2 :: byte])) = Inr rb' \<and>
         rb_inv rb' \<and> rb_contents rb' = [13, 10, 1, 2] \<and> rb_free_size rb' = 0"
  using ringbuffer_append_fifo[of rb_example "[1, 2]"] rb_example_facts by simp



text \<open>
  \<open>pop_string\<close> on a buffer that starts with a two-byte length (least
  significant byte first) and that many bytes returns these bytes with a terminating NUL
  appended, so one more than the length says, and leaves the buffer at the byte behind
  them.
\<close>

theorem ringbuffer_pop_string:
  assumes "rb_inv rb" and "rb_contents rb = lo # hi # s @ rest"
    and "length s = unat (u16_of_le lo hi)"
  shows "\<exists>rb'. rb_pop_string rb = Inr (s @ [0], rb') \<and> rb_inv rb' \<and> rb_contents rb' = rest"
  by (rule rb_pop_string_front[OF assms])

theorem ringbuffer_pop_string_witness:
  "\<exists>rb'. rb_pop_string \<lparr>rb_buffer = [65, 7, 1, 0], rb_capacity = 4, rb_head = 2, rb_tail = 2, rb_size = 4\<rparr>
           = Inr ([65, 0], rb') \<and> rb_inv rb' \<and> rb_contents rb' = [7]"
  using ringbuffer_pop_string[of "\<lparr>rb_buffer = [65, 7, 1, 0], rb_capacity = 4, rb_head = 2,
      rb_tail = 2, rb_size = 4\<rparr>" 1 0 "[65]" "[7]"]
  by (simp add: rb_inv_def rb_contents_def u16_of_le_def upt_rec)

text \<open>
  \<open>initialize\<close>: for a page size \<open>2 ^ k\<close> and a requested size that
  stays below \<open>2 ^ 31\<close> when rounded, and with an operating system that grants the
  doubled mapping, the constructor's call succeeds, the capacity is the request rounded up
  to whole pages, and the buffer satisfies its invariant and is empty.
\<close>

theorem ringbuffer_initialize:
  assumes "k < 31" and "0 < unat minsize" and "unat minsize + 2 ^ k < 2 ^ 31"
    and "m1 \<noteq> map_failed" and "m2 \<noteq> map_failed" and "m3 \<noteq> map_failed"
    and "m3 = m2 + scast (rb_round_bytes (2 ^ k) minsize)"
    and "r = rb_initialize (2 ^ k) m1 m2 m3 err err0 minsize rb_delayed_init"
  shows "ri_ret r = 0 \<and> ri_unmapped r = [] \<and>
         rb_capacity (ri_buf r) = (unat minsize + 2 ^ k - 1) div 2 ^ k * 2 ^ k \<and>
         rb_inv (ri_buf r) \<and> rb_contents (ri_buf r) = []"
proof -
  let ?b = "rb_round_bytes (2 ^ k) minsize"
  have b: "unat ?b = (unat minsize + 2 ^ k - 1) div 2 ^ k * 2 ^ k"
    using assms(1,3) by (intro rb_round_bytes_unat) simp_all
  have "(unat minsize + 2 ^ k - 1) div 2 ^ k * 2 ^ k \<le> unat minsize + 2 ^ k - 1"
    by (rule div_times_less_eq_dividend)
  then have lt: "unat ?b < 2 ^ 31" using b assms(3) by linarith
  have pos: "0 < unat ?b"
    using b assms(2) div_round_up[of "2 ^ k" "unat minsize"]
    by (auto split: if_splits simp: dvd_imp_le)
  have nz: "minsize \<noteq> 0" using assms(2) by auto
  have r: "ri_ret r = 0" "ri_unmapped r = []"
      "ri_buf r = rb_delayed_init\<lparr>rb_capacity := unat ?b, rb_buffer := 0x79 # replicate (unat ?b - 1) 0\<rparr>"
    using rb_round_bytes_no_wrap[OF lt] nz assms by (simp_all add: rb_initialize_def Let_def)
  show ?thesis
    using r rb_initial_inv[OF pos lt] b by (simp add: rb_contents_def rb_delayed_init_def)
qed

theorem ringbuffer_initialize_witness:
  "let r = rb_initialize (2 ^ 12) 4096 4096 (4096 + scast (rb_round_bytes (2 ^ 12) 5000)) 0 0 5000 rb_delayed_init
   in ri_ret r = 0 \<and> rb_capacity (ri_buf r) = 8192 \<and> rb_inv (ri_buf r)"
  using ringbuffer_initialize[of 12 5000 4096 4096 "4096 + scast (rb_round_bytes (2 ^ 12) 5000)"
      "rb_initialize (2 ^ 12) 4096 4096 (4096 + scast (rb_round_bytes (2 ^ 12) 5000)) 0 0 5000 rb_delayed_init" 0 0]
  by (simp add: map_failed_def rb_round_bytes_def Let_def)

end
