(* ===== verification/Mqtt_Packet.thy ===== *)
theory Mqtt_Packet
  imports Ringbuffer
begin

text \<open>
  \<open>src/app/mqtt/mqtt_packet.hh\<close>: the control packet types of the MQTT server, read from
  the receive buffer and written to byte arrays. Each struct is a record, each
  \<open>from_buf\<close> a state-passing function on the record and the buffer. A
  \<open>std::string\<close> is its byte list, a pointer to a heap array an optional byte list
  (\<open>None\<close> for the null pointer). Values of type \<open>u_int8_t\<close> are \<open>8 word\<close>,
  kept at their width.
\<close>

unbundle bit_operations_syntax

section \<open>Command types, quality of service and connect flags\<close>

datatype mqtt_command_type =
    reserved | connect | connack | publish | puback | pubrec | pubrel | pubcomp
  | subscribe | suback | unsubscribe | unsuback | pingreq | pingresp | disconnect | auth

fun command_code :: "mqtt_command_type \<Rightarrow> byte" where
  "command_code reserved = 0b00000000"
| "command_code connect = 0b00010000"
| "command_code connack = 0b00100000"
| "command_code publish = 0b00110000"
| "command_code puback = 0b01000000"
| "command_code pubrec = 0b01010000"
| "command_code pubrel = 0b01100000"
| "command_code pubcomp = 0b01110000"
| "command_code subscribe = 0b10000000"
| "command_code suback = 0b10010000"
| "command_code unsubscribe = 0b10100000"
| "command_code unsuback = 0b10110000"
| "command_code pingreq = 0b11000000"
| "command_code pingresp = 0b11010000"
| "command_code disconnect = 0b11100000"
| "command_code auth = 0b11110000"

datatype qos = at_most_once | at_least_once | exactly_once

fun qos_code :: "qos \<Rightarrow> byte" where
  "qos_code at_most_once = 0b00000000"
| "qos_code at_least_once = 0b00000001"
| "qos_code exactly_once = 0b00000010"

definition flag_clean_session :: byte where "flag_clean_session = 0b00000010"
definition flag_will_flag :: byte where "flag_will_flag = 0b00000100"
definition flag_will_retain :: byte where "flag_will_retain = 0b00100000"
definition flag_password :: byte where "flag_password = 0b01000000"
definition flag_user_name :: byte where "flag_user_name = 0b10000000"

definition has_clean_session :: "byte \<Rightarrow> bool" where
  "has_clean_session v \<longleftrightarrow> v AND flag_clean_session \<noteq> 0"

definition has_will_flag :: "byte \<Rightarrow> bool" where
  "has_will_flag v \<longleftrightarrow> v AND flag_will_flag \<noteq> 0"

definition has_will_retain :: "byte \<Rightarrow> bool" where
  "has_will_retain v \<longleftrightarrow> v AND flag_will_retain \<noteq> 0"

definition has_password_flag :: "byte \<Rightarrow> bool" where
  "has_password_flag v \<longleftrightarrow> v AND flag_password \<noteq> 0"

definition has_user_name_flag :: "byte \<Rightarrow> bool" where
  "has_user_name_flag v \<longleftrightarrow> v AND flag_user_name \<noteq> 0"

definition set_will_qos :: "byte \<Rightarrow> qos \<Rightarrow> byte" where
  "set_will_qos v q = v OR push_bit 3 (qos_code q)"

definition will_qos :: "byte \<Rightarrow> byte" where
  "will_qos v = drop_bit 3 (v AND 0b00011000)"

section \<open>Packets the server sends\<close>

record connack_data =
  ca_cmd :: byte
  ca_remaining :: byte
  ca_acknowledge_flags :: byte
  ca_return_code :: byte

definition connack_init :: connack_data where
  "connack_init = \<lparr>ca_cmd = command_code connack, ca_remaining = 0x02,
                   ca_acknowledge_flags = 0, ca_return_code = 0\<rparr>"

definition connack_to_buf :: "connack_data \<Rightarrow> byte list" where
  "connack_to_buf d = [ca_cmd d, ca_remaining d, ca_acknowledge_flags d, ca_return_code d]"

definition connack_len :: nat where "connack_len = 4"

definition connack_make_buf :: "byte \<Rightarrow> byte \<Rightarrow> byte list" where
  "connack_make_buf acknowledge_flags return_code =
     [command_code connack, 0x02, acknowledge_flags, return_code]"

text \<open>\<open>std::memcpy(r+2,&packet_id,2)\<close> on a little-endian host.\<close>

definition le16 :: "u16 \<Rightarrow> byte list" where
  "le16 w = [ucast w, ucast (drop_bit 8 w)]"

definition suback_make_buf :: "u16 \<Rightarrow> byte list" where
  "suback_make_buf packet_id = [command_code suback, 0x02] @ le16 packet_id"

definition suback_len :: nat where "suback_len = 4"

definition unsuback_make_buf :: "u16 \<Rightarrow> byte list" where
  "unsuback_make_buf packet_id = [command_code unsuback, 0x02] @ le16 packet_id"

definition unsuback_len :: nat where "unsuback_len = 4"

definition pong_make_buf :: "byte list" where
  "pong_make_buf = [command_code pingresp, 0]"

definition pong_len :: nat where "pong_len = 2"

section \<open>CONNECT\<close>

record connect_data =
  cn_cmd :: byte
  cn_remaining :: u32
  cn_protocol_name :: "byte list"
  cn_protocol_level :: byte
  cn_connect_flags :: byte
  cn_keep_alive :: u16
  cn_client_id :: "byte list"
  cn_will_topic :: "byte list"
  cn_will_message :: "byte list option"
  cn_username :: "byte list"
  cn_passward :: "byte list option"

definition connect_init :: "byte \<Rightarrow> u32 \<Rightarrow> connect_data" where
  "connect_init cmd remaining =
     \<lparr>cn_cmd = cmd, cn_remaining = remaining, cn_protocol_name = replicate 6 0,
      cn_protocol_level = 0, cn_connect_flags = 0, cn_keep_alive = 0, cn_client_id = [],
      cn_will_topic = [], cn_will_message = None, cn_username = [], cn_passward = None\<rparr>"

definition check_protocol_name :: "connect_data \<Rightarrow> bool" where
  "check_protocol_name d \<longleftrightarrow>
     cn_protocol_name d ! 0 = 0 \<and> cn_protocol_name d ! 1 = 4 \<and>
     cn_protocol_name d ! 2 = 0x4D \<and> cn_protocol_name d ! 3 = 0x51 \<and>
     cn_protocol_name d ! 4 = 0x54 \<and> cn_protocol_name d ! 5 = 0x54"

definition check_clean_session :: "connect_data \<Rightarrow> bool" where
  \<comment> \<open>the mask is the hexadecimal literal \<open>0x0b00000010\<close>\<close>
  "check_clean_session d \<longleftrightarrow> (ucast (cn_protocol_level d) :: u64) AND 0x0b00000010 \<noteq> 0"

definition check_protocol_level :: "connect_data \<Rightarrow> bool" where
  "check_protocol_level d \<longleftrightarrow> cn_protocol_level d AND 0x7f = 4"

definition check_connect_flags :: "connect_data \<Rightarrow> bool" where
  "check_connect_flags d \<longleftrightarrow> cn_connect_flags d AND 0x01 \<noteq> 0x00"

definition connect_read_fixed_head ::
  "connect_data \<Rightarrow> ringbuffer \<Rightarrow> (bool \<times> connect_data \<times> ringbuffer) res" where
  "connect_read_fixed_head d buf =
     rbind (rb_pop_bytes 6 buf) (\<lambda>(name, buf).
     let d = d\<lparr>cn_protocol_name := name\<rparr> in
     if \<not> check_protocol_name d then Inr (False, d, buf) else
     rbind (rb_pop_uint_8 buf) (\<lambda>(level, buf).
     let d = d\<lparr>cn_protocol_level := level\<rparr> in
     if \<not> check_protocol_level d then Inr (False, d, buf) else
     rbind (rb_pop_uint_8 buf) (\<lambda>(flags, buf).
     let d = d\<lparr>cn_connect_flags := flags\<rparr> in
     if \<not> check_connect_flags d then Inr (False, d, buf) else
     rbind (rb_pop_uint_16 buf) (\<lambda>(keep_alive, buf).
     Inr (True, d\<lparr>cn_keep_alive := keep_alive\<rparr>, buf)))))"

text \<open>The length, kept in front as it came, and the bytes: \<open>new u_int8_t[len+2]\<close>.\<close>

definition pop_blob :: "ringbuffer \<Rightarrow> (byte list \<times> ringbuffer) res" where
  "pop_blob buf =
     rbind (rb_pop_uint_16 buf) (\<lambda>(len, buf).
     rbind (rb_pop_bytes (unat len) buf) (\<lambda>(bs, buf). Inr (le16 len @ bs, buf)))"

definition connect_read_will :: "connect_data \<Rightarrow> ringbuffer \<Rightarrow> (connect_data \<times> ringbuffer) res" where
  "connect_read_will d buf =
     (if has_will_flag (cn_connect_flags d)
      then rbind (rb_pop_string buf) (\<lambda>(wt, buf).
           rbind (pop_blob buf) (\<lambda>(wm, buf).
           Inr (d\<lparr>cn_will_topic := wt, cn_will_message := Some wm\<rparr>, buf)))
      else Inr (d, buf))"

definition connect_read_user_name :: "connect_data \<Rightarrow> ringbuffer \<Rightarrow> (connect_data \<times> ringbuffer) res" where
  "connect_read_user_name d buf =
     (if has_user_name_flag (cn_connect_flags d)
      then rbind (rb_pop_string buf) (\<lambda>(un, buf). Inr (d\<lparr>cn_username := un\<rparr>, buf))
      else Inr (d, buf))"

definition connect_read_password :: "connect_data \<Rightarrow> ringbuffer \<Rightarrow> (connect_data \<times> ringbuffer) res" where
  "connect_read_password d buf =
     (if has_password_flag (cn_connect_flags d)
      then rbind (pop_blob buf) (\<lambda>(pw, buf). Inr (d\<lparr>cn_passward := Some pw\<rparr>, buf))
      else Inr (d, buf))"

definition connect_read_payload ::
  "connect_data \<Rightarrow> ringbuffer \<Rightarrow> (bool \<times> connect_data \<times> ringbuffer) res" where
  "connect_read_payload d buf =
     rbind (rb_pop_string buf) (\<lambda>(cid, buf).
     rbind (connect_read_will (d\<lparr>cn_client_id := cid\<rparr>) buf) (\<lambda>(d, buf).
     rbind (connect_read_user_name d buf) (\<lambda>(d, buf).
     rbind (connect_read_password d buf) (\<lambda>(d, buf).
     Inr (True, d, buf)))))"

definition connect_from_buf ::
  "connect_data \<Rightarrow> ringbuffer \<Rightarrow> (bool \<times> connect_data \<times> ringbuffer) res" where
  "connect_from_buf d buf =
     rbind (connect_read_fixed_head d buf) (\<lambda>(ok, d, buf).
     if \<not> ok then Inr (False, d, buf) else connect_read_payload d buf)"

definition mqtt_pkt_connect :: "byte \<Rightarrow> u32 \<Rightarrow> ringbuffer \<Rightarrow> (connect_data \<times> ringbuffer) res" where
  "mqtt_pkt_connect cmd remaining others =
     rbind (connect_from_buf (connect_init cmd remaining) others) (\<lambda>(r, d, buf).
     if r then Inl (Throw ''cant build connect packet'') else Inr (d, buf))"

section \<open>PUBLISH\<close>

record publish_data =
  pb_cmd :: byte
  pb_remaining :: u32
  pb_topic_name :: "byte list"
  pb_packet_id :: u16
  pb_payload :: "byte list option"

definition publish_qos :: "publish_data \<Rightarrow> byte" where
  "publish_qos d = drop_bit 1 (pb_cmd d AND 0b00000110)"

definition publish_dup :: "publish_data \<Rightarrow> byte" where
  "publish_dup d = drop_bit 3 (pb_cmd d AND 0b00001000)"

definition publish_retain :: "publish_data \<Rightarrow> byte" where
  "publish_retain d = pb_cmd d AND 0b00000001"

text \<open>
  \<open>int l = remaining-2-topic_name.size()-2\<close>: the first subtraction is at 32 bits
  unsigned, the others at 64 bits, and the result is converted to \<open>int\<close>. A negative
  \<open>l\<close> makes the array \<open>new\<close> throw.
\<close>

definition publish_payload_len :: "u32 \<Rightarrow> nat \<Rightarrow> 32 word" where
  "publish_payload_len remaining topic_size =
     ucast ((ucast (remaining - 2) :: u64) - of_nat topic_size - 2)"

definition publish_from_buf :: "publish_data \<Rightarrow> ringbuffer \<Rightarrow> (bool \<times> publish_data \<times> ringbuffer) res" where
  "publish_from_buf d buf =
     rbind (rb_pop_string buf) (\<lambda>(topic, buf).
     rbind (rb_pop_uint_16 buf) (\<lambda>(pid, buf).
     let l = sint (publish_payload_len (pb_remaining d) (length topic)) in
     if l < 0 then Inl (Throw ''std::bad_array_new_length'') else
     rbind (rb_pop_bytes (nat l) buf) (\<lambda>(payload, buf).
     Inr (True, d\<lparr>pb_topic_name := topic, pb_packet_id := pid, pb_payload := Some payload\<rparr>, buf))))"

definition mqtt_pkt_publish :: "byte \<Rightarrow> u32 \<Rightarrow> ringbuffer \<Rightarrow> (publish_data \<times> ringbuffer) res" where
  "mqtt_pkt_publish cmd remaining others =
     rbind (publish_from_buf \<lparr>pb_cmd = cmd, pb_remaining = remaining, pb_topic_name = [],
                              pb_packet_id = 0, pb_payload = None\<rparr> others)
       (\<lambda>(_, d, buf). Inr (d, buf))"

section \<open>SUBSCRIBE and UNSUBSCRIBE\<close>

record topic_info =
  ti_topic :: "byte list"
  ti_qos :: byte

record subscribe_data =
  sb_cmd :: byte
  sb_remaining :: u32
  sb_packet_id :: u16
  sb_infos :: "topic_info list"

text \<open>A successful read shortens the buffer, also when its invariant does not hold.\<close>

lemma rb_consume_len:
  assumes "rb_consume n rb = Inr rb'"
  shows "n \<le> rb_len rb \<and> rb_len rb' = rb_len rb - n"
proof -
  let ?s = "rb_size rb"
  have n: "int n \<le> ?s mod 2 ^ 64" and rb': "rb_size rb' = i64 (?s - int n)"
    using assms by (auto simp: rb_consume_def szt_def split: if_splits)
  have "i64 (?s - int n) mod 2 ^ 64 = (?s - int n) mod 2 ^ 64"
    by (simp add: i64_def mod_diff_left_eq)
  also have "\<dots> = (?s mod 2 ^ 64 - int n) mod 2 ^ 64" by (simp add: mod_diff_left_eq)
  also have "\<dots> = ?s mod 2 ^ 64 - int n"
    using n by (intro mod_pos_pos_trivial) (auto intro: le_less_trans[of _ "?s mod 2 ^ 64"])
  finally show ?thesis using n rb' by (simp add: rb_len_def szt_def nat_diff_distrib)
qed

lemma rb_pop_bytes_len:
  "rb_pop_bytes n rb = Inr (bs, rb') \<Longrightarrow> n \<le> rb_len rb \<and> rb_len rb' = rb_len rb - n"
  by (auto simp: rb_pop_bytes_def rbind_eq_Inr_iff dest: rb_consume_len)

lemma rb_pop_uint_16_len:
  "rb_pop_uint_16 rb = Inr (v, rb') \<Longrightarrow> 2 \<le> rb_len rb \<and> rb_len rb' = rb_len rb - 2"
  by (auto simp: rb_pop_uint_16_def rbind_eq_Inr_iff dest: rb_pop_bytes_len)

lemma rb_pop_uint_8_len:
  "rb_pop_uint_8 rb = Inr (v, rb') \<Longrightarrow> 1 \<le> rb_len rb \<and> rb_len rb' = rb_len rb - 1"
  by (auto simp: rb_pop_uint_8_def rbind_eq_Inr_iff dest!: rb_pop_bytes_len)

lemma rb_pop_string_len:
  "rb_pop_string rb = Inr (s, rb') \<Longrightarrow> rb_len rb' < rb_len rb"
  by (auto simp: rb_pop_string_def rbind_eq_Inr_iff dest!: rb_pop_uint_16_len rb_pop_bytes_len)

text \<open>\<open>while (buf->read_head()>(bgn+remaining-2))\<close>: addresses are offsets from the
  start of the mapping, \<open>bgn\<close> the read head after the packet id.\<close>

function topic_infos_loop ::
  "int \<Rightarrow> topic_info list \<Rightarrow> ringbuffer \<Rightarrow> (topic_info list \<times> ringbuffer) res" where
  "topic_infos_loop limit infos buf =
     (if int (rb_read_head buf) > limit
      then rbind (rb_pop_string buf) (\<lambda>(topic, buf1).
           rbind (rb_pop_uint_8 buf1) (\<lambda>(qos, buf2).
           topic_infos_loop limit (infos @ [\<lparr>ti_topic = topic, ti_qos = qos\<rparr>]) buf2))
      else Inr (infos, buf))"
  by pat_completeness auto
termination
  by (relation "measure (\<lambda>(limit, infos, buf). rb_len buf)")
     (auto dest!: rb_pop_string_len rb_pop_uint_8_len)

declare topic_infos_loop.simps [simp del]

definition subscribe_from_buf :: "subscribe_data \<Rightarrow> ringbuffer \<Rightarrow> (bool \<times> subscribe_data \<times> ringbuffer) res" where
  "subscribe_from_buf d buf =
     rbind (rb_pop_uint_16 buf) (\<lambda>(pid, buf).
     let bgn = int (rb_read_head buf) in
     rbind (topic_infos_loop (bgn + int (unat (sb_remaining d)) - 2) (sb_infos d) buf) (\<lambda>(infos, buf).
     Inr (True, d\<lparr>sb_packet_id := pid, sb_infos := infos\<rparr>, buf)))"

definition mqtt_pkt_subscribe :: "byte \<Rightarrow> u32 \<Rightarrow> ringbuffer \<Rightarrow> (subscribe_data \<times> ringbuffer) res" where
  "mqtt_pkt_subscribe cmd remaining others =
     rbind (subscribe_from_buf \<lparr>sb_cmd = cmd, sb_remaining = remaining, sb_packet_id = 0, sb_infos = []\<rparr> others)
       (\<lambda>(_, d, buf). Inr (d, buf))"

definition unsubscribe_from_buf :: "subscribe_data \<Rightarrow> ringbuffer \<Rightarrow> (bool \<times> subscribe_data \<times> ringbuffer) res" where
  "unsubscribe_from_buf d buf =
     rbind (rb_pop_uint_16 buf) (\<lambda>(pid, buf).
     let bgn = int (rb_read_head buf) in
     rbind (topic_infos_loop (bgn + int (unat (sb_remaining d)) - 2) (sb_infos d) buf) (\<lambda>(infos, buf).
     Inr (True, d\<lparr>sb_packet_id := pid, sb_infos := infos\<rparr>, buf)))"

definition mqtt_pkt_unsubscribe :: "byte \<Rightarrow> u32 \<Rightarrow> ringbuffer \<Rightarrow> (subscribe_data \<times> ringbuffer) res" where
  "mqtt_pkt_unsubscribe cmd remaining others =
     rbind (unsubscribe_from_buf \<lparr>sb_cmd = cmd, sb_remaining = remaining, sb_packet_id = 0, sb_infos = []\<rparr> others)
       (\<lambda>(_, d, buf). Inr (d, buf))"

section \<open>Wire formats the readers expect\<close>

text \<open>Strings and blobs on the wire: a two-byte length in host order and the bytes.\<close>

definition wire_string :: "byte list \<Rightarrow> byte list" where
  "wire_string s = le16 (of_nat (length s)) @ s"

definition connect_wire ::
  "byte \<Rightarrow> byte \<Rightarrow> u16 \<Rightarrow> byte list \<Rightarrow> byte list \<Rightarrow> byte list \<Rightarrow> byte list \<Rightarrow> byte list \<Rightarrow> byte list" where
  "connect_wire level flags keep_alive cid wt wm un pw =
     [0, 4, 0x4D, 0x51, 0x54, 0x54, level, flags] @ le16 keep_alive @ wire_string cid @
     (if has_will_flag flags then wire_string wt @ wire_string wm else []) @
     (if has_user_name_flag flags then wire_string un else []) @
     (if has_password_flag flags then wire_string pw else [])"

lemma u16_of_le16 [simp]: "u16_of_le (ucast w) (ucast (drop_bit 8 w)) = w"
  by (rule bit_word_eqI) (auto simp: u16_of_le_def bit_simps)

lemma le16_u16_of_le: "le16 (u16_of_le lo hi) = [lo, hi]"
proof -
  have "(ucast (u16_of_le lo hi) :: byte) = lo"
    by (rule bit_word_eqI) (auto simp: u16_of_le_def bit_simps)
  moreover have "(ucast (drop_bit 8 (u16_of_le lo hi)) :: byte) = hi"
    by (rule bit_word_eqI) (auto simp: u16_of_le_def bit_simps dest: bit_imp_le_length)
  ultimately show ?thesis by (simp add: le16_def)
qed

lemma unat_u16_of_nat: "n < 65536 \<Longrightarrow> unat (of_nat n :: u16) = n"
  by (simp add: unat_of_nat)

lemma pop_uint_16_wire:
  assumes "rb_inv buf" and "rb_contents buf = le16 w @ rest"
  shows "\<exists>buf'. rb_pop_uint_16 buf = Inr (w, buf') \<and> rb_inv buf' \<and> rb_contents buf' = rest"
  using rb_pop_uint_16_front[OF assms(1), of "ucast w" "ucast (drop_bit 8 w)" rest] assms(2)
  by (simp add: le16_def)

lemma pop_string_wire:
  assumes "rb_inv buf" and "rb_contents buf = wire_string s @ rest" and "length s < 65536"
  shows "\<exists>buf'. rb_pop_string buf = Inr (s @ [0], buf') \<and> rb_inv buf' \<and> rb_contents buf' = rest"
  using rb_pop_string_front[OF assms(1), of "ucast (of_nat (length s) :: u16)"
      "ucast (drop_bit 8 (of_nat (length s) :: u16))" s rest] assms(2,3)
  by (simp add: wire_string_def le16_def unat_u16_of_nat)

lemma pop_blob_wire:
  assumes "rb_inv buf" and "rb_contents buf = wire_string s @ rest" and "length s < 65536"
  shows "\<exists>buf'. pop_blob buf = Inr (wire_string s, buf') \<and> rb_inv buf' \<and> rb_contents buf' = rest"
proof -
  obtain b1 where b1: "rb_pop_uint_16 buf = Inr (of_nat (length s), b1)" "rb_inv b1"
      "rb_contents b1 = s @ rest"
    using pop_uint_16_wire[OF assms(1), of "of_nat (length s)" "s @ rest"] assms(2)
    by (auto simp: wire_string_def)
  then show ?thesis
    using rbq.pop_front[OF b1(2,3)] assms(3)
    by (auto simp: pop_blob_def unat_u16_of_nat wire_string_def)
qed

lemma connect_fixed_head_wire:
  assumes "rb_inv buf"
    and "rb_contents buf = [0, 4, 0x4D, 0x51, 0x54, 0x54, level, flags] @ le16 ka @ rest"
    and "level AND 0x7f = 4" and "flags AND 1 \<noteq> 0"
  shows "\<exists>buf'. connect_read_fixed_head d buf =
      Inr (True, d\<lparr>cn_protocol_name := [0, 4, 0x4D, 0x51, 0x54, 0x54], cn_protocol_level := level,
                   cn_connect_flags := flags, cn_keep_alive := ka\<rparr>, buf') \<and>
      rb_inv buf' \<and> rb_contents buf' = rest"
proof -
  obtain b1 where b1: "rb_pop_bytes 6 buf = Inr ([0, 4, 0x4D, 0x51, 0x54, 0x54], b1)" "rb_inv b1"
      "rb_contents b1 = level # flags # le16 ka @ rest"
    using rbq.pop_front[OF assms(1), of "[0, 4, 0x4D, 0x51, 0x54, 0x54]"] assms(2)
    by (auto simp: eval_nat_numeral)
  obtain b2 where b2: "rb_pop_uint_8 b1 = Inr (level, b2)" "rb_inv b2"
      "rb_contents b2 = flags # le16 ka @ rest"
    using rb_pop_uint_8_front[OF b1(2,3)] by auto
  obtain b3 where b3: "rb_pop_uint_8 b2 = Inr (flags, b3)" "rb_inv b3" "rb_contents b3 = le16 ka @ rest"
    using rb_pop_uint_8_front[OF b2(2,3)] by auto
  obtain b4 where "rb_pop_uint_16 b3 = Inr (ka, b4)" "rb_inv b4" "rb_contents b4 = rest"
    using pop_uint_16_wire[OF b3(2,3)] by auto
  then show ?thesis using b1 b2 b3 assms(3,4)
    by (simp add: connect_read_fixed_head_def check_protocol_name_def check_protocol_level_def
        check_connect_flags_def Let_def)
qed

lemma connect_will_wire:
  assumes "rb_inv buf" and "length wt < 65536" "length wm < 65536"
    and "rb_contents buf = (if has_will_flag (cn_connect_flags d) then wire_string wt @ wire_string wm else []) @ rest"
  shows "\<exists>buf'. connect_read_will d buf =
      Inr (if has_will_flag (cn_connect_flags d)
           then d\<lparr>cn_will_topic := wt @ [0], cn_will_message := Some (wire_string wm)\<rparr> else d, buf') \<and>
      rb_inv buf' \<and> rb_contents buf' = rest"
proof (cases "has_will_flag (cn_connect_flags d)")
  case True
  then have "rb_contents buf = wire_string wt @ wire_string wm @ rest" using assms(4) by simp
  then obtain b1 where b1: "rb_pop_string buf = Inr (wt @ [0], b1)" "rb_inv b1"
      "rb_contents b1 = wire_string wm @ rest"
    using pop_string_wire[OF assms(1) _ assms(2)] by blast
  obtain b2 where "pop_blob b1 = Inr (wire_string wm, b2)" "rb_inv b2" "rb_contents b2 = rest"
    using pop_blob_wire[OF b1(2,3) assms(3)] by blast
  then show ?thesis using b1 True by (simp add: connect_read_will_def)
qed (use assms in \<open>simp add: connect_read_will_def\<close>)

lemma connect_user_name_wire:
  assumes "rb_inv buf" and "length un < 65536"
    and "rb_contents buf = (if has_user_name_flag (cn_connect_flags d) then wire_string un else []) @ rest"
  shows "\<exists>buf'. connect_read_user_name d buf =
      Inr (if has_user_name_flag (cn_connect_flags d) then d\<lparr>cn_username := un @ [0]\<rparr> else d, buf') \<and>
      rb_inv buf' \<and> rb_contents buf' = rest"
  using pop_string_wire[OF assms(1) _ assms(2), of rest] assms(1,3)
  by (auto simp: connect_read_user_name_def)

lemma connect_password_wire:
  assumes "rb_inv buf" and "length pw < 65536"
    and "rb_contents buf = (if has_password_flag (cn_connect_flags d) then wire_string pw else []) @ rest"
  shows "\<exists>buf'. connect_read_password d buf =
      Inr (if has_password_flag (cn_connect_flags d) then d\<lparr>cn_passward := Some (wire_string pw)\<rparr> else d, buf') \<and>
      rb_inv buf' \<and> rb_contents buf' = rest"
  using pop_blob_wire[OF assms(1) _ assms(2), of rest] assms(1,3)
  by (auto simp: connect_read_password_def)

text \<open>The payload fields a CONNECT sets, each only when its flag says it is there.\<close>

definition connect_payload_fields ::
  "byte list \<Rightarrow> byte list \<Rightarrow> byte list \<Rightarrow> byte list \<Rightarrow> byte list \<Rightarrow> connect_data \<Rightarrow> connect_data" where
  "connect_payload_fields cid wt wm un pw d =
     (let flags = cn_connect_flags d in
      d\<lparr>cn_client_id := cid @ [0],
        cn_will_topic := (if has_will_flag flags then wt @ [0] else cn_will_topic d),
        cn_will_message := (if has_will_flag flags then Some (wire_string wm) else cn_will_message d),
        cn_username := (if has_user_name_flag flags then un @ [0] else cn_username d),
        cn_passward := (if has_password_flag flags then Some (wire_string pw) else cn_passward d)\<rparr>)"

lemma connect_payload_wire:
  assumes "rb_inv buf"
    and "rb_contents buf = wire_string cid @
       (if has_will_flag (cn_connect_flags d) then wire_string wt @ wire_string wm else []) @
       (if has_user_name_flag (cn_connect_flags d) then wire_string un else []) @
       (if has_password_flag (cn_connect_flags d) then wire_string pw else []) @ rest"
    and len: "length cid < 65536" "length wt < 65536" "length wm < 65536" "length un < 65536" "length pw < 65536"
  shows "\<exists>buf'. connect_read_payload d buf = Inr (True, connect_payload_fields cid wt wm un pw d, buf') \<and>
      rb_inv buf' \<and> rb_contents buf' = rest"
proof -
  let ?d1 = "d\<lparr>cn_client_id := cid @ [0]\<rparr>"
  let ?d2 = "if has_will_flag (cn_connect_flags ?d1)
             then ?d1\<lparr>cn_will_topic := wt @ [0], cn_will_message := Some (wire_string wm)\<rparr> else ?d1"
  let ?d3 = "if has_user_name_flag (cn_connect_flags ?d2) then ?d2\<lparr>cn_username := un @ [0]\<rparr> else ?d2"
  have fl: "cn_connect_flags ?d1 = cn_connect_flags d" "cn_connect_flags ?d2 = cn_connect_flags d"
      "cn_connect_flags ?d3 = cn_connect_flags d" by simp_all
  obtain b1 where b1: "rb_pop_string buf = Inr (cid @ [0], b1)" "rb_inv b1"
      "rb_contents b1 = (if has_will_flag (cn_connect_flags d) then wire_string wt @ wire_string wm else []) @
       (if has_user_name_flag (cn_connect_flags d) then wire_string un else []) @
       (if has_password_flag (cn_connect_flags d) then wire_string pw else []) @ rest"
    using pop_string_wire[OF assms(1,2) len(1)] by blast
  obtain b2 where b2: "connect_read_will ?d1 b1 = Inr (?d2, b2)" "rb_inv b2"
      "rb_contents b2 = (if has_user_name_flag (cn_connect_flags d) then wire_string un else []) @
       (if has_password_flag (cn_connect_flags d) then wire_string pw else []) @ rest"
    using connect_will_wire[OF b1(2) len(2,3), of ?d1] b1(3) fl(1) by metis
  obtain b3 where b3: "connect_read_user_name ?d2 b2 = Inr (?d3, b3)" "rb_inv b3"
      "rb_contents b3 = (if has_password_flag (cn_connect_flags d) then wire_string pw else []) @ rest"
    using connect_user_name_wire[OF b2(2) len(4), of ?d2] b2(3) fl(2) by metis
  obtain b4 where b4: "connect_read_password ?d3 b3 =
        Inr (if has_password_flag (cn_connect_flags ?d3) then ?d3\<lparr>cn_passward := Some (wire_string pw)\<rparr> else ?d3, b4)"
      "rb_inv b4" "rb_contents b4 = rest"
    using connect_password_wire[OF b3(2) len(5), of ?d3] b3(3) fl(3) by metis
  show ?thesis
    using b1(1) b2(1) b3(1) b4 by (simp add: connect_read_payload_def connect_payload_fields_def Let_def)
qed

lemma connect_from_buf_wire:
  assumes "rb_inv buf"
    and "rb_contents buf = connect_wire level flags ka cid wt wm un pw @ rest"
    and "level AND 0x7f = 4" and "flags AND 1 \<noteq> 0"
    and len: "length cid < 65536" "length wt < 65536" "length wm < 65536" "length un < 65536" "length pw < 65536"
  shows "\<exists>buf'. connect_from_buf d buf =
      Inr (True, connect_payload_fields cid wt wm un pw
             (d\<lparr>cn_protocol_name := [0, 4, 0x4D, 0x51, 0x54, 0x54], cn_protocol_level := level,
                cn_connect_flags := flags, cn_keep_alive := ka\<rparr>), buf') \<and>
      rb_inv buf' \<and> rb_contents buf' = rest"
proof -
  let ?d = "d\<lparr>cn_protocol_name := [0, 4, 0x4D, 0x51, 0x54, 0x54], cn_protocol_level := level,
                cn_connect_flags := flags, cn_keep_alive := ka\<rparr>"
  let ?pl = "wire_string cid @
     (if has_will_flag flags then wire_string wt @ wire_string wm else []) @
     (if has_user_name_flag flags then wire_string un else []) @
     (if has_password_flag flags then wire_string pw else []) @ rest"
  have c: "rb_contents buf = [0, 4, 0x4D, 0x51, 0x54, 0x54, level, flags] @ le16 ka @ ?pl"
    using assms(2) by (simp only: connect_wire_def append_assoc)
  obtain b1 where b1: "connect_read_fixed_head d buf = Inr (True, ?d, b1)" "rb_inv b1"
      "rb_contents b1 = ?pl"
    using connect_fixed_head_wire[OF assms(1) c assms(3,4)] by blast
  have "cn_connect_flags ?d = flags" by simp
  then obtain b2 where "connect_read_payload ?d b1 = Inr (True, connect_payload_fields cid wt wm un pw ?d, b2)"
      "rb_inv b2" "rb_contents b2 = rest"
    using connect_payload_wire[OF b1(2), of cid ?d] b1(3) len by metis
  then show ?thesis using b1(1) by (simp add: connect_from_buf_def)
qed

lemma clean_session_masked:
  assumes "check_protocol_level d"
  shows "\<not> check_clean_session d"
proof -
  let ?l = "cn_protocol_level d"
  have "\<not> bit (?l AND 0x7f) 4" using assms by (simp add: check_protocol_level_def)
  then have l4: "\<not> bit ?l 4" by (simp add: bit_and_iff)
  have "(ucast ?l :: u64) AND 0x0b00000010 = 0"
  proof (rule bit_word_eqI)
    fix n assume "n < LENGTH(64)"
    show "bit ((ucast ?l :: u64) AND 0x0b00000010) n = bit (0::u64) n"
    proof (cases "n < 8")
      case True
      then have "n \<in> {0,1,2,3,4,5,6,7}" by auto
      then show ?thesis using l4 by (auto simp: bit_simps)
    next
      case False
      then have "\<not> bit ?l n" by (auto dest: bit_imp_le_length)
      then show ?thesis by (simp add: bit_simps)
    qed
  qed
  then show ?thesis by (simp add: check_clean_session_def)
qed

lemma publish_len_value:
  assumes "t < 65536" and "0 < n" and "n + t + 4 < 2 ^ 31"
  shows "sint (publish_payload_len (of_nat (4 + t + n)) (Suc t)) = int n - 1"
proof -
  have "publish_payload_len (of_nat (4 + t + n)) (Suc t) = (of_nat (n - 1) :: u32)"
  proof -
    have a: "of_nat (4 + t + n) - 2 = (of_nat (2 + t + n) :: u32)" by simp
    have b: "unat (of_nat (2 + t + n) :: u32) = 2 + t + n" using assms by (intro unat_of_nat_small) simp
    have "(ucast (of_nat (2 + t + n) :: u32) :: u64) = of_nat (2 + t + n)"
      using b by (metis of_nat_unat)
    moreover have "(of_nat (2 + t + n) :: u64) - of_nat (Suc t) - 2 = of_nat (n - 1)"
      using assms(2) by simp
    ultimately have "publish_payload_len (of_nat (4 + t + n)) (Suc t) = ucast (of_nat (n - 1) :: u64)"
      unfolding publish_payload_len_def a by simp
    also have "\<dots> = of_nat (unat (of_nat (n - 1) :: u64))" by (rule of_nat_unat[symmetric])
    also have "\<dots> = (of_nat (n - 1) :: u32)"
      using assms(3) by (subst unat_of_nat_small) simp_all
    finally show ?thesis .
  qed
  moreover have "sint (of_nat (n - 1) :: u32) = int (n - 1)"
    using assms(3) by (intro sint_of_nat_small) simp
  ultimately show ?thesis using assms(2) by simp
qed

lemma publish_from_buf_wire:
  assumes "rb_inv buf" and "rb_contents buf = wire_string topic @ le16 pid @ payload @ rest"
    and "length topic < 65536" and "payload \<noteq> []"
    and "pb_remaining d = of_nat (4 + length topic + length payload)"
    and "length payload + length topic + 4 < 2 ^ 31"
  shows "\<exists>buf'. publish_from_buf d buf =
      Inr (True, d\<lparr>pb_topic_name := topic @ [0], pb_packet_id := pid,
                    pb_payload := Some (butlast payload)\<rparr>, buf') \<and>
      rb_inv buf' \<and> rb_contents buf' = last payload # rest"
proof -
  obtain b1 where b1: "rb_pop_string buf = Inr (topic @ [0], b1)" "rb_inv b1"
      "rb_contents b1 = le16 pid @ payload @ rest"
    using pop_string_wire[OF assms(1,2,3)] by blast
  obtain b2 where b2: "rb_pop_uint_16 b1 = Inr (pid, b2)" "rb_inv b2" "rb_contents b2 = payload @ rest"
    using pop_uint_16_wire[OF b1(2,3)] by blast
  have split: "rb_contents b2 = butlast payload @ last payload # rest"
    using b2(3) append_butlast_last_id[OF assms(4)] by (metis append.assoc append_Cons append_Nil)
  obtain b3 where b3: "rb_pop_bytes (length (butlast payload)) b2 = Inr (butlast payload, b3)" "rb_inv b3"
      "rb_contents b3 = last payload # rest"
    using rbq.pop_front[OF b2(2) split] by blast
  have l: "sint (publish_payload_len (pb_remaining d) (length (topic @ [0]))) = int (length payload) - 1"
    using publish_len_value[OF assms(3) _ assms(6)] assms(4,5) by simp
  have pos: "0 < length payload" using assms(4) by simp
  then have "nat (int (length payload) - 1) = length payload - Suc 0" by arith
  then show ?thesis using b1(1) b2(1) b3 l pos by (simp add: publish_from_buf_def Let_def)
qed

lemma topic_infos_loop_none:
  "int (rb_read_head buf) \<le> limit \<Longrightarrow> topic_infos_loop limit infos buf = Inr (infos, buf)"
  by (simp add: topic_infos_loop.simps)

text \<open>On a ring that does not wrap, the read head only moves up, so a loop whose limit lies
  below it ends only by running out of data.\<close>

lemma rb_pop_bytes_head:
  assumes "rb_inv rb" and "rb_head rb + length (rb_contents rb) < rb_capacity rb"
    and "rb_pop_bytes n rb = Inr (bs, rb')"
  shows "rb_inv rb' \<and> rb_head rb \<le> rb_head rb' \<and> rb_capacity rb' = rb_capacity rb \<and>
         rb_head rb' + length (rb_contents rb') < rb_capacity rb'"
proof -
  have n: "n \<le> length (rb_contents rb)"
    using rb_pop_bytes_len[OF assms(3)] rb_len_contents[OF assms(1)] by simp
  obtain r where r: "rb_consume n rb = Inr r" "rb_inv r" "rb_contents r = drop n (rb_contents rb)"
      "rb_capacity r = rb_capacity rb"
    using rb_consume_spec[OF assms(1) n] by blast
  have "r = rb'" using assms(3) r(1) by (auto simp: rb_pop_bytes_def rbind_eq_Inr_iff)
  moreover have "rb_head r = rb_head rb + n"
    using rb_consume_ok[OF assms(1) n] r(1) assms(2) n by auto
  ultimately show ?thesis using r n assms(2) by auto
qed

lemma rb_pop_string_head:
  assumes "rb_inv rb" and "rb_head rb + length (rb_contents rb) < rb_capacity rb"
    and "rb_pop_string rb = Inr (s, rb')"
  shows "rb_inv rb' \<and> rb_head rb \<le> rb_head rb' \<and> rb_head rb' + length (rb_contents rb') < rb_capacity rb'"
proof -
  obtain bs b1 where b1: "rb_pop_bytes 2 rb = Inr (bs, b1)"
      "rb_pop_bytes (unat (u16_of_le (bs ! 0) (bs ! 1))) b1 = Inr (butlast s, rb')"
    using assms(3) by (auto simp: rb_pop_string_def rb_pop_uint_16_def rbind_eq_Inr_iff)
  note h1 = rb_pop_bytes_head[OF assms(1,2) b1(1)]
  show ?thesis using rb_pop_bytes_head[OF _ _ b1(2)] h1 by auto
qed

lemma topic_infos_loop_no_end:
  assumes "rb_inv buf" and "rb_head buf + length (rb_contents buf) < rb_capacity buf"
    and "limit < int (rb_head buf)"
  shows "\<exists>e. topic_infos_loop limit infos buf = Inl e"
  using assms
proof (induction limit infos buf rule: topic_infos_loop.induct)
  case (1 limit infos buf)
  have hd: "int (rb_read_head buf) > limit" using "1.prems"(3) by (simp add: rb_read_head_def)
  show ?case
  proof (cases "rb_pop_string buf")
    case (Inl e)
    then show ?thesis using hd by (subst topic_infos_loop.simps) simp
  next
    case (Inr p)
    obtain t b1 where p: "rb_pop_string buf = Inr (t, b1)" using Inr by (cases p) simp
    note b1 = rb_pop_string_head[OF "1.prems"(1,2) p]
    show ?thesis
    proof (cases "rb_pop_uint_8 b1")
      case (Inl e)
      then show ?thesis using hd p by (subst topic_infos_loop.simps) simp
    next
      case (Inr q)
      then obtain v b2 where q: "rb_pop_uint_8 b1 = Inr (v, b2)" by (cases q) simp
      then obtain bs where "rb_pop_bytes 1 b1 = Inr (bs, b2)"
        by (auto simp: rb_pop_uint_8_def rbind_eq_Inr_iff)
      then have b2: "rb_inv b2 \<and> rb_head b1 \<le> rb_head b2 \<and> rb_head b2 + length (rb_contents b2) < rb_capacity b2"
        using rb_pop_bytes_head[of b1 1 bs b2] b1 by blast
      then have "\<exists>e. topic_infos_loop limit (infos @ [\<lparr>ti_topic = t, ti_qos = v\<rparr>]) b2 = Inl e"
        using "1.IH"[OF hd p refl q refl] b1 "1.prems"(3) by simp
      then show ?thesis using hd p q by (subst topic_infos_loop.simps) simp
    qed
  qed
qed

lemma fixed_head_level:
  "connect_read_fixed_head d buf = Inr (True, d', buf') \<Longrightarrow> check_protocol_level d'"
  by (auto simp: connect_read_fixed_head_def rbind_eq_Inr_iff Let_def check_protocol_level_def
      split: if_splits)

section \<open>Properties\<close>

definition connect_example :: ringbuffer where
  "connect_example = \<lparr>rb_buffer = [0, 2, 0, 65, 66, 9, 0, 4, 0x4D, 0x51, 0x54, 0x54, 4, 1, 60],
     rb_capacity = 15, rb_head = 6, rb_tail = 6, rb_size = 15\<rparr>"

lemma connect_example_facts:
  "rb_inv connect_example"
  "rb_contents connect_example = connect_wire 4 1 60 [65, 66] [] [] [] [] @ [9]"
  by (simp_all add: connect_example_def rb_inv_def rb_contents_def upt_rec connect_wire_def wire_string_def
      le16_def has_will_flag_def has_user_name_flag_def has_password_flag_def
      flag_will_flag_def flag_user_name_def flag_password_def)



text \<open>
  The CONNECT constructor throws on every CONNECT body that its own reader
  accepts: the test of \<open>from_buf\<close>'s result is inverted, so no well-formed packet with
  protocol level 4 (and the low flag bit set, as the reader demands) can be built.
\<close>

theorem mqtt_connect_constructor_rejects:
  assumes "rb_inv buf"
    and "rb_contents buf = connect_wire level flags ka cid wt wm un pw @ rest"
    and "level AND 0x7f = 4" and "flags AND 1 \<noteq> 0"
    and "length cid < 65536" "length wt < 65536" "length wm < 65536" "length un < 65536" "length pw < 65536"
  shows "mqtt_pkt_connect cmd remaining buf = Inl (Throw ''cant build connect packet'')"
  using connect_from_buf_wire[OF assms, of "connect_init cmd remaining"]
  by (auto simp: mqtt_pkt_connect_def)

theorem mqtt_connect_constructor_rejects_witness:
  "mqtt_pkt_connect 0x10 14 connect_example = Inl (Throw ''cant build connect packet'')"
  using mqtt_connect_constructor_rejects[OF connect_example_facts, of "0x10" 14] by auto

text \<open>
  The server never sees a clean-session request: whenever the fixed head of a
  CONNECT is accepted, \<open>check_clean_session\<close> is false, because it tests bit 4 of the
  protocol level (the mask was written in hexadecimal), and an accepted level is 4.
\<close>

theorem mqtt_clean_session_never:
  assumes "connect_read_fixed_head d buf = Inr (True, d', buf')"
  shows "\<not> check_clean_session d'"
  by (rule clean_session_masked[OF fixed_head_level[OF assms]])

theorem mqtt_clean_session_never_witness:
  "\<exists>d' buf'. connect_read_fixed_head (connect_init 0x10 14) connect_example = Inr (True, d', buf') \<and>
     \<not> check_clean_session d'"
proof -
  have c: "rb_contents connect_example = [0, 4, 0x4D, 0x51, 0x54, 0x54, 4, 1] @ le16 60 @ [2, 0, 65, 66, 9]"
    by (simp add: connect_example_def rb_contents_def upt_rec le16_def)
  obtain d' buf' where "connect_read_fixed_head (connect_init 0x10 14) connect_example = Inr (True, d', buf')"
    using connect_fixed_head_wire[OF connect_example_facts(1) c, of "connect_init 0x10 14"] by auto
  then show ?thesis using mqtt_clean_session_never by blast
qed

text \<open>
  The PUBLISH reader cuts every non-empty payload: on a buffer that holds a
  PUBLISH body (topic, packet id, payload) with its true remaining length, the packet gets
  all but the last payload byte, and that byte stays in the buffer, where it is taken as
  the start of the next packet.
\<close>

theorem mqtt_publish_drops_last_byte:
  assumes "rb_inv buf" and "rb_contents buf = wire_string topic @ le16 pid @ payload @ rest"
    and "length topic < 65536" and "payload \<noteq> []"
    and "length payload + length topic + 4 < 2 ^ 31"
  shows "\<exists>buf'. mqtt_pkt_publish cmd (of_nat (4 + length topic + length payload)) buf =
      Inr (\<lparr>pb_cmd = cmd, pb_remaining = of_nat (4 + length topic + length payload),
            pb_topic_name = topic @ [0], pb_packet_id = pid, pb_payload = Some (butlast payload)\<rparr>, buf') \<and>
      rb_inv buf' \<and> rb_contents buf' = last payload # rest"
  using publish_from_buf_wire[OF assms(1-4) _ assms(5), of "\<lparr>pb_cmd = cmd,
      pb_remaining = of_nat (4 + length topic + length payload), pb_topic_name = [], pb_packet_id = 0,
      pb_payload = None\<rparr>"]
  by (auto simp: mqtt_pkt_publish_def)

definition publish_example :: ringbuffer where
  "publish_example = \<lparr>rb_buffer = [1, 0, 84, 7, 0, 21, 22, 23], rb_capacity = 8, rb_head = 0, rb_tail = 0, rb_size = 8\<rparr>"

theorem mqtt_publish_drops_last_byte_witness:
  "\<exists>d buf'. mqtt_pkt_publish 0x30 8 publish_example = Inr (d, buf') \<and>
     pb_payload d = Some [21, 22] \<and> rb_contents buf' = [23]"
proof -
  have i: "rb_inv publish_example"
    and c: "rb_contents publish_example = wire_string [84] @ le16 7 @ [21, 22, 23] @ []"
    by (simp_all add: publish_example_def rb_inv_def rb_contents_def upt_rec wire_string_def le16_def)
  show ?thesis using mqtt_publish_drops_last_byte[OF i c, of "0x30"] by auto
qed

text \<open>
  The SUBSCRIBE reader finds no topic: with a remaining length of at least 2
  the loop condition, which compares the read head with the end of the packet the wrong
  way round, is false at once, so whatever topics the buffer holds the packet has an empty
  topic list and the topics stay in the buffer.
\<close>

theorem mqtt_subscribe_reads_no_topic:
  assumes "rb_inv buf" and "rb_contents buf = le16 pid @ rest" and "2 \<le> unat remaining"
  shows "\<exists>buf'. mqtt_pkt_subscribe cmd remaining buf =
      Inr (\<lparr>sb_cmd = cmd, sb_remaining = remaining, sb_packet_id = pid, sb_infos = []\<rparr>, buf') \<and>
      rb_inv buf' \<and> rb_contents buf' = rest"
proof -
  obtain b1 where b1: "rb_pop_uint_16 buf = Inr (pid, b1)" "rb_inv b1" "rb_contents b1 = rest"
    using pop_uint_16_wire[OF assms(1,2)] by blast
  have "topic_infos_loop (int (rb_read_head b1) + int (unat remaining) - 2) [] b1 = Inr ([], b1)"
    by (rule topic_infos_loop_none) (use assms(3) in linarith)
  then show ?thesis using b1 by (simp add: mqtt_pkt_subscribe_def subscribe_from_buf_def Let_def)
qed

theorem mqtt_subscribe_reads_no_topic_witness:
  "\<exists>buf'. mqtt_pkt_subscribe 0x82 8 publish_example =
      Inr (\<lparr>sb_cmd = 0x82, sb_remaining = 8, sb_packet_id = 1, sb_infos = []\<rparr>, buf') \<and>
      rb_inv buf' \<and> rb_contents buf' = [84, 7, 0, 21, 22, 23]"
proof -
  have i: "rb_inv publish_example"
    and c: "rb_contents publish_example = le16 1 @ [84, 7, 0, 21, 22, 23]"
    by (simp_all add: publish_example_def rb_inv_def rb_contents_def upt_rec le16_def)
  show ?thesis using mqtt_subscribe_reads_no_topic[OF i c, of 8 "0x82"] by simp
qed

text \<open>
  With a remaining length below 2 (the session layer always passes 0) and data
  that does not wrap around the ring, building a SUBSCRIBE packet never succeeds: the topic
  loop keeps reading until the data runs out and a read fails.
\<close>

theorem mqtt_subscribe_runs_out:
  assumes "rb_inv buf" and "rb_head buf + length (rb_contents buf) < rb_capacity buf"
    and "unat remaining < 2"
  shows "\<exists>e. mqtt_pkt_subscribe cmd remaining buf = Inl e"
proof (cases "rb_pop_uint_16 buf")
  case (Inl e)
  then show ?thesis by (simp add: mqtt_pkt_subscribe_def subscribe_from_buf_def)
next
  case (Inr p)
  then obtain pid b1 bs where p: "rb_pop_uint_16 buf = Inr (pid, b1)" "rb_pop_bytes 2 buf = Inr (bs, b1)"
    by (cases p) (auto simp: rb_pop_uint_16_def rbind_eq_Inr_iff)
  note b1 = rb_pop_bytes_head[OF assms(1,2) p(2)]
  have "\<exists>e. topic_infos_loop (int (rb_read_head b1) + int (unat remaining) - 2) [] b1 = Inl e"
    using b1 assms(3) unfolding rb_read_head_def by (intro topic_infos_loop_no_end) linarith+
  then show ?thesis using p(1) by (auto simp: mqtt_pkt_subscribe_def subscribe_from_buf_def Let_def)
qed

theorem mqtt_subscribe_runs_out_witness:
  "\<exists>e. mqtt_pkt_subscribe 0x82 0 \<lparr>rb_buffer = replicate 20 0, rb_capacity = 20, rb_head = 3,
          rb_tail = 11, rb_size = 8\<rparr> = Inl e"
  by (rule mqtt_subscribe_runs_out) (simp_all add: rb_inv_def)

end
