(* ===== verification/Cache.thy ===== *)
theory Cache
  imports Prelude
begin

text \<open>
  \<open>src/app/mqtt/cache.hh\<close>: the hash table from C strings to shared pointers that holds
  the topics and the sessions of the MQTT server. The table itself is
  \<open>boost::intrusive::unordered_set\<close> and the hash \<open>std::hash<std::string_view>\<close>;
  neither is part of the repository, so the set's operations are a record of functions
  that every operation takes as an argument, and the hash a function argument. What the
  cache relies on of the set is \<open>uset_laws\<close>: with an equality that agrees with the
  stored hash codes, the elements have distinct codes, lookup finds the element with the
  searched code, insertion adds an element only if there is none with its code, and a
  rehash keeps the elements.

  A shared pointer is its address, a value of type \<open>'p\<close>.
\<close>

section \<open>Keys and entries\<close>

record cache_key =
  ck_view :: "byte list"
  ck_code :: u64

definition c_str :: "byte list \<Rightarrow> byte list" where
  \<comment> \<open>the bytes in front of the first NUL\<close>
  "c_str s = takeWhile (\<lambda>b. b \<noteq> 0) s"

definition make_key :: "(byte list \<Rightarrow> u64) \<Rightarrow> byte list \<Rightarrow> cache_key" where
  "make_key hash k = \<lparr>ck_view = c_str k, ck_code = hash (c_str k)\<rparr>"

definition key_eq :: "cache_key \<Rightarrow> cache_key \<Rightarrow> bool" where
  \<comment> \<open>\<open>(l._code==r._code)&&(r._view==r._view)\<close>\<close>
  "key_eq l r \<longleftrightarrow> ck_code l = ck_code r \<and> ck_view r = ck_view r"

record 'p cache_entry =
  ce_key :: cache_key
  ce_data :: 'p

definition entry_eq :: "'p cache_entry \<Rightarrow> 'p cache_entry \<Rightarrow> bool" where
  "entry_eq l1 l2 \<longleftrightarrow> key_eq (ce_key l1) (ce_key l2)"

definition entry_hash :: "'p cache_entry \<Rightarrow> u64" where
  "entry_hash e = ck_code (ce_key e)"

datatype cache_find_error_code = cant_found | err_value_type | std_exception | unk_exception

section \<open>The intrusive set\<close>

record ('s, 'p) uset_ops =
  us_find :: "'s \<Rightarrow> u64 \<Rightarrow> ('p cache_entry \<Rightarrow> bool) \<Rightarrow> 'p cache_entry option"
  us_insert :: "'s \<Rightarrow> 'p cache_entry \<Rightarrow> 's \<times> 'p cache_entry \<times> bool"
  us_erase :: "'s \<Rightarrow> 'p cache_entry \<Rightarrow> 's"
  us_assign :: "'s \<Rightarrow> 'p cache_entry \<Rightarrow> 'p \<Rightarrow> 's"
  us_size :: "'s \<Rightarrow> nat"
  us_bucket_count :: "'s \<Rightarrow> nat"
  us_rehash :: "'s \<Rightarrow> nat \<Rightarrow> 's"

definition at_code :: "'p cache_entry set \<Rightarrow> u64 \<Rightarrow> 'p cache_entry set" where
  "at_code E h = {e \<in> E. entry_hash e = h}"

definition set_wf :: "'p cache_entry set \<Rightarrow> bool" where
  "set_wf E \<longleftrightarrow> finite E \<and> inj_on entry_hash E"

definition find_law :: "('s, 'p) uset_ops \<Rightarrow> ('s \<Rightarrow> 'p cache_entry set) \<Rightarrow> bool" where
  "find_law us elems \<longleftrightarrow>
     (\<forall>s h P. set_wf (elems s) \<longrightarrow> (\<forall>e. entry_hash e = h \<longrightarrow> P e) \<longrightarrow>
        (case us_find us s h P of None \<Rightarrow> at_code (elems s) h = {}
         | Some e \<Rightarrow> at_code (elems s) h = {e}))"

definition insert_law :: "('s, 'p) uset_ops \<Rightarrow> ('s \<Rightarrow> 'p cache_entry set) \<Rightarrow> bool" where
  "insert_law us elems \<longleftrightarrow>
     (\<forall>s e. set_wf (elems s) \<longrightarrow>
        (case us_insert us s e of (s', e', b) \<Rightarrow>
           us_bucket_count us s' = us_bucket_count us s \<and>
           (if b then at_code (elems s) (entry_hash e) = {} \<and> elems s' = insert e (elems s) \<and> e' = e
            else at_code (elems s) (entry_hash e) = {e'} \<and> elems s' = elems s)))"

definition erase_law :: "('s, 'p) uset_ops \<Rightarrow> ('s \<Rightarrow> 'p cache_entry set) \<Rightarrow> bool" where
  "erase_law us elems \<longleftrightarrow>
     (\<forall>s e. set_wf (elems s) \<longrightarrow> e \<in> elems s \<longrightarrow> elems (us_erase us s e) = elems s - {e})"

definition assign_law :: "('s, 'p) uset_ops \<Rightarrow> ('s \<Rightarrow> 'p cache_entry set) \<Rightarrow> bool" where
  "assign_law us elems \<longleftrightarrow>
     (\<forall>s e p. set_wf (elems s) \<longrightarrow> e \<in> elems s \<longrightarrow>
        elems (us_assign us s e p) = insert (e\<lparr>ce_data := p\<rparr>) (elems s - {e}) \<and>
        us_bucket_count us (us_assign us s e p) = us_bucket_count us s)"

definition size_law :: "('s, 'p) uset_ops \<Rightarrow> ('s \<Rightarrow> 'p cache_entry set) \<Rightarrow> bool" where
  "size_law us elems \<longleftrightarrow> (\<forall>s. set_wf (elems s) \<longrightarrow> us_size us s = card (elems s))"

definition rehash_law :: "('s, 'p) uset_ops \<Rightarrow> ('s \<Rightarrow> 'p cache_entry set) \<Rightarrow> bool" where
  "rehash_law us elems \<longleftrightarrow>
     (\<forall>s n. set_wf (elems s) \<longrightarrow>
        elems (us_rehash us s n) = elems s \<and> us_bucket_count us (us_rehash us s n) = n)"

definition uset_laws :: "('s, 'p) uset_ops \<Rightarrow> ('s \<Rightarrow> 'p cache_entry set) \<Rightarrow> bool" where
  "uset_laws us elems \<longleftrightarrow>
     find_law us elems \<and> insert_law us elems \<and> erase_law us elems \<and> assign_law us elems \<and>
     size_law us elems \<and> rehash_law us elems"

section \<open>The cache\<close>

record 's cache =
  c_resize_up_threshold :: nat
  c_store :: 's

text \<open>\<open>load_factor\<close> is \<open>0.75f\<close>. Bucket counts are powers of two from
  \<open>2 ^ 20\<close> on, so the product in single precision is exact.\<close>

definition initial_bucket_count :: nat where
  "initial_bucket_count = 2 ^ 20"

definition load_threshold :: "nat \<Rightarrow> nat" where
  "load_threshold n = 3 * n div 4"

definition cache_init :: "(nat \<Rightarrow> 's) \<Rightarrow> 's cache" where
  "cache_init mk = \<lparr>c_resize_up_threshold = load_threshold initial_bucket_count,
                    c_store = mk initial_bucket_count\<rparr>"

definition cache_lookup :: "('s, 'p) uset_ops \<Rightarrow> cache_key \<Rightarrow> 's cache \<Rightarrow> 'p cache_entry option" where
  \<comment> \<open>\<open>_store.find(k,hash_fn,compare())\<close>\<close>
  "cache_lookup us k c = us_find us (c_store c) (ck_code k) (\<lambda>e. key_eq k (ce_key e))"

definition cache_erase :: "('s, 'p) uset_ops \<Rightarrow> cache_key \<Rightarrow> 's cache \<Rightarrow> bool \<times> 's cache" where
  "cache_erase us k c =
     (case cache_lookup us k c of None \<Rightarrow> (False, c)
      | Some it \<Rightarrow> (True, c\<lparr>c_store := us_erase us (c_store c) it\<rparr>))"

definition maybe_rehash :: "('s, 'p) uset_ops \<Rightarrow> bool \<Rightarrow> 's cache \<Rightarrow> 's cache" where
  \<comment> \<open>\<open>alloc_ok\<close>: the allocation of the new buckets does not throw \<open>bad_alloc\<close>\<close>
  "maybe_rehash us alloc_ok c =
     (if us_size us (c_store c) \<ge> c_resize_up_threshold c
      then let new_size = us_bucket_count us (c_store c) * 2 in
           if \<not> alloc_ok then c
           else let s = us_rehash us (c_store c) new_size
                in c\<lparr>c_store := s, c_resize_up_threshold := load_threshold (us_bucket_count us s)\<rparr>
      else c)"

definition cache_push_entry :: "('s, 'p) uset_ops \<Rightarrow> bool \<Rightarrow> 'p cache_entry \<Rightarrow> 's cache \<Rightarrow> 's cache" where
  \<comment> \<open>an entry with an equal key keeps its place and swaps data with the new one, which is deleted\<close>
  "cache_push_entry us alloc_ok e c =
     (case us_insert us (c_store c) e of (s, first, second) \<Rightarrow>
        let s' = (if \<not> second then us_assign us s first (ce_data e) else s)
        in maybe_rehash us alloc_ok (c\<lparr>c_store := s'\<rparr>))"

definition cache_push ::
  "('s, 'p) uset_ops \<Rightarrow> (byte list \<Rightarrow> u64) \<Rightarrow> bool \<Rightarrow> byte list \<Rightarrow> 'p \<Rightarrow> 's cache \<Rightarrow> 's cache" where
  "cache_push us hash alloc_ok k v c =
     cache_push_entry us alloc_ok \<lparr>ce_key = make_key hash k, ce_data = v\<rparr> c"

definition cache_find_key ::
  "('s, 'p) uset_ops \<Rightarrow> cache_key \<Rightarrow> 's cache \<Rightarrow> cache_find_error_code + 'p" where
  "cache_find_key us k c =
     (case cache_lookup us k c of None \<Rightarrow> Inl cant_found | Some it \<Rightarrow> Inr (ce_data it))"

definition cache_find ::
  "('s, 'p) uset_ops \<Rightarrow> (byte list \<Rightarrow> u64) \<Rightarrow> byte list \<Rightarrow> 's cache \<Rightarrow> cache_find_error_code + 'p" where
  "cache_find us hash k c = cache_find_key us (make_key hash k) c"

definition cache_erase_str ::
  "('s, 'p) uset_ops \<Rightarrow> (byte list \<Rightarrow> u64) \<Rightarrow> byte list \<Rightarrow> 's cache \<Rightarrow> bool \<times> 's cache" where
  "cache_erase_str us hash k c = cache_erase us (make_key hash k) c"

section \<open>What the cache stores: a map from hash codes\<close>

text \<open>The content as a partial map from codes to pointers.\<close>

definition cmap :: "('s \<Rightarrow> 'p cache_entry set) \<Rightarrow> 's cache \<Rightarrow> u64 \<Rightarrow> 'p option" where
  "cmap elems c h =
     (if at_code (elems (c_store c)) h = {} then None
      else Some (ce_data (THE e. e \<in> at_code (elems (c_store c)) h)))"

definition cache_inv :: "('s \<Rightarrow> 'p cache_entry set) \<Rightarrow> 's cache \<Rightarrow> bool" where
  "cache_inv elems c \<longleftrightarrow> set_wf (elems (c_store c))"

lemma key_eq_code [simp]: "key_eq k k' \<longleftrightarrow> ck_code k = ck_code k'"
  by (simp add: key_eq_def)

lemma make_key_code [simp]: "ck_code (make_key hash k) = hash (c_str k)"
  by (simp add: make_key_def)

lemma at_code_cmap: "at_code (elems (c_store c)) h = {e} \<Longrightarrow> cmap elems c h = Some (ce_data e)"
  by (simp add: cmap_def)

lemma cmap_None: "at_code (elems (c_store c)) h = {} \<Longrightarrow> cmap elems c h = None"
  by (simp add: cmap_def)

lemma at_code_cases:
  assumes "set_wf E"
  obtains "at_code E h = {}" | e where "at_code E h = {e}" "e \<in> E" "entry_hash e = h"
proof (cases "at_code E h = {}")
  case False
  then obtain e where e: "e \<in> E" "entry_hash e = h" by (auto simp: at_code_def)
  then have "at_code E h = {e}" using assms by (auto simp: at_code_def set_wf_def inj_on_def)
  then show ?thesis using that(2) e by blast
qed (use that in blast)

lemma uset_find_law:
  assumes "uset_laws us elems" and "set_wf (elems s)" and "\<And>e. entry_hash e = h \<Longrightarrow> P e"
  shows "case us_find us s h P of None \<Rightarrow> at_code (elems s) h = {}
         | Some e \<Rightarrow> at_code (elems s) h = {e}"
  using assms by (simp add: uset_laws_def find_law_def)

lemma uset_insert_law:
  assumes "uset_laws us elems" and "set_wf (elems s)" and "us_insert us s e = (s', e', b)"
  shows "us_bucket_count us s' = us_bucket_count us s"
    and "b \<Longrightarrow> at_code (elems s) (entry_hash e) = {} \<and> elems s' = insert e (elems s)"
    and "\<not> b \<Longrightarrow> at_code (elems s) (entry_hash e) = {e'} \<and> elems s' = elems s"
proof -
  have "case us_insert us s e of (s', e', b) \<Rightarrow>
           us_bucket_count us s' = us_bucket_count us s \<and>
           (if b then at_code (elems s) (entry_hash e) = {} \<and> elems s' = insert e (elems s) \<and> e' = e
            else at_code (elems s) (entry_hash e) = {e'} \<and> elems s' = elems s)"
    using assms(1,2) by (simp add: uset_laws_def insert_law_def)
  then show "us_bucket_count us s' = us_bucket_count us s"
    and "b \<Longrightarrow> at_code (elems s) (entry_hash e) = {} \<and> elems s' = insert e (elems s)"
    and "\<not> b \<Longrightarrow> at_code (elems s) (entry_hash e) = {e'} \<and> elems s' = elems s"
    using assms(3) by (simp_all split: if_splits)
qed

lemma uset_erase_law:
  "uset_laws us elems \<Longrightarrow> set_wf (elems s) \<Longrightarrow> e \<in> elems s \<Longrightarrow> elems (us_erase us s e) = elems s - {e}"
  by (simp add: uset_laws_def erase_law_def)

lemma uset_assign_law:
  assumes "uset_laws us elems" and "set_wf (elems s)" and "e \<in> elems s"
  shows "elems (us_assign us s e p) = insert (e\<lparr>ce_data := p\<rparr>) (elems s - {e})"
    and "us_bucket_count us (us_assign us s e p) = us_bucket_count us s"
  using assms by (simp_all add: uset_laws_def assign_law_def)

lemma uset_size_law: "uset_laws us elems \<Longrightarrow> set_wf (elems s) \<Longrightarrow> us_size us s = card (elems s)"
  by (simp add: uset_laws_def size_law_def)

lemma uset_rehash_law:
  assumes "uset_laws us elems" and "set_wf (elems s)"
  shows "elems (us_rehash us s n) = elems s" and "us_bucket_count us (us_rehash us s n) = n"
  using assms by (simp_all add: uset_laws_def rehash_law_def)

lemma cache_lookup_cmap:
  assumes "uset_laws us elems" and "cache_inv elems c"
  shows "map_option ce_data (cache_lookup us k c) = cmap elems c (ck_code k)"
    and "cache_lookup us k c = Some e \<Longrightarrow> at_code (elems (c_store c)) (ck_code k) = {e}"
proof -
  have "case cache_lookup us k c of None \<Rightarrow> at_code (elems (c_store c)) (ck_code k) = {}
         | Some e \<Rightarrow> at_code (elems (c_store c)) (ck_code k) = {e}"
    unfolding cache_lookup_def
    by (rule uset_find_law[OF assms(1)]) (use assms(2) in \<open>auto simp: cache_inv_def entry_hash_def\<close>)
  then show "map_option ce_data (cache_lookup us k c) = cmap elems c (ck_code k)"
    and "cache_lookup us k c = Some e \<Longrightarrow> at_code (elems (c_store c)) (ck_code k) = {e}"
    by (auto simp: at_code_cmap cmap_None split: option.splits)
qed

lemma cache_find_cmap:
  assumes "uset_laws us elems" and "cache_inv elems c"
  shows "cache_find us hash k c =
     (case cmap elems c (hash (c_str k)) of None \<Rightarrow> Inl cant_found | Some p \<Rightarrow> Inr p)"
  using cache_lookup_cmap(1)[OF assms, of "make_key hash k", symmetric]
  by (auto simp: cache_find_def cache_find_key_def split: option.splits)

lemma maybe_rehash_elems:
  assumes "uset_laws us elems" and "cache_inv elems c"
  shows "elems (c_store (maybe_rehash us ok c)) = elems (c_store c)"
  using assms by (simp add: maybe_rehash_def Let_def cache_inv_def uset_rehash_law)

text \<open>The elements after a push: the old ones but for the one with the pushed code.\<close>

lemma cache_push_elems:
  assumes "uset_laws us elems" and "cache_inv elems c"
  shows "\<exists>e. ce_data e = ce_data e0 \<and> entry_hash e = entry_hash e0 \<and>
     elems (c_store (cache_push_entry us ok e0 c)) =
       insert e (elems (c_store c) - at_code (elems (c_store c)) (entry_hash e0))"
proof -
  let ?s = "c_store c"
  obtain s' e' b where ins: "us_insert us ?s e0 = (s', e', b)" by (cases "us_insert us ?s e0") auto
  have wf: "set_wf (elems ?s)" using assms(2) by (simp add: cache_inv_def)
  show ?thesis
  proof (cases b)
    case True
    then have st: "at_code (elems ?s) (entry_hash e0) = {}" "elems s' = insert e0 (elems ?s)"
      using uset_insert_law(2,3)[OF assms(1) wf ins] by auto
    then have "set_wf (elems s')" using wf by (auto simp: set_wf_def at_code_def)
    then have "elems (c_store (cache_push_entry us ok e0 c)) = elems s'"
      using ins True maybe_rehash_elems[OF assms(1), of "c\<lparr>c_store := s'\<rparr>" ok]
      by (simp add: cache_push_entry_def cache_inv_def)
    then show ?thesis using st by (intro exI[of _ e0]) simp
  next
    case False
    then have st: "at_code (elems ?s) (entry_hash e0) = {e'}" "elems s' = elems ?s"
      using uset_insert_law(2,3)[OF assms(1) wf ins] by auto
    then have e': "e' \<in> elems s'" "entry_hash e' = entry_hash e0" by (auto simp: at_code_def)
    let ?e = "e'\<lparr>ce_data := ce_data e0\<rparr>" and ?s2 = "us_assign us s' e' (ce_data e0)"
    have el: "elems ?s2 = insert ?e (elems s' - {e'})"
      using uset_assign_law(1)[OF assms(1) _ e'(1)] wf st(2) by simp
    have "set_wf (elems ?s2)"
      using wf st(2) e' el by (auto simp: set_wf_def inj_on_def entry_hash_def)
    then have "elems (c_store (cache_push_entry us ok e0 c)) = elems ?s2"
      using ins False maybe_rehash_elems[OF assms(1), of "c\<lparr>c_store := ?s2\<rparr>" ok]
      by (simp add: cache_push_entry_def cache_inv_def)
    then show ?thesis using st el e' by (intro exI[of _ ?e]) (simp add: entry_hash_def)
  qed
qed

lemma cache_push_inv:
  assumes "uset_laws us elems" and "cache_inv elems c"
  shows "cache_inv elems (cache_push us hash ok k v c)"
proof -
  obtain e where "entry_hash e = hash (c_str k)"
      "elems (c_store (cache_push us hash ok k v c)) =
       insert e (elems (c_store c) - at_code (elems (c_store c)) (hash (c_str k)))"
    using cache_push_elems[OF assms, of "\<lparr>ce_key = make_key hash k, ce_data = v\<rparr>" ok]
    by (auto simp: cache_push_def entry_hash_def)
  then show ?thesis using assms(2)
    by (auto simp: cache_inv_def set_wf_def at_code_def inj_on_def)
qed

lemma cache_push_cmap:
  assumes "uset_laws us elems" and "cache_inv elems c"
  shows "cmap elems (cache_push us hash ok k v c) = (cmap elems c)(hash (c_str k) \<mapsto> v)"
proof
  fix h
  let ?E = "elems (c_store c)" and ?c' = "cache_push us hash ok k v c"
  obtain e where e: "ce_data e = v" "entry_hash e = hash (c_str k)"
      "elems (c_store ?c') = insert e (?E - at_code ?E (hash (c_str k)))"
    using cache_push_elems[OF assms, of "\<lparr>ce_key = make_key hash k, ce_data = v\<rparr>" ok]
    by (auto simp: cache_push_def entry_hash_def)
  show "cmap elems ?c' h = ((cmap elems c)(hash (c_str k) \<mapsto> v)) h"
  proof (cases "h = hash (c_str k)")
    case True
    then have "at_code (elems (c_store ?c')) h = {e}" using e by (auto simp: at_code_def)
    then show ?thesis using True e(1) by (simp add: at_code_cmap)
  next
    case False
    then have "at_code (elems (c_store ?c')) h = at_code ?E h" using e by (auto simp: at_code_def)
    then show ?thesis using False by (simp add: cmap_def)
  qed
qed

lemma cache_erase_cmap:
  assumes "uset_laws us elems" and "cache_inv elems c"
  shows "fst (cache_erase_str us hash k c) \<longleftrightarrow> cmap elems c (hash (c_str k)) \<noteq> None"
    and "cmap elems (snd (cache_erase_str us hash k c)) = (cmap elems c)(hash (c_str k) := None)"
    and "cache_inv elems (snd (cache_erase_str us hash k c))"
proof -
  let ?l = "cache_lookup us (make_key hash k) c" and ?E = "elems (c_store c)"
  have lk: "cmap elems c (hash (c_str k)) = map_option ce_data ?l"
    using cache_lookup_cmap(1)[OF assms, of "make_key hash k"] by simp
  then show "fst (cache_erase_str us hash k c) \<longleftrightarrow> cmap elems c (hash (c_str k)) \<noteq> None"
    by (auto simp: cache_erase_str_def cache_erase_def split: option.splits)
  have "cmap elems (snd (cache_erase_str us hash k c)) = (cmap elems c)(hash (c_str k) := None) \<and>
        cache_inv elems (snd (cache_erase_str us hash k c))"
  proof (cases ?l)
    case None
    then show ?thesis using lk assms(2)
      by (auto simp: cache_erase_str_def cache_erase_def fun_upd_idem)
  next
    case (Some e)
    then have at: "at_code ?E (hash (c_str k)) = {e}"
      using cache_lookup_cmap(2)[OF assms Some] by simp
    then have "e \<in> ?E" by (auto simp: at_code_def)
    then have el: "elems (us_erase us (c_store c) e) = ?E - {e}"
      using uset_erase_law[OF assms(1)] assms(2) by (simp add: cache_inv_def)
    have "at_code (?E - {e}) h = (if h = hash (c_str k) then {} else at_code ?E h)" for h
      using at by (auto simp: at_code_def)
    then have "cmap elems (c\<lparr>c_store := us_erase us (c_store c) e\<rparr>) = (cmap elems c)(hash (c_str k) := None)"
      using el by (auto simp: cmap_def fun_eq_iff)
    then show ?thesis using Some el assms(2)
      by (auto simp: cache_erase_str_def cache_erase_def cache_inv_def set_wf_def inj_on_def)
  qed
  then show "cmap elems (snd (cache_erase_str us hash k c)) = (cmap elems c)(hash (c_str k) := None)"
    and "cache_inv elems (snd (cache_erase_str us hash k c))" by blast+
qed

section \<open>The load factor\<close>

definition load_inv :: "('s, 'p) uset_ops \<Rightarrow> ('s \<Rightarrow> 'p cache_entry set) \<Rightarrow> 's cache \<Rightarrow> bool" where
  "load_inv us elems c \<longleftrightarrow> cache_inv elems c \<and>
     c_resize_up_threshold c = load_threshold (us_bucket_count us (c_store c)) \<and>
     us_size us (c_store c) < c_resize_up_threshold c"

lemma load_threshold_grows: "m \<le> load_threshold n \<Longrightarrow> 2 \<le> n \<Longrightarrow> m < load_threshold (n * 2)"
  by (simp add: load_threshold_def)

lemma cache_push_entry_before_rehash:
  assumes "uset_laws us elems" and "load_inv us elems c"
  shows "\<exists>s. cache_push_entry us ok e c = maybe_rehash us ok (c\<lparr>c_store := s\<rparr>) \<and> set_wf (elems s) \<and>
     us_bucket_count us s = us_bucket_count us (c_store c) \<and>
     card (elems s) \<le> Suc (card (elems (c_store c)))"
proof -
  let ?s = "c_store c"
  have wf: "set_wf (elems ?s)" using assms(2) by (simp add: load_inv_def cache_inv_def)
  then have fin: "finite (elems ?s)" by (simp add: set_wf_def)
  obtain s' e' b where ins: "us_insert us ?s e = (s', e', b)" by (cases "us_insert us ?s e") auto
  show ?thesis
  proof (cases b)
    case True
    then have st: "at_code (elems ?s) (entry_hash e) = {}" "elems s' = insert e (elems ?s)"
        "us_bucket_count us s' = us_bucket_count us ?s"
      using uset_insert_law[OF assms(1) wf ins] by auto
    then have "set_wf (elems s')" "card (elems s') \<le> Suc (card (elems ?s))"
      using wf fin by (auto simp: set_wf_def at_code_def card_insert_if)
    then show ?thesis using ins True st(3)
      by (intro exI[of _ s']) (simp add: cache_push_entry_def)
  next
    case False
    then have st: "at_code (elems ?s) (entry_hash e) = {e'}" "elems s' = elems ?s"
        "us_bucket_count us s' = us_bucket_count us ?s"
      using uset_insert_law[OF assms(1) wf ins] by auto
    then have e': "e' \<in> elems s'" "entry_hash e' = entry_hash e" by (auto simp: at_code_def)
    let ?s2 = "us_assign us s' e' (ce_data e)"
    have el: "elems ?s2 = insert (e'\<lparr>ce_data := ce_data e\<rparr>) (elems ?s - {e'})"
        "us_bucket_count us ?s2 = us_bucket_count us ?s"
      using uset_assign_law[OF assms(1) _ e'(1)] wf st by simp_all
    have "set_wf (elems ?s2)" using wf e' el st by (auto simp: set_wf_def inj_on_def entry_hash_def)
    moreover have "card (elems ?s2) \<le> Suc (card (elems ?s))"
    proof -
      have "card (elems ?s2) \<le> Suc (card (elems ?s - {e'}))"
        unfolding el(1) using fin by (simp add: card_insert_if)
      moreover have "card (elems ?s - {e'}) \<le> card (elems ?s)" by (rule card_Diff1_le)
      ultimately show ?thesis by linarith
    qed
    ultimately show ?thesis using ins False el(2)
      by (intro exI[of _ ?s2]) (simp add: cache_push_entry_def)
  qed
qed

lemma cache_push_load_inv:
  assumes "uset_laws us elems" and "load_inv us elems c" and "2 \<le> us_bucket_count us (c_store c)"
  shows "load_inv us elems (cache_push us hash True k v c) \<and>
         us_bucket_count us (c_store c) \<le> us_bucket_count us (c_store (cache_push us hash True k v c))"
proof -
  obtain s where s: "cache_push us hash True k v c = maybe_rehash us True (c\<lparr>c_store := s\<rparr>)"
      "set_wf (elems s)" "us_bucket_count us s = us_bucket_count us (c_store c)"
      "card (elems s) \<le> Suc (card (elems (c_store c)))"
    using cache_push_entry_before_rehash[OF assms(1,2)] unfolding cache_push_def by blast
  have le: "us_size us s \<le> load_threshold (us_bucket_count us (c_store c))"
  proof -
    have "us_size us s = card (elems s)" "us_size us (c_store c) = card (elems (c_store c))"
      using s(2) assms(1,2) by (auto simp: load_inv_def cache_inv_def intro: uset_size_law)
    moreover have "us_size us (c_store c) < load_threshold (us_bucket_count us (c_store c))"
      using assms(2) by (auto simp: load_inv_def)
    ultimately show ?thesis using s(4) by linarith
  qed
  then have "us_size us s < load_threshold (us_bucket_count us (c_store c) * 2)"
    using assms(3) by (rule load_threshold_grows)
  then show ?thesis
    using s le assms(1,2)
    by (auto simp: maybe_rehash_def load_inv_def cache_inv_def Let_def uset_rehash_law uset_size_law)
qed

section \<open>An instance of the set, for witnesses\<close>

type_synonym 'p list_set = "'p cache_entry list \<times> nat"

definition list_uset :: "('p list_set, 'p) uset_ops" where
  "list_uset = \<lparr>
     us_find = (\<lambda>(es, n) h P. List.find (\<lambda>e. entry_hash e = h \<and> P e) es),
     us_insert = (\<lambda>(es, n) e. case List.find (\<lambda>x. entry_hash x = entry_hash e) es of
        None \<Rightarrow> ((e # es, n), e, True) | Some x \<Rightarrow> ((es, n), x, False)),
     us_erase = (\<lambda>(es, n) e. (removeAll e es, n)),
     us_assign = (\<lambda>(es, n) e p. (map (\<lambda>x. if x = e then x\<lparr>ce_data := p\<rparr> else x) es, n)),
     us_size = (\<lambda>(es, n). length (remdups es)),
     us_bucket_count = snd,
     us_rehash = (\<lambda>(es, n) m. (es, m))\<rparr>"

definition list_elems :: "'p list_set \<Rightarrow> 'p cache_entry set" where
  "list_elems s = set (fst s)"

lemma find_at_code:
  assumes "set_wf (set es)" and "\<And>e. entry_hash e = h \<Longrightarrow> P e"
  shows "case List.find (\<lambda>e. entry_hash e = h \<and> P e) es of None \<Rightarrow> at_code (set es) h = {}
         | Some e \<Rightarrow> at_code (set es) h = {e}"
proof (cases "List.find (\<lambda>e. entry_hash e = h \<and> P e) es")
  case None
  then have "\<forall>x \<in> set es. entry_hash x \<noteq> h" using assms(2) by (auto simp: find_None_iff)
  then show ?thesis using None by (auto simp: at_code_def)
next
  case (Some e)
  then have "e \<in> set es" "entry_hash e = h" by (auto simp: find_Some_iff)
  then show ?thesis using Some assms(1) by (auto simp: at_code_def set_wf_def inj_on_def)
qed

lemma list_uset_find: "find_law list_uset list_elems"
  unfolding find_law_def
proof (intro allI impI)
  fix s :: "'a list_set" and h and P :: "'a cache_entry \<Rightarrow> bool"
  assume "set_wf (list_elems s)" and "\<forall>e. entry_hash e = h \<longrightarrow> P e"
  then show "case us_find list_uset s h P of None \<Rightarrow> at_code (list_elems s) h = {}
             | Some e \<Rightarrow> at_code (list_elems s) h = {e}"
    using find_at_code[of "fst s" h P] by (cases s) (simp add: list_uset_def list_elems_def split: option.splits)
qed

lemma list_uset_insert: "insert_law list_uset list_elems"
  unfolding insert_law_def
proof (intro allI impI)
  fix s :: "'a list_set" and e :: "'a cache_entry"
  assume "set_wf (list_elems s)"
  then show "case us_insert list_uset s e of (s', e', b) \<Rightarrow>
      us_bucket_count list_uset s' = us_bucket_count list_uset s \<and>
      (if b then at_code (list_elems s) (entry_hash e) = {} \<and> list_elems s' = insert e (list_elems s) \<and> e' = e
       else at_code (list_elems s) (entry_hash e) = {e'} \<and> list_elems s' = list_elems s)"
    using find_at_code[of "fst s" "entry_hash e" "\<lambda>_. True"]
    by (cases s) (simp add: list_uset_def list_elems_def split: option.splits)
qed

lemma list_uset_laws: "uset_laws list_uset list_elems"
proof -
  have "erase_law list_uset (list_elems :: 'a list_set \<Rightarrow> _)"
    by (auto simp: erase_law_def list_uset_def list_elems_def)
  moreover have "assign_law list_uset (list_elems :: 'a list_set \<Rightarrow> _)"
    by (auto simp: assign_law_def list_uset_def list_elems_def)
  moreover have "size_law list_uset (list_elems :: 'a list_set \<Rightarrow> _)"
    by (auto simp: size_law_def list_uset_def list_elems_def length_remdups_card_conv)
  moreover have "rehash_law list_uset (list_elems :: 'a list_set \<Rightarrow> _)"
    by (auto simp: rehash_law_def list_uset_def list_elems_def)
  ultimately show ?thesis using list_uset_find list_uset_insert by (simp add: uset_laws_def)
qed

definition list_cache_empty :: "'p list_set cache" where
  "list_cache_empty = cache_init (\<lambda>n. ([], n))"

lemma list_cache_empty_load: "load_inv list_uset list_elems (list_cache_empty :: 'p list_set cache)"
  by (simp add: load_inv_def cache_inv_def list_cache_empty_def cache_init_def list_elems_def
      list_uset_def set_wf_def load_threshold_def initial_bucket_count_def)

lemma list_cache_empty_inv: "cache_inv list_elems (list_cache_empty :: 'p list_set cache)"
  by (rule list_cache_empty_load[unfolded load_inv_def, THEN conjunct1])

section \<open>Properties\<close>



text \<open>
  Erasing a key reports whether its code was present, removes exactly the
  entry with that code, and keeps the invariant of the set.
\<close>

theorem cache_erase_spec:
  assumes "uset_laws us elems" and "cache_inv elems c"
  shows "fst (cache_erase_str us hash k c) = (cache_find us hash k c \<noteq> Inl cant_found) \<and>
         cache_inv elems (snd (cache_erase_str us hash k c)) \<and>
         cache_find us hash k' (snd (cache_erase_str us hash k c)) =
           (if hash (c_str k') = hash (c_str k) then Inl cant_found else cache_find us hash k' c)"
  using cache_erase_cmap[OF assms] cache_find_cmap[OF assms, of hash]
    cache_find_cmap[OF assms(1) cache_erase_cmap(3)[OF assms]]
  by (auto split: option.splits)

theorem cache_erase_spec_witness:
  "fst (cache_erase_str list_uset (\<lambda>s. 5) [98] (list_cache_empty :: nat list_set cache)) = False"
proof -
  have "cache_find list_uset (\<lambda>s. 5) [98] (list_cache_empty :: nat list_set cache) = Inl cant_found"
    by (simp add: cache_find_def cache_find_key_def cache_lookup_def list_uset_def
        list_cache_empty_def cache_init_def)
  then show ?thesis
    using cache_erase_spec[OF list_uset_laws list_cache_empty_inv[where 'p = nat], of "\<lambda>s. 5" "[98]" "[]"]
    by simp
qed

text \<open>
  The load factor is an invariant: while allocations succeed, every push keeps
  the number of entries below three quarters of the number of buckets (the threshold is
  always that of the current bucket count), and the bucket array never shrinks.
\<close>

theorem cache_push_load_factor:
  assumes "uset_laws us elems" and "load_inv us elems c" and "2 \<le> us_bucket_count us (c_store c)"
  shows "load_inv us elems (cache_push us hash True k v c) \<and>
         us_size us (c_store (cache_push us hash True k v c)) <
           3 * us_bucket_count us (c_store (cache_push us hash True k v c)) div 4 \<and>
         us_bucket_count us (c_store c) \<le> us_bucket_count us (c_store (cache_push us hash True k v c))"
proof -
  let ?c = "cache_push us hash True k v c"
  have l: "load_inv us elems ?c" and g: "us_bucket_count us (c_store c) \<le> us_bucket_count us (c_store ?c)"
    using cache_push_load_inv[OF assms] by blast+
  from l have "us_size us (c_store ?c) < load_threshold (us_bucket_count us (c_store ?c))"
    unfolding load_inv_def by metis
  then show ?thesis using l g by (simp add: load_threshold_def)
qed

theorem cache_push_load_factor_witness:
  "load_inv list_uset list_elems (cache_push list_uset (\<lambda>s. 5) True [98] (1::nat) list_cache_empty)"
  using cache_push_load_factor[OF list_uset_laws list_cache_empty_load, of "\<lambda>s. 5" "[98]" "1::nat"]
  by (simp add: list_uset_def list_cache_empty_def cache_init_def initial_bucket_count_def)

end
