(* ===== verification/Mqtt_Topic.thy ===== *)
theory Mqtt_Topic
  imports Cache
begin

text \<open>
  \<open>src/app/mqtt/mqtt_topic.hh\<close>: the registry of subscriptions. The cache maps a topic
  to a shared pointer to the list of its subscribers, and \<open>subscribe\<close> and
  \<open>unsubscribe\<close> change that list in place. The lists live in a store from addresses to
  lists; \<open>make_shared\<close> takes the next free address.
\<close>

record subscribe_info =
  si_cpu_id :: u32
  si_client_id :: "byte list"
  si_qos :: byte

record 's topic_state =
  ts_cache :: "'s cache"
  ts_heap :: "nat \<rightharpoonup> subscribe_info list"
  ts_next :: nat

definition topic_subscribe ::
  "('s, nat) uset_ops \<Rightarrow> (byte list \<Rightarrow> u64) \<Rightarrow> bool \<Rightarrow> byte list \<Rightarrow> subscribe_info \<Rightarrow>
   's topic_state \<Rightarrow> 's topic_state res" where
  "topic_subscribe us hash alloc_ok topic who ts =
     (case cache_find us hash topic (ts_cache ts) of
        Inl _ \<Rightarrow>
          let v = ts_next ts in
          Inr (ts\<lparr>ts_heap := (ts_heap ts)(v \<mapsto> [who]), ts_next := Suc v,
                  ts_cache := cache_push us hash alloc_ok topic v (ts_cache ts)\<rparr>)
      | Inr v \<Rightarrow>
          (case ts_heap ts v of None \<Rightarrow> Inl Undef
           | Some xs \<Rightarrow> Inr (ts\<lparr>ts_heap := (ts_heap ts)(v \<mapsto> xs @ [who])\<rparr>)))"

definition topic_unsubscribe ::
  "('s, nat) uset_ops \<Rightarrow> (byte list \<Rightarrow> u64) \<Rightarrow> byte list \<Rightarrow> byte list \<Rightarrow>
   's topic_state \<Rightarrow> (bool \<times> 's topic_state) res" where
  "topic_unsubscribe us hash topic who ts =
     (case cache_find us hash topic (ts_cache ts) of
        Inl _ \<Rightarrow> Inr (False, ts)
      | Inr v \<Rightarrow>
          (case ts_heap ts v of None \<Rightarrow> Inl Undef
           | Some xs \<Rightarrow>
               Inr (True, ts\<lparr>ts_heap := (ts_heap ts)(v \<mapsto> filter (\<lambda>s. \<not> si_client_id s = c_str who) xs)\<rparr>)))"

section \<open>Abstraction: the subscribers of a topic\<close>

definition subscribers ::
  "('s \<Rightarrow> nat cache_entry set) \<Rightarrow> (byte list \<Rightarrow> u64) \<Rightarrow> 's topic_state \<Rightarrow> byte list \<Rightarrow> subscribe_info list" where
  "subscribers elems hash ts topic =
     (case cmap elems (ts_cache ts) (hash (c_str topic)) of None \<Rightarrow> []
      | Some v \<Rightarrow> (case ts_heap ts v of None \<Rightarrow> [] | Some xs \<Rightarrow> xs))"

text \<open>Every stored pointer is allocated, two codes never share a list, and the next address
  is free.\<close>

definition topic_inv :: "('s \<Rightarrow> nat cache_entry set) \<Rightarrow> 's topic_state \<Rightarrow> bool" where
  "topic_inv elems ts \<longleftrightarrow> cache_inv elems (ts_cache ts) \<and>
     (\<forall>h v. cmap elems (ts_cache ts) h = Some v \<longrightarrow> ts_heap ts v \<noteq> None \<and> v < ts_next ts) \<and>
     (\<forall>h h' v. cmap elems (ts_cache ts) h = Some v \<longrightarrow> cmap elems (ts_cache ts) h' = Some v \<longrightarrow> h = h')"

lemma subscribe_step:
  assumes "uset_laws us elems" and "topic_inv elems ts"
  shows "\<exists>ts'. topic_subscribe us hash ok topic who ts = Inr ts' \<and> topic_inv elems ts' \<and>
     (\<forall>t. subscribers elems hash ts' t =
        (if hash (c_str t) = hash (c_str topic) then subscribers elems hash ts t @ [who]
         else subscribers elems hash ts t))"
proof -
  let ?h = "hash (c_str topic)" and ?m = "cmap elems (ts_cache ts)"
  have ci: "cache_inv elems (ts_cache ts)" using assms(2) by (simp add: topic_inv_def)
  have alloc: "ts_heap ts v \<noteq> None \<and> v < ts_next ts" if "?m h = Some v" for h v
    using assms(2) that by (auto simp: topic_inv_def)
  have inj: "h = h'" if "?m h = Some v" "?m h' = Some v" for h h' v
    using assms(2) that by (auto simp: topic_inv_def)
  have find: "cache_find us hash topic (ts_cache ts) = (case ?m ?h of None \<Rightarrow> Inl cant_found | Some p \<Rightarrow> Inr p)"
    by (rule cache_find_cmap[OF assms(1) ci])
  show ?thesis
  proof (cases "?m ?h")
    case None
    let ?v = "ts_next ts"
    let ?ts' = "ts\<lparr>ts_heap := (ts_heap ts)(?v \<mapsto> [who]), ts_next := Suc ?v,
                   ts_cache := cache_push us hash ok topic ?v (ts_cache ts)\<rparr>"
    have m': "cmap elems (ts_cache ?ts') = ?m(?h \<mapsto> ?v)"
      using cache_push_cmap[OF assms(1) ci] by simp
    have "topic_inv elems ?ts'"
      unfolding topic_inv_def m' using cache_push_inv[OF assms(1) ci] alloc inj
      by (fastforce split: if_splits dest: alloc)
    moreover have "subscribers elems hash ?ts' t =
        (if hash (c_str t) = ?h then subscribers elems hash ts t @ [who] else subscribers elems hash ts t)" for t
    proof (cases "hash (c_str t) = ?h")
      case True
      then show ?thesis using None cache_push_cmap[OF assms(1) ci] by (simp add: subscribers_def)
    next
      case False
      then have "cmap elems (ts_cache ?ts') (hash (c_str t)) = ?m (hash (c_str t))"
        using m' False by simp
      moreover have "?m (hash (c_str t)) \<noteq> Some ?v" using alloc[of "hash (c_str t)" ?v] by auto
      ultimately show ?thesis using False by (auto simp: subscribers_def split: option.split)
    qed
    moreover have "topic_subscribe us hash ok topic who ts = Inr ?ts'"
      using find None by (simp add: topic_subscribe_def Let_def)
    ultimately show ?thesis by blast
  next
    case (Some v)
    obtain xs where xs: "ts_heap ts v = Some xs" using alloc[OF Some] by auto
    let ?ts' = "ts\<lparr>ts_heap := (ts_heap ts)(v \<mapsto> xs @ [who])\<rparr>"
    have "topic_inv elems ?ts'" using assms(2) by (auto simp: topic_inv_def)
    moreover have "subscribers elems hash ?ts' t =
        (if hash (c_str t) = ?h then subscribers elems hash ts t @ [who] else subscribers elems hash ts t)" for t
      using Some xs inj by (auto simp: subscribers_def split: option.splits)
    ultimately show ?thesis using find Some xs by (simp add: topic_subscribe_def)
  qed
qed

lemma unsubscribe_step:
  assumes "uset_laws us elems" and "topic_inv elems ts"
  shows "\<exists>ts'. topic_unsubscribe us hash topic who ts =
       Inr (cache_find us hash topic (ts_cache ts) \<noteq> Inl cant_found, ts') \<and> topic_inv elems ts' \<and>
     (\<forall>t. subscribers elems hash ts' t =
        (if hash (c_str t) = hash (c_str topic)
         then filter (\<lambda>s. si_client_id s \<noteq> c_str who) (subscribers elems hash ts t)
         else subscribers elems hash ts t))"
proof -
  let ?h = "hash (c_str topic)" and ?m = "cmap elems (ts_cache ts)"
  have ci: "cache_inv elems (ts_cache ts)" using assms(2) by (simp add: topic_inv_def)
  have find: "cache_find us hash topic (ts_cache ts) = (case ?m ?h of None \<Rightarrow> Inl cant_found | Some p \<Rightarrow> Inr p)"
    by (rule cache_find_cmap[OF assms(1) ci])
  have inj: "h = h'" if "?m h = Some v" "?m h' = Some v" for h h' v
    using assms(2) that by (auto simp: topic_inv_def)
  show ?thesis
  proof (cases "?m ?h")
    case None
    then show ?thesis using find assms(2) by (auto simp: topic_unsubscribe_def subscribers_def)
  next
    case (Some v)
    then obtain xs where xs: "ts_heap ts v = Some xs" using assms(2) by (fastforce simp: topic_inv_def)
    let ?ts' = "ts\<lparr>ts_heap := (ts_heap ts)(v \<mapsto> filter (\<lambda>s. si_client_id s \<noteq> c_str who) xs)\<rparr>"
    have "topic_inv elems ?ts'" using assms(2) by (auto simp: topic_inv_def)
    moreover have "subscribers elems hash ?ts' t =
        (if hash (c_str t) = ?h then filter (\<lambda>s. si_client_id s \<noteq> c_str who) (subscribers elems hash ts t)
         else subscribers elems hash ts t)" for t
      using Some xs inj by (auto simp: subscribers_def split: option.splits)
    ultimately show ?thesis using find Some xs by (simp add: topic_unsubscribe_def)
  qed
qed

section \<open>Properties\<close>

definition topic_empty :: "nat list_set topic_state" where
  "topic_empty = \<lparr>ts_cache = list_cache_empty, ts_heap = Map.empty, ts_next = 0\<rparr>"

lemma topic_empty_inv: "topic_inv list_elems topic_empty"
  using list_cache_empty_inv[where 'p = nat]
  by (auto simp: topic_inv_def topic_empty_def cmap_def list_cache_empty_def cache_init_def at_code_def list_elems_def
      split: if_splits)

lemma topic_empty_subscribers: "subscribers list_elems hash topic_empty t = []"
  by (simp add: subscribers_def topic_empty_def cmap_def list_cache_empty_def cache_init_def
      at_code_def list_elems_def)

text \<open>
  Subscribing never fails on a well-formed registry, keeps it well formed, and
  puts the subscriber at the end of the topic's list, whether the topic was known or not;
  topics with another hash code keep their subscribers.
\<close>

theorem topic_subscribe_adds:
  assumes "uset_laws us elems" and "topic_inv elems ts"
  shows "\<exists>ts'. topic_subscribe us hash ok topic who ts = Inr ts' \<and> topic_inv elems ts' \<and>
     subscribers elems hash ts' topic = subscribers elems hash ts topic @ [who] \<and>
     (\<forall>t. hash (c_str t) \<noteq> hash (c_str topic) \<longrightarrow>
        subscribers elems hash ts' t = subscribers elems hash ts t)"
  using subscribe_step[OF assms, of hash ok topic who] by auto

theorem topic_subscribe_adds_witness:
  "\<exists>ts'. topic_subscribe list_uset (\<lambda>s. of_nat (length s)) True [65] \<lparr>si_cpu_id = 0, si_client_id = [66], si_qos = 1\<rparr> topic_empty = Inr ts' \<and>
     subscribers list_elems (\<lambda>s. of_nat (length s)) ts' [65] = [\<lparr>si_cpu_id = 0, si_client_id = [66], si_qos = 1\<rparr>]"
  using topic_subscribe_adds[OF list_uset_laws topic_empty_inv, of "\<lambda>s. of_nat (length s)" True "[65]"
      "\<lparr>si_cpu_id = 0, si_client_id = [66], si_qos = 1\<rparr>"]
  unfolding topic_empty_subscribers by auto

text \<open>
  Unsubscribing removes all entries of the client from the topic's list and no
  entry of another client, keeps the order of the rest and the lists of topics with another
  hash code, and returns whether the topic was known.
\<close>

theorem topic_unsubscribe_removes:
  assumes "uset_laws us elems" and "topic_inv elems ts"
  shows "\<exists>ts'. topic_unsubscribe us hash topic who ts =
       Inr (cache_find us hash topic (ts_cache ts) \<noteq> Inl cant_found, ts') \<and> topic_inv elems ts' \<and>
     subscribers elems hash ts' topic =
       filter (\<lambda>s. si_client_id s \<noteq> c_str who) (subscribers elems hash ts topic) \<and>
     (\<forall>t. hash (c_str t) \<noteq> hash (c_str topic) \<longrightarrow>
        subscribers elems hash ts' t = subscribers elems hash ts t)"
  using unsubscribe_step[OF assms, of hash topic who] by auto

theorem topic_unsubscribe_removes_witness:
  "\<exists>r ts'. topic_unsubscribe list_uset (\<lambda>s. of_nat (length s)) [65] [66] topic_empty = Inr (r, ts') \<and> topic_inv list_elems ts'"
  using topic_unsubscribe_removes[OF list_uset_laws topic_empty_inv, of "\<lambda>s. of_nat (length s)" "[65]" "[66]"]
  by blast

end
