(* ===== verification/Mqtt_Session.thy ===== *)
theory Mqtt_Session
  imports Mqtt_Packet Mqtt_Topic
begin

text \<open>
  \<open>src/app/mqtt/mqtt_session.hh\<close>, \<open>mqtt_proc.hh\<close> and the five \<open>handle_*.hh\<close>:
  one MQTT connection. The code is a chain of flows; a session is always suspended in one of
  them, and that point is its \<open>phase\<close>. An event is what resumes a flow: the receive buffer
  is long enough for the pending \<open>wait_packet\<close>, its timer fires, the task queue runs the
  handler's task, a send completes or fails. \<open>session_step\<close> is the code between two
  suspensions.

  An exception ends in the last \<open>then\<close> of the chain, which closes the connection; a failed
  assertion or an undefined access (\<open>Abort\<close>, \<open>Undef\<close>) is the result of the step.
\<close>

section \<open>State\<close>

datatype task =
    TConnect
  | TPong
  | TSubscribe subscribe_data
  | TUnsubscribe subscribe_data

datatype phase =
    WaitCommand
  | WaitRemaining byte u32 u32   \<comment> \<open>command, \<open>last\<close>, \<open>multiplier\<close>\<close>
  | WaitBody byte u32            \<comment> \<open>command, \<open>remaining\<close>\<close>
  | WaitTask task
  | WaitSend
  | Closed

record session =
  ss_ptr :: nat
  ss_info :: "connect_data option"
  ss_connected :: bool           \<comment> \<open>in \<open>loop_session\<close>, no longer in \<open>wait_connected\<close>\<close>
  ss_phase :: phase
  ss_sent :: "byte list list"    \<comment> \<open>the packets given to \<open>send_packet\<close>\<close>

record 's server =
  sv_topics :: "'s topic_state"
  sv_sessions :: "'s cache"

record 's env =
  env_us :: "('s, nat) uset_ops"
  env_hash :: "byte list \<Rightarrow> u64"
  env_alloc :: bool
  env_lcore :: u32

datatype event = EvReady ringbuffer | EvTimeout | EvTask | EvSent | EvSendError

definition session_start :: "nat \<Rightarrow> session" where
  "session_start p = \<lparr>ss_ptr = p, ss_info = None, ss_connected = False, ss_phase = WaitCommand, ss_sent = []\<rparr>"

definition set_connect_info :: "connect_data \<Rightarrow> session \<Rightarrow> session" where
  "set_connect_info d s = s\<lparr>ss_info := Some d\<rparr>"

definition get_id :: "session \<Rightarrow> byte list res" where
  \<comment> \<open>\<open>session_info.data\<close> is a null pointer before the CONNECT\<close>
  "get_id s = (case ss_info s of None \<Rightarrow> Inl Undef | Some d \<Rightarrow> Inr (c_str (cn_client_id d)))"

definition session_has_clean_session :: "session \<Rightarrow> bool res" where
  "session_has_clean_session s = (case ss_info s of None \<Rightarrow> Inl Undef | Some d \<Rightarrow> Inr (check_clean_session d))"

section \<open>Reading a packet\<close>

definition wait_remaining :: "byte \<Rightarrow> u32 \<Rightarrow> u32 \<Rightarrow> phase res" where
  "wait_remaining cmd lst multiplier =
     (if multiplier > 128 * 128 * 128 then Inl (Throw ''error for read remaining'')
      else Inr (WaitRemaining cmd lst multiplier))"

definition on_command :: "ringbuffer \<Rightarrow> (phase \<times> ringbuffer) res" where
  "on_command rb =
     rbind (rb_pop_uint_8 rb) (\<lambda>(cmd, rb).
     rbind (wait_remaining cmd 0 0) (\<lambda>ph. Inr (ph, rb)))"

definition on_remaining :: "byte \<Rightarrow> u32 \<Rightarrow> u32 \<Rightarrow> ringbuffer \<Rightarrow> (phase \<times> ringbuffer) res" where
  "on_remaining cmd lst multiplier rb =
     rbind (rb_pop_uint_8 rb) (\<lambda>(b, rb).
     let u = (ucast b :: u32); r = lst + (u AND 0b01111111) * multiplier in
     if u AND 0b10000000 \<noteq> 0
     then rbind (wait_remaining cmd lst (multiplier * 128)) (\<lambda>ph. Inr (ph, rb))
     else Inr (WaitBody cmd r, rb))"

section \<open>Handlers\<close>

definition send_packet :: "byte list \<Rightarrow> session \<Rightarrow> session" where
  "send_packet buf s = s\<lparr>ss_sent := ss_sent s @ [buf], ss_phase := WaitSend\<rparr>"

definition handle_connect_task :: "'s env \<Rightarrow> session \<Rightarrow> 's server \<Rightarrow> (session \<times> 's server) res" where
  "handle_connect_task env s sv =
     rbind (get_id s) (\<lambda>cid.
     let sv = sv\<lparr>sv_sessions := cache_push (env_us env) (env_hash env) (env_alloc env) cid (ss_ptr s) (sv_sessions sv)\<rparr> in
     rbind (session_has_clean_session s) (\<lambda>clean.
     Inr (send_packet (take connack_len (connack_make_buf (if clean then 1 else 0) 0)) s, sv)))"

definition pong_task :: "session \<Rightarrow> session" where
  "pong_task s = send_packet (take pong_len pong_make_buf) s"

fun subscribe_all ::
  "'s env \<Rightarrow> byte list \<Rightarrow> topic_info list \<Rightarrow> 's topic_state \<Rightarrow> 's topic_state res" where
  "subscribe_all env cid [] ts = Inr ts"
| "subscribe_all env cid (e # es) ts =
     rbind (topic_subscribe (env_us env) (env_hash env) (env_alloc env) (c_str (ti_topic e))
              \<lparr>si_cpu_id = env_lcore env, si_client_id = cid, si_qos = ti_qos e\<rparr> ts)
       (subscribe_all env cid es)"

definition handle_subscribe_task ::
  "'s env \<Rightarrow> subscribe_data \<Rightarrow> session \<Rightarrow> 's server \<Rightarrow> (session \<times> 's server) res" where
  "handle_subscribe_task env d s sv =
     (if sb_infos d = [] then Inr (send_packet (take suback_len (suback_make_buf (sb_packet_id d))) s, sv) else
      rbind (get_id s) (\<lambda>cid.
      rbind (subscribe_all env cid (sb_infos d) (sv_topics sv)) (\<lambda>ts.
      Inr (send_packet (take suback_len (suback_make_buf (sb_packet_id d))) s, sv\<lparr>sv_topics := ts\<rparr>))))"

fun unsubscribe_all ::
  "'s env \<Rightarrow> byte list \<Rightarrow> topic_info list \<Rightarrow> 's topic_state \<Rightarrow> 's topic_state res" where
  "unsubscribe_all env cid [] ts = Inr ts"
| "unsubscribe_all env cid (e # es) ts =
     rbind (topic_unsubscribe (env_us env) (env_hash env) (c_str (ti_topic e)) cid ts)
       (\<lambda>(_, ts). unsubscribe_all env cid es ts)"

definition handle_unsubscribe_task ::
  "'s env \<Rightarrow> subscribe_data \<Rightarrow> session \<Rightarrow> 's server \<Rightarrow> (session \<times> 's server) res" where
  "handle_unsubscribe_task env d s sv =
     (if sb_infos d = [] then Inr (send_packet (take unsuback_len (unsuback_make_buf (sb_packet_id d))) s, sv) else
      rbind (get_id s) (\<lambda>cid.
      rbind (unsubscribe_all env cid (sb_infos d) (sv_topics sv)) (\<lambda>ts.
      Inr (send_packet (take unsuback_len (unsuback_make_buf (sb_packet_id d))) s, sv\<lparr>sv_topics := ts\<rparr>))))"

fun run_task :: "'s env \<Rightarrow> task \<Rightarrow> session \<Rightarrow> 's server \<Rightarrow> (session \<times> 's server) res" where
  "run_task env TConnect s sv = handle_connect_task env s sv"
| "run_task env TPong s sv = Inr (pong_task s, sv)"
| "run_task env (TSubscribe d) s sv = handle_subscribe_task env d s sv"
| "run_task env (TUnsubscribe d) s sv = handle_unsubscribe_task env d s sv"

section \<open>Dispatch\<close>

text \<open>\<open>wait_connected\<close>: only a CONNECT is accepted.\<close>

definition on_body_connecting :: "byte \<Rightarrow> u32 \<Rightarrow> ringbuffer \<Rightarrow> session \<Rightarrow> (session \<times> ringbuffer) res" where
  "on_body_connecting cmd remaining rb s =
     (if cmd AND 0xF0 = command_code connect
      then rbind (mqtt_pkt_connect cmd remaining rb) (\<lambda>(d, rb).
           Inr ((set_connect_info d s)\<lparr>ss_phase := WaitTask TConnect\<rparr>, rb))
      else Inl (Throw ''un connected!!''))"

text \<open>\<open>loop_session\<close>. A PUBLISH is read and dropped: \<open>handle_publish\<close> returns an
  immediate flow, and the loop starts again.\<close>

definition on_body_connected :: "byte \<Rightarrow> u32 \<Rightarrow> ringbuffer \<Rightarrow> session \<Rightarrow> (session \<times> ringbuffer) res" where
  "on_body_connected cmd remaining rb s =
     (let c = cmd AND 0xF0 in
      if c = command_code connect then Inl (Throw ''re-connect'')
      else if c = command_code pingreq then Inr (s\<lparr>ss_phase := WaitTask TPong\<rparr>, rb)
      else if c = command_code publish
      then rbind (mqtt_pkt_publish cmd remaining rb) (\<lambda>(d, rb). Inr (s\<lparr>ss_phase := WaitCommand\<rparr>, rb))
      else if c = command_code subscribe
      then rbind (mqtt_pkt_subscribe cmd remaining rb) (\<lambda>(d, rb). Inr (s\<lparr>ss_phase := WaitTask (TSubscribe d)\<rparr>, rb))
      else if c = command_code unsubscribe
      then rbind (mqtt_pkt_unsubscribe cmd remaining rb) (\<lambda>(d, rb). Inr (s\<lparr>ss_phase := WaitTask (TUnsubscribe d)\<rparr>, rb))
      else Inl (Throw ''unknown command type''))"

definition close_session :: "session \<Rightarrow> session" where
  "close_session s = s\<lparr>ss_phase := Closed\<rparr>"

definition on_ready :: "ringbuffer \<Rightarrow> session \<Rightarrow> (session \<times> ringbuffer) res" where
  "on_ready rb s =
     (case ss_phase s of
        WaitCommand \<Rightarrow> rbind (on_command rb) (\<lambda>(ph, rb). Inr (s\<lparr>ss_phase := ph\<rparr>, rb))
      | WaitRemaining cmd lst mult \<Rightarrow>
          rbind (on_remaining cmd lst mult rb) (\<lambda>(ph, rb). Inr (s\<lparr>ss_phase := ph\<rparr>, rb))
      | WaitBody cmd remaining \<Rightarrow>
          (if ss_connected s then on_body_connected cmd remaining rb s
           else on_body_connecting cmd remaining rb s)
      | _ \<Rightarrow> Inr (s, rb))"

definition waiting_packet :: "session \<Rightarrow> bool" where
  "waiting_packet s =
     (case ss_phase s of WaitCommand \<Rightarrow> True | WaitRemaining _ _ _ \<Rightarrow> True | WaitBody _ _ \<Rightarrow> True | _ \<Rightarrow> False)"

text \<open>The receive buffer is part of the result while the connection is open.\<close>

fun session_step ::
  "'s env \<Rightarrow> event \<Rightarrow> session \<Rightarrow> 's server \<Rightarrow> (session \<times> 's server \<times> ringbuffer option) res" where
  "session_step env (EvReady rb) s sv =
     (case on_ready rb s of
        Inl (Throw _) \<Rightarrow> Inr (close_session s, sv, None)
      | Inl f \<Rightarrow> Inl f
      | Inr (s', rb') \<Rightarrow> Inr (s', sv, Some rb'))"
| "session_step env EvTimeout s sv =
     Inr (if waiting_packet s then close_session s else s, sv, None)"
| "session_step env EvTask s sv =
     (case ss_phase s of
        WaitTask t \<Rightarrow>
          (case run_task env t s sv of
             Inl (Throw _) \<Rightarrow> Inr (close_session s, sv, None)
           | Inl f \<Rightarrow> Inl f
           | Inr (s', sv') \<Rightarrow> Inr (s', sv', None))
      | _ \<Rightarrow> Inr (s, sv, None))"
| "session_step env EvSent s sv =
     Inr (if ss_phase s = WaitSend then s\<lparr>ss_phase := WaitCommand, ss_connected := True\<rparr> else s, sv, None)"
| "session_step env EvSendError s sv =
     Inr (if ss_phase s = WaitSend then close_session s else s, sv, None)"

text \<open>When \<open>wait_packet\<close> resumes the flow: the buffer is not empty and holds the bytes
  asked for.\<close>

definition packet_need :: "session \<Rightarrow> nat" where
  "packet_need s = (case ss_phase s of WaitBody _ remaining \<Rightarrow> unat remaining | _ \<Rightarrow> 1)"

fun event_enabled :: "event \<Rightarrow> session \<Rightarrow> bool" where
  "event_enabled (EvReady rb) s \<longleftrightarrow>
     waiting_packet s \<and> \<not> rb_empty rb \<and> packet_need s \<le> rb_len rb"
| "event_enabled _ s \<longleftrightarrow> True"

inductive session_run :: "'s env \<Rightarrow> nat \<Rightarrow> 's server \<Rightarrow> session \<Rightarrow> 's server \<Rightarrow> bool"
  for env p sv0 where
  run_start: "session_run env p sv0 (session_start p) sv0"
| run_step: "\<lbrakk>session_run env p sv0 s sv; event_enabled ev s;
    session_step env ev s sv = Inr (s', sv', rb)\<rbrakk> \<Longrightarrow> session_run env p sv0 s' sv'"

section \<open>Invariant of a session\<close>

fun phase_zero :: "phase \<Rightarrow> bool" where
  "phase_zero (WaitRemaining _ l m) \<longleftrightarrow> l = 0 \<and> m = 0"
| "phase_zero (WaitBody _ r) \<longleftrightarrow> r = 0"
| "phase_zero _ \<longleftrightarrow> True"

definition connecting_ok :: "session \<Rightarrow> bool" where
  "connecting_ok s \<longleftrightarrow> (\<forall>b \<in> set (ss_sent s). \<exists>c. b = connack_make_buf c 0) \<and>
     (case ss_phase s of WaitTask t \<Rightarrow> t = TConnect \<and> ss_info s \<noteq> None | WaitSend \<Rightarrow> ss_info s \<noteq> None | _ \<Rightarrow> True)"

definition sess_inv :: "'s server \<Rightarrow> session \<Rightarrow> 's server \<Rightarrow> bool" where
  "sess_inv sv0 s sv \<longleftrightarrow> phase_zero (ss_phase s) \<and>
     (ss_connected s \<longrightarrow> ss_info s \<noteq> None) \<and>
     (\<not> ss_connected s \<longrightarrow> sv_topics sv = sv_topics sv0 \<and> connecting_ok s)"

lemma sess_inv_start: "sess_inv sv0 (session_start p) sv0"
  by (simp add: sess_inv_def session_start_def connecting_ok_def)

lemma sess_inv_close: "sess_inv sv0 s sv \<Longrightarrow> sess_inv sv0 (close_session s) sv"
  by (simp add: sess_inv_def close_session_def connecting_ok_def)

lemma connack_take: "take connack_len (connack_make_buf c 0) = connack_make_buf c 0"
  by (simp add: connack_len_def connack_make_buf_def connack_to_buf_def)

lemma on_ready_connected:
  "on_ready rb s = Inr (s', rb') \<Longrightarrow> ss_connected s' = ss_connected s \<and> ss_sent s' = ss_sent s"
  by (auto simp: on_ready_def rbind_eq_Inr_iff on_body_connected_def on_body_connecting_def
      set_connect_info_def Let_def split: phase.splits if_splits)

lemma on_ready_phase_zero:
  "on_ready rb s = Inr (s', rb') \<Longrightarrow> phase_zero (ss_phase s) \<Longrightarrow> phase_zero (ss_phase s')"
  by (auto simp: on_ready_def rbind_eq_Inr_iff on_body_connected_def on_body_connecting_def
      on_command_def on_remaining_def wait_remaining_def Let_def split: phase.splits if_splits)

lemma on_ready_info:
  "on_ready rb s = Inr (s', rb') \<Longrightarrow> ss_connected s \<Longrightarrow> ss_info s' = ss_info s"
  by (auto simp: on_ready_def rbind_eq_Inr_iff on_body_connected_def Let_def split: phase.splits if_splits)

lemma on_ready_connecting:
  "on_ready rb s = Inr (s', rb') \<Longrightarrow> \<not> ss_connected s \<Longrightarrow> connecting_ok s \<Longrightarrow> connecting_ok s'"
  by (auto simp: on_ready_def rbind_eq_Inr_iff on_body_connecting_def set_connect_info_def connecting_ok_def
      on_command_def on_remaining_def wait_remaining_def Let_def split: phase.splits if_splits)

lemma run_task_connected:
  assumes "run_task env t s sv = Inr (s', sv')"
  shows "ss_connected s' = ss_connected s" "ss_info s' = ss_info s" "ss_phase s' = WaitSend"
    "\<exists>b. ss_sent s' = ss_sent s @ [b]"
  using assms
  by (cases t; auto simp: handle_connect_task_def pong_task_def handle_subscribe_task_def
      handle_unsubscribe_task_def rbind_eq_Inr_iff send_packet_def Let_def split: if_splits)+

lemma run_task_TConnect:
  assumes "run_task env TConnect s sv = Inr (s', sv')"
  shows "sv_topics sv' = sv_topics sv \<and> (\<exists>c. ss_sent s' = ss_sent s @ [connack_make_buf c 0])"
  using assms by (auto simp: handle_connect_task_def rbind_eq_Inr_iff send_packet_def connack_take)

lemma task_step_inv:
  assumes "sess_inv sv0 s sv" and "ss_phase s = WaitTask t" and "run_task env t s sv = Inr (s', sv')"
  shows "sess_inv sv0 s' sv'"
proof (cases "ss_connected s")
  case True
  then show ?thesis using assms(1) run_task_connected[OF assms(3)] by (simp add: sess_inv_def)
next
  case False
  then have t: "t = TConnect" "ss_info s \<noteq> None" "connecting_ok s" "sv_topics sv = sv_topics sv0"
    using assms(1,2) by (auto simp: sess_inv_def connecting_ok_def)
  then obtain c where "sv_topics sv' = sv_topics sv" "ss_sent s' = ss_sent s @ [connack_make_buf c 0]"
    using run_task_TConnect assms(3) by blast
  then show ?thesis using False t run_task_connected[OF assms(3)]
    by (auto simp: sess_inv_def connecting_ok_def)
qed

lemma session_step_inv:
  assumes "sess_inv sv0 s sv" and "session_step env ev s sv = Inr (s', sv', rb)"
  shows "sess_inv sv0 s' sv'"
proof (cases ev)
  case (EvReady r)
  show ?thesis
  proof (cases "on_ready r s")
    case (Inl f)
    then show ?thesis using assms EvReady sess_inv_close[OF assms(1)] by (cases f) auto
  next
    case (Inr q)
    obtain s2 r2 where q: "q = (s2, r2)" by (cases q)
    then have "s' = s2" "sv' = sv" using Inr assms(2) EvReady by simp_all
    then show ?thesis
      using assms(1) Inr q on_ready_connected on_ready_phase_zero on_ready_info on_ready_connecting
      unfolding sess_inv_def by metis
  qed
next
  case EvTimeout
  then show ?thesis using assms sess_inv_close[OF assms(1)] by (auto split: if_splits)
next
  case EvTask
  show ?thesis
  proof (cases "ss_phase s")
    case (WaitTask t)
    show ?thesis
    proof (cases "run_task env t s sv")
      case (Inl f)
      then show ?thesis using assms EvTask WaitTask sess_inv_close[OF assms(1)] by (cases f) auto
    next
      case (Inr q)
      then have "run_task env t s sv = Inr (s', sv')"
        using assms(2) EvTask WaitTask by (cases q) simp
      then show ?thesis by (rule task_step_inv[OF assms(1) WaitTask])
    qed
  qed (use assms EvTask in simp_all)
next
  case EvSent
  show ?thesis
  proof (cases "ss_phase s = WaitSend")
    case True
    then have "ss_info s \<noteq> None" using assms(1) by (cases "ss_connected s") (auto simp: sess_inv_def connecting_ok_def)
    then show ?thesis using True assms(2) EvSent by (auto simp: sess_inv_def)
  next
    case False
    then show ?thesis using assms EvSent by simp
  qed
next
  case EvSendError
  then show ?thesis using assms sess_inv_close[OF assms(1)] by (auto split: if_splits)
qed

lemma session_run_inv: "session_run env p sv0 s sv \<Longrightarrow> sess_inv sv0 s sv"
  by (induction rule: session_run.induct) (auto intro: sess_inv_start session_step_inv)

section \<open>The handlers on the registry of topics\<close>

lemma c_str_idem [simp]: "c_str (c_str s) = c_str s"
  by (simp add: c_str_def takeWhile_idem)

definition env_ok :: "'s env \<Rightarrow> ('s \<Rightarrow> nat cache_entry set) \<Rightarrow> bool" where
  "env_ok env elems \<longleftrightarrow> uset_laws (env_us env) elems"

definition client_info :: "'s env \<Rightarrow> byte list \<Rightarrow> topic_info \<Rightarrow> subscribe_info" where
  "client_info env cid e = \<lparr>si_cpu_id = env_lcore env, si_client_id = cid, si_qos = ti_qos e\<rparr>"

abbreviation same_topic :: "'s env \<Rightarrow> byte list \<Rightarrow> topic_info \<Rightarrow> bool" where
  "same_topic env t e \<equiv> env_hash env (c_str (ti_topic e)) = env_hash env (c_str t)"

lemma subscribe_all_spec:
  assumes "env_ok env elems" and "topic_inv elems ts"
  shows "\<exists>ts'. subscribe_all env cid es ts = Inr ts' \<and> topic_inv elems ts' \<and>
     (\<forall>t. subscribers elems (env_hash env) ts' t =
        subscribers elems (env_hash env) ts t @ map (client_info env cid) (filter (same_topic env t) es))"
  using assms(2)
proof (induction es arbitrary: ts)
  case Nil
  then show ?case by simp
next
  case (Cons e es)
  let ?sub = "subscribers elems (env_hash env)"
  obtain ts1 where 1: "topic_subscribe (env_us env) (env_hash env) (env_alloc env) (c_str (ti_topic e))
        (client_info env cid e) ts = Inr ts1" "topic_inv elems ts1"
      "\<And>t. ?sub ts1 t = (if env_hash env (c_str t) = env_hash env (c_str (ti_topic e))
          then ?sub ts t @ [client_info env cid e] else ?sub ts t)"
    using subscribe_step[OF assms(1)[unfolded env_ok_def] Cons.prems, of "env_hash env" "env_alloc env"
        "c_str (ti_topic e)" "client_info env cid e"] by auto
  obtain ts2 where 2: "subscribe_all env cid es ts1 = Inr ts2" "topic_inv elems ts2"
      "\<And>t. ?sub ts2 t = ?sub ts1 t @ map (client_info env cid) (filter (same_topic env t) es)"
    using Cons.IH[OF 1(2)] by blast
  have "subscribe_all env cid (e # es) ts = Inr ts2" using 1(1) 2(1) by (simp add: client_info_def)
  moreover have "?sub ts2 t = ?sub ts t @ map (client_info env cid) (filter (same_topic env t) (e # es))" for t
    using 1(3) 2(3) by simp
  ultimately show ?case using 2(2) by blast
qed

lemma unsubscribe_all_spec:
  assumes "env_ok env elems" and "topic_inv elems ts"
  shows "\<exists>ts'. unsubscribe_all env cid es ts = Inr ts' \<and> topic_inv elems ts' \<and>
     (\<forall>t. subscribers elems (env_hash env) ts' t =
        (if \<exists>e \<in> set es. same_topic env t e
         then filter (\<lambda>s. si_client_id s \<noteq> c_str cid) (subscribers elems (env_hash env) ts t)
         else subscribers elems (env_hash env) ts t))"
  using assms(2)
proof (induction es arbitrary: ts)
  case Nil
  then show ?case by simp
next
  case (Cons e es)
  let ?sub = "subscribers elems (env_hash env)"
  obtain r ts1 where 1: "topic_unsubscribe (env_us env) (env_hash env) (c_str (ti_topic e)) cid ts = Inr (r, ts1)"
      "topic_inv elems ts1"
      "\<And>t. ?sub ts1 t = (if env_hash env (c_str t) = env_hash env (c_str (ti_topic e))
          then filter (\<lambda>s. si_client_id s \<noteq> c_str cid) (?sub ts t) else ?sub ts t)"
    using unsubscribe_step[OF assms(1)[unfolded env_ok_def] Cons.prems, of "env_hash env" "c_str (ti_topic e)" cid]
    by auto
  obtain ts2 where 2: "unsubscribe_all env cid es ts1 = Inr ts2" "topic_inv elems ts2"
      "\<And>t. ?sub ts2 t = (if \<exists>e \<in> set es. same_topic env t e
          then filter (\<lambda>s. si_client_id s \<noteq> c_str cid) (?sub ts1 t) else ?sub ts1 t)"
    using Cons.IH[OF 1(2)] by blast
  have "unsubscribe_all env cid (e # es) ts = Inr ts2" using 1(1) 2(1) by simp
  moreover have "?sub ts2 t = (if \<exists>e' \<in> set (e # es). same_topic env t e'
      then filter (\<lambda>s. si_client_id s \<noteq> c_str cid) (?sub ts t) else ?sub ts t)" for t
    using 1(3) 2(3) by auto
  ultimately show ?case using 2(2) by blast
qed

lemma run_task_total:
  assumes "env_ok env elems" and "topic_inv elems (sv_topics sv)" and "ss_info s \<noteq> None"
  shows "\<exists>s' sv'. run_task env t s sv = Inr (s', sv') \<and> topic_inv elems (sv_topics sv')"
proof -
  obtain d where d: "ss_info s = Some d" using assms(3) by blast
  show ?thesis
  proof (cases t)
    case TConnect
    then show ?thesis using d assms(2)
      by (simp add: handle_connect_task_def get_id_def session_has_clean_session_def Let_def)
  next
    case TPong
    then show ?thesis using assms(2) by simp
  next
    case (TSubscribe sd)
    then show ?thesis
      using subscribe_all_spec[OF assms(1,2), of "c_str (cn_client_id d)" "sb_infos sd"] d assms(2)
      by (auto simp: handle_subscribe_task_def get_id_def)
  next
    case (TUnsubscribe sd)
    then show ?thesis
      using unsubscribe_all_spec[OF assms(1,2), of "c_str (cn_client_id d)" "sb_infos sd"] d assms(2)
      by (auto simp: handle_unsubscribe_task_def get_id_def)
  qed
qed

lemma session_step_topic_inv:
  assumes "env_ok env elems" and "topic_inv elems (sv_topics sv)" and "sess_inv sv0 s sv"
    and "session_step env ev s sv = Inr (s', sv', rb)"
  shows "topic_inv elems (sv_topics sv')"
proof (cases "\<exists>t. ev = EvTask \<and> ss_phase s = WaitTask t")
  case True
  then obtain t where t: "ev = EvTask" "ss_phase s = WaitTask t" by blast
  then have "ss_info s \<noteq> None" using assms(3)
    by (cases "ss_connected s") (auto simp: sess_inv_def connecting_ok_def)
  then show ?thesis using run_task_total[OF assms(1,2), of s t] t assms(4) by auto
next
  case False
  then have "sv' = sv" using assms(4)
    by (cases "(env, ev, s, sv)" rule: session_step.cases)
       (auto split: sum.splits fault.splits phase.splits if_splits)
  then show ?thesis using assms(2) by simp
qed

lemma session_run_topic_inv:
  assumes "session_run env p sv0 s sv" and "env_ok env elems" and "topic_inv elems (sv_topics sv0)"
  shows "topic_inv elems (sv_topics sv)"
  using assms
proof (induction rule: session_run.induct)
  case run_start
  then show ?case by simp
next
  case (run_step s sv ev s' sv' rb)
  then show ?case using session_step_topic_inv session_run_inv by metis
qed

section \<open>Properties\<close>

definition example_env :: "nat list_set env" where
  "example_env = \<lparr>env_us = list_uset, env_hash = (\<lambda>s. of_nat (length s)), env_alloc = True, env_lcore = 0\<rparr>"

definition example_server :: "nat list_set server" where
  "example_server = \<lparr>sv_topics = topic_empty, sv_sessions = list_cache_empty\<rparr>"

definition ping_buffer :: ringbuffer where
  "ping_buffer = \<lparr>rb_buffer = [0xC0, 0, 0, 0], rb_capacity = 4, rb_head = 0, rb_tail = 2, rb_size = 2\<rparr>"

lemma example_env_ok: "env_ok example_env list_elems"
  by (simp add: env_ok_def example_env_def list_uset_laws)

lemma example_topic_inv: "topic_inv list_elems (sv_topics example_server)"
  by (simp add: example_server_def topic_empty_inv)

lemma ping_buffer_facts: "rb_inv ping_buffer" "rb_contents ping_buffer = [0xC0, 0]"
  by (simp_all add: ping_buffer_def rb_inv_def rb_contents_def upt_rec)

lemma on_command_front:
  assumes "rb_inv rb" and "rb_contents rb = cmd # bs"
  shows "\<exists>rb'. on_command rb = Inr (WaitRemaining cmd 0 0, rb') \<and> rb_inv rb' \<and> rb_contents rb' = bs"
  using rb_pop_uint_8_front[OF assms] by (auto simp: on_command_def wait_remaining_def)

lemma on_remaining_front:
  assumes "rb_inv rb" and "rb_contents rb = b # bs" and "b AND 0x80 = 0"
  shows "\<exists>rb'. on_remaining cmd 0 0 rb = Inr (WaitBody cmd 0, rb') \<and> rb_inv rb' \<and> rb_contents rb' = bs"
proof -
  have "(ucast b :: u32) AND 128 = ucast (b AND 128)" by (simp add: unsigned_and_eq)
  then show ?thesis using rb_pop_uint_8_front[OF assms(1,2)] assms(3)
    by (auto simp: on_remaining_def Let_def)
qed

lemma example_run:
  "session_run example_env p example_server
     ((session_start p)\<lparr>ss_phase := WaitRemaining 0xC0 0 0\<rparr>) example_server"
proof -
  obtain rb where rb: "on_command ping_buffer = Inr (WaitRemaining 0xC0 0 0, rb)"
    using on_command_front[OF ping_buffer_facts] by blast
  have "session_step example_env (EvReady ping_buffer) (session_start p) example_server =
      Inr ((session_start p)\<lparr>ss_phase := WaitRemaining 0xC0 0 0\<rparr>, example_server, Some rb)"
    using rb by (simp add: on_ready_def session_start_def)
  moreover have "event_enabled (EvReady ping_buffer) (session_start p)"
    by (simp add: waiting_packet_def session_start_def packet_need_def ping_buffer_def rb_empty_def rb_len_def)
  ultimately show ?thesis using run_step[OF run_start] by blast
qed

text \<open>
  Property C7. In every reachable state of a session the length field of the packet being
  read is 0, whatever bytes the client sent: \<open>wait_packet\<close> starts \<open>wait_remaining\<close>
  with multiplier 0, so every digit is multiplied by 0 and no continuation byte ever makes
  the multiplier exceed the limit.
\<close>

theorem mqtt_remaining_always_zero:
  assumes "session_run env p sv0 s sv"
  shows "(\<forall>cmd r. ss_phase s = WaitBody cmd r \<longrightarrow> r = 0) \<and>
         (\<forall>cmd l m. ss_phase s = WaitRemaining cmd l m \<longrightarrow> l = 0 \<and> m = 0)"
  using session_run_inv[OF assms] by (auto simp: sess_inv_def)

theorem mqtt_remaining_always_zero_witness:
  "\<exists>s l m. session_run example_env 3 example_server s example_server \<and>
     ss_phase s = WaitRemaining 0xC0 l m \<and> l = 0 \<and> m = 0"
proof -
  let ?s = "(session_start 3)\<lparr>ss_phase := WaitRemaining 0xC0 0 0\<rparr>"
  show ?thesis
    using mqtt_remaining_always_zero[OF example_run[of 3]] example_run[of 3]
    by (intro exI[of _ ?s] exI[of _ 0]) simp
qed

text \<open>
  Property C4. A client that has not completed its CONNECT cannot touch the subscriptions:
  as long as the session is not connected, the registry of topics is the one it started
  with, and the only packets the server has sent it are CONNACKs with return code 0.
\<close>

theorem mqtt_unconnected_isolated:
  assumes "session_run env p sv0 s sv" and "\<not> ss_connected s"
  shows "sv_topics sv = sv_topics sv0 \<and>
         (\<forall>b \<in> set (ss_sent s). \<exists>c. b = connack_make_buf c 0)"
  using session_run_inv[OF assms(1)] assms(2) by (simp add: sess_inv_def connecting_ok_def)

theorem mqtt_unconnected_isolated_witness:
  "\<exists>s. session_run example_env 3 example_server s example_server \<and> \<not> ss_connected s \<and>
     sv_topics example_server = topic_empty \<and> list_all (\<lambda>b. \<exists>c. b = connack_make_buf c 0) (ss_sent s)"
proof -
  let ?s = "(session_start 3)\<lparr>ss_phase := WaitRemaining 0xC0 0 0\<rparr>"
  have n: "\<not> ss_connected ?s" by (simp add: session_start_def)
  show ?thesis
    using mqtt_unconnected_isolated[OF example_run n] example_run n
    by (intro exI[of _ ?s]) (simp add: list_all_iff example_server_def)
qed


definition odd_connect :: ringbuffer where
  \<comment> \<open>CONNECT, length 0, then a protocol name the reader does not accept\<close>
  "odd_connect = \<lparr>rb_buffer = [0x10, 0, 0, 4, 0x4D, 0x51, 0x54, 0x55], rb_capacity = 8,
     rb_head = 0, rb_tail = 0, rb_size = 8\<rparr>"

lemma odd_connect_facts:
  "rb_inv odd_connect" "rb_contents odd_connect = [0x10, 0, 0, 4, 0x4D, 0x51, 0x54, 0x55]"
  by (simp_all add: odd_connect_def rb_inv_def rb_contents_def upt_rec)

lemma connect_bad_name:
  assumes "rb_inv rb" and "rb_contents rb = name @ rest" and "length name = 6"
    and "\<not> check_protocol_name ((connect_init cmd remaining)\<lparr>cn_protocol_name := name\<rparr>)"
  shows "\<exists>d rb'. mqtt_pkt_connect cmd remaining rb = Inr (d, rb')"
  using rbq.pop_front[OF assms(1), of name rest] assms(2-4)
  by (auto simp: mqtt_pkt_connect_def connect_from_buf_def connect_read_fixed_head_def Let_def)

lemma ready_run:
  assumes "session_run env p sv0 s sv" and "waiting_packet s" and "rb_inv rb"
    and "packet_need s \<le> length (rb_contents rb)" and "rb_contents rb \<noteq> []"
    and "on_ready rb s = Inr (s', rb')"
  shows "session_run env p sv0 s' sv"
  using run_step[OF assms(1), of "EvReady rb" s' sv "Some rb'"] assms(2-6)
  by (simp add: rb_empty_contents rb_len_contents)

lemma example_task_run:
  "\<exists>s. session_run example_env 3 example_server s example_server \<and> ss_phase s = WaitTask TConnect"
proof -
  let ?s = "session_start 3" and ?R = "session_run example_env 3 example_server"
  obtain rb1 where 1: "on_command odd_connect = Inr (WaitRemaining 0x10 0 0, rb1)" "rb_inv rb1"
      "rb_contents rb1 = [0, 0, 4, 0x4D, 0x51, 0x54, 0x55]"
    using on_command_front[OF odd_connect_facts] by blast
  have r1: "?R (?s\<lparr>ss_phase := WaitRemaining 0x10 0 0\<rparr>) example_server"
    by (rule ready_run[OF run_start _ odd_connect_facts(1), where rb' = rb1])
       (use 1 in \<open>simp_all add: odd_connect_facts on_ready_def session_start_def waiting_packet_def packet_need_def\<close>)
  obtain rb2 where 2: "on_remaining 0x10 0 0 rb1 = Inr (WaitBody 0x10 0, rb2)" "rb_inv rb2"
      "rb_contents rb2 = [0, 4, 0x4D, 0x51, 0x54, 0x55]"
    using on_remaining_front[OF 1(2,3)] by auto
  have r2: "?R (?s\<lparr>ss_phase := WaitBody 0x10 0\<rparr>) example_server"
    by (rule ready_run[OF r1 _ 1(2), where rb' = rb2])
       (use 1 2 in \<open>simp_all add: on_ready_def session_start_def waiting_packet_def packet_need_def\<close>)
  obtain d rb3 where 3: "mqtt_pkt_connect 0x10 0 rb2 = Inr (d, rb3)"
    using connect_bad_name[OF 2(2), of "[0, 4, 0x4D, 0x51, 0x54, 0x55]" "[]" "0x10" 0] 2(3)
    by (auto simp: check_protocol_name_def)
  have "?R ((set_connect_info d (?s\<lparr>ss_phase := WaitBody 0x10 0\<rparr>))\<lparr>ss_phase := WaitTask TConnect\<rparr>) example_server"
    by (rule ready_run[OF r2 _ 2(2), where rb' = rb3])
       (use 2 3 in \<open>simp_all add: on_ready_def on_body_connecting_def session_start_def waiting_packet_def packet_need_def\<close>)
  then show ?thesis by (intro exI[of _ "(set_connect_info d (?s\<lparr>ss_phase := WaitBody 0x10 0\<rparr>))\<lparr>ss_phase := WaitTask TConnect\<rparr>"]) simp
qed




text \<open>
  Property C8. A PINGREQ gets no answer while the client stays silent: after its two bytes
  the session waits for a body of length 0, which \<open>wait_packet\<close> delivers only when the
  buffer is not empty; nothing is sent, and when the timer fires the connection is closed.
\<close>

theorem mqtt_ping_unanswered:
  assumes "rb_inv rb" and "rb_contents rb = [0xC0, 0]" and "ss_phase s = WaitCommand" and "ss_connected s"
  shows "\<exists>s1 rb1 s2 rb2.
     session_step env (EvReady rb) s sv = Inr (s1, sv, Some rb1) \<and>
     session_step env (EvReady rb1) s1 sv = Inr (s2, sv, Some rb2) \<and>
     ss_phase s2 = WaitBody 0xC0 0 \<and> ss_sent s2 = ss_sent s \<and>
     \<not> event_enabled (EvReady rb2) s2 \<and>
     session_step env EvTimeout s2 sv = Inr (close_session s2, sv, None)"
proof -
  obtain rb1 where 1: "on_command rb = Inr (WaitRemaining 0xC0 0 0, rb1)" "rb_inv rb1" "rb_contents rb1 = [0]"
    using on_command_front[OF assms(1,2)] by blast
  then obtain rb2 where 2: "on_remaining 0xC0 0 0 rb1 = Inr (WaitBody 0xC0 0, rb2)" "rb_inv rb2"
      "rb_contents rb2 = []"
    using on_remaining_front[OF 1(2,3)] by auto
  let ?s1 = "s\<lparr>ss_phase := WaitRemaining 0xC0 0 0\<rparr>" and ?s2 = "s\<lparr>ss_phase := WaitBody 0xC0 0\<rparr>"
  have "session_step env (EvReady rb) s sv = Inr (?s1, sv, Some rb1)"
    using 1 assms(3) by (simp add: on_ready_def)
  moreover have "session_step env (EvReady rb1) ?s1 sv = Inr (?s2, sv, Some rb2)"
    using 2 by (simp add: on_ready_def)
  moreover have "\<not> event_enabled (EvReady rb2) ?s2" using 2 by (simp add: rb_empty_contents)
  moreover have "session_step env EvTimeout ?s2 sv = Inr (close_session ?s2, sv, None)"
    by (simp add: waiting_packet_def)
  moreover have "ss_phase ?s2 = WaitBody 0xC0 0" "ss_sent ?s2 = ss_sent s" by simp_all
  ultimately show ?thesis by blast
qed

theorem mqtt_ping_unanswered_witness:
  "\<exists>s1 rb1 s2 rb2.
     session_step example_env (EvReady ping_buffer) ((session_start 3)\<lparr>ss_connected := True\<rparr>) example_server =
       Inr (s1, example_server, Some rb1) \<and>
     session_step example_env (EvReady rb1) s1 example_server = Inr (s2, example_server, Some rb2) \<and>
     \<not> event_enabled (EvReady rb2) s2 \<and> ss_sent s2 = []"
  using mqtt_ping_unanswered[OF ping_buffer_facts, of "(session_start 3)\<lparr>ss_connected := True\<rparr>"
      example_env example_server]
  by (auto simp: session_start_def)

end
