(* ===== verification/Md_Stream.thy ===== *)
theory Md_Stream
  imports Prelude
begin

text \<open>
  What the message digests of the network stack (MD4, MD5, SHA-1, SHA-256, SHA-512 and
  RIPEMD-160, under \<open>src/3rd/freebsd\<close>) have in common: a message cut into blocks that a
  compression function folds into a chaining value, an input buffer for the bytes that do
  not fill a block yet, and a padding that appends the message length.

  \<open>absorb\<close> is the reference: it consumes whole blocks from the front of a message. The
  locale \<open>stream_digest\<close> is the interface of a streaming digest: its \<open>init\<close>, \<open>update\<close> and
  \<open>final\<close>, and a relation \<open>rep\<close> that says which message a context stands for. It is
  interpreted once per algorithm.
\<close>

unbundle bit_operations_syntax

section \<open>Blocks\<close>

function absorb :: "nat \<Rightarrow> ('s \<Rightarrow> byte list \<Rightarrow> 's) \<Rightarrow> 's \<Rightarrow> byte list \<Rightarrow> 's \<times> byte list" where
  "absorb n T st bs =
     (if n = 0 \<or> length bs < n then (st, bs) else absorb n T (T st (take n bs)) (drop n bs))"
  by pat_completeness auto
termination by (relation "measure (\<lambda>(n, T, st, bs). length bs)") auto

declare absorb.simps [simp del]

lemma absorb_short: "length bs < n \<Longrightarrow> absorb n T st bs = (st, bs)"
  by (subst absorb.simps) simp

lemma absorb_block:
  "0 < n \<Longrightarrow> length b = n \<Longrightarrow> absorb n T st (b @ bs) = absorb n T (T st b) bs"
  by (subst absorb.simps) simp

lemma absorb_rest:
  assumes "0 < n" and "absorb n T st bs = (st', r)"
  shows "length r = length bs mod n"
  using assms
proof (induction n T st bs rule: absorb.induct)
  case (1 n T st bs)
  show ?case
  proof (cases "length bs < n")
    case True
    then show ?thesis using 1 by (simp add: absorb_short)
  next
    case False
    then have "absorb n T (T st (take n bs)) (drop n bs) = (st', r)" using 1(2,3)
      by (subst (asm) absorb.simps) simp
    then have "length r = length (drop n bs) mod n" using 1 False by simp
    then show ?thesis using False by (simp add: le_mod_geq)
  qed
qed

lemma absorb_append:
  assumes "0 < n" and "absorb n T st a = (st', r)"
  shows "absorb n T st (a @ b) = absorb n T st' (r @ b)"
  using assms
proof (induction n T st a rule: absorb.induct)
  case (1 n T st a)
  show ?case
  proof (cases "length a < n")
    case True
    then show ?thesis using 1 by (simp add: absorb_short)
  next
    case False
    then have "absorb n T (T st (take n a)) (drop n a) = (st', r)" using 1(2,3)
      by (subst (asm) absorb.simps) simp
    then have "absorb n T (T st (take n a)) (drop n a @ b) = absorb n T st' (r @ b)"
      using 1 False by simp
    then show ?thesis using absorb_block[of n "take n a" T st "drop n a @ b"] 1(2) False
      by (metis append.assoc append_take_drop_id length_take min.absorb2 not_less)
  qed
qed

section \<open>The input buffer\<close>

text \<open>\<open>memcpy(&buf[k], bs, length bs)\<close>\<close>

definition memcpy_at :: "byte list \<Rightarrow> nat \<Rightarrow> byte list \<Rightarrow> byte list res" where
  "memcpy_at buf k bs =
     (if k + length bs \<le> length buf then Inr (take k buf @ bs @ drop (k + length bs) buf) else Inl Undef)"

text \<open>\<open>st\<close> and the first bytes of \<open>buf\<close> are what \<open>absorb\<close> makes of a message.\<close>

definition buffered ::
  "nat \<Rightarrow> ('s \<Rightarrow> byte list \<Rightarrow> 's) \<Rightarrow> 's \<Rightarrow> byte list \<Rightarrow> 's \<Rightarrow> byte list \<Rightarrow> bool" where
  "buffered n T st0 msg st buf \<longleftrightarrow>
     length buf = n \<and> absorb n T st0 msg = (st, take (length msg mod n) buf)"

lemma buffered_Nil: "0 < n \<Longrightarrow> length buf = n \<Longrightarrow> buffered n T st0 [] st0 buf"
  by (simp add: buffered_def absorb_short)

lemma length_fill_mod:
  "length a mod n + length b = n \<Longrightarrow> length (a @ b) mod n = 0"
  by (metis length_append mod_add_left_eq mod_self)

lemma buffered_small:
  assumes "buffered n T st0 msg st buf" and "length msg mod n + length bs < n"
  shows "\<exists>buf'. memcpy_at buf (length msg mod n) bs = Inr buf' \<and> buffered n T st0 (msg @ bs) st buf'"
proof -
  let ?k = "length msg mod n" and ?b = "take (length msg mod n) buf @ bs @ drop (length msg mod n + length bs) buf"
  have n: "0 < n" and l: "length buf = n" and k: "?k < n" using assms by (auto simp: buffered_def)
  have len: "length (msg @ bs) mod n = ?k + length bs"
    using assms(2) by (metis length_append mod_add_left_eq mod_less)
  have "absorb n T st0 (msg @ bs) = absorb n T st (take ?k buf @ bs)"
    by (rule absorb_append[OF n]) (use assms(1) in \<open>simp add: buffered_def\<close>)
  also have "\<dots> = (st, take (?k + length bs) ?b)"
    using assms(2) l k by (simp add: absorb_short)
  finally show ?thesis using l k len assms(2)
    by (intro exI[of _ ?b]) (auto simp: memcpy_at_def buffered_def)
qed

lemma buffered_fill:
  assumes "buffered n T st0 msg st buf" and "0 < n" and "length msg mod n + length bs = n"
  shows "\<exists>buf'. memcpy_at buf (length msg mod n) bs = Inr buf' \<and> length buf' = n \<and>
     (\<forall>b. length b = n \<longrightarrow> buffered n T st0 (msg @ bs) (T st buf') b)"
proof -
  let ?k = "length msg mod n" and ?b = "take (length msg mod n) buf @ bs"
  have l: "length buf = n" and k: "?k \<le> n" using assms by (auto simp: buffered_def)
  have len: "length (msg @ bs) mod n = 0"
    using assms(3) by (metis length_append mod_add_left_eq mod_self)
  have "absorb n T st0 (msg @ bs) = absorb n T st (take ?k buf @ bs)"
    by (rule absorb_append[OF assms(2)]) (use assms(1) in \<open>simp add: buffered_def\<close>)
  also have "\<dots> = absorb n T st (?b @ [])" by simp
  also have "\<dots> = (T st ?b, [])"
    using absorb_block[of n ?b T st "[]"] assms(2,3) l k by (simp add: absorb_short)
  finally show ?thesis using l k len assms(3)
    by (intro exI[of _ ?b]) (auto simp: memcpy_at_def buffered_def)
qed

text \<open>Whole blocks that follow an empty buffer.\<close>

lemma buffered_blocks:
  assumes "buffered n T st0 msg st buf" and "0 < n" and "length msg mod n = 0"
    and "absorb n T st bs = (st', r)"
  shows "\<exists>buf'. memcpy_at buf 0 r = Inr buf' \<and> buffered n T st0 (msg @ bs) st' buf'"
proof -
  have l: "length buf = n" using assms(1) by (simp add: buffered_def)
  have len: "length (msg @ bs) mod n = length bs mod n" using assms(3) by (metis length_append mod_add_left_eq add_0)
  have r: "length r = length bs mod n" by (rule absorb_rest[OF assms(2,4)])
  then have rn: "length r < n" using assms(2) by simp
  have "absorb n T st0 msg = (st, [])" using assms(1,3) by (simp add: buffered_def)
  then have "absorb n T st0 (msg @ bs) = absorb n T st bs"
    using absorb_append[OF assms(2), of T st0 msg st "[]" bs] by simp
  then show ?thesis using assms(4) l len r rn
    by (intro exI[of _ "r @ drop (length r) buf"]) (auto simp: memcpy_at_def buffered_def)
qed

section \<open>Padding and byte orders\<close>

definition zeros :: "nat \<Rightarrow> byte list" where
  "zeros k = replicate k 0"

lemma length_zeros [simp]: "length (zeros k) = k"
  by (simp add: zeros_def)

text \<open>A one bit, and zeros up to \<open>lpos\<close> modulo the block size \<open>n\<close>.\<close>

definition pad_len :: "nat \<Rightarrow> nat \<Rightarrow> nat \<Rightarrow> nat" where
  "pad_len n lpos len = (let r = len mod n in if r < lpos then lpos - r else n + lpos - r)"

definition pad_bytes :: "nat \<Rightarrow> nat \<Rightarrow> nat \<Rightarrow> byte list" where
  "pad_bytes n lpos len = 0x80 # zeros (pad_len n lpos len - 1)"

definition le32enc :: "u32 \<Rightarrow> byte list" where
  "le32enc w = [ucast w, ucast (drop_bit 8 w), ucast (drop_bit 16 w), ucast (drop_bit 24 w)]"

definition be32enc :: "u32 \<Rightarrow> byte list" where
  "be32enc w = [ucast (drop_bit 24 w), ucast (drop_bit 16 w), ucast (drop_bit 8 w), ucast w]"

definition be64enc :: "u64 \<Rightarrow> byte list" where
  "be64enc w = be32enc (ucast (drop_bit 32 w)) @ be32enc (ucast (w AND 0xffffffff))"

definition le64enc :: "u64 \<Rightarrow> byte list" where
  "le64enc w = le32enc (ucast (w AND 0xffffffff)) @ le32enc (ucast (drop_bit 32 w))"

lemma length_byte_orders [simp]:
  "length (le32enc w) = 4" "length (be32enc w) = 4" "length (be64enc v) = 8" "length (le64enc v) = 8"
  by (simp_all add: le32enc_def be32enc_def be64enc_def le64enc_def)

definition le32dec :: "byte list \<Rightarrow> u32" where
  "le32dec b = ucast (b ! 0) OR push_bit 8 (ucast (b ! 1)) OR push_bit 16 (ucast (b ! 2)) OR push_bit 24 (ucast (b ! 3))"

definition be32dec :: "byte list \<Rightarrow> u32" where
  "be32dec b = push_bit 24 (ucast (b ! 0)) OR push_bit 16 (ucast (b ! 1)) OR push_bit 8 (ucast (b ! 2)) OR ucast (b ! 3)"

definition be64dec :: "byte list \<Rightarrow> u64" where
  "be64dec b = push_bit 32 (ucast (be32dec b)) OR ucast (be32dec (drop 4 b))"

definition rotl32 :: "nat \<Rightarrow> u32 \<Rightarrow> u32" where
  "rotl32 n x = push_bit n x OR drop_bit (32 - n) x"

definition rotr32 :: "nat \<Rightarrow> u32 \<Rightarrow> u32" where
  "rotr32 n x = drop_bit n x OR push_bit (32 - n) x"

definition rotr64 :: "nat \<Rightarrow> u64 \<Rightarrow> u64" where
  "rotr64 n x = drop_bit n x OR push_bit (64 - n) x"

section \<open>The last blocks\<close>

text \<open>The \<open>Pad\<close> functions of SHA-256 and SHA-512: fill with padding up to \<open>lpos\<close>,
  through a block of its own if the length does not fit behind the data.\<close>

definition pad_final ::
  "nat \<Rightarrow> nat \<Rightarrow> ('s \<Rightarrow> byte list \<Rightarrow> 's) \<Rightarrow> byte list \<Rightarrow> nat \<Rightarrow> 's \<Rightarrow> byte list \<Rightarrow> ('s \<times> byte list) res" where
  "pad_final n lpos T PAD r st buf =
     (if r < lpos
      then rbind (memcpy_at buf r (take (lpos - r) PAD)) (\<lambda>buf. Inr (st, buf))
      else rbind (memcpy_at buf r (take (n - r) PAD)) (\<lambda>buf.
           rbind (memcpy_at buf 0 (zeros lpos)) (\<lambda>buf'. Inr (T st buf, buf'))))"

lemma pad_bytes_split:
  assumes "lpos \<le> r" and "r < n" and "r = len mod n" and "0 < lpos"
  shows "pad_bytes n lpos len = (0x80 # zeros (n - r - 1)) @ zeros lpos"
proof -
  have "n - r - 1 + lpos = n + lpos - r - 1" using assms by linarith
  then show ?thesis using assms
    by (auto simp: pad_bytes_def pad_len_def Let_def zeros_def replicate_add[symmetric])
qed

lemma pad_final_buffered:
  assumes b: "buffered n T st0 msg st buf" and l: "0 < lpos" "lpos < n" and P: "PAD = 0x80 # zeros (n - 1)"
    and lb: "length lb = n - lpos"
  shows "\<exists>st1 buf1 buf2. pad_final n lpos T PAD (length msg mod n) st buf = Inr (st1, buf1) \<and>
     memcpy_at buf1 lpos lb = Inr buf2 \<and>
     T st1 buf2 = fst (absorb n T st0 (msg @ pad_bytes n lpos (length msg) @ lb))"
proof -
  let ?r = "length msg mod n" and ?p = "pad_bytes n lpos (length msg)"
  have n: "0 < n" and r: "?r < n" using l by simp_all
  obtain st1 buf1 where 1: "pad_final n lpos T PAD ?r st buf = Inr (st1, buf1)"
      "buffered n T st0 (msg @ ?p) st1 buf1" "length (msg @ ?p) mod n = lpos"
  proof (cases "?r < lpos")
    case True
    have p: "take (lpos - ?r) PAD = ?p" "length ?p = lpos - ?r"
      using True l P by (auto simp: pad_bytes_def pad_len_def Let_def zeros_def take_Cons' min_def)
    obtain buf1 where m: "memcpy_at buf ?r ?p = Inr buf1" "buffered n T st0 (msg @ ?p) st buf1"
      using buffered_small[OF b, of ?p] p True l by auto
    have "length (msg @ ?p) mod n = lpos"
      using p True l by (metis le_add_diff_inverse length_append less_imp_le_nat mod_add_left_eq mod_less)
    then show ?thesis using that m p True by (simp add: pad_final_def)
  next
    case False
    let ?q = "0x80 # zeros (n - ?r - 1) :: byte list"
    have q: "take (n - ?r) PAD = ?q" "?r + length ?q = n"
      using False r P by (auto simp: zeros_def take_Cons' min_def)
    have pq: "?p = ?q @ zeros lpos" using False r l by (intro pad_bytes_split) auto
    obtain bf where m: "memcpy_at buf ?r ?q = Inr bf" "length bf = n" "buffered n T st0 (msg @ ?q) (T st bf) bf"
      using buffered_fill[OF b n q(2)] by auto
    have z: "length (msg @ ?q) mod n = 0" using q(2) by (metis length_append mod_add_left_eq mod_self)
    obtain buf1 where m2: "memcpy_at bf 0 (zeros lpos) = Inr buf1"
        "buffered n T st0 ((msg @ ?q) @ zeros lpos) (T st bf) buf1"
      using buffered_small[OF m(3), of "zeros lpos"] z l by auto
    have "length ((msg @ ?q) @ zeros lpos) mod n = lpos"
      using z l by (metis add_0 length_append length_zeros mod_add_left_eq mod_less)
    then show ?thesis using that m m2 q(1) pq False by (simp add: pad_final_def)
  qed
  obtain buf2 where 2: "memcpy_at buf1 lpos lb = Inr buf2"
      "buffered n T st0 ((msg @ ?p) @ lb) (T st1 buf2) buf2"
    using buffered_fill[OF 1(2) n, of lb] 1(3) lb l by auto
  then have "T st1 buf2 = fst (absorb n T st0 (msg @ ?p @ lb))" by (simp add: buffered_def)
  then show ?thesis using 1(1) 2(1) by blast
qed

section \<open>Bit counters\<close>

lemma bit_index:
  assumes "k + 3 \<le> LENGTH('a::len)"
  shows "unat (drop_bit 3 (of_nat (8 * n) :: 'a word) AND mask k) = n mod 2 ^ k"
proof -
  obtain j where j: "LENGTH('a) = 3 + (k + j)" using assms by (metis add.assoc add.commute le_Suc_ex)
  have "unat (drop_bit 3 (of_nat (8 * n) :: 'a word) AND mask k) = unat (of_nat (8 * n) :: 'a word) div 2 ^ 3 mod 2 ^ k"
    by (simp only: unat_and_mask unat_drop)
  also have "unat (of_nat (8 * n) :: 'a word) = 8 * n mod 2 ^ LENGTH('a)" by (rule unat_of_nat)
  also have "\<dots> = 8 * (n mod 2 ^ (k + j))" using mult_mod_right[of 8 n "2 ^ (k + j)"] by (simp add: j power_add)
  also have "8 * (n mod 2 ^ (k + j)) div 2 ^ 3 mod 2 ^ k = n mod 2 ^ k"
    by (simp add: power_add mod_mod_cancel)
  finally show ?thesis .
qed

lemma push_bit_3_of_nat: "push_bit 3 (of_nat n :: 'a::len word) = of_nat (8 * n)"
  by (simp add: push_bit_eq_mult)

text \<open>A double-word counter, as in the sources: add the low words, carry if the sum is below
  the summand, and add the high bits of the length.\<close>

lemma carry_count:
  assumes "len < 2 ^ LENGTH('a::len)" and "3 \<le> LENGTH('a)"
  shows "(if (of_nat m + push_bit 3 (of_nat len) :: 'a word) < push_bit 3 (of_nat len)
          then of_nat (m div 2 ^ LENGTH('a)) + 1 else of_nat (m div 2 ^ LENGTH('a))) +
         drop_bit (LENGTH('a) - 3) (of_nat len) = (of_nat ((m + 8 * len) div 2 ^ LENGTH('a)) :: 'a word)"
proof -
  let ?M = "2 ^ LENGTH('a) :: nat"
  have M: "?M = 8 * 2 ^ (LENGTH('a) - 3)"
  proof -
    obtain j where "LENGTH('a) = 3 + j" using assms(2) by (metis le_Suc_ex)
    then show ?thesis by (simp add: power_add)
  qed
  have "unat (drop_bit (LENGTH('a) - 3) (of_nat len :: 'a word)) = 8 * len div ?M"
    using unat_of_nat_small[OF assms(1)] by (simp only: unat_drop M) (simp add: div_mult_mult1)
  then have d: "drop_bit (LENGTH('a) - 3) (of_nat len :: 'a word) = of_nat (8 * len div ?M)"
    by (metis of_nat_unat ucast_id)
  have s: "(of_nat m + push_bit 3 (of_nat len) :: 'a word) = of_nat (m + 8 * len)"
    by (simp add: push_bit_3_of_nat)
  have lt: "(of_nat (m + 8 * len) :: 'a word) < of_nat (8 * len) \<longleftrightarrow> (m + 8 * len) mod ?M < 8 * len mod ?M"
    by (simp only: word_less_nat_alt unat_of_nat)
  show ?thesis
    unfolding s unfolding push_bit_3_of_nat unfolding lt d
    using div_carry[of ?M m "8 * len"] by (simp del: of_nat_mult split: if_splits)
qed

section \<open>The interface of a streaming digest\<close>

fun updates :: "('c \<Rightarrow> byte list \<Rightarrow> 'c res) \<Rightarrow> 'c \<Rightarrow> byte list list \<Rightarrow> 'c res" where
  "updates upd c [] = Inr c"
| "updates upd c (b # bs) = rbind (upd c b) (\<lambda>c'. updates upd c' bs)"

locale stream_digest =
  fixes ini :: 'c and upd :: "'c \<Rightarrow> byte list \<Rightarrow> 'c res" and fin :: "'c \<Rightarrow> byte list res"
    and rep :: "'c \<Rightarrow> byte list \<Rightarrow> bool" and ok :: "nat \<Rightarrow> bool" and spec :: "byte list \<Rightarrow> byte list"
  assumes rep_init: "rep ini []"
    and rep_update: "rep c msg \<Longrightarrow> ok (length bs) \<Longrightarrow> \<exists>c'. upd c bs = Inr c' \<and> rep c' (msg @ bs)"
    and rep_final: "rep c msg \<Longrightarrow> fin c = Inr (spec msg)"
begin

lemma rep_updates:
  "rep c msg \<Longrightarrow> list_all (\<lambda>b. ok (length b)) bs \<Longrightarrow> \<exists>c'. updates upd c bs = Inr c' \<and> rep c' (msg @ concat bs)"
proof (induction bs arbitrary: c msg)
  case Nil
  then show ?case by simp
next
  case (Cons b bs)
  then obtain c1 where c1: "upd c b = Inr c1" "rep c1 (msg @ b)" using rep_update[OF Cons.prems(1), of b] by auto
  then show ?case using Cons.IH[OF c1(2)] Cons.prems(2) by auto
qed

lemma streaming:
  "list_all (\<lambda>b. ok (length b)) bs \<Longrightarrow> rbind (updates upd ini bs) fin = Inr (spec (concat bs))"
  using rep_updates[OF rep_init, of bs] rep_final by auto

lemma chunking_irrelevant:
  assumes "list_all (\<lambda>b. ok (length b)) bs" and "list_all (\<lambda>b. ok (length b)) bs'" and "concat bs = concat bs'"
  shows "rbind (updates upd ini bs) fin = rbind (updates upd ini bs') fin"
  using streaming assms by metis

end

end
