(* ===== verification/Md5.thy ===== *)
theory Md5
  imports Md_Stream
begin

text \<open>
  \<open>src/3rd/freebsd/kern/md5c.c\<close> and \<open>md4c.c\<close>: the MD5 and MD4 message digests of the
  network stack, on a little-endian machine. A line \<open>FF (a, b, c, d, x[k], s, ac)\<close> of a
  round is the tuple of the indices of its registers, \<open>k\<close>, \<open>s\<close> and \<open>ac\<close>.

  \<open>inputLen\<close> is a 32-bit \<open>unsigned int\<close>, so an input has fewer than \<open>2 ^ 32\<close> bytes,
  and the bound of the block loop is computed modulo \<open>2 ^ 32\<close>; a read behind the input is
  \<open>Undef\<close>. The zeroing of the context at the end is not modelled: the context is dropped.
\<close>

unbundle bit_operations_syntax

section \<open>Contexts\<close>

record md_ctx =
  mc_state :: "u32 list"
  mc_count0 :: u32
  mc_count1 :: u32
  mc_buffer :: "byte list"

text \<open>\<open>memcpy\<close> of bytes to words and back is the little-endian decoding.\<close>

definition Decode :: "byte list \<Rightarrow> u32 list" where
  "Decode block = map (\<lambda>i. le32dec (take 4 (drop (4 * i) block))) [0..<length block div 4]"

definition Encode :: "u32 list \<Rightarrow> byte list" where
  "Encode ws = concat (map le32enc ws)"

definition PADDING :: "byte list" where
  "PADDING = 0x80 # replicate 63 0"

section \<open>MD5\<close>

definition md5_F :: "u32 \<Rightarrow> u32 \<Rightarrow> u32 \<Rightarrow> u32" where "md5_F x y z = (x AND y) OR (NOT x AND z)"
definition md5_G :: "u32 \<Rightarrow> u32 \<Rightarrow> u32 \<Rightarrow> u32" where "md5_G x y z = (x AND z) OR (y AND NOT z)"
definition md5_H :: "u32 \<Rightarrow> u32 \<Rightarrow> u32 \<Rightarrow> u32" where "md5_H x y z = x XOR y XOR z"
definition md5_I :: "u32 \<Rightarrow> u32 \<Rightarrow> u32 \<Rightarrow> u32" where "md5_I x y z = y XOR (x OR NOT z)"

definition ROTATE_LEFT :: "u32 \<Rightarrow> nat \<Rightarrow> u32" where
  "ROTATE_LEFT x n = push_bit n x OR drop_bit (32 - n) x"

type_synonym md5_op = "nat \<times> nat \<times> nat \<times> nat \<times> nat \<times> nat \<times> u32"

definition md5_step :: "(u32 \<Rightarrow> u32 \<Rightarrow> u32 \<Rightarrow> u32) \<Rightarrow> u32 list \<Rightarrow> md5_op \<Rightarrow> u32 list \<Rightarrow> u32 list" where
  "md5_step f x = (\<lambda>(a, b, c, d, k, s, ac) r.
     let v = r ! a + (f (r ! b) (r ! c) (r ! d) + x ! k + ac) in r[a := ROTATE_LEFT v s + r ! b])"

definition md5_round1 :: "md5_op list" where
  "md5_round1 =
    [(0, 1, 2, 3, 0, 7, 0xd76aa478), (3, 0, 1, 2, 1, 12, 0xe8c7b756), (2, 3, 0, 1, 2, 17, 0x242070db), (1, 2, 3, 0, 3, 22, 0xc1bdceee),
     (0, 1, 2, 3, 4, 7, 0xf57c0faf), (3, 0, 1, 2, 5, 12, 0x4787c62a), (2, 3, 0, 1, 6, 17, 0xa8304613), (1, 2, 3, 0, 7, 22, 0xfd469501),
     (0, 1, 2, 3, 8, 7, 0x698098d8), (3, 0, 1, 2, 9, 12, 0x8b44f7af), (2, 3, 0, 1, 10, 17, 0xffff5bb1), (1, 2, 3, 0, 11, 22, 0x895cd7be),
     (0, 1, 2, 3, 12, 7, 0x6b901122), (3, 0, 1, 2, 13, 12, 0xfd987193), (2, 3, 0, 1, 14, 17, 0xa679438e), (1, 2, 3, 0, 15, 22, 0x49b40821)]"

definition md5_round2 :: "md5_op list" where
  "md5_round2 =
    [(0, 1, 2, 3, 1, 5, 0xf61e2562), (3, 0, 1, 2, 6, 9, 0xc040b340), (2, 3, 0, 1, 11, 14, 0x265e5a51), (1, 2, 3, 0, 0, 20, 0xe9b6c7aa),
     (0, 1, 2, 3, 5, 5, 0xd62f105d), (3, 0, 1, 2, 10, 9, 0x2441453), (2, 3, 0, 1, 15, 14, 0xd8a1e681), (1, 2, 3, 0, 4, 20, 0xe7d3fbc8),
     (0, 1, 2, 3, 9, 5, 0x21e1cde6), (3, 0, 1, 2, 14, 9, 0xc33707d6), (2, 3, 0, 1, 3, 14, 0xf4d50d87), (1, 2, 3, 0, 8, 20, 0x455a14ed),
     (0, 1, 2, 3, 13, 5, 0xa9e3e905), (3, 0, 1, 2, 2, 9, 0xfcefa3f8), (2, 3, 0, 1, 7, 14, 0x676f02d9), (1, 2, 3, 0, 12, 20, 0x8d2a4c8a)]"

definition md5_round3 :: "md5_op list" where
  "md5_round3 =
    [(0, 1, 2, 3, 5, 4, 0xfffa3942), (3, 0, 1, 2, 8, 11, 0x8771f681), (2, 3, 0, 1, 11, 16, 0x6d9d6122), (1, 2, 3, 0, 14, 23, 0xfde5380c),
     (0, 1, 2, 3, 1, 4, 0xa4beea44), (3, 0, 1, 2, 4, 11, 0x4bdecfa9), (2, 3, 0, 1, 7, 16, 0xf6bb4b60), (1, 2, 3, 0, 10, 23, 0xbebfbc70),
     (0, 1, 2, 3, 13, 4, 0x289b7ec6), (3, 0, 1, 2, 0, 11, 0xeaa127fa), (2, 3, 0, 1, 3, 16, 0xd4ef3085), (1, 2, 3, 0, 6, 23, 0x4881d05),
     (0, 1, 2, 3, 9, 4, 0xd9d4d039), (3, 0, 1, 2, 12, 11, 0xe6db99e5), (2, 3, 0, 1, 15, 16, 0x1fa27cf8), (1, 2, 3, 0, 2, 23, 0xc4ac5665)]"

definition md5_round4 :: "md5_op list" where
  "md5_round4 =
    [(0, 1, 2, 3, 0, 6, 0xf4292244), (3, 0, 1, 2, 7, 10, 0x432aff97), (2, 3, 0, 1, 14, 15, 0xab9423a7), (1, 2, 3, 0, 5, 21, 0xfc93a039),
     (0, 1, 2, 3, 12, 6, 0x655b59c3), (3, 0, 1, 2, 3, 10, 0x8f0ccc92), (2, 3, 0, 1, 10, 15, 0xffeff47d), (1, 2, 3, 0, 1, 21, 0x85845dd1),
     (0, 1, 2, 3, 8, 6, 0x6fa87e4f), (3, 0, 1, 2, 15, 10, 0xfe2ce6e0), (2, 3, 0, 1, 6, 15, 0xa3014314), (1, 2, 3, 0, 13, 21, 0x4e0811a1),
     (0, 1, 2, 3, 4, 6, 0xf7537e82), (3, 0, 1, 2, 11, 10, 0xbd3af235), (2, 3, 0, 1, 2, 15, 0x2ad7d2bb), (1, 2, 3, 0, 9, 21, 0xeb86d391)]"

definition MD5Transform :: "u32 list \<Rightarrow> byte list \<Rightarrow> u32 list" where
  "MD5Transform state block =
     (let x = Decode block;
          r1 = fold (md5_step md5_F x) md5_round1 state;
          r2 = fold (md5_step md5_G x) md5_round2 r1;
          r3 = fold (md5_step md5_H x) md5_round3 r2;
          r4 = fold (md5_step md5_I x) md5_round4 r3
      in map2 (+) state r4)"

definition MD5_state0 :: "u32 list" where
  "MD5_state0 = [0x67452301, 0xefcdab89, 0x98badcfe, 0x10325476]"

definition MD5Init :: md_ctx where
  \<comment> \<open>the buffer is not initialised; its contents do not matter\<close>
  "MD5Init = \<lparr>mc_state = MD5_state0, mc_count0 = 0, mc_count1 = 0, mc_buffer = replicate 64 0\<rparr>"

text \<open>\<open>for (i = partLen; i + 63 < inputLen; i += 64) Transform(state, &input[i])\<close>\<close>

function md_blocks :: "(u32 list \<Rightarrow> byte list \<Rightarrow> u32 list) \<Rightarrow> byte list \<Rightarrow> u32 list \<Rightarrow> nat \<Rightarrow> (u32 list \<times> nat) res" where
  "md_blocks T input st i =
     (if (i + 63) mod 2 ^ 32 < length input \<and> length input < 2 ^ 32
      then if i + 64 \<le> length input
           then md_blocks T input (T st (take 64 (drop i input))) ((i + 64) mod 2 ^ 32)
           else Inl Undef
      else Inr (st, i))"
  by pat_completeness auto
termination
  by (relation "measure (\<lambda>(T, input, st, i). length input - i)") (auto simp: mod_less[OF le_less_trans])

declare md_blocks.simps [simp del]

definition md_count :: "nat \<Rightarrow> u32 \<times> u32 \<Rightarrow> u32 \<times> u32" where
  "md_count inputLen c =
     (let len = (of_nat inputLen :: u32); c0 = fst c + push_bit 3 len
      in (c0, (if c0 < push_bit 3 len then snd c + 1 else snd c) + drop_bit 29 len))"

definition MD5Update :: "md_ctx \<Rightarrow> byte list \<Rightarrow> md_ctx res" where
  "MD5Update context input =
     (let index = unat (drop_bit 3 (mc_count0 context) AND 0x3F);
          inputLen = length input;
          c = md_count inputLen (mc_count0 context, mc_count1 context);
          context = context\<lparr>mc_count0 := fst c, mc_count1 := snd c\<rparr>;
          partLen = 64 - index
      in if inputLen \<ge> partLen
         then rbind (memcpy_at (mc_buffer context) index (take partLen input)) (\<lambda>buf.
              rbind (md_blocks MD5Transform input (MD5Transform (mc_state context) buf) partLen) (\<lambda>(st, i).
              rbind (memcpy_at buf 0 (drop i input)) (\<lambda>buf.
              Inr (context\<lparr>mc_state := st, mc_buffer := buf\<rparr>))))
         else rbind (memcpy_at (mc_buffer context) index input) (\<lambda>buf.
              Inr (context\<lparr>mc_buffer := buf\<rparr>)))"

definition MD5Pad :: "md_ctx \<Rightarrow> md_ctx res" where
  "MD5Pad context =
     (let bits = Encode [mc_count0 context, mc_count1 context];
          index = unat (drop_bit 3 (mc_count0 context) AND 0x3f);
          padLen = (if index < 56 then 56 - index else 120 - index)
      in rbind (MD5Update context (take padLen PADDING)) (\<lambda>context.
         MD5Update context bits))"

definition MD5Final :: "md_ctx \<Rightarrow> byte list res" where
  "MD5Final context = rbind (MD5Pad context) (\<lambda>context. Inr (Encode (mc_state context)))"

section \<open>MD4\<close>

definition md4_F :: "u32 \<Rightarrow> u32 \<Rightarrow> u32 \<Rightarrow> u32" where "md4_F x y z = (x AND y) OR (NOT x AND z)"
definition md4_G :: "u32 \<Rightarrow> u32 \<Rightarrow> u32 \<Rightarrow> u32" where "md4_G x y z = (x AND y) OR (x AND z) OR (y AND z)"
definition md4_H :: "u32 \<Rightarrow> u32 \<Rightarrow> u32 \<Rightarrow> u32" where "md4_H x y z = x XOR y XOR z"

definition md4_Encode :: "u32 list \<Rightarrow> byte list" where
  "md4_Encode input = concat (map (\<lambda>w. [ucast (w AND 0xff), ucast (drop_bit 8 w AND 0xff),
     ucast (drop_bit 16 w AND 0xff), ucast (drop_bit 24 w AND 0xff)]) input)"

definition md4_Decode :: "byte list \<Rightarrow> u32 list" where
  "md4_Decode input = map (\<lambda>i. ucast (input ! (4 * i)) OR push_bit 8 (ucast (input ! (4 * i + 1))) OR
     push_bit 16 (ucast (input ! (4 * i + 2))) OR push_bit 24 (ucast (input ! (4 * i + 3)))) [0..<length input div 4]"

type_synonym md4_op = "nat \<times> nat \<times> nat \<times> nat \<times> nat \<times> nat"

definition md4_step ::
  "(u32 \<Rightarrow> u32 \<Rightarrow> u32 \<Rightarrow> u32) \<Rightarrow> u32 \<Rightarrow> u32 list \<Rightarrow> md4_op \<Rightarrow> u32 list \<Rightarrow> u32 list" where
  "md4_step f ac x = (\<lambda>(a, b, c, d, k, s) r.
     let v = r ! a + (f (r ! b) (r ! c) (r ! d) + x ! k + ac) in r[a := ROTATE_LEFT v s])"

definition md4_round1 :: "md4_op list" where
  "md4_round1 =
    [(0, 1, 2, 3, 0, 3), (3, 0, 1, 2, 1, 7), (2, 3, 0, 1, 2, 11), (1, 2, 3, 0, 3, 19),
     (0, 1, 2, 3, 4, 3), (3, 0, 1, 2, 5, 7), (2, 3, 0, 1, 6, 11), (1, 2, 3, 0, 7, 19),
     (0, 1, 2, 3, 8, 3), (3, 0, 1, 2, 9, 7), (2, 3, 0, 1, 10, 11), (1, 2, 3, 0, 11, 19),
     (0, 1, 2, 3, 12, 3), (3, 0, 1, 2, 13, 7), (2, 3, 0, 1, 14, 11), (1, 2, 3, 0, 15, 19)]"

definition md4_round2 :: "md4_op list" where
  "md4_round2 =
    [(0, 1, 2, 3, 0, 3), (3, 0, 1, 2, 4, 5), (2, 3, 0, 1, 8, 9), (1, 2, 3, 0, 12, 13),
     (0, 1, 2, 3, 1, 3), (3, 0, 1, 2, 5, 5), (2, 3, 0, 1, 9, 9), (1, 2, 3, 0, 13, 13),
     (0, 1, 2, 3, 2, 3), (3, 0, 1, 2, 6, 5), (2, 3, 0, 1, 10, 9), (1, 2, 3, 0, 14, 13),
     (0, 1, 2, 3, 3, 3), (3, 0, 1, 2, 7, 5), (2, 3, 0, 1, 11, 9), (1, 2, 3, 0, 15, 13)]"

definition md4_round3 :: "md4_op list" where
  "md4_round3 =
    [(0, 1, 2, 3, 0, 3), (3, 0, 1, 2, 8, 9), (2, 3, 0, 1, 4, 11), (1, 2, 3, 0, 12, 15),
     (0, 1, 2, 3, 2, 3), (3, 0, 1, 2, 10, 9), (2, 3, 0, 1, 6, 11), (1, 2, 3, 0, 14, 15),
     (0, 1, 2, 3, 1, 3), (3, 0, 1, 2, 9, 9), (2, 3, 0, 1, 5, 11), (1, 2, 3, 0, 13, 15),
     (0, 1, 2, 3, 3, 3), (3, 0, 1, 2, 11, 9), (2, 3, 0, 1, 7, 11), (1, 2, 3, 0, 15, 15)]"

definition MD4Transform :: "u32 list \<Rightarrow> byte list \<Rightarrow> u32 list" where
  "MD4Transform state block =
     (let x = md4_Decode block;
          r1 = fold (md4_step md4_F 0 x) md4_round1 state;
          r2 = fold (md4_step md4_G 0x5a827999 x) md4_round2 r1;
          r3 = fold (md4_step md4_H 0x6ed9eba1 x) md4_round3 r2
      in map2 (+) state r3)"

definition MD4Init :: md_ctx where
  "MD4Init = \<lparr>mc_state = [0x67452301, 0xefcdab89, 0x98badcfe, 0x10325476],
              mc_count0 = 0, mc_count1 = 0, mc_buffer = replicate 64 0\<rparr>"

definition MD4Update :: "md_ctx \<Rightarrow> byte list \<Rightarrow> md_ctx res" where
  "MD4Update context input =
     (let index = unat (drop_bit 3 (mc_count0 context) AND 0x3F);
          inputLen = length input;
          c = md_count inputLen (mc_count0 context, mc_count1 context);
          context = context\<lparr>mc_count0 := fst c, mc_count1 := snd c\<rparr>;
          partLen = 64 - index
      in if inputLen \<ge> partLen
         then rbind (memcpy_at (mc_buffer context) index (take partLen input)) (\<lambda>buf.
              rbind (md_blocks MD4Transform input (MD4Transform (mc_state context) buf) partLen) (\<lambda>(st, i).
              rbind (memcpy_at buf 0 (drop i input)) (\<lambda>buf.
              Inr (context\<lparr>mc_state := st, mc_buffer := buf\<rparr>))))
         else rbind (memcpy_at (mc_buffer context) index input) (\<lambda>buf.
              Inr (context\<lparr>mc_buffer := buf\<rparr>)))"

definition MD4Pad :: "md_ctx \<Rightarrow> md_ctx res" where
  "MD4Pad context =
     (let bits = md4_Encode [mc_count0 context, mc_count1 context];
          index = unat (drop_bit 3 (mc_count0 context) AND 0x3f);
          padLen = (if index < 56 then 56 - index else 120 - index)
      in rbind (MD4Update context (take padLen PADDING)) (\<lambda>context.
         MD4Update context bits))"

definition MD4Final :: "md_ctx \<Rightarrow> byte list res" where
  "MD4Final context = rbind (MD4Pad context) (\<lambda>context. Inr (md4_Encode (mc_state context)))"

section \<open>Correctness of the streaming\<close>

text \<open>The reference of RFC 1320 and RFC 1321: pad with a one bit and zeros to 56 modulo 64
  bytes, append the bit length as two words, low-order word first, and compress block by
  block.\<close>

definition md_spec :: "(u32 list \<Rightarrow> byte list \<Rightarrow> u32 list) \<Rightarrow> u32 list \<Rightarrow> byte list \<Rightarrow> byte list" where
  "md_spec T st0 msg =
     (let bits = 8 * length msg
      in Encode (fst (absorb 64 T st0
           (msg @ pad_bytes 64 56 (length msg) @ Encode [of_nat bits, of_nat (bits div 2 ^ 32)]))))"

definition md_update :: "(u32 list \<Rightarrow> byte list \<Rightarrow> u32 list) \<Rightarrow> md_ctx \<Rightarrow> byte list \<Rightarrow> md_ctx res" where
  "md_update T context input =
     (let index = unat (drop_bit 3 (mc_count0 context) AND 0x3F);
          c = md_count (length input) (mc_count0 context, mc_count1 context);
          context = context\<lparr>mc_count0 := fst c, mc_count1 := snd c\<rparr>
      in if length input \<ge> 64 - index
         then rbind (memcpy_at (mc_buffer context) index (take (64 - index) input)) (\<lambda>buf.
              rbind (md_blocks T input (T (mc_state context) buf) (64 - index)) (\<lambda>(st, i).
              rbind (memcpy_at buf 0 (drop i input)) (\<lambda>buf.
              Inr (context\<lparr>mc_state := st, mc_buffer := buf\<rparr>))))
         else rbind (memcpy_at (mc_buffer context) index input) (\<lambda>buf.
              Inr (context\<lparr>mc_buffer := buf\<rparr>)))"

definition md_final :: "(u32 list \<Rightarrow> byte list \<Rightarrow> u32 list) \<Rightarrow> md_ctx \<Rightarrow> byte list res" where
  "md_final T context =
     (let index = unat (drop_bit 3 (mc_count0 context) AND 0x3F)
      in rbind (md_update T context (take (if index < 56 then 56 - index else 120 - index) PADDING)) (\<lambda>c.
         rbind (md_update T c (Encode [mc_count0 context, mc_count1 context])) (\<lambda>c.
         Inr (Encode (mc_state c)))))"

lemma md4_Encode_eq: "md4_Encode = Encode"
proof -
  have m: "(0xff :: u32) = mask 8" by (simp add: mask_eq_exp_minus_1)
  have "(ucast (w AND 0xff) :: byte) = ucast w" for w :: u32
    unfolding m by (rule bit_word_eqI) (auto simp: bit_and_iff bit_ucast_iff bit_mask_iff)
  then show ?thesis by (simp add: fun_eq_iff md4_Encode_def Encode_def le32enc_def[abs_def])
qed

lemma MD_generic:
  "MD5Update = md_update MD5Transform" "MD4Update = md_update MD4Transform"
  "MD5Final = md_final MD5Transform" "MD4Final = md_final MD4Transform"
  by (simp_all add: fun_eq_iff MD5Update_def MD4Update_def md_update_def Let_def MD5Final_def MD5Pad_def
      MD4Final_def MD4Pad_def md_final_def rbind_assoc md4_Encode_eq)

text \<open>A context stands for a message.\<close>

definition md_rep :: "(u32 list \<Rightarrow> byte list \<Rightarrow> u32 list) \<Rightarrow> u32 list \<Rightarrow> md_ctx \<Rightarrow> byte list \<Rightarrow> bool" where
  "md_rep T st0 c msg \<longleftrightarrow> buffered 64 T st0 msg (mc_state c) (mc_buffer c) \<and>
     mc_count0 c = of_nat (8 * length msg) \<and> mc_count1 c = of_nat (8 * length msg div 2 ^ 32)"

lemma md_count_of_nat:
  assumes "len < 2 ^ 32"
  shows "md_count len (of_nat m, of_nat (m div 2 ^ 32)) = (of_nat (m + 8 * len), of_nat ((m + 8 * len) div 2 ^ 32))"
  using carry_count[of len m, where 'a = 32] assms
  by (simp add: md_count_def Let_def push_bit_3_of_nat cong: if_cong)

lemma md_index:
  "unat (drop_bit 3 (of_nat (8 * n) :: u32) AND 0x3F) = n mod 64"
  using bit_index[of 6 n, where 'a = 32] by (simp add: mask_eq_exp_minus_1)

lemma md_blocks_absorb:
  assumes "length input + 64 < 2 ^ 32" and "i \<le> length input"
  shows "\<exists>j. md_blocks T input st i = Inr (fst (absorb 64 T st (drop i input)), j) \<and>
     drop j input = snd (absorb 64 T st (drop i input))"
  using assms
proof (induction T input st i rule: md_blocks.induct)
  case (1 T input st i)
  have m: "(i + 63) mod 2 ^ 32 = i + 63" "(i + 64) mod 2 ^ 32 = i + 64" using 1(2,3) by simp_all
  show ?case
  proof (cases "i + 64 \<le> length input")
    case True
    have "absorb 64 T st (drop i input) = absorb 64 T (T st (take 64 (drop i input))) (drop (i + 64) input)"
      using absorb_block[of 64 "take 64 (drop i input)" T st "drop 64 (drop i input)"] True
      by (simp only: append_take_drop_id) (simp add: add.commute)
    moreover have "md_blocks T input st i = md_blocks T input (T st (take 64 (drop i input))) (i + 64)"
      using True 1(2) by (subst md_blocks.simps) (simp add: m)
    ultimately show ?thesis using 1(1)[unfolded m] 1(2) True by simp
  next
    case False
    then have "md_blocks T input st i = Inr (st, i)" using m(1) by (subst md_blocks.simps) simp
    moreover have "absorb 64 T st (drop i input) = (st, drop i input)" using False by (intro absorb_short) simp
    ultimately show ?thesis by simp
  qed
qed

lemma md_rep_update:
  assumes "md_rep T st0 c msg" and "length bs + 64 < 2 ^ 32"
  shows "\<exists>c'. md_update T c bs = Inr c' \<and> md_rep T st0 c' (msg @ bs)"
proof -
  let ?k = "length msg mod 64"
  have b: "buffered 64 T st0 msg (mc_state c) (mc_buffer c)" using assms(1) by (simp add: md_rep_def)
  have idx: "unat (drop_bit 3 (mc_count0 c) AND 0x3F) = ?k"
    using assms(1) md_index by (simp add: md_rep_def del: of_nat_mult)
  have "length bs < 2 ^ 32" using assms(2) by simp
  then have cnt: "md_count (length bs) (mc_count0 c, mc_count1 c) =
      (of_nat (8 * length (msg @ bs)), of_nat (8 * length (msg @ bs) div 2 ^ 32))"
    using assms(1) md_count_of_nat[of "length bs" "8 * length msg"] unfolding md_rep_def by (metis add_mult_distrib2 length_append)
  have k: "?k < 64" by simp
  show ?thesis
  proof (cases "length bs \<ge> 64 - ?k")
    case False
    then have "?k + length bs < 64" by linarith
    then obtain buf' where "memcpy_at (mc_buffer c) ?k bs = Inr buf'" "buffered 64 T st0 (msg @ bs) (mc_state c) buf'"
      using buffered_small[OF b, of bs] by auto
    then show ?thesis using False unfolding md_update_def Let_def idx cnt by (simp add: md_rep_def del: of_nat_mult)
  next
    case True
    let ?h = "take (64 - ?k) bs" and ?t = "drop (64 - ?k) bs"
    have "?k + length ?h = 64" using True k by simp
    then obtain buf' where m: "memcpy_at (mc_buffer c) ?k ?h = Inr buf'" "length buf' = 64"
        "buffered 64 T st0 (msg @ ?h) (T (mc_state c) buf') buf'"
      using buffered_fill[OF b, of ?h] by auto
    obtain st' r where a: "absorb 64 T (T (mc_state c) buf') ?t = (st', r)" by fastforce
    have z: "length (msg @ ?h) mod 64 = 0" using \<open>?k + length ?h = 64\<close>
      by (metis length_append mod_add_left_eq mod_self)
    obtain buf2 where b2: "memcpy_at buf' 0 r = Inr buf2" "buffered 64 T st0 (msg @ bs) st' buf2"
      using buffered_blocks[OF m(3) _ z a] by auto
    obtain j where j: "md_blocks T bs (T (mc_state c) buf') (64 - ?k) = Inr (st', j)" "drop j bs = r"
      using md_blocks_absorb[OF assms(2) True, of T "T (mc_state c) buf'"] a by auto
    show ?thesis using True m(1) j b2 unfolding md_update_def Let_def idx cnt
      by (simp add: md_rep_def del: of_nat_mult)
  qed
qed

lemma length_Encode2 [simp]: "length (Encode [a, b]) = 8"
  by (simp add: Encode_def)

lemma padding_pad_bytes:
  "take (if k < 56 then 56 - k else 120 - k) PADDING = pad_bytes 64 56 len" if "k = len mod 64"
proof -
  have "k < 64" using that by simp
  then show ?thesis using that
    by (auto simp: PADDING_def pad_bytes_def pad_len_def zeros_def take_Cons' take_replicate min_def)
qed

lemma md_rep_final:
  assumes "md_rep T st0 c msg"
  shows "md_final T c = Inr (md_spec T st0 msg)"
proof -
  let ?k = "length msg mod 64" and ?p = "pad_bytes 64 56 (length msg)"
    and ?b = "Encode [mc_count0 c, mc_count1 c]"
  have idx: "unat (drop_bit 3 (mc_count0 c) AND 0x3F) = ?k"
    using assms md_index by (simp add: md_rep_def del: of_nat_mult)
  have lp: "length ?p + 64 < 2 ^ 32" by (auto simp: pad_bytes_def pad_len_def Let_def)
  obtain c1 where c1: "md_update T c ?p = Inr c1" "md_rep T st0 c1 (msg @ ?p)"
    using md_rep_update[OF assms lp] by blast
  obtain c2 where c2: "md_update T c1 ?b = Inr c2" "md_rep T st0 c2 ((msg @ ?p) @ ?b)"
    using md_rep_update[OF c1(2), of ?b] by auto
  have "mc_state c2 = fst (absorb 64 T st0 ((msg @ ?p) @ ?b))"
    using c2(2) by (simp add: md_rep_def buffered_def)
  moreover have "?b = Encode [of_nat (8 * length msg), of_nat (8 * length msg div 2 ^ 32)]"
    using assms by (simp add: md_rep_def del: of_nat_mult)
  moreover have "take (if ?k < 56 then 56 - ?k else 120 - ?k) PADDING = ?p" by (rule padding_pad_bytes) simp
  ultimately show ?thesis using c1(1) c2(1) unfolding md_final_def idx Let_def
    by (simp add: md_spec_def del: of_nat_mult)
qed

definition md_ok :: "nat \<Rightarrow> bool" where
  "md_ok n \<longleftrightarrow> n + 64 < 2 ^ 32"

interpretation md5: stream_digest MD5Init MD5Update MD5Final "md_rep MD5Transform MD5_state0" md_ok
  "md_spec MD5Transform MD5_state0"
proof
  show "md_rep MD5Transform MD5_state0 MD5Init []"
    by (simp add: md_rep_def MD5Init_def buffered_Nil)
qed (auto simp: MD_generic md_ok_def intro: md_rep_update md_rep_final)

interpretation md4: stream_digest MD4Init MD4Update MD4Final "md_rep MD4Transform MD5_state0" md_ok
  "md_spec MD4Transform MD5_state0"
proof
  show "md_rep MD4Transform MD5_state0 MD4Init []"
    by (simp add: md_rep_def MD4Init_def MD5_state0_def buffered_Nil)
qed (auto simp: MD_generic md_ok_def intro: md_rep_update md_rep_final)

section \<open>Properties\<close>



end
