(* ===== verification/Sha1.thy ===== *)
theory Sha1
  imports Md_Stream
begin

text \<open>
  \<open>src/3rd/freebsd/crypto/sha1.c\<close>: SHA-1 on a little-endian machine. The message block is
  a union of 64 bytes and 16 words: \<open>sha1_step\<close> swaps the bytes of each word in place and
  then uses the words as the message schedule. \<open>COUNT\<close> is one byte, the number of bytes in
  the block.
\<close>

unbundle bit_operations_syntax

record sha1_ctxt =
  s1_h :: "u32 list"
  s1_c :: u64
  s1_m :: "byte list"
  s1_count :: byte

definition sha1_K :: "nat \<Rightarrow> u32" where
  "sha1_K t = [0x5a827999, 0x6ed9eba1, 0x8f1bbcdc, 0xca62c1d6] ! (t div 20)"

definition sha1_F0 :: "u32 \<Rightarrow> u32 \<Rightarrow> u32 \<Rightarrow> u32" where "sha1_F0 b c d = (b AND c) OR (NOT b AND d)"
definition sha1_F1 :: "u32 \<Rightarrow> u32 \<Rightarrow> u32 \<Rightarrow> u32" where "sha1_F1 b c d = (b XOR c) XOR d"
definition sha1_F2 :: "u32 \<Rightarrow> u32 \<Rightarrow> u32 \<Rightarrow> u32" where "sha1_F2 b c d = (b AND c) OR (b AND d) OR (c AND d)"
definition sha1_F3 :: "u32 \<Rightarrow> u32 \<Rightarrow> u32 \<Rightarrow> u32" where "sha1_F3 b c d = (b XOR c) XOR d"

definition sha1_S :: "nat \<Rightarrow> u32 \<Rightarrow> u32" where
  "sha1_S n x = push_bit n x OR drop_bit (32 - n) x"

text \<open>The byte swap, and the sixteen words of the swapped block.\<close>

definition sha1_swap :: "byte list \<Rightarrow> byte list" where
  "sha1_swap m = concat (map (\<lambda>i. [m ! (4 * i + 3), m ! (4 * i + 2), m ! (4 * i + 1), m ! (4 * i)]) [0..<16])"

definition sha1_words :: "byte list \<Rightarrow> u32 list" where
  "sha1_words m = map (\<lambda>i. le32dec (take 4 (drop (4 * i) m))) [0..<16]"

type_synonym sha1_regs = "u32 \<times> u32 \<times> u32 \<times> u32 \<times> u32 \<times> u32 list"

definition sha1_round :: "(u32 \<Rightarrow> u32 \<Rightarrow> u32 \<Rightarrow> u32) \<Rightarrow> nat \<Rightarrow> sha1_regs \<Rightarrow> sha1_regs" where
  "sha1_round f t = (\<lambda>(a, b, c, d, e, W).
     let s = t mod 16;
         W = (if t \<ge> 16
              then W[s := sha1_S 1 (W ! ((s + 13) mod 16) XOR W ! ((s + 8) mod 16) XOR W ! ((s + 2) mod 16) XOR W ! s)]
              else W);
         tmp = sha1_S 5 a + f b c d + e + W ! s + sha1_K t
     in (tmp, a, sha1_S 30 b, c, d, W))"

definition sha1_compress :: "u32 list \<Rightarrow> byte list \<Rightarrow> u32 list" where
  "sha1_compress h m =
     (let r = (h ! 0, h ! 1, h ! 2, h ! 3, h ! 4, sha1_words (sha1_swap m));
          r = fold (sha1_round sha1_F0) [0..<20] r;
          r = fold (sha1_round sha1_F1) [20..<40] r;
          r = fold (sha1_round sha1_F2) [40..<60] r;
          (a, b, c, d, e, _) = fold (sha1_round sha1_F3) [60..<80] r
      in [h ! 0 + a, h ! 1 + b, h ! 2 + c, h ! 3 + d, h ! 4 + e])"

definition sha1_step :: "sha1_ctxt \<Rightarrow> sha1_ctxt" where
  "sha1_step ctxt = ctxt\<lparr>s1_h := sha1_compress (s1_h ctxt) (s1_m ctxt), s1_m := zeros 64\<rparr>"

definition sha1_state0 :: "u32 list" where
  "sha1_state0 = [0x67452301, 0xefcdab89, 0x98badcfe, 0x10325476, 0xc3d2e1f0]"

definition sha1_init :: sha1_ctxt where
  "sha1_init = \<lparr>s1_h = sha1_state0, s1_c = 0, s1_m = zeros 64, s1_count = 0\<rparr>"

definition sha1_fill :: "byte list \<Rightarrow> sha1_ctxt \<Rightarrow> sha1_ctxt res" where
  \<comment> \<open>copy bytes behind those held and advance \<open>COUNT\<close>\<close>
  "sha1_fill bs ctxt =
     rbind (memcpy_at (s1_m ctxt) (unat (s1_count ctxt mod 64)) bs) (\<lambda>m.
     Inr (ctxt\<lparr>s1_m := m, s1_count := (s1_count ctxt + of_nat (length bs)) mod 64\<rparr>))"

definition PUTPAD :: "byte \<Rightarrow> sha1_ctxt \<Rightarrow> sha1_ctxt res" where
  "PUTPAD x ctxt =
     rbind (sha1_fill [x] ctxt) (\<lambda>ctxt.
     Inr (if s1_count ctxt mod 64 = 0 then sha1_step ctxt else ctxt))"

fun sha1_putpads :: "byte list \<Rightarrow> sha1_ctxt \<Rightarrow> sha1_ctxt res" where
  "sha1_putpads [] ctxt = Inr ctxt"
| "sha1_putpads (x # xs) ctxt = rbind (PUTPAD x ctxt) (sha1_putpads xs)"

definition sha1_pad :: "sha1_ctxt \<Rightarrow> sha1_ctxt res" where
  "sha1_pad ctxt =
     rbind (PUTPAD 0x80 ctxt) (\<lambda>ctxt.
     let padstart = unat (s1_count ctxt mod 64); padlen = 64 - padstart in
     rbind (if padlen < 8
            then rbind (sha1_fill (zeros padlen) ctxt) (\<lambda>ctxt. Inr (sha1_step ctxt))
            else Inr ctxt) (\<lambda>ctxt.
     let padstart = unat (s1_count ctxt mod 64); padlen = 64 - padstart in
     rbind (sha1_fill (zeros (padlen - 8)) ctxt) (\<lambda>ctxt.
     sha1_putpads (be64enc (s1_c ctxt)) ctxt)))"

lemma unat_mod_64: "unat (w mod 64 :: byte) = unat w mod 64"
  by (simp add: unat_mod_distrib)

function sha1_loop_from :: "byte list \<Rightarrow> nat \<Rightarrow> sha1_ctxt \<Rightarrow> sha1_ctxt res" where
  "sha1_loop_from input off ctxt =
     (if off < length input
      then let gapstart = unat (s1_count ctxt mod 64);
               gaplen = 64 - gapstart;
               copysiz = (if gaplen < length input - off then gaplen else length input - off)
           in rbind (sha1_fill (take copysiz (drop off input)) ctxt) (\<lambda>ctxt.
              let ctxt = ctxt\<lparr>s1_c := s1_c ctxt + of_nat (copysiz * 8)\<rparr>
              in sha1_loop_from input (off + copysiz)
                   (if s1_count ctxt mod 64 = 0 then sha1_step ctxt else ctxt))
      else Inr ctxt)"
  by pat_completeness auto
termination
  by (relation "measure (\<lambda>(input, off, ctxt). length input - off)") (auto simp: unat_mod_64)

declare sha1_loop_from.simps [simp del]

definition sha1_loop :: "sha1_ctxt \<Rightarrow> byte list \<Rightarrow> sha1_ctxt res" where
  "sha1_loop ctxt input = sha1_loop_from input 0 ctxt"

definition sha1_result :: "sha1_ctxt \<Rightarrow> byte list res" where
  "sha1_result ctxt = rbind (sha1_pad ctxt) (\<lambda>ctxt. Inr (concat (map be32enc (s1_h ctxt))))"

section \<open>Correctness of the streaming\<close>

definition sha1_spec :: "byte list \<Rightarrow> byte list" where
  "sha1_spec msg = concat (map be32enc (fst (absorb 64 sha1_compress sha1_state0
     (msg @ pad_bytes 64 56 (length msg) @ be64enc (of_nat (8 * length msg))))))"

text \<open>A context without its bit counter, and with it.\<close>

definition sha1_holds :: "sha1_ctxt \<Rightarrow> byte list \<Rightarrow> bool" where
  "sha1_holds c msg \<longleftrightarrow> buffered 64 sha1_compress sha1_state0 msg (s1_h c) (s1_m c) \<and>
     s1_count c = of_nat (length msg mod 64)"

definition sha1_rep :: "sha1_ctxt \<Rightarrow> byte list \<Rightarrow> bool" where
  "sha1_rep c msg \<longleftrightarrow> sha1_holds c msg \<and> s1_c c = of_nat (8 * length msg)"

lemma unat_count: "n < 128 \<Longrightarrow> unat (of_nat n :: byte) = n"
  by (simp add: unat_of_nat_small)

lemma count_mod: "sha1_holds c msg \<Longrightarrow> unat (s1_count c mod 64) = length msg mod 64"
  by (simp add: sha1_holds_def unat_mod_64 unat_count)

lemma count_add:
  assumes "a \<le> 64" and "b \<le> 63"
  shows "(of_nat b + of_nat a :: byte) mod 64 = of_nat ((b + a) mod 64)"
proof -
  have "unat ((of_nat (b + a) :: byte) mod 64) = (b + a) mod 64"
    using assms by (simp only: unat_mod_64) (simp add: unat_count del: of_nat_add)
  then show ?thesis by (metis of_nat_add of_nat_unat ucast_id)
qed

text \<open>Filling at most to the end of the block, and compressing if it is full.\<close>

definition sha1_put :: "byte list \<Rightarrow> sha1_ctxt \<Rightarrow> sha1_ctxt res" where
  "sha1_put bs ctxt =
     rbind (sha1_fill bs ctxt) (\<lambda>ctxt. Inr (if s1_count ctxt mod 64 = 0 then sha1_step ctxt else ctxt))"

lemma sha1_fill_holds:
  assumes "sha1_holds c msg" and "length msg mod 64 + length bs \<le> 64" and "bs \<noteq> []"
  shows "\<exists>c1. sha1_fill bs c = Inr c1 \<and> s1_c c1 = s1_c c \<and>
     (if length msg mod 64 + length bs = 64
      then s1_count c1 mod 64 = 0 \<and> sha1_holds (sha1_step c1) (msg @ bs) else
      s1_count c1 mod 64 \<noteq> 0 \<and> sha1_holds c1 (msg @ bs))"
proof -
  let ?k = "length msg mod 64" and ?T = sha1_compress
  have b: "buffered 64 ?T sha1_state0 msg (s1_h c) (s1_m c)" and cm: "unat (s1_count c mod 64) = ?k"
    using assms(1) count_mod by (auto simp: sha1_holds_def)
  have cnt: "(s1_count c + of_nat (length bs)) mod 64 = of_nat ((?k + length bs) mod 64)"
    using assms(1,2) count_add[of "length bs" ?k] by (simp add: sha1_holds_def)
  have len: "length (msg @ bs) mod 64 = (?k + length bs) mod 64" by (simp add: mod_add_left_eq)
  show ?thesis
  proof (cases "?k + length bs = 64")
    case True
    obtain buf where m: "memcpy_at (s1_m c) ?k bs = Inr buf"
        "\<And>b'. length b' = 64 \<Longrightarrow> buffered 64 ?T sha1_state0 (msg @ bs) (?T (s1_h c) buf) b'"
      using buffered_fill[OF b _ True] by auto
    then show ?thesis using True cnt len
      by (simp add: sha1_fill_def cm sha1_holds_def sha1_step_def)
  next
    case False
    then have lt: "?k + length bs < 64" using assms(2) by simp
    obtain buf where m: "memcpy_at (s1_m c) ?k bs = Inr buf" "buffered 64 ?T sha1_state0 (msg @ bs) (s1_h c) buf"
      using buffered_small[OF b lt] by blast
    have "unat ((s1_count c + of_nat (length bs)) mod 64 mod 64 :: byte) = ?k + length bs"
      unfolding cnt using lt by (simp add: unat_mod_64 unat_count del: of_nat_add)
    then have "(s1_count c + of_nat (length bs)) mod 64 mod 64 \<noteq> (0 :: byte)"
      using assms(3) by (metis add_is_0 length_0_conv unat_0)
    then show ?thesis using False m cnt len lt by (simp add: sha1_fill_def cm sha1_holds_def)
  qed
qed

lemma sha1_put_holds:
  assumes "sha1_holds c msg" and "length msg mod 64 + length bs \<le> 64" and "bs \<noteq> []"
  shows "\<exists>c1. sha1_put bs c = Inr c1 \<and> s1_c c1 = s1_c c \<and> sha1_holds c1 (msg @ bs)"
proof -
  obtain c1 where c1: "sha1_fill bs c = Inr c1" "s1_c c1 = s1_c c"
     "if length msg mod 64 + length bs = 64
      then s1_count c1 mod 64 = 0 \<and> sha1_holds (sha1_step c1) (msg @ bs) else
      s1_count c1 mod 64 \<noteq> 0 \<and> sha1_holds c1 (msg @ bs)"
    using sha1_fill_holds[OF assms] by blast
  then show ?thesis
    by (cases "length msg mod 64 + length bs = 64") (simp_all add: sha1_put_def sha1_step_def)
qed

lemma sha1_putpads_holds:
  "sha1_holds c msg \<Longrightarrow> \<exists>c1. sha1_putpads bs c = Inr c1 \<and> s1_c c1 = s1_c c \<and> sha1_holds c1 (msg @ bs)"
proof (induction bs arbitrary: c msg)
  case Nil
  then show ?case by simp
next
  case (Cons b bs)
  have "length msg mod 64 + length [b] \<le> 64" by (simp add: Suc_le_eq)
  then obtain c1 where c1: "PUTPAD b c = Inr c1" "s1_c c1 = s1_c c" "sha1_holds c1 (msg @ [b])"
    using sha1_put_holds[OF Cons.prems, of "[b]"] by (auto simp: sha1_put_def PUTPAD_def)
  then show ?case using Cons.IH[OF c1(3)] by simp
qed

lemma sha1_counter:
  "sha1_step (c\<lparr>s1_c := n\<rparr>) = (sha1_step c)\<lparr>s1_c := n\<rparr>"
  "sha1_holds (c\<lparr>s1_c := n\<rparr>) msg = sha1_holds c msg"
  by (simp_all add: sha1_step_def sha1_holds_def)

lemma sha1_loop_rep:
  assumes "sha1_rep c msg" and "off \<le> length input"
  shows "\<exists>c1. sha1_loop_from input off c = Inr c1 \<and> sha1_rep c1 (msg @ drop off input)"
  using assms
proof (induction "length input - off" arbitrary: off c msg rule: less_induct)
  case less
  show ?case
  proof (cases "off < length input")
    case False
    then show ?thesis using less.prems by (subst sha1_loop_from.simps) simp
  next
    case True
    let ?k = "length msg mod 64"
    define n where "n = (if 64 - ?k < length input - off then 64 - ?k else length input - off)"
    let ?n = n
    let ?bs = "take n (drop off input)"
    have h: "sha1_holds c msg" and cc: "s1_c c = of_nat (8 * length msg)"
      using less.prems by (simp_all add: sha1_rep_def)
    have k: "?k < 64" by simp
    have n: "0 < ?n" "off + ?n \<le> length input" "length ?bs = ?n" using True k by (auto simp: n_def)
    have "?n \<le> 64 - ?k" by (simp add: n_def)
    then have "?k + length ?bs \<le> 64" using n(3) k by linarith
    moreover have "?bs \<noteq> []" using n(1,3) by (metis length_greater_0_conv)
    ultimately obtain c1 where c1: "sha1_fill ?bs c = Inr c1" "s1_c c1 = s1_c c"
       "if ?k + length ?bs = 64
        then s1_count c1 mod 64 = 0 \<and> sha1_holds (sha1_step c1) (msg @ ?bs) else
        s1_count c1 mod 64 \<noteq> 0 \<and> sha1_holds c1 (msg @ ?bs)"
      using sha1_fill_holds[OF h] by blast
    define c2 where "c2 = (let d = c1\<lparr>s1_c := s1_c c1 + of_nat (?n * 8)\<rparr> in
        if s1_count d mod 64 = 0 then sha1_step d else d)"
    have cnt: "s1_c c1 + of_nat (?n * 8) = (of_nat (8 * length (msg @ ?bs)) :: u64)"
      using c1(2) cc n(3) by simp
    have r2: "sha1_rep c2 (msg @ ?bs)"
      using c1(3) cnt by (cases "?k + length ?bs = 64") (simp_all add: c2_def Let_def sha1_rep_def sha1_counter)
    have e: "sha1_loop_from input off c = sha1_loop_from input (off + ?n) c2"
      using True c1(1) by (subst sha1_loop_from.simps) (simp add: Let_def count_mod[OF h] c2_def n_def[symmetric])
    have d: "msg @ ?bs @ drop (off + ?n) input = msg @ drop off input"
      by (metis append_take_drop_id drop_drop add.commute)
    show ?thesis using less.hyps[OF _ r2, of "off + ?n"] n e d by simp
  qed
qed

lemma sha1_padding:
  fixes n :: nat
  defines "r \<equiv> Suc n mod 64"
  shows "0x80 # (if 64 - r < 8 then zeros (64 - r) else []) @ zeros (64 - (if 64 - r < 8 then 0 else r) - 8) =
         pad_bytes 64 56 n"
proof -
  let ?s = "n mod 64"
  have s: "?s < 64" by simp
  have r: "r = (if ?s = 63 then 0 else Suc ?s)" by (simp add: r_def mod_Suc)
  consider "?s < 56" | "56 \<le> ?s" "?s < 63" | "?s = 63" using s by linarith
  then show ?thesis
  proof cases
    case 2
    then have "64 - Suc ?s + 56 = 64 + 56 - ?s - 1" by linarith
    then show ?thesis using 2 r by (simp add: pad_bytes_def pad_len_def zeros_def replicate_add[symmetric])
  qed (simp_all add: r pad_bytes_def pad_len_def zeros_def)
qed

lemma sha1_pad_holds:
  assumes "sha1_rep c msg"
  shows "\<exists>c1. sha1_pad c = Inr c1 \<and> concat (map be32enc (s1_h c1)) = sha1_spec msg"
proof -
  let ?p = "pad_bytes 64 56 (length msg)"
  have h: "sha1_holds c msg" and cc: "s1_c c = of_nat (8 * length msg)" using assms by (simp_all add: sha1_rep_def)
  have "length msg mod 64 + length [0x80 :: byte] \<le> 64" by (simp add: Suc_le_eq)
  then obtain c1 where c1: "PUTPAD 0x80 c = Inr c1" "s1_c c1 = s1_c c" "sha1_holds c1 (msg @ [0x80])"
    using sha1_put_holds[OF h, of "[0x80]"] by (auto simp: sha1_put_def PUTPAD_def)
  let ?r = "length (msg @ [0x80]) mod 64"
  have r: "?r < 64" by simp
  obtain c2 msg2 where c2: "(if 64 - ?r < 8 then rbind (sha1_fill (zeros (64 - ?r)) c1) (\<lambda>ctxt. Inr (sha1_step ctxt)) else Inr c1) = Inr c2"
      "s1_c c2 = s1_c c" "sha1_holds c2 msg2"
      "msg2 = (msg @ [0x80]) @ (if 64 - ?r < 8 then zeros (64 - ?r) else [])"
      "length msg2 mod 64 = (if 64 - ?r < 8 then 0 else ?r)"
  proof (cases "64 - ?r < 8")
    case True
    let ?z = "zeros (64 - ?r)"
    have f: "?r + length ?z = 64" and z: "?z \<noteq> []" using r by (simp_all add: zeros_def not_le)
    obtain d where d: "sha1_fill ?z c1 = Inr d" "s1_c d = s1_c c1"
        "if ?r + length ?z = 64
         then s1_count d mod 64 = 0 \<and> sha1_holds (sha1_step d) ((msg @ [0x80]) @ ?z)
         else s1_count d mod 64 \<noteq> 0 \<and> sha1_holds d ((msg @ [0x80]) @ ?z)"
      using sha1_fill_holds[OF c1(3) eq_imp_le[OF f] z] by (elim exE conjE)
    show ?thesis
    proof (rule that[of "sha1_step d" "(msg @ [0x80]) @ ?z"])
      show "s1_c (sha1_step d) = s1_c c" using d(2) c1(2) by (simp add: sha1_step_def)
      show "sha1_holds (sha1_step d) ((msg @ [0x80]) @ ?z)" using d(3) f by argo
      show "length ((msg @ [0x80]) @ ?z) mod 64 = (if 64 - ?r < 8 then 0 else ?r)"
        unfolding if_P[OF True] by (rule length_fill_mod[OF f])
      show "(if 64 - ?r < 8 then rbind (sha1_fill (zeros (64 - ?r)) c1) (\<lambda>ctxt. Inr (sha1_step ctxt)) else Inr c1) =
          Inr (sha1_step d)"
        unfolding if_P[OF True] d(1) by (rule rbind_Inr)
      show "(msg @ [0x80]) @ ?z = (msg @ [0x80]) @ (if 64 - ?r < 8 then zeros (64 - ?r) else [])"
        unfolding if_P[OF True] by (rule refl)
    qed
  next
    case False
    then show ?thesis using that[of c1 "msg @ [0x80]"] c1 by simp
  qed
  let ?q = "length msg2 mod 64"
  let ?z = "zeros (64 - ?q - 8)"
  have q: "?q \<le> 56" using c2(5) by (auto split: if_splits)
  obtain c3 where c3: "sha1_fill ?z c2 = Inr c3" "s1_c c3 = s1_c c" "sha1_holds c3 (msg2 @ ?z)"
  proof (cases "?z = []")
    case True
    have cm: "s1_count c2 mod 64 = s1_count c2"
      using c2(3) count_add[of 0 ?q] by (simp add: sha1_holds_def)
    have "memcpy_at (s1_m c2) (unat (s1_count c2 mod 64)) [] = Inr (s1_m c2)"
      using c2(3) unfolding count_mod[OF c2(3)] by (simp add: memcpy_at_def sha1_holds_def buffered_def)
    then have "sha1_fill [] c2 = Inr c2" using cm by (simp add: sha1_fill_def)
    then show ?thesis using that[of c2, unfolded True] c2(2,3) by simp
  next
    case False
    then show ?thesis using sha1_fill_holds[OF c2(3), of ?z] q c2(2) that by (auto split: if_splits)
  qed
  obtain c4 where c4: "sha1_putpads (be64enc (s1_c c3)) c3 = Inr c4" "sha1_holds c4 ((msg2 @ ?z) @ be64enc (s1_c c3))"
    using sha1_putpads_holds[OF c3(3)] by blast
  have p: "msg2 @ ?z = msg @ ?p"
    unfolding c2(5) unfolding c2(4) using sha1_padding[of "length msg"] by (simp split: if_splits)
  have "s1_h c4 = fst (absorb 64 sha1_compress sha1_state0 ((msg @ ?p) @ be64enc (of_nat (8 * length msg))))"
    using c4(2)[unfolded p c3(2) cc] by (simp add: sha1_holds_def buffered_def)
  moreover have "sha1_pad c = Inr c4"
    unfolding sha1_pad_def Let_def c1(1) rbind_Inr count_mod[OF c1(3)] c2(1) count_mod[OF c2(3)] c3(1) c4(1)
    by (rule refl)
  ultimately show ?thesis by (simp add: sha1_spec_def)
qed

interpretation sha1: stream_digest sha1_init sha1_loop sha1_result sha1_rep "\<lambda>_. True" sha1_spec
proof
  show "sha1_rep sha1_init []" by (simp add: sha1_rep_def sha1_holds_def sha1_init_def buffered_Nil)
  show "\<exists>c'. sha1_loop c bs = Inr c' \<and> sha1_rep c' (msg @ bs)" if "sha1_rep c msg" for c msg bs
    using sha1_loop_rep[OF that, of 0 bs] by (simp add: sha1_loop_def)
  show "sha1_result c = Inr (sha1_spec msg)" if "sha1_rep c msg" for c msg
    using sha1_pad_holds[OF that] by (auto simp: sha1_result_def)
qed

section \<open>Properties\<close>

text \<open>
  SHA-1 does not depend on how the message is cut into updates, never leaves its
  block buffer, and yields the digest of FIPS 180-1: the chaining words of the padded message,
  big-endian.
\<close>

theorem sha1_streaming:
  "rbind (updates sha1_loop sha1_init pieces) sha1_result = Inr (sha1_spec (concat pieces))"
  by (rule sha1.streaming) (simp add: list_all_iff)

end
