(* ===== verification/Sha2.thy ===== *)
theory Sha2
  imports Md_Stream
begin

text \<open>
  \<open>src/3rd/freebsd/crypto/sha2/sha256c.c\<close> and \<open>sha512c.c\<close>: SHA-256, SHA-512 and the
  variants of SHA-512 (SHA-512/224, SHA-512/256, SHA-384), as the stack's IPsec and random
  number code uses them on a little-endian machine. The message schedule is the array
  \<open>W\<close>, whose uninitialised words are zeros here; each is written before it is read. A
  \<open>Final\<close> function takes the caller's digest array and returns what it leaves there; the
  zeroing of the context is not modelled.
\<close>

unbundle bit_operations_syntax

section \<open>SHA-256\<close>

definition K256 :: "u32 list" where
  "K256 = concat
    [[0x428a2f98, 0x71374491, 0xb5c0fbcf, 0xe9b5dba5],
     [0x3956c25b, 0x59f111f1, 0x923f82a4, 0xab1c5ed5],
     [0xd807aa98, 0x12835b01, 0x243185be, 0x550c7dc3],
     [0x72be5d74, 0x80deb1fe, 0x9bdc06a7, 0xc19bf174],
     [0xe49b69c1, 0xefbe4786, 0x0fc19dc6, 0x240ca1cc],
     [0x2de92c6f, 0x4a7484aa, 0x5cb0a9dc, 0x76f988da],
     [0x983e5152, 0xa831c66d, 0xb00327c8, 0xbf597fc7],
     [0xc6e00bf3, 0xd5a79147, 0x06ca6351, 0x14292967],
     [0x27b70a85, 0x2e1b2138, 0x4d2c6dfc, 0x53380d13],
     [0x650a7354, 0x766a0abb, 0x81c2c92e, 0x92722c85],
     [0xa2bfe8a1, 0xa81a664b, 0xc24b8b70, 0xc76c51a3],
     [0xd192e819, 0xd6990624, 0xf40e3585, 0x106aa070],
     [0x19a4c116, 0x1e376c08, 0x2748774c, 0x34b0bcb5],
     [0x391c0cb3, 0x4ed8aa4a, 0x5b9cca4f, 0x682e6ff3],
     [0x748f82ee, 0x78a5636f, 0x84c87814, 0x8cc70208],
     [0x90befffa, 0xa4506ceb, 0xbef9a3f7, 0xc67178f2]]"

definition Ch256 :: "u32 \<Rightarrow> u32 \<Rightarrow> u32 \<Rightarrow> u32" where "Ch256 x y z = (x AND (y XOR z)) XOR z"
definition Maj256 :: "u32 \<Rightarrow> u32 \<Rightarrow> u32 \<Rightarrow> u32" where "Maj256 x y z = (x AND (y OR z)) OR (y AND z)"
definition bigS0_256 :: "u32 \<Rightarrow> u32" where "bigS0_256 x = rotr32 2 x XOR rotr32 13 x XOR rotr32 22 x"
definition bigS1_256 :: "u32 \<Rightarrow> u32" where "bigS1_256 x = rotr32 6 x XOR rotr32 11 x XOR rotr32 25 x"
definition s0_256 :: "u32 \<Rightarrow> u32" where "s0_256 x = rotr32 7 x XOR rotr32 18 x XOR drop_bit 3 x"
definition s1_256 :: "u32 \<Rightarrow> u32" where "s1_256 x = rotr32 17 x XOR rotr32 19 x XOR drop_bit 10 x"

definition RND256 ::
  "nat \<Rightarrow> nat \<Rightarrow> nat \<Rightarrow> nat \<Rightarrow> nat \<Rightarrow> nat \<Rightarrow> nat \<Rightarrow> nat \<Rightarrow> u32 \<Rightarrow> u32 list \<Rightarrow> u32 list" where
  "RND256 a b c d e f g h k S =
     (let S = S[h := S ! h + (bigS1_256 (S ! e) + Ch256 (S ! e) (S ! f) (S ! g) + k)];
          S = S[d := S ! d + S ! h]
      in S[h := S ! h + (bigS0_256 (S ! a) + Maj256 (S ! a) (S ! b) (S ! c))])"

definition RNDr256 :: "u32 list \<Rightarrow> nat \<Rightarrow> nat \<Rightarrow> u32 list \<Rightarrow> u32 list" where
  "RNDr256 W ii i S =
     (let p = (\<lambda>j. (64 + j - i) mod 8)
      in RND256 (p 0) (p 1) (p 2) (p 3) (p 4) (p 5) (p 6) (p 7) (W ! (i + ii) + K256 ! (i + ii)) S)"

definition MSCH256 :: "nat \<Rightarrow> nat \<Rightarrow> u32 list \<Rightarrow> u32 list" where
  "MSCH256 i ii W =
     W[i + ii + 16 := s1_256 (W ! (i + ii + 14)) + W ! (i + ii + 9) + s0_256 (W ! (i + ii + 1)) + W ! (i + ii)]"

definition be32dec_vect :: "byte list \<Rightarrow> u32 list" where
  "be32dec_vect src = map (\<lambda>i. be32dec (take 4 (drop (i * 4) src))) [0..<length src div 4]"

definition be32enc_vect :: "byte list \<Rightarrow> u32 list \<Rightarrow> nat \<Rightarrow> byte list" where
  "be32enc_vect dst src len =
     (let out = concat (map be32enc (take (len div 4) src)) in out @ drop (length out) dst)"

definition sha256_mix :: "nat \<Rightarrow> u32 list \<times> u32 list \<Rightarrow> u32 list \<times> u32 list" where
  \<comment> \<open>one iteration of the loop: sixteen rounds, then (but for the last) sixteen schedule words\<close>
  "sha256_mix i = (\<lambda>(S, W).
     (fold (RNDr256 W i) [0..<16] S,
      if i = 48 then W else fold (\<lambda>j. MSCH256 i j) [0..<16] W))"

definition SHA256_Transform :: "u32 list \<Rightarrow> byte list \<Rightarrow> u32 list" where
  "SHA256_Transform state block =
     (let W = be32dec_vect block @ replicate 48 0;
          S = fst (fold sha256_mix [0, 16, 32, 48] (state, W))
      in map2 (+) state S)"

definition PAD256 :: "byte list" where
  "PAD256 = 0x80 # zeros 63"

record sha256_ctx =
  s2_state :: "u32 list"
  s2_count :: u64
  s2_buf :: "byte list"

definition SHA256_Pad :: "sha256_ctx \<Rightarrow> sha256_ctx res" where
  "SHA256_Pad ctx =
     (let r = unat (drop_bit 3 (s2_count ctx) AND 0x3f)
      in rbind
           (if r < 56
            then rbind (memcpy_at (s2_buf ctx) r (take (56 - r) PAD256)) (\<lambda>buf. Inr (s2_state ctx, buf))
            else rbind (memcpy_at (s2_buf ctx) r (take (64 - r) PAD256)) (\<lambda>buf.
                 rbind (memcpy_at buf 0 (zeros 56)) (\<lambda>buf'.
                 Inr (SHA256_Transform (s2_state ctx) buf, buf')))) (\<lambda>(st, buf).
         rbind (memcpy_at buf 56 (be64enc (s2_count ctx))) (\<lambda>buf.
         Inr (ctx\<lparr>s2_state := SHA256_Transform st buf, s2_buf := buf\<rparr>))))"

definition SHA256_state0 :: "u32 list" where
  "SHA256_state0 =
    [0x6a09e667, 0xbb67ae85, 0x3c6ef372, 0xa54ff53a,
     0x510e527f, 0x9b05688c, 0x1f83d9ab, 0x5be0cd19]"

definition SHA256_Init :: sha256_ctx where
  "SHA256_Init = \<lparr>s2_state = SHA256_state0, s2_count = 0, s2_buf = zeros 64\<rparr>"

text \<open>\<open>while (len >= 64)\<close>: what is left of the source is the second component.\<close>

function sha256_blocks :: "u32 list \<Rightarrow> byte list \<Rightarrow> u32 list \<times> byte list" where
  "sha256_blocks st src =
     (if length src \<ge> 64 then sha256_blocks (SHA256_Transform st (take 64 src)) (drop 64 src) else (st, src))"
  by pat_completeness auto
termination by (relation "measure (\<lambda>(st, src). length src)") auto

declare sha256_blocks.simps [simp del]

definition SHA256_Update :: "sha256_ctx \<Rightarrow> byte list \<Rightarrow> sha256_ctx res" where
  "SHA256_Update ctx src =
     (let r = unat (drop_bit 3 (s2_count ctx) AND 0x3f);
          bitlen = push_bit 3 (of_nat (length src) :: u64);
          ctx = ctx\<lparr>s2_count := s2_count ctx + bitlen\<rparr>
      in if length src < 64 - r
         then rbind (memcpy_at (s2_buf ctx) r src) (\<lambda>buf. Inr (ctx\<lparr>s2_buf := buf\<rparr>))
         else rbind (memcpy_at (s2_buf ctx) r (take (64 - r) src)) (\<lambda>buf.
              let (st, rest) = sha256_blocks (SHA256_Transform (s2_state ctx) buf) (drop (64 - r) src)
              in rbind (memcpy_at buf 0 rest) (\<lambda>buf.
                 Inr (ctx\<lparr>s2_state := st, s2_buf := buf\<rparr>))))"

definition SHA256_Final :: "byte list \<Rightarrow> sha256_ctx \<Rightarrow> byte list res" where
  "SHA256_Final digest ctx = rbind (SHA256_Pad ctx) (\<lambda>ctx. Inr (be32enc_vect digest (s2_state ctx) 32))"

section \<open>SHA-512\<close>

definition K512 :: "u64 list" where
  "K512 = concat
    [[0x428a2f98d728ae22, 0x7137449123ef65cd, 0xb5c0fbcfec4d3b2f],
     [0xe9b5dba58189dbbc, 0x3956c25bf348b538, 0x59f111f1b605d019],
     [0x923f82a4af194f9b, 0xab1c5ed5da6d8118, 0xd807aa98a3030242],
     [0x12835b0145706fbe, 0x243185be4ee4b28c, 0x550c7dc3d5ffb4e2],
     [0x72be5d74f27b896f, 0x80deb1fe3b1696b1, 0x9bdc06a725c71235],
     [0xc19bf174cf692694, 0xe49b69c19ef14ad2, 0xefbe4786384f25e3],
     [0x0fc19dc68b8cd5b5, 0x240ca1cc77ac9c65, 0x2de92c6f592b0275],
     [0x4a7484aa6ea6e483, 0x5cb0a9dcbd41fbd4, 0x76f988da831153b5],
     [0x983e5152ee66dfab, 0xa831c66d2db43210, 0xb00327c898fb213f],
     [0xbf597fc7beef0ee4, 0xc6e00bf33da88fc2, 0xd5a79147930aa725],
     [0x06ca6351e003826f, 0x142929670a0e6e70, 0x27b70a8546d22ffc],
     [0x2e1b21385c26c926, 0x4d2c6dfc5ac42aed, 0x53380d139d95b3df],
     [0x650a73548baf63de, 0x766a0abb3c77b2a8, 0x81c2c92e47edaee6],
     [0x92722c851482353b, 0xa2bfe8a14cf10364, 0xa81a664bbc423001],
     [0xc24b8b70d0f89791, 0xc76c51a30654be30, 0xd192e819d6ef5218],
     [0xd69906245565a910, 0xf40e35855771202a, 0x106aa07032bbd1b8],
     [0x19a4c116b8d2d0c8, 0x1e376c085141ab53, 0x2748774cdf8eeb99],
     [0x34b0bcb5e19b48a8, 0x391c0cb3c5c95a63, 0x4ed8aa4ae3418acb],
     [0x5b9cca4f7763e373, 0x682e6ff3d6b2b8a3, 0x748f82ee5defb2fc],
     [0x78a5636f43172f60, 0x84c87814a1f0ab72, 0x8cc702081a6439ec],
     [0x90befffa23631e28, 0xa4506cebde82bde9, 0xbef9a3f7b2c67915],
     [0xc67178f2e372532b, 0xca273eceea26619c, 0xd186b8c721c0c207],
     [0xeada7dd6cde0eb1e, 0xf57d4f7fee6ed178, 0x06f067aa72176fba],
     [0x0a637dc5a2c898a6, 0x113f9804bef90dae, 0x1b710b35131c471b],
     [0x28db77f523047d84, 0x32caab7b40c72493, 0x3c9ebe0a15c9bebc],
     [0x431d67c49c100d4c, 0x4cc5d4becb3e42b6, 0x597f299cfc657e2a],
     [0x5fcb6fab3ad6faec, 0x6c44198c4a475817]]"

definition Ch512 :: "u64 \<Rightarrow> u64 \<Rightarrow> u64 \<Rightarrow> u64" where "Ch512 x y z = (x AND (y XOR z)) XOR z"
definition Maj512 :: "u64 \<Rightarrow> u64 \<Rightarrow> u64 \<Rightarrow> u64" where "Maj512 x y z = (x AND (y OR z)) OR (y AND z)"
definition bigS0_512 :: "u64 \<Rightarrow> u64" where "bigS0_512 x = rotr64 28 x XOR rotr64 34 x XOR rotr64 39 x"
definition bigS1_512 :: "u64 \<Rightarrow> u64" where "bigS1_512 x = rotr64 14 x XOR rotr64 18 x XOR rotr64 41 x"
definition s0_512 :: "u64 \<Rightarrow> u64" where "s0_512 x = rotr64 1 x XOR rotr64 8 x XOR drop_bit 7 x"
definition s1_512 :: "u64 \<Rightarrow> u64" where "s1_512 x = rotr64 19 x XOR rotr64 61 x XOR drop_bit 6 x"

definition RND512 ::
  "nat \<Rightarrow> nat \<Rightarrow> nat \<Rightarrow> nat \<Rightarrow> nat \<Rightarrow> nat \<Rightarrow> nat \<Rightarrow> nat \<Rightarrow> u64 \<Rightarrow> u64 list \<Rightarrow> u64 list" where
  "RND512 a b c d e f g h k S =
     (let S = S[h := S ! h + (bigS1_512 (S ! e) + Ch512 (S ! e) (S ! f) (S ! g) + k)];
          S = S[d := S ! d + S ! h]
      in S[h := S ! h + (bigS0_512 (S ! a) + Maj512 (S ! a) (S ! b) (S ! c))])"

definition RNDr512 :: "u64 list \<Rightarrow> nat \<Rightarrow> nat \<Rightarrow> u64 list \<Rightarrow> u64 list" where
  "RNDr512 W ii i S =
     (let p = (\<lambda>j. (80 + j - i) mod 8)
      in RND512 (p 0) (p 1) (p 2) (p 3) (p 4) (p 5) (p 6) (p 7) (W ! (i + ii) + K512 ! (i + ii)) S)"

definition MSCH512 :: "nat \<Rightarrow> nat \<Rightarrow> u64 list \<Rightarrow> u64 list" where
  "MSCH512 i ii W =
     W[i + ii + 16 := s1_512 (W ! (i + ii + 14)) + W ! (i + ii + 9) + s0_512 (W ! (i + ii + 1)) + W ! (i + ii)]"

definition be64dec_vect :: "byte list \<Rightarrow> u64 list" where
  "be64dec_vect src = map (\<lambda>i. be64dec (take 8 (drop (i * 8) src))) [0..<length src div 8]"

definition be64enc_vect :: "byte list \<Rightarrow> u64 list \<Rightarrow> nat \<Rightarrow> byte list" where
  "be64enc_vect dst src len =
     (let out = concat (map be64enc (take (len div 8) src)) in out @ drop (length out) dst)"

definition sha512_mix :: "nat \<Rightarrow> u64 list \<times> u64 list \<Rightarrow> u64 list \<times> u64 list" where
  \<comment> \<open>one iteration of the loop: sixteen rounds, then (but for the last) sixteen schedule words\<close>
  "sha512_mix i = (\<lambda>(S, W).
     (fold (RNDr512 W i) [0..<16] S,
      if i = 64 then W else fold (\<lambda>j. MSCH512 i j) [0..<16] W))"

definition SHA512_Transform :: "u64 list \<Rightarrow> byte list \<Rightarrow> u64 list" where
  "SHA512_Transform state block =
     (let W = be64dec_vect block @ replicate 64 0;
          S = fst (fold sha512_mix [0, 16, 32, 48, 64] (state, W))
      in map2 (+) state S)"

definition PAD512 :: "byte list" where
  "PAD512 = 0x80 # zeros 127"

record sha512_ctx =
  s5_state :: "u64 list"
  s5_count0 :: u64
  s5_count1 :: u64
  s5_buf :: "byte list"

definition SHA512_Pad :: "sha512_ctx \<Rightarrow> sha512_ctx res" where
  "SHA512_Pad ctx =
     (let r = unat (drop_bit 3 (s5_count1 ctx) AND 0x7f)
      in rbind
           (if r < 112
            then rbind (memcpy_at (s5_buf ctx) r (take (112 - r) PAD512)) (\<lambda>buf. Inr (s5_state ctx, buf))
            else rbind (memcpy_at (s5_buf ctx) r (take (128 - r) PAD512)) (\<lambda>buf.
                 rbind (memcpy_at buf 0 (zeros 112)) (\<lambda>buf'.
                 Inr (SHA512_Transform (s5_state ctx) buf, buf')))) (\<lambda>(st, buf).
         rbind (memcpy_at buf 112 (be64enc_vect [] [s5_count0 ctx, s5_count1 ctx] 16)) (\<lambda>buf.
         Inr (ctx\<lparr>s5_state := SHA512_Transform st buf, s5_buf := buf\<rparr>))))"

definition SHA512_start :: "u64 list \<Rightarrow> sha512_ctx" where
  "SHA512_start st = \<lparr>s5_state = st, s5_count0 = 0, s5_count1 = 0, s5_buf = zeros 128\<rparr>"

definition SHA512_Init :: sha512_ctx where
  "SHA512_Init = SHA512_start
    [0x6a09e667f3bcc908, 0xbb67ae8584caa73b, 0x3c6ef372fe94f82b, 0xa54ff53a5f1d36f1,
     0x510e527fade682d1, 0x9b05688c2b3e6c1f, 0x1f83d9abfb41bd6b, 0x5be0cd19137e2179]"

function sha512_blocks :: "u64 list \<Rightarrow> byte list \<Rightarrow> u64 list \<times> byte list" where
  "sha512_blocks st src =
     (if length src \<ge> 128 then sha512_blocks (SHA512_Transform st (take 128 src)) (drop 128 src) else (st, src))"
  by pat_completeness auto
termination by (relation "measure (\<lambda>(st, src). length src)") auto

declare sha512_blocks.simps [simp del]

definition SHA512_Update :: "sha512_ctx \<Rightarrow> byte list \<Rightarrow> sha512_ctx res" where
  "SHA512_Update ctx src =
     (let r = unat (drop_bit 3 (s5_count1 ctx) AND 0x7f);
          len = (of_nat (length src) :: u64);
          bitlen1 = push_bit 3 len;
          bitlen0 = drop_bit 61 len;
          c1 = s5_count1 ctx + bitlen1;
          c0 = (if c1 < bitlen1 then s5_count0 ctx + 1 else s5_count0 ctx) + bitlen0;
          ctx = ctx\<lparr>s5_count1 := c1, s5_count0 := c0\<rparr>
      in if length src < 128 - r
         then rbind (memcpy_at (s5_buf ctx) r src) (\<lambda>buf. Inr (ctx\<lparr>s5_buf := buf\<rparr>))
         else rbind (memcpy_at (s5_buf ctx) r (take (128 - r) src)) (\<lambda>buf.
              let (st, rest) = sha512_blocks (SHA512_Transform (s5_state ctx) buf) (drop (128 - r) src)
              in rbind (memcpy_at buf 0 rest) (\<lambda>buf.
                 Inr (ctx\<lparr>s5_state := st, s5_buf := buf\<rparr>))))"

definition SHA512_Final :: "byte list \<Rightarrow> sha512_ctx \<Rightarrow> byte list res" where
  "SHA512_Final digest ctx = rbind (SHA512_Pad ctx) (\<lambda>ctx. Inr (be64enc_vect digest (s5_state ctx) 64))"

definition SHA512_224_Init :: sha512_ctx where
  "SHA512_224_Init = SHA512_start
    [0x8c3d37c819544da2, 0x73e1996689dcd4d6, 0x1dfab7ae32ff9c82, 0x679dd514582f9fcf,
     0x0f6d2b697bd44da8, 0x77e36f7304c48942, 0x3f9d85a86a1d36c8, 0x1112e6ad91d692a1]"

definition SHA512_224_Update :: "sha512_ctx \<Rightarrow> byte list \<Rightarrow> sha512_ctx res" where
  "SHA512_224_Update ctx src = SHA512_Update ctx src"

definition SHA512_224_Final :: "byte list \<Rightarrow> sha512_ctx \<Rightarrow> byte list res" where
  "SHA512_224_Final digest ctx = rbind (SHA512_Pad ctx) (\<lambda>ctx. Inr (be64enc_vect digest (s5_state ctx) 28))"

definition SHA512_256_Init :: sha512_ctx where
  "SHA512_256_Init = SHA512_start
    [0x22312194fc2bf72c, 0x9f555fa3c84c64c2, 0x2393b86b6f53b151, 0x963877195940eabd,
     0x96283ee2a88effe3, 0xbe5e1e2553863992, 0x2b0199fc2c85b8aa, 0x0eb72ddc81c52ca2]"

definition SHA512_256_Update :: "sha512_ctx \<Rightarrow> byte list \<Rightarrow> sha512_ctx res" where
  "SHA512_256_Update ctx src = SHA512_Update ctx src"

definition SHA512_256_Final :: "byte list \<Rightarrow> sha512_ctx \<Rightarrow> byte list res" where
  "SHA512_256_Final digest ctx = rbind (SHA512_Pad ctx) (\<lambda>ctx. Inr (be64enc_vect digest (s5_state ctx) 32))"

definition SHA384_Init :: sha512_ctx where
  "SHA384_Init = SHA512_start
    [0xcbbb9d5dc1059ed8, 0x629a292a367cd507, 0x9159015a3070dd17, 0x152fecd8f70e5939,
     0x67332667ffc00b31, 0x8eb44a8768581511, 0xdb0c2e0d64f98fa7, 0x47b5481dbefa4fa4]"

definition SHA384_Update :: "sha512_ctx \<Rightarrow> byte list \<Rightarrow> sha512_ctx res" where
  "SHA384_Update ctx src = SHA512_Update ctx src"

definition SHA384_Final :: "byte list \<Rightarrow> sha512_ctx \<Rightarrow> byte list res" where
  "SHA384_Final digest ctx = rbind (SHA512_Pad ctx) (\<lambda>ctx. Inr (be64enc_vect digest (s5_state ctx) 48))"

section \<open>Correctness of the streaming\<close>

text \<open>FIPS 180: pad to 56 modulo 64 (112 modulo 128) bytes, append the bit length as a
  big-endian number of 8 (16) bytes, and compress block by block.\<close>

definition sha256_chain :: "byte list \<Rightarrow> u32 list" where
  "sha256_chain msg = fst (absorb 64 SHA256_Transform SHA256_state0
     (msg @ pad_bytes 64 56 (length msg) @ be64enc (of_nat (8 * length msg))))"

definition sha512_chain :: "u64 list \<Rightarrow> byte list \<Rightarrow> u64 list" where
  "sha512_chain st0 msg = fst (absorb 128 SHA512_Transform st0
     (msg @ pad_bytes 128 112 (length msg) @
      be64enc (of_nat (8 * length msg div 2 ^ 64)) @ be64enc (of_nat (8 * length msg))))"

lemma sha_index:
  "unat (drop_bit 3 (of_nat (8 * n) :: u64) AND 0x3f) = n mod 64"
  "unat (drop_bit 3 (of_nat (8 * n) :: u64) AND 0x7f) = n mod 128"
  using bit_index[of 6 n, where 'a = 64] bit_index[of 7 n, where 'a = 64]
  by (simp_all add: mask_eq_exp_minus_1)

lemma blocks_absorb:
  "sha256_blocks st src = absorb 64 SHA256_Transform st src"
  "sha512_blocks st' src = absorb 128 SHA512_Transform st' src"
proof -
  show "sha256_blocks st src = absorb 64 SHA256_Transform st src"
    by (induction st src rule: sha256_blocks.induct, subst sha256_blocks.simps, subst absorb.simps) simp
  show "sha512_blocks st' src = absorb 128 SHA512_Transform st' src"
    by (induction st' src rule: sha512_blocks.induct, subst sha512_blocks.simps, subst absorb.simps) simp
qed

text \<open>Both update functions, without their counters.\<close>

definition feed :: "nat \<Rightarrow> ('s \<Rightarrow> byte list \<Rightarrow> 's) \<Rightarrow> nat \<Rightarrow> 's \<Rightarrow> byte list \<Rightarrow> byte list \<Rightarrow> ('s \<times> byte list) res" where
  "feed n T r st buf src =
     (if length src < n - r
      then rbind (memcpy_at buf r src) (\<lambda>buf. Inr (st, buf))
      else rbind (memcpy_at buf r (take (n - r) src)) (\<lambda>buf.
           let (st, rest) = absorb n T (T st buf) (drop (n - r) src)
           in rbind (memcpy_at buf 0 rest) (\<lambda>buf. Inr (st, buf))))"

lemma feed_buffered:
  assumes "buffered n T st0 msg st buf" and "0 < n"
  shows "\<exists>st' buf'. feed n T (length msg mod n) st buf src = Inr (st', buf') \<and>
     buffered n T st0 (msg @ src) st' buf'"
proof (cases "length src < n - length msg mod n")
  case True
  then have "length msg mod n + length src < n" by linarith
  then show ?thesis using buffered_small[OF assms(1), of src] True by (auto simp: feed_def)
next
  case False
  let ?k = "length msg mod n"
  let ?h = "take (n - ?k) src" and ?t = "drop (n - ?k) src"
  have k: "?k < n" using assms(2) by simp
  then have h: "?k + length ?h = n" using False by simp
  then obtain b1 where b1: "memcpy_at buf ?k ?h = Inr b1" "length b1 = n" "buffered n T st0 (msg @ ?h) (T st b1) b1"
    using buffered_fill[OF assms, of ?h] by auto
  have z: "length (msg @ ?h) mod n = 0" using h by (metis length_append mod_add_left_eq mod_self)
  obtain st' r where a: "absorb n T (T st b1) ?t = (st', r)" by fastforce
  obtain b2 where b2: "memcpy_at b1 0 r = Inr b2" "buffered n T st0 ((msg @ ?h) @ ?t) st' b2"
    using buffered_blocks[OF b1(3) assms(2) z a] by auto
  then show ?thesis using False b1(1) a by (simp add: feed_def)
qed

definition sha256_rep :: "sha256_ctx \<Rightarrow> byte list \<Rightarrow> bool" where
  "sha256_rep c msg \<longleftrightarrow> buffered 64 SHA256_Transform SHA256_state0 msg (s2_state c) (s2_buf c) \<and>
     s2_count c = of_nat (8 * length msg)"

lemma SHA256_Update_feed:
  assumes "s2_count ctx = of_nat (8 * n)"
  shows "SHA256_Update ctx src =
    rbind (feed 64 SHA256_Transform (n mod 64) (s2_state ctx) (s2_buf ctx) src) (\<lambda>(st, buf).
    Inr (ctx\<lparr>s2_count := of_nat (8 * (n + length src)), s2_state := st, s2_buf := buf\<rparr>))"
proof -
  have "s2_count ctx + push_bit 3 (of_nat (length src)) = of_nat (8 * (n + length src))"
    using assms by (simp add: push_bit_3_of_nat)
  then show ?thesis
    unfolding SHA256_Update_def feed_def Let_def assms sha_index blocks_absorb
    by (auto simp: rbind_def split: sum.splits prod.splits)
qed

lemma sha256_rep_update:
  assumes "sha256_rep c msg"
  shows "\<exists>c'. SHA256_Update c bs = Inr c' \<and> sha256_rep c' (msg @ bs)"
proof -
  have c: "s2_count c = of_nat (8 * length msg)" and
    b: "buffered 64 SHA256_Transform SHA256_state0 msg (s2_state c) (s2_buf c)"
    using assms by (simp_all add: sha256_rep_def)
  show ?thesis
    using feed_buffered[OF b, of bs] by (auto simp: SHA256_Update_feed[OF c] sha256_rep_def)
qed

lemma PAD_eq: "PAD256 = 0x80 # zeros (64 - 1)" "PAD512 = 0x80 # zeros (128 - 1)"
  by (simp_all add: PAD256_def PAD512_def)

lemma sha256_rep_pad:
  assumes "sha256_rep c msg"
  shows "\<exists>c'. SHA256_Pad c = Inr c' \<and> s2_state c' = sha256_chain msg"
proof -
  have c: "s2_count c = of_nat (8 * length msg)" and
    b: "buffered 64 SHA256_Transform SHA256_state0 msg (s2_state c) (s2_buf c)"
    using assms by (simp_all add: sha256_rep_def)
  obtain st1 buf1 buf2 where
    "pad_final 64 56 SHA256_Transform PAD256 (length msg mod 64) (s2_state c) (s2_buf c) = Inr (st1, buf1)"
    "memcpy_at buf1 56 (be64enc (of_nat (8 * length msg))) = Inr buf2"
    "SHA256_Transform st1 buf2 = sha256_chain msg"
    using pad_final_buffered[OF b _ _ PAD_eq(1), of 56 "be64enc (of_nat (8 * length msg))"]
    by (auto simp: sha256_chain_def)
  then show ?thesis unfolding SHA256_Pad_def Let_def c sha_index by (simp add: pad_final_def)
qed

definition sha512_rep :: "u64 list \<Rightarrow> sha512_ctx \<Rightarrow> byte list \<Rightarrow> bool" where
  "sha512_rep st0 c msg \<longleftrightarrow> buffered 128 SHA512_Transform st0 msg (s5_state c) (s5_buf c) \<and>
     s5_count1 c = of_nat (8 * length msg) \<and> s5_count0 c = of_nat (8 * length msg div 2 ^ 64)"

lemma SHA512_Update_feed:
  assumes "s5_count1 ctx = of_nat (8 * n)" and "s5_count0 ctx = of_nat (8 * n div 2 ^ 64)" and "length src < 2 ^ 64"
  shows "SHA512_Update ctx src =
    rbind (feed 128 SHA512_Transform (n mod 128) (s5_state ctx) (s5_buf ctx) src) (\<lambda>(st, buf).
    Inr (ctx\<lparr>s5_count1 := of_nat (8 * (n + length src)), s5_count0 := of_nat (8 * (n + length src) div 2 ^ 64),
             s5_state := st, s5_buf := buf\<rparr>))"
proof -
  let ?l = "of_nat (length src) :: u64"
  have 1: "of_nat (8 * n) + push_bit 3 ?l = of_nat (8 * (n + length src))"
    by (simp add: push_bit_3_of_nat)
  have 2: "(if (of_nat (8 * n) + push_bit 3 ?l) < push_bit 3 ?l then of_nat (8 * n div 2 ^ 64) + 1
      else of_nat (8 * n div 2 ^ 64)) + drop_bit 61 ?l = (of_nat (8 * (n + length src) div 2 ^ 64) :: u64)"
    using carry_count[of "length src" "8 * n", where 'a = 64] assms(3)
    by (simp add: add_mult_distrib2 del: of_nat_mult of_nat_add cong: if_cong)
  show ?thesis
    unfolding SHA512_Update_def feed_def Let_def assms(1,2) sha_index blocks_absorb 2 unfolding 1
    by (auto simp: rbind_def split: sum.splits prod.splits)
qed

lemma sha512_rep_update:
  assumes "sha512_rep st0 c msg" and "length bs < 2 ^ 64"
  shows "\<exists>c'. SHA512_Update c bs = Inr c' \<and> sha512_rep st0 c' (msg @ bs)"
proof -
  have c: "s5_count1 c = of_nat (8 * length msg)" "s5_count0 c = of_nat (8 * length msg div 2 ^ 64)" and
    b: "buffered 128 SHA512_Transform st0 msg (s5_state c) (s5_buf c)"
    using assms(1) by (simp_all add: sha512_rep_def del: of_nat_mult)
  show ?thesis
    using feed_buffered[OF b, of bs]
    by (auto simp: SHA512_Update_feed[OF c assms(2)] sha512_rep_def simp del: of_nat_mult of_nat_add)
qed

lemma sha512_rep_pad:
  assumes "sha512_rep st0 c msg"
  shows "\<exists>c'. SHA512_Pad c = Inr c' \<and> s5_state c' = sha512_chain st0 msg"
proof -
  have c: "s5_count1 c = of_nat (8 * length msg)" "s5_count0 c = of_nat (8 * length msg div 2 ^ 64)" and
    b: "buffered 128 SHA512_Transform st0 msg (s5_state c) (s5_buf c)"
    using assms by (simp_all add: sha512_rep_def del: of_nat_mult)
  let ?lb = "be64enc (of_nat (8 * length msg div 2 ^ 64)) @ be64enc (of_nat (8 * length msg))"
  have lb: "be64enc_vect [] [of_nat (8 * length msg div 2 ^ 64), of_nat (8 * length msg)] 16 = ?lb"
    by (simp add: be64enc_vect_def del: of_nat_mult)
  obtain st1 buf1 buf2 where
    "pad_final 128 112 SHA512_Transform PAD512 (length msg mod 128) (s5_state c) (s5_buf c) = Inr (st1, buf1)"
    "memcpy_at buf1 112 ?lb = Inr buf2"
    "SHA512_Transform st1 buf2 = sha512_chain st0 msg"
    using pad_final_buffered[OF b _ _ PAD_eq(2), of 112 ?lb]
    by (auto simp: sha512_chain_def simp del: of_nat_mult)
  then show ?thesis unfolding SHA512_Pad_def Let_def c sha_index lb by (simp add: pad_final_def)
qed

lemma sha512_rep_start: "sha512_rep st0 (SHA512_start st0) []"
  by (simp add: sha512_rep_def SHA512_start_def buffered_Nil)

interpretation sha256: stream_digest SHA256_Init SHA256_Update "SHA256_Final dg" sha256_rep "\<lambda>_. True"
  "\<lambda>msg. be32enc_vect dg (sha256_chain msg) 32" for dg
proof
  show "sha256_rep SHA256_Init []" by (simp add: sha256_rep_def SHA256_Init_def buffered_Nil)
  show "SHA256_Final dg c = Inr (be32enc_vect dg (sha256_chain msg) 32)" if "sha256_rep c msg" for c msg
    using sha256_rep_pad[OF that] by (auto simp: SHA256_Final_def)
qed (rule sha256_rep_update)

interpretation sha512: stream_digest SHA512_Init SHA512_Update "SHA512_Final dg"
  "sha512_rep (s5_state SHA512_Init)" "\<lambda>n. n < 2 ^ 64" "\<lambda>msg. be64enc_vect dg (sha512_chain (s5_state SHA512_Init) msg) 64" for dg
proof
  show "sha512_rep (s5_state SHA512_Init) SHA512_Init []"
    using sha512_rep_start by (simp add: SHA512_Init_def SHA512_start_def)
  show "SHA512_Final dg c = Inr (be64enc_vect dg (sha512_chain (s5_state SHA512_Init) msg) 64)"
    if "sha512_rep (s5_state SHA512_Init) c msg" for c msg
    using sha512_rep_pad[OF that] by (auto simp: SHA512_Final_def)
qed (rule sha512_rep_update)

interpretation sha384: stream_digest SHA384_Init SHA384_Update "SHA384_Final dg"
  "sha512_rep (s5_state SHA384_Init)" "\<lambda>n. n < 2 ^ 64" "\<lambda>msg. be64enc_vect dg (sha512_chain (s5_state SHA384_Init) msg) 48" for dg
proof
  show "sha512_rep (s5_state SHA384_Init) SHA384_Init []"
    using sha512_rep_start by (simp add: SHA384_Init_def SHA512_start_def)
  show "SHA384_Final dg c = Inr (be64enc_vect dg (sha512_chain (s5_state SHA384_Init) msg) 48)"
    if "sha512_rep (s5_state SHA384_Init) c msg" for c msg
    using sha512_rep_pad[OF that] by (auto simp: SHA384_Final_def)
qed (simp add: SHA384_Update_def sha512_rep_update)

interpretation sha512_224: stream_digest SHA512_224_Init SHA512_224_Update "SHA512_224_Final dg"
  "sha512_rep (s5_state SHA512_224_Init)" "\<lambda>n. n < 2 ^ 64" "\<lambda>msg. be64enc_vect dg (sha512_chain (s5_state SHA512_224_Init) msg) 28" for dg
proof
  show "sha512_rep (s5_state SHA512_224_Init) SHA512_224_Init []"
    using sha512_rep_start by (simp add: SHA512_224_Init_def SHA512_start_def)
  show "SHA512_224_Final dg c = Inr (be64enc_vect dg (sha512_chain (s5_state SHA512_224_Init) msg) 28)"
    if "sha512_rep (s5_state SHA512_224_Init) c msg" for c msg
    using sha512_rep_pad[OF that] by (auto simp: SHA512_224_Final_def)
qed (simp add: SHA512_224_Update_def sha512_rep_update)

section \<open>The digest arrays\<close>

lemma length_RND: "length (RND256 a b c d e f g h k S) = length S" "length (RND512 a b c d e f g h k' S') = length S'"
  by (simp_all add: RND256_def RND512_def Let_def)

lemma length_rounds:
  "length (fold (RNDr256 W i) js S) = length S" "length (fold (RNDr512 W' i) js S') = length S'"
  by (induction js arbitrary: S S') (simp_all add: RNDr256_def RNDr512_def Let_def length_RND)

lemma length_mix:
  "length (fst (sha256_mix i p)) = length (fst p)" "length (fst (sha512_mix i p')) = length (fst p')"
  by (auto simp: sha256_mix_def sha512_mix_def length_rounds split: prod.splits)

lemma length_SHA_Transform:
  "length (SHA256_Transform st b) = length st" "length (SHA512_Transform st' b) = length st'"
  by (simp_all add: SHA256_Transform_def SHA512_Transform_def Let_def length_mix)

lemma length_absorb:
  "(\<And>st b. length (T st b) = length st) \<Longrightarrow> length (fst (absorb n T st bs)) = length st"
  by (induction n T st bs rule: absorb.induct, subst absorb.simps) simp

lemma length_sha256_chain: "length (sha256_chain msg) = 8"
  by (simp add: sha256_chain_def length_absorb length_SHA_Transform SHA256_state0_def)

lemma length_sha512_chain: "length (sha512_chain st0 msg) = length st0"
  by (simp add: sha512_chain_def length_absorb length_SHA_Transform)

lemma length_concat_enc:
  "length (concat (map be32enc ws)) = 4 * length ws" "length (concat (map be64enc vs)) = 8 * length vs"
  by (induction ws, auto) (induction vs, auto)

section \<open>Properties\<close>



text \<open>
  SHA-512 and SHA-384 are independent of the cutting into updates (of fewer than
  \<open>2 ^ 64\<close> bytes each) and yield the first 64 (48) bytes of the chaining words of the padded
  message, with the 128-bit length carried over both counter words.
\<close>

theorem sha512_streaming:
  assumes "list_all (\<lambda>b. length b < 2 ^ 64) pieces" and "length dg = 64" and "length dg' = 48"
  shows "rbind (updates SHA512_Update SHA512_Init pieces) (SHA512_Final dg) =
           Inr (concat (map be64enc (sha512_chain (s5_state SHA512_Init) (concat pieces)))) \<and>
         rbind (updates SHA384_Update SHA384_Init pieces) (SHA384_Final dg') =
           Inr (concat (map be64enc (take 6 (sha512_chain (s5_state SHA384_Init) (concat pieces)))))"
  using sha512.streaming[OF assms(1), of dg] sha384.streaming[OF assms(1), of dg'] assms(2,3)
  by (simp add: be64enc_vect_def length_concat_enc length_sha512_chain SHA512_Init_def SHA384_Init_def SHA512_start_def)

theorem sha512_streaming_witness:
  "rbind (updates SHA512_Update SHA512_Init [[97], [98]]) (SHA512_Final (zeros 64)) =
   rbind (updates SHA512_Update SHA512_Init [[97, 98]]) (SHA512_Final (zeros 64))"
  using sha512_streaming[of "[[97], [98]]" "zeros 64" "zeros 48"] sha512_streaming[of "[[97, 98]]" "zeros 64" "zeros 48"]
  by simp

text \<open>
  SHA-512/224 leaves the last four bytes of its 28-byte digest unwritten: the
  encoder writes whole words, and 28 bytes are three words and a half.
\<close>

theorem sha512_224_digest_short:
  assumes "list_all (\<lambda>b. length b < 2 ^ 64) pieces" and "length dg = 28"
  shows "rbind (updates SHA512_224_Update SHA512_224_Init pieces) (SHA512_224_Final dg) =
         Inr (concat (map be64enc (take 3 (sha512_chain (s5_state SHA512_224_Init) (concat pieces)))) @ drop 24 dg)"
  using sha512_224.streaming[OF assms(1), of dg] assms(2)
  by (simp add: be64enc_vect_def length_concat_enc length_sha512_chain SHA512_224_Init_def SHA512_start_def)

theorem sha512_224_digest_short_witness:
  "\<exists>out. rbind (updates SHA512_224_Update SHA512_224_Init [[97, 98, 99]]) (SHA512_224_Final (replicate 24 0 @ [1, 2, 3, 4])) = Inr out \<and>
     drop 24 out = [1, 2, 3, 4]"
  using sha512_224_digest_short[of "[[97, 98, 99]]" "replicate 24 0 @ [1, 2, 3, 4]"]
  by (simp add: length_concat_enc length_sha512_chain SHA512_224_Init_def SHA512_start_def)

end
