(* ===== verification/Rmd160.thy ===== *)
theory Rmd160
  imports Md5
begin

text \<open>
  \<open>src/3rd/freebsd/opencrypto/rmd160.c\<close>: RIPEMD-160 on a little-endian machine. A line
  \<open>R(a, b, c, d, e, Fj, Kj, sj, rj)\<close> is the tuple of the indices of its registers, \<open>sj\<close>
  and \<open>rj\<close>. The length of an update is a 32-bit number, and its eightfold is computed with
  32 bits before it is added to the 64-bit counter.
\<close>

unbundle bit_operations_syntax

definition rmd_F0 :: "u32 \<Rightarrow> u32 \<Rightarrow> u32 \<Rightarrow> u32" where "rmd_F0 x y z = x XOR y XOR z"
definition rmd_F1 :: "u32 \<Rightarrow> u32 \<Rightarrow> u32 \<Rightarrow> u32" where "rmd_F1 x y z = (x AND y) OR (NOT x AND z)"
definition rmd_F2 :: "u32 \<Rightarrow> u32 \<Rightarrow> u32 \<Rightarrow> u32" where "rmd_F2 x y z = (x OR NOT y) XOR z"
definition rmd_F3 :: "u32 \<Rightarrow> u32 \<Rightarrow> u32 \<Rightarrow> u32" where "rmd_F3 x y z = (x AND z) OR (y AND NOT z)"
definition rmd_F4 :: "u32 \<Rightarrow> u32 \<Rightarrow> u32 \<Rightarrow> u32" where "rmd_F4 x y z = x XOR (y OR NOT z)"

definition ROL :: "nat \<Rightarrow> u32 \<Rightarrow> u32" where
  "ROL n x = push_bit n x OR drop_bit (32 - n) x"

type_synonym rmd_op = "nat \<times> nat \<times> nat \<times> nat \<times> nat \<times> nat \<times> nat"

definition rmd_R :: "(u32 \<Rightarrow> u32 \<Rightarrow> u32 \<Rightarrow> u32) \<Rightarrow> u32 \<Rightarrow> u32 list \<Rightarrow> rmd_op \<Rightarrow> u32 list \<Rightarrow> u32 list" where
  "rmd_R f K x = (\<lambda>(a, b, c, d, e, s, k) r.
     let r = r[a := ROL s (r ! a + f (r ! b) (r ! c) (r ! d) + x ! k + K) + r ! e]
     in r[c := ROL 10 (r ! c)])"

definition rmd_round1 :: "rmd_op list" where
  "rmd_round1 =
    [(0, 1, 2, 3, 4, 11, 0), (4, 0, 1, 2, 3, 14, 1), (3, 4, 0, 1, 2, 15, 2), (2, 3, 4, 0, 1, 12, 3),
     (1, 2, 3, 4, 0, 5, 4), (0, 1, 2, 3, 4, 8, 5), (4, 0, 1, 2, 3, 7, 6), (3, 4, 0, 1, 2, 9, 7),
     (2, 3, 4, 0, 1, 11, 8), (1, 2, 3, 4, 0, 13, 9), (0, 1, 2, 3, 4, 14, 10), (4, 0, 1, 2, 3, 15, 11),
     (3, 4, 0, 1, 2, 6, 12), (2, 3, 4, 0, 1, 7, 13), (1, 2, 3, 4, 0, 9, 14), (0, 1, 2, 3, 4, 8, 15)]"

definition rmd_round2 :: "rmd_op list" where
  "rmd_round2 =
    [(4, 0, 1, 2, 3, 7, 7), (3, 4, 0, 1, 2, 6, 4), (2, 3, 4, 0, 1, 8, 13), (1, 2, 3, 4, 0, 13, 1),
     (0, 1, 2, 3, 4, 11, 10), (4, 0, 1, 2, 3, 9, 6), (3, 4, 0, 1, 2, 7, 15), (2, 3, 4, 0, 1, 15, 3),
     (1, 2, 3, 4, 0, 7, 12), (0, 1, 2, 3, 4, 12, 0), (4, 0, 1, 2, 3, 15, 9), (3, 4, 0, 1, 2, 9, 5),
     (2, 3, 4, 0, 1, 11, 2), (1, 2, 3, 4, 0, 7, 14), (0, 1, 2, 3, 4, 13, 11), (4, 0, 1, 2, 3, 12, 8)]"

definition rmd_round3 :: "rmd_op list" where
  "rmd_round3 =
    [(3, 4, 0, 1, 2, 11, 3), (2, 3, 4, 0, 1, 13, 10), (1, 2, 3, 4, 0, 6, 14), (0, 1, 2, 3, 4, 7, 4),
     (4, 0, 1, 2, 3, 14, 9), (3, 4, 0, 1, 2, 9, 15), (2, 3, 4, 0, 1, 13, 8), (1, 2, 3, 4, 0, 15, 1),
     (0, 1, 2, 3, 4, 14, 2), (4, 0, 1, 2, 3, 8, 7), (3, 4, 0, 1, 2, 13, 0), (2, 3, 4, 0, 1, 6, 6),
     (1, 2, 3, 4, 0, 5, 13), (0, 1, 2, 3, 4, 12, 11), (4, 0, 1, 2, 3, 7, 5), (3, 4, 0, 1, 2, 5, 12)]"

definition rmd_round4 :: "rmd_op list" where
  "rmd_round4 =
    [(2, 3, 4, 0, 1, 11, 1), (1, 2, 3, 4, 0, 12, 9), (0, 1, 2, 3, 4, 14, 11), (4, 0, 1, 2, 3, 15, 10),
     (3, 4, 0, 1, 2, 14, 0), (2, 3, 4, 0, 1, 15, 8), (1, 2, 3, 4, 0, 9, 12), (0, 1, 2, 3, 4, 8, 4),
     (4, 0, 1, 2, 3, 9, 13), (3, 4, 0, 1, 2, 14, 3), (2, 3, 4, 0, 1, 5, 7), (1, 2, 3, 4, 0, 6, 15),
     (0, 1, 2, 3, 4, 8, 14), (4, 0, 1, 2, 3, 6, 5), (3, 4, 0, 1, 2, 5, 6), (2, 3, 4, 0, 1, 12, 2)]"

definition rmd_round5 :: "rmd_op list" where
  "rmd_round5 =
    [(1, 2, 3, 4, 0, 9, 4), (0, 1, 2, 3, 4, 15, 0), (4, 0, 1, 2, 3, 5, 5), (3, 4, 0, 1, 2, 11, 9),
     (2, 3, 4, 0, 1, 6, 7), (1, 2, 3, 4, 0, 8, 12), (0, 1, 2, 3, 4, 13, 2), (4, 0, 1, 2, 3, 12, 10),
     (3, 4, 0, 1, 2, 5, 14), (2, 3, 4, 0, 1, 12, 1), (1, 2, 3, 4, 0, 13, 3), (0, 1, 2, 3, 4, 14, 8),
     (4, 0, 1, 2, 3, 11, 11), (3, 4, 0, 1, 2, 8, 6), (2, 3, 4, 0, 1, 5, 15), (1, 2, 3, 4, 0, 6, 13)]"

definition rmd_par_round1 :: "rmd_op list" where
  "rmd_par_round1 =
    [(0, 1, 2, 3, 4, 8, 5), (4, 0, 1, 2, 3, 9, 14), (3, 4, 0, 1, 2, 9, 7), (2, 3, 4, 0, 1, 11, 0),
     (1, 2, 3, 4, 0, 13, 9), (0, 1, 2, 3, 4, 15, 2), (4, 0, 1, 2, 3, 15, 11), (3, 4, 0, 1, 2, 5, 4),
     (2, 3, 4, 0, 1, 7, 13), (1, 2, 3, 4, 0, 7, 6), (0, 1, 2, 3, 4, 8, 15), (4, 0, 1, 2, 3, 11, 8),
     (3, 4, 0, 1, 2, 14, 1), (2, 3, 4, 0, 1, 14, 10), (1, 2, 3, 4, 0, 12, 3), (0, 1, 2, 3, 4, 6, 12)]"

definition rmd_par_round2 :: "rmd_op list" where
  "rmd_par_round2 =
    [(4, 0, 1, 2, 3, 9, 6), (3, 4, 0, 1, 2, 13, 11), (2, 3, 4, 0, 1, 15, 3), (1, 2, 3, 4, 0, 7, 7),
     (0, 1, 2, 3, 4, 12, 0), (4, 0, 1, 2, 3, 8, 13), (3, 4, 0, 1, 2, 9, 5), (2, 3, 4, 0, 1, 11, 10),
     (1, 2, 3, 4, 0, 7, 14), (0, 1, 2, 3, 4, 7, 15), (4, 0, 1, 2, 3, 12, 8), (3, 4, 0, 1, 2, 7, 12),
     (2, 3, 4, 0, 1, 6, 4), (1, 2, 3, 4, 0, 15, 9), (0, 1, 2, 3, 4, 13, 1), (4, 0, 1, 2, 3, 11, 2)]"

definition rmd_par_round3 :: "rmd_op list" where
  "rmd_par_round3 =
    [(3, 4, 0, 1, 2, 9, 15), (2, 3, 4, 0, 1, 7, 5), (1, 2, 3, 4, 0, 15, 1), (0, 1, 2, 3, 4, 11, 3),
     (4, 0, 1, 2, 3, 8, 7), (3, 4, 0, 1, 2, 6, 14), (2, 3, 4, 0, 1, 6, 6), (1, 2, 3, 4, 0, 14, 9),
     (0, 1, 2, 3, 4, 12, 11), (4, 0, 1, 2, 3, 13, 8), (3, 4, 0, 1, 2, 5, 12), (2, 3, 4, 0, 1, 14, 2),
     (1, 2, 3, 4, 0, 13, 10), (0, 1, 2, 3, 4, 13, 0), (4, 0, 1, 2, 3, 7, 4), (3, 4, 0, 1, 2, 5, 13)]"

definition rmd_par_round4 :: "rmd_op list" where
  "rmd_par_round4 =
    [(2, 3, 4, 0, 1, 15, 8), (1, 2, 3, 4, 0, 5, 6), (0, 1, 2, 3, 4, 8, 4), (4, 0, 1, 2, 3, 11, 1),
     (3, 4, 0, 1, 2, 14, 3), (2, 3, 4, 0, 1, 14, 11), (1, 2, 3, 4, 0, 6, 15), (0, 1, 2, 3, 4, 14, 0),
     (4, 0, 1, 2, 3, 6, 5), (3, 4, 0, 1, 2, 9, 12), (2, 3, 4, 0, 1, 12, 2), (1, 2, 3, 4, 0, 9, 13),
     (0, 1, 2, 3, 4, 12, 9), (4, 0, 1, 2, 3, 5, 7), (3, 4, 0, 1, 2, 15, 10), (2, 3, 4, 0, 1, 8, 14)]"

definition rmd_par_round5 :: "rmd_op list" where
  "rmd_par_round5 =
    [(1, 2, 3, 4, 0, 8, 12), (0, 1, 2, 3, 4, 5, 15), (4, 0, 1, 2, 3, 12, 10), (3, 4, 0, 1, 2, 9, 4),
     (2, 3, 4, 0, 1, 12, 1), (1, 2, 3, 4, 0, 5, 5), (0, 1, 2, 3, 4, 14, 8), (4, 0, 1, 2, 3, 6, 7),
     (3, 4, 0, 1, 2, 8, 6), (2, 3, 4, 0, 1, 13, 2), (1, 2, 3, 4, 0, 6, 13), (0, 1, 2, 3, 4, 5, 14),
     (4, 0, 1, 2, 3, 15, 0), (3, 4, 0, 1, 2, 13, 3), (2, 3, 4, 0, 1, 11, 9), (1, 2, 3, 4, 0, 11, 11)]"

definition RMD160Transform :: "u32 list \<Rightarrow> byte list \<Rightarrow> u32 list" where
  "RMD160Transform state block =
     (let x = Decode block;
          l = fold (rmd_R rmd_F0 0x00000000 x) rmd_round1 state;
          l = fold (rmd_R rmd_F1 0x5A827999 x) rmd_round2 l;
          l = fold (rmd_R rmd_F2 0x6ED9EBA1 x) rmd_round3 l;
          l = fold (rmd_R rmd_F3 0x8F1BBCDC x) rmd_round4 l;
          l = fold (rmd_R rmd_F4 0xA953FD4E x) rmd_round5 l;
          r = fold (rmd_R rmd_F4 0x50A28BE6 x) rmd_par_round1 state;
          r = fold (rmd_R rmd_F3 0x5C4DD124 x) rmd_par_round2 r;
          r = fold (rmd_R rmd_F2 0x6D703EF3 x) rmd_par_round3 r;
          r = fold (rmd_R rmd_F1 0x7A6D76E9 x) rmd_par_round4 r;
          r = fold (rmd_R rmd_F0 0x00000000 x) rmd_par_round5 r;
          a = r ! 0; b = r ! 1; c = r ! 2; d = r ! 3; e = r ! 4;
          aa = l ! 0; bb = l ! 1; cc = l ! 2; dd = l ! 3; ee = l ! 4
      in [state ! 1 + cc + d, state ! 2 + dd + e, state ! 3 + ee + a, state ! 4 + aa + b, state ! 0 + bb + c])"

record rmd160_ctx =
  rm_state :: "u32 list"
  rm_count :: u64
  rm_buffer :: "byte list"

definition RMD160_state0 :: "u32 list" where
  "RMD160_state0 = [0x67452301, 0xEFCDAB89, 0x98BADCFE, 0x10325476, 0xC3D2E1F0]"

definition RMD160Init :: rmd160_ctx where
  "RMD160Init = \<lparr>rm_state = RMD160_state0, rm_count = 0, rm_buffer = zeros 64\<rparr>"

definition RMD_PADDING :: "byte list" where
  "RMD_PADDING = 0x80 # replicate 63 0"

function rmd_blocks :: "byte list \<Rightarrow> u32 list \<Rightarrow> nat \<Rightarrow> (u32 list \<times> nat) res" where
  "rmd_blocks input st off =
     (if (off + 64) mod 2 ^ 32 \<le> length input \<and> length input < 2 ^ 32
      then if off + 64 \<le> length input
           then rmd_blocks input (RMD160Transform st (take 64 (drop off input))) ((off + 64) mod 2 ^ 32)
           else Inl Undef
      else Inr (st, off))"
  by pat_completeness auto
termination
  by (relation "measure (\<lambda>(input, st, i). length input - i)") (auto simp: mod_less[OF le_less_trans])

declare rmd_blocks.simps [simp del]

definition RMD160Update :: "rmd160_ctx \<Rightarrow> byte list \<Rightarrow> rmd160_ctx res" where
  "RMD160Update ctx input =
     (let len = length input;
          have = unat (rm_count ctx) div 8 mod 64;
          need = 64 - have;
          ctx = ctx\<lparr>rm_count := rm_count ctx + ucast (8 * of_nat len :: u32)\<rparr>
      in rbind
           (if len \<ge> need
            then rbind (if have \<noteq> 0
                        then rbind (memcpy_at (rm_buffer ctx) have (take need input)) (\<lambda>buf.
                             Inr (buf, RMD160Transform (rm_state ctx) buf, need))
                        else Inr (rm_buffer ctx, rm_state ctx, 0)) (\<lambda>(buf, st, off).
                 rbind (rmd_blocks input st off) (\<lambda>(st, off). Inr (buf, st, off, 0)))
            else Inr (rm_buffer ctx, rm_state ctx, 0, have)) (\<lambda>(buf, st, off, have).
         rbind (if off < len then memcpy_at buf have (drop off input) else Inr buf) (\<lambda>buf.
         Inr (ctx\<lparr>rm_state := st, rm_buffer := buf\<rparr>))))"

definition PUT_64BIT_LE :: "u64 \<Rightarrow> byte list" where
  "PUT_64BIT_LE v = [ucast v, ucast (drop_bit 8 v), ucast (drop_bit 16 v), ucast (drop_bit 24 v),
     ucast (drop_bit 32 v), ucast (drop_bit 40 v), ucast (drop_bit 48 v), ucast (drop_bit 56 v)]"

definition PUT_32BIT_LE :: "u32 \<Rightarrow> byte list" where
  "PUT_32BIT_LE v = [ucast v, ucast (drop_bit 8 v), ucast (drop_bit 16 v), ucast (drop_bit 24 v)]"

definition RMD160Final :: "rmd160_ctx \<Rightarrow> byte list res" where
  "RMD160Final ctx =
     (let size = PUT_64BIT_LE (rm_count ctx);
          padlen = 64 - unat (rm_count ctx) div 8 mod 64;
          padlen = (if padlen < 1 + 8 then padlen + 64 else padlen)
      in rbind (RMD160Update ctx (take (padlen - 8) RMD_PADDING)) (\<lambda>ctx.
         rbind (RMD160Update ctx size) (\<lambda>ctx.
         Inr (concat (map PUT_32BIT_LE (rm_state ctx))))))"

section \<open>Correctness of the streaming\<close>

definition rmd160_spec :: "byte list \<Rightarrow> byte list" where
  "rmd160_spec msg = concat (map PUT_32BIT_LE (fst (absorb 64 RMD160Transform RMD160_state0
     (msg @ pad_bytes 64 56 (length msg) @ PUT_64BIT_LE (of_nat (8 * length msg))))))"

definition rmd_rep :: "rmd160_ctx \<Rightarrow> byte list \<Rightarrow> bool" where
  "rmd_rep c msg \<longleftrightarrow> buffered 64 RMD160Transform RMD160_state0 msg (rm_state c) (rm_buffer c) \<and>
     rm_count c = of_nat (8 * length msg)"

lemma rmd_index: "unat (of_nat (8 * n) :: u64) div 8 mod 64 = n mod 64"
proof -
  have "8 * n mod 2 ^ 64 = 8 * (n mod 2 ^ 61)" using mult_mod_right[of 8 n "2 ^ 61"] by simp
  then have "unat (of_nat (8 * n) :: u64) div 8 mod 64 = n mod 2 ^ 61 mod 64"
    by (simp add: unat_of_nat del: of_nat_mult)
  then show ?thesis by (simp add: mod_mod_cancel)
qed

lemma rmd_count:
  assumes "n < 2 ^ 29"
  shows "(ucast (8 * of_nat n :: u32) :: u64) = of_nat (8 * n)"
proof -
  have "unat (of_nat (8 * n) :: u32) = 8 * n" using assms by (intro unat_of_nat_small) simp
  then show ?thesis by (metis of_nat_mult of_nat_numeral of_nat_unat)
qed

lemma rmd_blocks_absorb:
  assumes "length input + 64 < 2 ^ 32" and "off \<le> length input"
  shows "\<exists>j. rmd_blocks input st off = Inr (fst (absorb 64 RMD160Transform st (drop off input)), j) \<and>
     drop j input = snd (absorb 64 RMD160Transform st (drop off input))"
  using assms
proof (induction input st off rule: rmd_blocks.induct)
  case (1 input st i)
  let ?T = RMD160Transform
  have m: "(i + 64) mod 2 ^ 32 = i + 64" using 1(2,3) by simp
  show ?case
  proof (cases "i + 64 \<le> length input")
    case True
    have "absorb 64 ?T st (drop i input) = absorb 64 ?T (?T st (take 64 (drop i input))) (drop (i + 64) input)"
      using absorb_block[of 64 "take 64 (drop i input)" ?T st "drop 64 (drop i input)"] True
      by (simp only: append_take_drop_id) (simp add: add.commute)
    moreover have "rmd_blocks input st i = rmd_blocks input (?T st (take 64 (drop i input))) (i + 64)"
      using True 1(2) by (subst rmd_blocks.simps) (simp add: m)
    ultimately show ?thesis using 1(1)[unfolded m] 1(2) True by simp
  next
    case False
    then have "rmd_blocks input st i = Inr (st, i)" using m by (subst rmd_blocks.simps) simp
    moreover have "absorb 64 ?T st (drop i input) = (st, drop i input)" using False by (intro absorb_short) simp
    ultimately show ?thesis by simp
  qed
qed

lemma memcpy_at_Nil [simp]: "k \<le> length buf \<Longrightarrow> memcpy_at buf k [] = Inr buf"
  by (simp add: memcpy_at_def)

lemma rmd_rep_update:
  assumes "rmd_rep c msg" and "length bs < 2 ^ 29"
  shows "\<exists>c'. RMD160Update c bs = Inr c' \<and> rmd_rep c' (msg @ bs)"
proof -
  let ?k = "length msg mod 64" and ?T = RMD160Transform
  have b: "buffered 64 ?T RMD160_state0 msg (rm_state c) (rm_buffer c)" and c: "rm_count c = of_nat (8 * length msg)"
    using assms(1) by (simp_all add: rmd_rep_def)
  have big: "length bs + 64 < 2 ^ 32" using assms(2) by simp
  have cnt: "rm_count c + ucast (8 * of_nat (length bs) :: u32) = of_nat (8 * length (msg @ bs))"
    unfolding c rmd_count[OF assms(2)] by simp
  have k: "?k < 64" by simp
  note U = RMD160Update_def[unfolded Let_def, of c bs, unfolded cnt, unfolded c, unfolded rmd_index]
  consider (small) "length bs < 64 - ?k" | (empty) "64 - ?k \<le> length bs" "?k = 0"
    | (full) "64 - ?k \<le> length bs" "?k \<noteq> 0" by linarith
  then show ?thesis
  proof cases
    case small
    then have "?k + length bs < 64" by linarith
    then obtain buf' where "memcpy_at (rm_buffer c) ?k bs = Inr buf'" "buffered 64 ?T RMD160_state0 (msg @ bs) (rm_state c) buf'"
      using buffered_small[OF b, of bs] by auto
    moreover have "(if 0 < length bs then memcpy_at (rm_buffer c) ?k (drop 0 bs) else Inr (rm_buffer c)) =
        memcpy_at (rm_buffer c) ?k bs"
      using b by (auto simp: buffered_def)
    ultimately show ?thesis using small unfolding U by (simp add: rmd_rep_def)
  next
    case empty
    obtain st' r where a: "absorb 64 ?T (rm_state c) bs = (st', r)" by fastforce
    obtain b2 where b2: "memcpy_at (rm_buffer c) 0 r = Inr b2" "buffered 64 ?T RMD160_state0 (msg @ bs) st' b2"
      using buffered_blocks[OF b _ empty(2) a] by auto
    obtain j where j: "rmd_blocks bs (rm_state c) 0 = Inr (st', j)" "drop j bs = r"
      using rmd_blocks_absorb[OF big, of 0 "rm_state c"] a by auto
    have "(if j < length bs then memcpy_at (rm_buffer c) 0 (drop j bs) else Inr (rm_buffer c)) = Inr b2"
      using j(2) b2(1) by (auto split: if_splits)
    then show ?thesis using empty j(1) b2(2) unfolding U by (simp add: rmd_rep_def)
  next
    case full
    let ?h = "take (64 - ?k) bs" and ?t = "drop (64 - ?k) bs"
    have h: "?k + length ?h = 64" using full k by simp
    then obtain b1 where b1: "memcpy_at (rm_buffer c) ?k ?h = Inr b1" "length b1 = 64"
        "buffered 64 ?T RMD160_state0 (msg @ ?h) (?T (rm_state c) b1) b1"
      using buffered_fill[OF b, of ?h] by auto
    have z: "length (msg @ ?h) mod 64 = 0" using h by (metis length_append mod_add_left_eq mod_self)
    obtain st' r where a: "absorb 64 ?T (?T (rm_state c) b1) ?t = (st', r)" by fastforce
    obtain b2 where b2: "memcpy_at b1 0 r = Inr b2" "buffered 64 ?T RMD160_state0 ((msg @ ?h) @ ?t) st' b2"
      using buffered_blocks[OF b1(3) _ z a] by auto
    obtain j where j: "rmd_blocks bs (?T (rm_state c) b1) (64 - ?k) = Inr (st', j)" "drop j bs = r"
      using rmd_blocks_absorb[OF big full(1), of "?T (rm_state c) b1"] a by auto
    have "(if j < length bs then memcpy_at b1 0 (drop j bs) else Inr b1) = Inr b2"
      using j(2) b2(1) by (auto split: if_splits)
    then show ?thesis using full b1(1) j(1) b2(2) unfolding U by (simp add: rmd_rep_def)
  qed
qed

lemma rmd_rep_final:
  assumes "rmd_rep c msg"
  shows "RMD160Final c = Inr (rmd160_spec msg)"
proof -
  let ?k = "length msg mod 64" and ?p = "pad_bytes 64 56 (length msg)" and ?s = "PUT_64BIT_LE (rm_count c)"
  let ?l = "64 - ?k"
  have c: "rm_count c = of_nat (8 * length msg)" using assms by (simp add: rmd_rep_def)
  have k: "?k < 64" by simp
  have "(if ?l < 1 + 8 then ?l + 64 else ?l) - 8 = (if ?k < 56 then 56 - ?k else 120 - ?k)" using k by auto
  moreover have "take (if ?k < 56 then 56 - ?k else 120 - ?k) RMD_PADDING = ?p"
    using padding_pad_bytes[of ?k "length msg"] by (simp add: RMD_PADDING_def PADDING_def)
  ultimately have p: "take ((if ?l < 1 + 8 then ?l + 64 else ?l) - 8) RMD_PADDING = ?p" by simp
  have "length ?p < 2 ^ 29" by (auto simp: pad_bytes_def pad_len_def Let_def)
  then obtain c1 where c1: "RMD160Update c ?p = Inr c1" "rmd_rep c1 (msg @ ?p)"
    using rmd_rep_update[OF assms] by blast
  obtain c2 where c2: "RMD160Update c1 ?s = Inr c2" "rmd_rep c2 ((msg @ ?p) @ ?s)"
    using rmd_rep_update[OF c1(2), of ?s] by (auto simp: PUT_64BIT_LE_def)
  have "rm_state c2 = fst (absorb 64 RMD160Transform RMD160_state0 ((msg @ ?p) @ ?s))"
    using c2(2) by (simp add: rmd_rep_def buffered_def)
  then show ?thesis
    using c1(1) c2(1) p unfolding RMD160Final_def Let_def c rmd_index rmd160_spec_def by simp
qed

interpretation rmd160: stream_digest RMD160Init RMD160Update RMD160Final rmd_rep "\<lambda>n. n < 2 ^ 29" rmd160_spec
proof
  show "rmd_rep RMD160Init []" by (simp add: rmd_rep_def RMD160Init_def buffered_Nil)
qed (auto intro: rmd_rep_update rmd_rep_final)

section \<open>Properties\<close>

text \<open>
  RIPEMD-160 does not depend on how the message is cut into updates of fewer than
  \<open>2 ^ 29\<close> bytes (the eightfold length of a longer one overflows its 32 bits before it is added
  to the counter), stays within its buffers, and yields the digest of the padded message.
\<close>

theorem rmd160_streaming:
  assumes "list_all (\<lambda>b. length b < 2 ^ 29) pieces"
  shows "rbind (updates RMD160Update RMD160Init pieces) RMD160Final = Inr (rmd160_spec (concat pieces))"
  by (rule rmd160.streaming[OF assms])

theorem rmd160_streaming_witness:
  "rbind (updates RMD160Update RMD160Init [[97], [98, 99]]) RMD160Final =
   rbind (updates RMD160Update RMD160Init [[97, 98, 99]]) RMD160Final"
  using rmd160_streaming[of "[[97], [98, 99]]"] rmd160_streaming[of "[[97, 98, 99]]"] by simp

end
