(* ===== verification/Bpf_Filter.thy ===== *)
theory Bpf_Filter
  imports Md_Stream
begin

text \<open>
  \<open>src/3rd/freebsd/net/bpf_filter.c\<close>, compiled for the kernel on a machine with aligned
  loads: the packet filter machine and the validator of filter programs.

  A packet is either contiguous (\<open>buflen\<close> bytes at \<open>p\<close>, \<open>buflen\<close> not 0) or a chain
  of mbufs (\<open>buflen\<close> is 0 and \<open>p\<close> the first mbuf). A shift by 32 bits or more and an
  access outside the packet, the program or the scratch memory are undefined in C; here
  they give \<open>Undef\<close>.
\<close>

unbundle bit_operations_syntax

section \<open>Programs\<close>

record bpf_insn =
  code :: u16
  jt :: byte
  jf :: byte
  bk :: u32

definition BPF_CLASS :: "u16 \<Rightarrow> u16" where "BPF_CLASS c = c AND 0x07"
definition BPF_LD :: u16 where "BPF_LD = 0x00"
definition BPF_LDX :: u16 where "BPF_LDX = 0x01"
definition BPF_ST :: u16 where "BPF_ST = 0x02"
definition BPF_STX :: u16 where "BPF_STX = 0x03"
definition BPF_ALU :: u16 where "BPF_ALU = 0x04"
definition BPF_JMP :: u16 where "BPF_JMP = 0x05"
definition BPF_RET :: u16 where "BPF_RET = 0x06"
definition BPF_MISC :: u16 where "BPF_MISC = 0x07"
definition BPF_W :: u16 where "BPF_W = 0x00"
definition BPF_H :: u16 where "BPF_H = 0x08"
definition BPF_B :: u16 where "BPF_B = 0x10"
definition BPF_IMM :: u16 where "BPF_IMM = 0x00"
definition BPF_ABS :: u16 where "BPF_ABS = 0x20"
definition BPF_IND :: u16 where "BPF_IND = 0x40"
definition BPF_MEM :: u16 where "BPF_MEM = 0x60"
definition BPF_LEN :: u16 where "BPF_LEN = 0x80"
definition BPF_MSH :: u16 where "BPF_MSH = 0xa0"
definition BPF_ADD :: u16 where "BPF_ADD = 0x00"
definition BPF_SUB :: u16 where "BPF_SUB = 0x10"
definition BPF_MUL :: u16 where "BPF_MUL = 0x20"
definition BPF_DIV :: u16 where "BPF_DIV = 0x30"
definition BPF_OR :: u16 where "BPF_OR = 0x40"
definition BPF_AND :: u16 where "BPF_AND = 0x50"
definition BPF_LSH :: u16 where "BPF_LSH = 0x60"
definition BPF_RSH :: u16 where "BPF_RSH = 0x70"
definition BPF_NEG :: u16 where "BPF_NEG = 0x80"
definition BPF_JA :: u16 where "BPF_JA = 0x00"
definition BPF_JEQ :: u16 where "BPF_JEQ = 0x10"
definition BPF_JGT :: u16 where "BPF_JGT = 0x20"
definition BPF_JGE :: u16 where "BPF_JGE = 0x30"
definition BPF_JSET :: u16 where "BPF_JSET = 0x40"
definition BPF_K :: u16 where "BPF_K = 0x00"
definition BPF_X :: u16 where "BPF_X = 0x08"
definition BPF_A :: u16 where "BPF_A = 0x10"
definition BPF_TAX :: u16 where "BPF_TAX = 0x00"
definition BPF_TXA :: u16 where "BPF_TXA = 0x80"
definition BPF_MEMWORDS :: nat where "BPF_MEMWORDS = 16"

lemmas bpf_codes = BPF_LD_def BPF_LDX_def BPF_ST_def BPF_STX_def BPF_ALU_def BPF_JMP_def BPF_RET_def
  BPF_MISC_def BPF_W_def BPF_H_def BPF_B_def BPF_IMM_def BPF_ABS_def BPF_IND_def BPF_MEM_def BPF_LEN_def
  BPF_MSH_def BPF_ADD_def BPF_SUB_def BPF_MUL_def BPF_DIV_def BPF_OR_def BPF_AND_def BPF_LSH_def
  BPF_RSH_def BPF_NEG_def BPF_JA_def BPF_JEQ_def BPF_JGT_def BPF_JGE_def BPF_JSET_def BPF_K_def
  BPF_X_def BPF_A_def BPF_TAX_def BPF_TXA_def

section \<open>Packets\<close>

datatype packet = Flat "byte list" | Mbufs "byte list list"

definition buflen :: "packet \<Rightarrow> u32" where
  "buflen p = (case p of Flat bs \<Rightarrow> of_nat (length bs) | Mbufs _ \<Rightarrow> 0)"

definition EXTRACT_SHORT :: "byte list \<Rightarrow> nat \<Rightarrow> u32 res" where
  "EXTRACT_SHORT p k = rbind (rd p k) (\<lambda>a. rbind (rd p (k + 1)) (\<lambda>b.
     Inr (push_bit 8 (ucast a) OR ucast b)))"

definition EXTRACT_LONG :: "byte list \<Rightarrow> nat \<Rightarrow> u32 res" where
  "EXTRACT_LONG p k = rbind (rd p k) (\<lambda>a. rbind (rd p (k + 1)) (\<lambda>b. rbind (rd p (k + 2)) (\<lambda>c. rbind (rd p (k + 3)) (\<lambda>d.
     Inr (push_bit 24 (ucast a) OR push_bit 16 (ucast b) OR push_bit 8 (ucast c) OR ucast d)))))"

text \<open>\<open>MINDEX\<close> and the loops at the start of \<open>m_xword\<close> and \<open>m_xhalf\<close>: the mbuf
  that holds byte \<open>k\<close>, with the index there and the mbufs behind it.\<close>

fun MINDEX :: "byte list list \<Rightarrow> nat \<Rightarrow> (byte list \<times> byte list list \<times> nat) option" where
  "MINDEX [] k = None"
| "MINDEX (m # ms) k = (if k \<ge> length m then MINDEX ms (k - length m) else Some (m, ms, k))"

text \<open>The outer \<open>None\<close> is \<open>*err = 1\<close>.\<close>

definition m_xword :: "byte list list \<Rightarrow> nat \<Rightarrow> u32 option res" where
  "m_xword chain k =
     (case MINDEX chain k of
        None \<Rightarrow> Inr None
      | Some (m, ms, k) \<Rightarrow>
          let len = length m in
          if len - k \<ge> 4 then rbind (EXTRACT_LONG m k) (\<lambda>w. Inr (Some w))
          else case ms of
            [] \<Rightarrow> Inr None
          | m0 # _ \<Rightarrow>
              if length m0 + len - k < 4 then Inr None
              else rbind (EXTRACT_LONG (drop k m @ take (4 - (len - k)) m0) 0) (\<lambda>w. Inr (Some w)))"

definition m_xhalf :: "byte list list \<Rightarrow> nat \<Rightarrow> u32 option res" where
  "m_xhalf chain k =
     (case MINDEX chain k of
        None \<Rightarrow> Inr None
      | Some (m, ms, k) \<Rightarrow>
          let len = length m in
          if len - k \<ge> 2 then rbind (EXTRACT_SHORT m k) (\<lambda>w. Inr (Some w))
          else case ms of
            [] \<Rightarrow> Inr None
          | m0 # _ \<Rightarrow> rbind (rd m k) (\<lambda>a. rbind (rd m0 0) (\<lambda>b. Inr (Some (push_bit 8 (ucast a) OR ucast b)))))"

section \<open>The machine\<close>

record bpf_state =
  pc :: nat
  rA :: u32
  rX :: u32
  mem :: "u32 list"

datatype bpf_out = Return u32 | Continue bpf_state

text \<open>A load of 4, 2 or 1 bytes at \<open>k\<close>; \<open>inb\<close> is the bounds check of the instruction on
  a contiguous packet. \<open>None\<close> makes the filter return 0.\<close>

definition load_word :: "packet \<Rightarrow> bool \<Rightarrow> u32 \<Rightarrow> u32 option res" where
  "load_word p inb k =
     (if \<not> inb
      then if buflen p \<noteq> 0 then Inr None
           else case p of Mbufs ms \<Rightarrow> m_xword ms (unat k) | Flat _ \<Rightarrow> Inl Undef
      else case p of Flat bs \<Rightarrow> rbind (EXTRACT_LONG bs (unat k)) (\<lambda>w. Inr (Some w)) | Mbufs _ \<Rightarrow> Inl Undef)"

definition load_half :: "packet \<Rightarrow> bool \<Rightarrow> u32 \<Rightarrow> u32 option res" where
  "load_half p inb k =
     (if \<not> inb
      then if buflen p \<noteq> 0 then Inr None
           else case p of Mbufs ms \<Rightarrow> m_xhalf ms (unat k) | Flat _ \<Rightarrow> Inl Undef
      else case p of Flat bs \<Rightarrow> rbind (EXTRACT_SHORT bs (unat k)) (\<lambda>w. Inr (Some w)) | Mbufs _ \<Rightarrow> Inl Undef)"

definition load_byte :: "packet \<Rightarrow> bool \<Rightarrow> u32 \<Rightarrow> u32 option res" where
  "load_byte p inb k =
     (if \<not> inb
      then if buflen p \<noteq> 0 then Inr None
           else case p of Flat _ \<Rightarrow> Inl Undef
             | Mbufs ms \<Rightarrow> (case MINDEX ms (unat k) of None \<Rightarrow> Inr None
                 | Some (m, _, j) \<Rightarrow> rbind (rd m j) (\<lambda>b. Inr (Some (ucast b))))
      else case p of Flat bs \<Rightarrow> rbind (rd bs (unat k)) (\<lambda>b. Inr (Some (ucast b))) | Mbufs _ \<Rightarrow> Inl Undef)"

definition set_A :: "bpf_state \<Rightarrow> u32 option res \<Rightarrow> bpf_out res" where
  "set_A s r = rbind r (\<lambda>v. Inr (case v of None \<Rightarrow> Return 0 | Some w \<Rightarrow> Continue (s\<lparr>rA := w\<rparr>)))"

definition bpf_load :: "u32 \<Rightarrow> packet \<Rightarrow> bpf_insn \<Rightarrow> bpf_state \<Rightarrow> bpf_out res" where
  "bpf_load wirelen p i s =
     (let c = code i; k = bk i; X = rX s; bl = buflen p in
      if c = BPF_LD + BPF_W + BPF_ABS then
        set_A s (load_word p (\<not> (k > bl \<or> 4 > bl - k)) k)
      else if c = BPF_LD + BPF_H + BPF_ABS then
        \<comment> \<open>the error of \<open>m_xhalf\<close> is not looked at: \<open>A\<close> becomes 0\<close>
        (if k > bl \<or> 2 > bl - k
         then set_A s (rbind (load_half p False k) (\<lambda>r. Inr (if bl \<noteq> 0 then None else case r of None \<Rightarrow> Some 0 | Some w \<Rightarrow> Some w)))
         else set_A s (load_half p True k))
      else if c = BPF_LD + BPF_B + BPF_ABS then
        set_A s (load_byte p (\<not> k \<ge> bl) k)
      else if c = BPF_LD + BPF_W + BPF_LEN then Inr (Continue (s\<lparr>rA := wirelen\<rparr>))
      else if c = BPF_LDX + BPF_W + BPF_LEN then Inr (Continue (s\<lparr>rX := wirelen\<rparr>))
      else if c = BPF_LD + BPF_W + BPF_IND then
        set_A s (load_word p (\<not> (k > bl \<or> X > bl - k \<or> 4 > bl - (X + k))) (X + k))
      else if c = BPF_LD + BPF_H + BPF_IND then
        set_A s (load_half p (\<not> (X > bl \<or> k > bl - X \<or> 2 > bl - (X + k))) (X + k))
      else if c = BPF_LD + BPF_B + BPF_IND then
        set_A s (load_byte p (\<not> (k \<ge> bl \<or> X \<ge> bl - k)) (X + k))
      else if c = BPF_LDX + BPF_MSH + BPF_B then
        rbind (load_byte p (\<not> k \<ge> bl) k) (\<lambda>v. Inr (case v of None \<Rightarrow> Return 0
          | Some b \<Rightarrow> Continue (s\<lparr>rX := push_bit 2 (b AND 0xf)\<rparr>)))
      else if c = BPF_LD + BPF_IMM then Inr (Continue (s\<lparr>rA := k\<rparr>))
      else if c = BPF_LDX + BPF_IMM then Inr (Continue (s\<lparr>rX := k\<rparr>))
      else if c = BPF_LD + BPF_MEM then rbind (rd (mem s) (unat k)) (\<lambda>v. Inr (Continue (s\<lparr>rA := v\<rparr>)))
      else if c = BPF_LDX + BPF_MEM then rbind (rd (mem s) (unat k)) (\<lambda>v. Inr (Continue (s\<lparr>rX := v\<rparr>)))
      else Inr (Return 0))"

definition bpf_store :: "bpf_insn \<Rightarrow> bpf_state \<Rightarrow> bpf_out res" where
  "bpf_store i s =
     (if code i = BPF_ST then rbind (wr (mem s) (unat (bk i)) (rA s)) (\<lambda>m. Inr (Continue (s\<lparr>mem := m\<rparr>)))
      else if code i = BPF_STX then rbind (wr (mem s) (unat (bk i)) (rX s)) (\<lambda>m. Inr (Continue (s\<lparr>mem := m\<rparr>)))
      else Inr (Return 0))"

definition bpf_jump :: "bpf_insn \<Rightarrow> bpf_state \<Rightarrow> bpf_out res" where
  "bpf_jump i s =
     (let c = code i; A = rA s; X = rX s; k = bk i;
          br = (\<lambda>b. Inr (Continue (s\<lparr>pc := pc s + (if b then unat (jt i) else unat (jf i))\<rparr>))) in
      if c = BPF_JMP + BPF_JA then Inr (Continue (s\<lparr>pc := pc s + unat k\<rparr>))
      else if c = BPF_JMP + BPF_JGT + BPF_K then br (A > k)
      else if c = BPF_JMP + BPF_JGE + BPF_K then br (A \<ge> k)
      else if c = BPF_JMP + BPF_JEQ + BPF_K then br (A = k)
      else if c = BPF_JMP + BPF_JSET + BPF_K then br (A AND k \<noteq> 0)
      else if c = BPF_JMP + BPF_JGT + BPF_X then br (A > X)
      else if c = BPF_JMP + BPF_JGE + BPF_X then br (A \<ge> X)
      else if c = BPF_JMP + BPF_JEQ + BPF_X then br (A = X)
      else if c = BPF_JMP + BPF_JSET + BPF_X then br (A AND X \<noteq> 0)
      else Inr (Return 0))"

definition shift_left :: "u32 \<Rightarrow> u32 \<Rightarrow> u32 res" where
  "shift_left a n = (if n < 32 then Inr (push_bit (unat n) a) else Inl Undef)"

definition shift_right :: "u32 \<Rightarrow> u32 \<Rightarrow> u32 res" where
  "shift_right a n = (if n < 32 then Inr (drop_bit (unat n) a) else Inl Undef)"

definition bpf_alu :: "bpf_insn \<Rightarrow> bpf_state \<Rightarrow> bpf_out res" where
  "bpf_alu i s =
     (let c = code i; A = rA s; X = rX s; k = bk i; put = (\<lambda>v. Continue (s\<lparr>rA := v\<rparr>)) in
      if c = BPF_ALU + BPF_ADD + BPF_X then Inr (put (A + X))
      else if c = BPF_ALU + BPF_SUB + BPF_X then Inr (put (A - X))
      else if c = BPF_ALU + BPF_MUL + BPF_X then Inr (put (A * X))
      else if c = BPF_ALU + BPF_DIV + BPF_X then (if X = 0 then Inr (Return 0) else Inr (put (A div X)))
      else if c = BPF_ALU + BPF_AND + BPF_X then Inr (put (A AND X))
      else if c = BPF_ALU + BPF_OR + BPF_X then Inr (put (A OR X))
      else if c = BPF_ALU + BPF_LSH + BPF_X then rbind (shift_left A X) (\<lambda>v. Inr (put v))
      else if c = BPF_ALU + BPF_RSH + BPF_X then rbind (shift_right A X) (\<lambda>v. Inr (put v))
      else if c = BPF_ALU + BPF_ADD + BPF_K then Inr (put (A + k))
      else if c = BPF_ALU + BPF_SUB + BPF_K then Inr (put (A - k))
      else if c = BPF_ALU + BPF_MUL + BPF_K then Inr (put (A * k))
      else if c = BPF_ALU + BPF_DIV + BPF_K then (if k = 0 then Inl Undef else Inr (put (A div k)))
      else if c = BPF_ALU + BPF_AND + BPF_K then Inr (put (A AND k))
      else if c = BPF_ALU + BPF_OR + BPF_K then Inr (put (A OR k))
      else if c = BPF_ALU + BPF_LSH + BPF_K then rbind (shift_left A k) (\<lambda>v. Inr (put v))
      else if c = BPF_ALU + BPF_RSH + BPF_K then rbind (shift_right A k) (\<lambda>v. Inr (put v))
      else if c = BPF_ALU + BPF_NEG then Inr (put (- A))
      else Inr (Return 0))"

definition bpf_exec :: "u32 \<Rightarrow> packet \<Rightarrow> bpf_insn \<Rightarrow> bpf_state \<Rightarrow> bpf_out res" where
  "bpf_exec wirelen p i s =
     (let cl = BPF_CLASS (code i) in
      if cl = BPF_LD \<or> cl = BPF_LDX then bpf_load wirelen p i s
      else if cl = BPF_ST \<or> cl = BPF_STX then bpf_store i s
      else if cl = BPF_ALU then bpf_alu i s
      else if cl = BPF_JMP then bpf_jump i s
      else if code i = BPF_RET + BPF_K then Inr (Return (bk i))
      else if code i = BPF_RET + BPF_A then Inr (Return (rA s))
      else if code i = BPF_MISC + BPF_TAX then Inr (Continue (s\<lparr>rX := rA s\<rparr>))
      else if code i = BPF_MISC + BPF_TXA then Inr (Continue (s\<lparr>rA := rX s\<rparr>))
      else Inr (Return 0))"

lemma set_A_pc: "set_A s r = Inr (Continue s') \<Longrightarrow> pc s' = pc s"
  by (auto simp: set_A_def rbind_eq_Inr_iff split: option.splits)

lemma bpf_load_pc: "bpf_load w p i s = Inr (Continue s') \<Longrightarrow> pc s' = pc s"
  by (auto simp: bpf_load_def Let_def rbind_eq_Inr_iff dest: set_A_pc split: if_splits option.splits)

lemma bpf_exec_pc: "bpf_exec w p i s = Inr (Continue s') \<Longrightarrow> pc s \<le> pc s'"
  by (auto simp: bpf_exec_def bpf_store_def bpf_alu_def bpf_jump_def Let_def rbind_eq_Inr_iff
      dest: bpf_load_pc split: if_splits)

text \<open>The program counter only grows, so the loop ends for every program; behind the end of
  the program it is undefined.\<close>

function bpf_run :: "bpf_insn list \<Rightarrow> u32 \<Rightarrow> packet \<Rightarrow> bpf_state \<Rightarrow> u32 res" where
  "bpf_run prog wirelen p s =
     (if pc s < length prog
      then rbind (bpf_exec wirelen p (prog ! pc s) s) (\<lambda>r.
           case r of Return v \<Rightarrow> Inr v
           | Continue s' \<Rightarrow> bpf_run prog wirelen p (s'\<lparr>pc := Suc (pc s')\<rparr>))
      else Inl Undef)"
  by pat_completeness auto
termination
  by (relation "measure (\<lambda>(prog, w, p, s). length prog - pc s)") (auto dest!: bpf_exec_pc)

declare bpf_run.simps [simp del]

definition bpf_filter :: "bpf_insn list option \<Rightarrow> packet \<Rightarrow> u32 \<Rightarrow> u32 res" where
  \<comment> \<open>a null program accepts all\<close>
  "bpf_filter prog p wirelen =
     (case prog of None \<Rightarrow> Inr (- 1)
      | Some f \<Rightarrow> bpf_run f wirelen p \<lparr>pc = 0, rA = 0, rX = 0, mem = replicate BPF_MEMWORDS 0\<rparr>)"

section \<open>The validator\<close>

definition bpf_code_map :: "u16 list" where
  "bpf_code_map = [0x10ff, 0x3070, 0x3131, 0x3031, 0x3131, 0x1011, 0x1013, 0x1010,
     0x0093, 0x0000, 0x0000, 0x0002, 0x0000, 0x0000, 0x0000, 0x0000]"

definition BPF_VALIDATE_CODE :: "u16 \<Rightarrow> bool" where
  "BPF_VALIDATE_CODE c \<longleftrightarrow> c \<le> 0xff \<and> bpf_code_map ! unat (drop_bit 4 c) AND push_bit (unat (c AND 0xf)) 1 \<noteq> 0"

text \<open>The body of the loop at instruction \<open>i\<close> of \<open>len\<close>.\<close>

definition bpf_validate_insn :: "nat \<Rightarrow> nat \<Rightarrow> bpf_insn \<Rightarrow> bool" where
  "bpf_validate_insn len i p \<longleftrightarrow>
     BPF_VALIDATE_CODE (code p) \<and>
     (if BPF_CLASS (code p) = BPF_JMP
      then let offset = (if code p = BPF_JMP + BPF_JA then bk p
                         else if jt p > jf p then ucast (jt p) else ucast (jf p)) in
           \<not> offset \<ge> of_nat (len - i) - 1
      else if code p = BPF_ST \<or> code p = BPF_STX \<or> code p = BPF_LD + BPF_MEM \<or> code p = BPF_LDX + BPF_MEM
      then \<not> unat (bk p) \<ge> BPF_MEMWORDS
      else \<not> (code p = BPF_ALU + BPF_DIV + BPF_K \<and> bk p = 0))"

definition bpf_validate :: "bpf_insn list \<Rightarrow> int \<Rightarrow> bool" where
  "bpf_validate f len \<longleftrightarrow>
     (if len < 0 then False
      else if len = 0 then True
      else list_all (\<lambda>i. bpf_validate_insn (nat len) i (f ! i)) [0..<nat len] \<and>
           BPF_CLASS (code (f ! (nat len - 1))) = BPF_RET)"

section \<open>Loads stay inside the packet\<close>

definition packet_ok :: "packet \<Rightarrow> bool" where
  "packet_ok p \<longleftrightarrow> (case p of Flat bs \<Rightarrow> bs \<noteq> [] \<and> length bs < 2 ^ 32 | Mbufs ms \<Rightarrow> ms \<noteq> [] \<and> [] \<notin> set ms)"

lemma EXTRACT_in:
  "k + 2 \<le> length p \<Longrightarrow> EXTRACT_SHORT p k = Inr (push_bit 8 (ucast (p ! k)) OR ucast (p ! (k + 1)))"
  "k + 4 \<le> length p \<Longrightarrow> EXTRACT_LONG p k = Inr (push_bit 24 (ucast (p ! k)) OR push_bit 16 (ucast (p ! (k + 1))) OR
     push_bit 8 (ucast (p ! (k + 2))) OR ucast (p ! (k + 3)))"
  by (simp_all add: EXTRACT_SHORT_def EXTRACT_LONG_def)

lemma MINDEX_Some: "MINDEX ms k = Some (m, ms', j) \<Longrightarrow> j < length m \<and> m \<in> set ms \<and> set ms' \<subseteq> set ms"
  by (induction ms k rule: MINDEX.induct) (auto split: if_splits)

lemma m_xword_total: "\<exists>r. m_xword ms k = Inr r"
proof (cases "MINDEX ms k")
  case None
  then show ?thesis by (simp add: m_xword_def)
next
  case (Some q)
  obtain m ms' j where q: "q = (m, ms', j)" by (cases q)
  then have j: "j < length m" using Some MINDEX_Some by blast
  show ?thesis
  proof (cases "length m - j \<ge> 4")
    case True
    then show ?thesis using Some q EXTRACT_in(2)[of j m] by (simp add: m_xword_def Let_def)
  next
    case False
    show ?thesis
    proof (cases ms')
      case Nil
      then show ?thesis using Some q False by (simp add: m_xword_def Let_def)
    next
      case (Cons m0 rest)
      show ?thesis
      proof (cases "length m0 + length m - j < 4")
        case True
        then show ?thesis using Some q False Cons by (simp add: m_xword_def Let_def)
      next
        case big: False
        then have "0 + 4 \<le> length (drop j m @ take (4 - (length m - j)) m0)" using False j by auto
        from EXTRACT_in(2)[OF this] show ?thesis using Some q False Cons big by (simp add: m_xword_def Let_def)
      qed
    qed
  qed
qed

lemma m_xhalf_total:
  assumes "[] \<notin> set ms"
  shows "\<exists>r. m_xhalf ms k = Inr r"
proof (cases "MINDEX ms k")
  case None
  then show ?thesis by (simp add: m_xhalf_def)
next
  case (Some q)
  obtain m ms' j where q: "q = (m, ms', j)" by (cases q)
  then have j: "j < length m" "set ms' \<subseteq> set ms" using Some MINDEX_Some by blast+
  show ?thesis
  proof (cases "length m - j \<ge> 2")
    case True
    then show ?thesis using Some q EXTRACT_in(1)[of j m] by (simp add: m_xhalf_def Let_def)
  next
    case False
    have "0 < length a" if "a \<in> set ms" for a using that assms by auto
    then show ?thesis using False Some q j by (cases ms') (auto simp: m_xhalf_def Let_def)
  qed
qed

lemma word_room:
  fixes bl k n :: u32
  assumes "\<not> (k > bl \<or> n > bl - k)"
  shows "unat k + unat n \<le> unat bl"
proof -
  have "k \<le> bl" "n \<le> bl - k" using assms by (simp_all add: not_less)
  then have "unat k \<le> unat bl" "unat n \<le> unat (bl - k)" by (simp_all add: word_le_nat_alt)
  then show ?thesis using unat_sub[OF \<open>k \<le> bl\<close>] by linarith
qed

lemma word_room2:
  fixes bl k x n :: u32
  assumes "\<not> (k > bl \<or> x > bl - k \<or> n > bl - (x + k))"
  shows "unat (x + k) = unat x + unat k \<and> unat x + unat k + unat n \<le> unat bl"
proof -
  have 1: "unat k + unat x \<le> unat bl" using assms by (intro word_room) blast
  moreover have "unat bl < 2 ^ 32" using unsigned_less[of bl] by simp
  ultimately have s: "unat (x + k) = unat x + unat k" by (simp add: unat_word_ariths(1))
  then have "x + k \<le> bl" using 1 by (simp add: word_le_nat_alt)
  then have "unat (x + k) + unat n \<le> unat bl" using assms by (intro word_room) auto
  then show ?thesis using s by simp
qed

lemma buflen_Flat: "length bs < 2 ^ 32 \<Longrightarrow> unat (buflen (Flat bs)) = length bs"
  by (simp add: buflen_def unat_of_nat_small)

lemma buflen_Flat_nz: "bs \<noteq> [] \<Longrightarrow> length bs < 2 ^ 32 \<Longrightarrow> buflen (Flat bs) \<noteq> 0"
  using buflen_Flat by fastforce

lemma load_word_total:
  assumes "packet_ok p" and "inb \<Longrightarrow> unat k + 4 \<le> unat (buflen p)"
  shows "\<exists>r. load_word p inb k = Inr r"
proof (cases p)
  case (Flat bs)
  then have b: "unat (buflen p) = length bs" "buflen p \<noteq> 0"
    using assms(1) buflen_Flat buflen_Flat_nz by (auto simp: packet_ok_def)
  then show ?thesis using assms(2) Flat by (cases inb) (simp_all add: load_word_def EXTRACT_in)
next
  case (Mbufs ms)
  then have "\<not> inb" using assms(2) by (auto simp: buflen_def)
  then show ?thesis using Mbufs m_xword_total by (simp add: load_word_def buflen_def)
qed

lemma load_half_total:
  assumes "packet_ok p" and "inb \<Longrightarrow> unat k + 2 \<le> unat (buflen p)"
  shows "\<exists>r. load_half p inb k = Inr r"
proof (cases p)
  case (Flat bs)
  then have b: "unat (buflen p) = length bs" "buflen p \<noteq> 0"
    using assms(1) buflen_Flat buflen_Flat_nz by (auto simp: packet_ok_def)
  then show ?thesis using assms(2) Flat by (cases inb) (simp_all add: load_half_def EXTRACT_in)
next
  case (Mbufs ms)
  then have "\<not> inb" using assms(2) by (auto simp: buflen_def)
  then show ?thesis using Mbufs assms(1) m_xhalf_total by (simp add: load_half_def buflen_def packet_ok_def)
qed

lemma load_byte_total:
  assumes "packet_ok p" and "inb \<Longrightarrow> unat k < unat (buflen p)"
  shows "\<exists>r. load_byte p inb k = Inr r"
proof (cases p)
  case (Flat bs)
  then have b: "unat (buflen p) = length bs" "buflen p \<noteq> 0"
    using assms(1) buflen_Flat buflen_Flat_nz by (auto simp: packet_ok_def)
  then show ?thesis using assms(2) Flat by (cases inb) (simp_all add: load_byte_def)
next
  case (Mbufs ms)
  then have "\<not> inb" using assms(2) by (auto simp: buflen_def)
  then show ?thesis using Mbufs MINDEX_Some[of ms "unat k"]
    by (auto simp: load_byte_def buflen_def split: option.split)
qed

text \<open>The bounds checks of the load instructions, as the totality lemmas need them.\<close>

lemma ld_abs_bounds:
  fixes bl k :: u32
  shows "\<not> (k > bl \<or> 4 > bl - k) \<Longrightarrow> unat k + 4 \<le> unat bl"
    and "\<not> (k > bl \<or> 2 > bl - k) \<Longrightarrow> unat k + 2 \<le> unat bl"
    and "\<not> k \<ge> bl \<Longrightarrow> unat k < unat bl"
  using word_room[of bl k 4] word_room[of bl k 2] by (simp_all add: not_le word_less_nat_alt)

lemma ld_ind_bounds:
  fixes bl k x :: u32
  shows "\<not> (k > bl \<or> x > bl - k \<or> 4 > bl - (x + k)) \<Longrightarrow> unat (x + k) + 4 \<le> unat bl"
    and "\<not> (x > bl \<or> k > bl - x \<or> 2 > bl - (x + k)) \<Longrightarrow> unat (x + k) + 2 \<le> unat bl"
    and "\<not> (k \<ge> bl \<or> x \<ge> bl - k) \<Longrightarrow> unat (x + k) < unat bl"
proof -
  show "unat (x + k) + 4 \<le> unat bl" if "\<not> (k > bl \<or> x > bl - k \<or> 4 > bl - (x + k))"
    using word_room2[OF that] by simp
  show "unat (x + k) + 2 \<le> unat bl" if "\<not> (x > bl \<or> k > bl - x \<or> 2 > bl - (x + k))"
    using word_room2[of bl x k 2] that by (simp add: add.commute)
  show "unat (x + k) < unat bl" if "\<not> (k \<ge> bl \<or> x \<ge> bl - k)"
  proof -
    have k: "k \<le> bl" and "unat k < unat bl" "unat x < unat (bl - k)"
      using that by (auto simp: not_le word_less_nat_alt word_le_nat_alt)
    then have "unat x + unat k < unat bl" using unat_sub[OF k] by linarith
    moreover have "unat bl < 2 ^ 32" using unsigned_less[of bl] by simp
    ultimately show ?thesis by (simp add: unat_word_ariths(1))
  qed
qed

section \<open>Validated programs\<close>

definition shift_ok :: "bpf_insn \<Rightarrow> bool" where
  "shift_ok i \<longleftrightarrow> code i \<noteq> BPF_ALU + BPF_LSH + BPF_X \<and> code i \<noteq> BPF_ALU + BPF_RSH + BPF_X \<and>
     (code i = BPF_ALU + BPF_LSH + BPF_K \<or> code i = BPF_ALU + BPF_RSH + BPF_K \<longrightarrow> bk i < 32)"

lemma set_A_total: "\<exists>r. m = Inr r \<Longrightarrow> \<exists>r. set_A s m = Inr r"
  by (auto simp: set_A_def)

lemma set_A_mem: "set_A s r = Inr (Continue s') \<Longrightarrow> mem s' = mem s"
  by (auto simp: set_A_def rbind_eq_Inr_iff split: option.splits)

lemma bpf_load_mem: "bpf_load w p i s = Inr (Continue s') \<Longrightarrow> mem s' = mem s"
  by (auto simp: bpf_load_def Let_def rbind_eq_Inr_iff dest: set_A_mem split: if_splits option.splits)

lemma rbind_total: "\<exists>r. m = Inr r \<Longrightarrow> (\<And>x. \<exists>r. f x = Inr r) \<Longrightarrow> \<exists>r. rbind m f = Inr r"
  by auto

lemma load_half_abs_total:
  assumes "packet_ok p"
  shows "\<exists>r. (if k > buflen p \<or> 2 > buflen p - k
     then set_A s (rbind (load_half p False k) (\<lambda>r. Inr (if buflen p \<noteq> 0 then None else case r of None \<Rightarrow> Some 0 | Some w \<Rightarrow> Some w)))
     else set_A s (load_half p True k)) = Inr r"
proof (cases "k > buflen p \<or> 2 > buflen p - k")
  case True
  have "\<exists>r. load_half p False k = Inr r" by (rule load_half_total[OF assms]) simp
  then show ?thesis using True by (auto simp: set_A_def)
next
  case False
  then have "\<exists>r. load_half p True k = Inr r" using ld_abs_bounds(2) by (intro load_half_total[OF assms]) blast
  then show ?thesis using False set_A_total by simp
qed

lemma bpf_load_total:
  assumes "packet_ok p" and "length (mem s) = BPF_MEMWORDS"
    and "code i = BPF_LD + BPF_MEM \<or> code i = BPF_LDX + BPF_MEM \<Longrightarrow> unat (bk i) < BPF_MEMWORDS"
  shows "\<exists>r. bpf_load w p i s = Inr r"
proof -
  note T = set_A_total[OF load_word_total[OF assms(1)]] set_A_total[OF load_half_total[OF assms(1)]]
    set_A_total[OF load_byte_total[OF assms(1)]]
  have W: "\<exists>r. set_A s (load_word p (\<not> (k > buflen p \<or> 4 > buflen p - k)) k) = Inr r" for k
    by (rule T(1)) (rule ld_abs_bounds)
  have B: "\<exists>r. set_A s (load_byte p (\<not> k \<ge> buflen p) k) = Inr r" for k
    by (rule T(3)) (rule ld_abs_bounds)
  have WI: "\<exists>r. set_A s (load_word p (\<not> (k > buflen p \<or> x > buflen p - k \<or> 4 > buflen p - (x + k))) (x + k)) = Inr r" for k x
    by (rule T(1)) (rule ld_ind_bounds)
  have HI: "\<exists>r. set_A s (load_half p (\<not> (x > buflen p \<or> k > buflen p - x \<or> 2 > buflen p - (x + k))) (x + k)) = Inr r" for k x
    by (rule T(2)) (rule ld_ind_bounds)
  have BI: "\<exists>r. set_A s (load_byte p (\<not> (k \<ge> buflen p \<or> x \<ge> buflen p - k)) (x + k)) = Inr r" for k x
    by (rule T(3)) (rule ld_ind_bounds)
  have M: "\<exists>r. rbind (load_byte p (\<not> k \<ge> buflen p) k) (\<lambda>v. Inr (g v)) = Inr r" for k and g :: "u32 option \<Rightarrow> bpf_out"
    by (rule rbind_total[OF load_byte_total[OF assms(1)]]) (simp_all add: ld_abs_bounds)
  note H = load_half_abs_total[OF assms(1), of "bk i" s]
  have R: "\<exists>r. rbind (rd (mem s) (unat (bk i))) (\<lambda>v. Inr (g v)) = Inr r"
    if "unat (bk i) < BPF_MEMWORDS" for g :: "u32 \<Rightarrow> bpf_out" using that assms(2) by simp
  show ?thesis unfolding bpf_load_def Let_def
    by (simp only: W B WI HI BI M H R assms(3) if_split_mem1 split: if_split) (use R assms(3) in auto)
qed

lemma validate_mem:
  assumes "bpf_validate_insn len n i"
  shows "code i = BPF_LD + BPF_MEM \<or> code i = BPF_LDX + BPF_MEM \<or> code i = BPF_ST \<or> code i = BPF_STX \<Longrightarrow>
    unat (bk i) < BPF_MEMWORDS"
  using assms by (auto simp: bpf_validate_insn_def BPF_CLASS_def bpf_codes)

lemma validate_div: "bpf_validate_insn len n i \<Longrightarrow> code i = BPF_ALU + BPF_DIV + BPF_K \<Longrightarrow> bk i \<noteq> 0"
  by (auto simp: bpf_validate_insn_def BPF_CLASS_def bpf_codes)

lemma bpf_alu_total: "bpf_validate_insn len n i \<Longrightarrow> shift_ok i \<Longrightarrow> \<exists>r. bpf_alu i s = Inr r"
  using validate_div[of len n i]
  by (simp add: bpf_alu_def Let_def shift_ok_def shift_left_def shift_right_def)

lemma bpf_jump_total: "\<exists>r. bpf_jump i s = Inr r"
  by (simp add: bpf_jump_def Let_def)

lemma bpf_store_total:
  assumes "bpf_validate_insn len n i" and "length (mem s) = BPF_MEMWORDS"
  shows "\<exists>r. bpf_store i s = Inr r"
  using validate_mem[OF assms(1)] assms(2) by (simp add: bpf_store_def)

lemma bpf_exec_total:
  assumes "packet_ok p" and "length (mem s) = BPF_MEMWORDS" and "bpf_validate_insn len n i" and "shift_ok i"
  shows "\<exists>r. bpf_exec w p i s = Inr r"
proof -
  have "\<exists>r. bpf_load w p i s = Inr r"
    by (rule bpf_load_total[OF assms(1,2)]) (use validate_mem[OF assms(3)] in blast)
  then show ?thesis
    using bpf_alu_total[OF assms(3,4), of s] bpf_jump_total[of i s] bpf_store_total[OF assms(3,2)]
    unfolding bpf_exec_def Let_def by (simp split: if_split)
qed

lemma bpf_exec_mem:
  "bpf_exec w p i s = Inr (Continue s') \<Longrightarrow> length (mem s') = length (mem s)"
  by (auto simp: bpf_exec_def bpf_store_def bpf_alu_def bpf_jump_def Let_def rbind_eq_Inr_iff wr_def
      dest: bpf_load_mem split: if_splits)

lemma bpf_exec_no_jump:
  "bpf_exec w p i s = Inr (Continue s') \<Longrightarrow> BPF_CLASS (code i) \<noteq> BPF_JMP \<Longrightarrow> pc s' = pc s"
  by (auto simp: bpf_exec_def bpf_store_def bpf_alu_def Let_def rbind_eq_Inr_iff
      dest: bpf_load_pc split: if_splits)

lemma bpf_exec_ret: "BPF_CLASS (code i) = BPF_RET \<Longrightarrow> bpf_exec w p i s \<noteq> Inr (Continue s')"
  by (auto simp: bpf_exec_def Let_def BPF_CLASS_def bpf_codes)

lemma bpf_jump_bound:
  assumes "bpf_jump i s = Inr (Continue s')" and "BPF_CLASS (code i) = BPF_JMP"
    and "bpf_validate_insn len n i" and "len < 2 ^ 32" and "n < len"
  shows "pc s' + n + 1 < pc s + len"
proof -
  let ?off = "if code i = BPF_JMP + BPF_JA then bk i else if jt i > jf i then ucast (jt i) else ucast (jf i) :: u32"
  have "?off < of_nat (len - n) - 1" using assms(2,3) by (simp add: bpf_validate_insn_def not_le split: if_splits)
  then have o: "unat ?off < unat (of_nat (len - n) - 1 :: u32)" by (simp only: word_less_nat_alt)
  have u: "unat (of_nat (len - n) :: u32) = len - n" using assms(4) by (intro unat_of_nat_small) simp
  have "(1 :: u32) \<le> of_nat (len - n)" using assms(5) u by (simp add: word_le_nat_alt)
  then have "unat (of_nat (len - n) - 1 :: u32) = len - n - 1" using unat_sub[of 1 "of_nat (len - n) :: u32"] u by simp
  then have off: "unat ?off < len - n - 1" using o by simp
  have "pc s' \<le> pc s + unat ?off"
  proof (cases "code i = BPF_JMP + BPF_JA")
    case True
    then show ?thesis using assms(1) by (auto simp: bpf_jump_def Let_def)
  next
    case False
    then have e: "pc s' = pc s + unat (jt i) \<or> pc s' = pc s + unat (jf i)"
      using assms(1) by (auto simp: bpf_jump_def Let_def split: if_splits)
    have c: "unat (ucast b :: u32) = unat b" for b :: byte
    proof -
      have "unat b < 2 ^ LENGTH(8)" by (rule unsigned_less)
      then show ?thesis by (intro unat_ucast_small) simp
    qed
    have "jt i > jf i \<longleftrightarrow> unat (jf i) < unat (jt i)" by (rule word_less_nat_alt)
    then show ?thesis using e False by (auto simp: c)
  qed
  then show ?thesis using off by linarith
qed

lemma bpf_exec_next:
  assumes "bpf_exec w p i s = Inr (Continue s')" and "bpf_validate_insn len (pc s) i"
    and "BPF_CLASS (code i) = BPF_JMP \<or> Suc (pc s) < len" and "len < 2 ^ 32" and "pc s < len"
  shows "Suc (pc s') < len"
proof (cases "BPF_CLASS (code i) = BPF_JMP")
  case True
  then have j: "bpf_jump i s = Inr (Continue s')" using assms(1)
    by (simp add: bpf_exec_def Let_def bpf_codes)
  show ?thesis using bpf_jump_bound[OF j True assms(2,4,5)] by linarith
next
  case False
  then show ?thesis using bpf_exec_no_jump[OF assms(1)] assms(3) by simp
qed

lemma bpf_run_total:
  assumes "packet_ok p" and "length prog < 2 ^ 32" and "list_all shift_ok prog"
    and "\<And>i. i < length prog \<Longrightarrow> bpf_validate_insn (length prog) i (prog ! i)"
    and "BPF_CLASS (code (prog ! (length prog - 1))) = BPF_RET"
  shows "pc s < length prog \<Longrightarrow> length (mem s) = BPF_MEMWORDS \<Longrightarrow> \<exists>v. bpf_run prog w p s = Inr v"
proof (induction "length prog - pc s" arbitrary: s rule: less_induct)
  case less
  let ?i = "prog ! pc s"
  have v: "bpf_validate_insn (length prog) (pc s) ?i" using less.prems assms(4) by blast
  have sh: "shift_ok ?i" using less.prems assms(3) by (simp add: list_all_length)
  obtain r where r: "bpf_exec w p ?i s = Inr r" using bpf_exec_total[OF assms(1) less.prems(2) v sh] by blast
  show ?case
  proof (cases r)
    case (Return x)
    then show ?thesis using r less.prems by (subst bpf_run.simps) simp
  next
    case (Continue s')
    then have e: "bpf_exec w p ?i s = Inr (Continue s')" using r by simp
    have "pc s \<noteq> length prog - 1" using bpf_exec_ret[of ?i w p s s'] e assms(5) by auto
    then have n: "Suc (pc s') < length prog" using bpf_exec_next[OF e v _ assms(2)] less.prems(1) by linarith
    have "\<exists>v. bpf_run prog w p (s'\<lparr>pc := Suc (pc s')\<rparr>) = Inr v"
      by (rule less.hyps) (use n bpf_exec_pc[OF e] bpf_exec_mem[OF e] less.prems in auto)
    then show ?thesis using e less.prems(1) by (subst bpf_run.simps) simp
  qed
qed

section \<open>Mbuf chains and contiguous packets\<close>

lemma MINDEX_None: "\<not> k < length (concat ms) \<Longrightarrow> MINDEX ms k = None"
proof (induction ms k rule: MINDEX.induct)
  case (2 m ms k)
  then have "\<not> k - length m < length (concat ms)" by simp
  then show ?case using 2 by simp
qed simp

lemma MINDEX_split:
  assumes "MINDEX ms k = Some (m, ms', j)"
  shows "drop k (concat ms) = drop j m @ concat ms'"
  using assms by (induction ms k rule: MINDEX.induct) (auto split: if_splits)

lemma MINDEX_in: "k < length (concat ms) \<Longrightarrow> \<exists>m ms' j. MINDEX ms k = Some (m, ms', j)"
  by (induction ms k rule: MINDEX.induct) auto

lemma EXTRACT_drop:
  "k + 2 \<le> length p \<Longrightarrow> EXTRACT_SHORT p k = EXTRACT_SHORT (take 2 (drop k p)) 0"
  "k + 4 \<le> length p \<Longrightarrow> EXTRACT_LONG p k = EXTRACT_LONG (take 4 (drop k p)) 0"
  by (simp_all add: EXTRACT_in)

lemma load_byte_chain:
  assumes "length (concat ms) < 2 ^ 32" and "concat ms \<noteq> []"
    and "inb \<longleftrightarrow> unat k < length (concat ms)"
  shows "load_byte (Mbufs ms) False k = load_byte (Flat (concat ms)) inb k"
proof (cases "unat k < length (concat ms)")
  case True
  then obtain m ms' j where q: "MINDEX ms (unat k) = Some (m, ms', j)" using MINDEX_in by blast
  have j: "j < length m" using MINDEX_Some[OF q] by blast
  have "concat ms ! unat k = drop (unat k) (concat ms) ! 0" using True by simp
  also have "\<dots> = m ! j" unfolding MINDEX_split[OF q] using j by (simp add: nth_append)
  finally show ?thesis using True q j assms(3) by (simp add: load_byte_def buflen_def)
next
  case False
  then have "MINDEX ms (unat k) = None" by (rule MINDEX_None)
  then show ?thesis using False assms buflen_Flat_nz by (simp add: load_byte_def buflen_def)
qed

lemma load_half_chain:
  assumes "length (concat ms) < 2 ^ 32" and "concat ms \<noteq> []" and "[] \<notin> set ms"
    and "inb \<longleftrightarrow> unat k + 2 \<le> length (concat ms)"
  shows "load_half (Mbufs ms) False k = load_half (Flat (concat ms)) inb k"
proof (cases "unat k < length (concat ms)")
  case True
  then obtain m ms' j where q: "MINDEX ms (unat k) = Some (m, ms', j)" using MINDEX_in by blast
  have j: "j < length m" "set ms' \<subseteq> set ms" using MINDEX_Some[OF q] by blast+
  note d = MINDEX_split[OF q]
  have len: "length (concat ms) - unat k = length m - j + length (concat ms')"
    using arg_cong[OF d, of length] by simp
  show ?thesis
  proof (cases "length m - j \<ge> 2")
    case ge: True
    then have i: inb using len True assms(4) by linarith
    then have "EXTRACT_SHORT (concat ms) (unat k) = EXTRACT_SHORT (take 2 (drop (unat k) (concat ms))) 0"
      using assms(4) by (intro EXTRACT_drop) simp
    also have "\<dots> = EXTRACT_SHORT (take 2 (drop j m)) 0" unfolding d using ge by simp
    also have "\<dots> = EXTRACT_SHORT m j" using ge j by (intro EXTRACT_drop(1)[symmetric]) linarith
    finally show ?thesis using i q ge by (simp add: load_half_def m_xhalf_def Let_def buflen_def)
  next
    case lt: False
    then have one: "length m - j = 1" using j by linarith
    show ?thesis
    proof (cases ms')
      case Nil
      then have "\<not> inb" using len one True assms(4) by simp
      then show ?thesis using q lt Nil assms buflen_Flat_nz by (simp add: load_half_def m_xhalf_def Let_def buflen_def)
    next
      case (Cons m0 rest)
      then have m0: "m0 \<noteq> []" using j assms(3) by auto
      then have i: inb using len one Cons True assms(4) by (cases m0) auto
      have dm: "drop j m = [m ! j]" using one j by (metis Cons_nth_drop_Suc drop_all le_add_diff_inverse less_imp_le plus_1_eq_Suc add.commute order_refl)
      have "EXTRACT_SHORT (concat ms) (unat k) = EXTRACT_SHORT (take 2 (drop (unat k) (concat ms))) 0"
        using assms(4) i by (intro EXTRACT_drop) simp
      also have "take 2 (drop (unat k) (concat ms)) = [m ! j, m0 ! 0]"
        unfolding d dm using Cons m0 by (cases m0) simp_all
      finally show ?thesis using i q lt Cons m0 j
        by (simp add: load_half_def m_xhalf_def Let_def buflen_def EXTRACT_SHORT_def)
    qed
  qed
next
  case False
  then have "MINDEX ms (unat k) = None" by (rule MINDEX_None)
  then show ?thesis using False assms buflen_Flat_nz by (simp add: load_half_def m_xhalf_def buflen_def)
qed

lemma load_word_chain:
  assumes "length (concat ms) < 2 ^ 32" and "concat ms \<noteq> []" and "list_all (\<lambda>m. 3 \<le> length m) ms"
    and "inb \<longleftrightarrow> unat k + 4 \<le> length (concat ms)"
  shows "load_word (Mbufs ms) False k = load_word (Flat (concat ms)) inb k"
proof (cases "unat k < length (concat ms)")
  case True
  then obtain m ms' j where q: "MINDEX ms (unat k) = Some (m, ms', j)" using MINDEX_in by blast
  have j: "j < length m" "set ms' \<subseteq> set ms" using MINDEX_Some[OF q] by blast+
  note d = MINDEX_split[OF q]
  have len: "length (concat ms) - unat k = length m - j + length (concat ms')"
    using arg_cong[OF d, of length] by simp
  show ?thesis
  proof (cases "length m - j \<ge> 4")
    case ge: True
    then have i: inb using len True assms(4) by linarith
    then have "EXTRACT_LONG (concat ms) (unat k) = EXTRACT_LONG (take 4 (drop (unat k) (concat ms))) 0"
      using assms(4) by (intro EXTRACT_drop) simp
    also have "\<dots> = EXTRACT_LONG (take 4 (drop j m)) 0" unfolding d using ge by simp
    also have "\<dots> = EXTRACT_LONG m j" using ge j by (intro EXTRACT_drop(2)[symmetric]) linarith
    finally show ?thesis using i q ge by (simp add: load_word_def m_xword_def Let_def buflen_def)
  next
    case lt: False
    show ?thesis
    proof (cases ms')
      case Nil
      then have "\<not> inb" using len lt True assms(4) by simp
      then show ?thesis using q lt Nil assms buflen_Flat_nz by (simp add: load_word_def m_xword_def Let_def buflen_def)
    next
      case (Cons m0 rest)
      then have m0: "3 \<le> length m0" using j assms(3) by (auto simp: list_all_iff)
      then have i: inb using len j(1) Cons True assms(4) by simp
      have "EXTRACT_LONG (concat ms) (unat k) = EXTRACT_LONG (take 4 (drop (unat k) (concat ms))) 0"
        using assms(4) i by (intro EXTRACT_drop) simp
      moreover have "take 4 (drop (unat k) (concat ms)) = drop j m @ take (4 - (length m - j)) m0"
        unfolding d using Cons m0 lt j by simp
      moreover have "\<not> length m0 + length m - j < 4" using m0 j(1) by linarith
      ultimately show ?thesis using i q lt Cons
        by (simp add: load_word_def m_xword_def Let_def buflen_def)
    qed
  qed
next
  case False
  then have "MINDEX ms (unat k) = None" by (rule MINDEX_None)
  then show ?thesis using False assms buflen_Flat_nz by (simp add: load_word_def m_xword_def buflen_def)
qed

lemma room_iff:
  fixes bl k n :: u32
  shows "\<not> (k > bl \<or> n > bl - k) \<longleftrightarrow> unat k + unat n \<le> unat bl"
proof
  assume r: "unat k + unat n \<le> unat bl"
  then have k: "k \<le> bl" by (simp add: word_le_nat_alt)
  then have "n \<le> bl - k" using r unat_sub[OF k] by (simp add: word_le_nat_alt)
  then show "\<not> (k > bl \<or> n > bl - k)" using k by auto
qed (rule word_room)

lemma room2_iff:
  fixes bl k x n :: u32
  assumes "unat x + unat k < 2 ^ 32"
  shows "\<not> (k > bl \<or> x > bl - k \<or> n > bl - (x + k)) \<longleftrightarrow> unat (x + k) + unat n \<le> unat bl"
proof -
  have s: "unat (x + k) = unat x + unat k" using assms by (simp add: unat_word_ariths(1))
  have "\<not> (k > bl \<or> x > bl - k \<or> n > bl - (x + k))" if r: "unat (x + k) + unat n \<le> unat bl"
  proof -
    have "x + k \<le> bl" "unat k + unat x \<le> unat bl" using r s by (auto simp: word_le_nat_alt)
    then show ?thesis using r room_iff[where k = k and bl = bl and n = x] room_iff[where k = "x + k" and bl = bl and n = n] by blast
  qed
  then show ?thesis using word_room2[of bl k x n] s by fastforce
qed

lemma ld_abs_iff:
  fixes bl k :: u32
  shows "(\<not> (k > bl \<or> 4 > bl - k)) = (unat k + 4 \<le> unat bl)"
    and "(\<not> (k > bl \<or> 2 > bl - k)) = (unat k + 2 \<le> unat bl)"
  using room_iff[where bl = bl and k = k and n = 4] room_iff[where bl = bl and k = k and n = 2] by simp_all

lemma ld_ind_iff:
  fixes bl k x :: u32
  assumes "unat x + unat k < 2 ^ 32"
  shows "(\<not> (k > bl \<or> x > bl - k \<or> 4 > bl - (x + k))) = (unat (x + k) + 4 \<le> unat bl)"
    and "(\<not> (x > bl \<or> k > bl - x \<or> 2 > bl - (x + k))) = (unat (x + k) + 2 \<le> unat bl)"
proof -
  have c: "unat k + unat x < 2 ^ 32" using assms by simp
  show "(\<not> (k > bl \<or> x > bl - k \<or> 4 > bl - (x + k))) = (unat (x + k) + 4 \<le> unat bl)"
    using room2_iff[OF assms, where bl = bl and n = 4] by simp
  show "(\<not> (x > bl \<or> k > bl - x \<or> 2 > bl - (x + k))) = (unat (x + k) + 2 \<le> unat bl)"
    using room2_iff[OF c, where bl = bl and n = 2] by (simp add: add.commute)
qed

lemma byte_iff:
  fixes bl k x :: u32
  shows "\<not> k \<ge> bl \<longleftrightarrow> unat k < unat bl"
    and "unat x + unat k < 2 ^ 32 \<Longrightarrow> \<not> (k \<ge> bl \<or> x \<ge> bl - k) \<longleftrightarrow> unat (x + k) < unat bl"
proof -
  show "\<not> k \<ge> bl \<longleftrightarrow> unat k < unat bl" by (simp add: word_less_nat_alt not_le)
  assume "unat x + unat k < 2 ^ 32"
  then have s: "unat (x + k) = unat x + unat k" by (simp add: unat_word_ariths(1))
  show "\<not> (k \<ge> bl \<or> x \<ge> bl - k) \<longleftrightarrow> unat (x + k) < unat bl"
  proof
    assume r: "unat (x + k) < unat bl"
    then have k: "k < bl" using s by (simp add: word_less_nat_alt)
    then have "unat (bl - k) = unat bl - unat k" by (intro unat_sub) simp
    then show "\<not> (k \<ge> bl \<or> x \<ge> bl - k)" using r s k by (simp add: not_le word_less_nat_alt)
  qed (rule ld_ind_bounds)
qed

text \<open>Programs that set \<open>X\<close> only with \<open>BPF_MSH\<close> (the length of an IP header, at most 60),
  whose indirect offsets leave room for it, and whose absolute half-word loads are inside the
  packet.\<close>

definition insn_plain :: "nat \<Rightarrow> bpf_insn \<Rightarrow> bool" where
  "insn_plain n i \<longleftrightarrow>
     code i \<noteq> BPF_LDX + BPF_W + BPF_LEN \<and> code i \<noteq> BPF_LDX + BPF_IMM \<and> code i \<noteq> BPF_LDX + BPF_MEM \<and>
     code i \<noteq> BPF_MISC + BPF_TAX \<and>
     (code i = BPF_LD + BPF_H + BPF_ABS \<longrightarrow> unat (bk i) + 2 \<le> n) \<and>
     (code i = BPF_LD + BPF_W + BPF_IND \<or> code i = BPF_LD + BPF_H + BPF_IND \<or> code i = BPF_LD + BPF_B + BPF_IND \<longrightarrow>
        unat (bk i) + 60 < 2 ^ 32)"

definition chain_ok :: "byte list list \<Rightarrow> bool" where
  "chain_ok ms \<longleftrightarrow> ms \<noteq> [] \<and> list_all (\<lambda>m. 3 \<le> length m) ms \<and> length (concat ms) < 2 ^ 32"

lemma chain_okD:
  assumes "chain_ok ms"
  shows "concat ms \<noteq> []" "[] \<notin> set ms" "list_all (\<lambda>m. 3 \<le> length m) ms" "length (concat ms) < 2 ^ 32"
    "unat (buflen (Flat (concat ms))) = length (concat ms)"
  proof -
  obtain m ms' where m: "ms = m # ms'" "3 \<le> length m" using assms by (auto simp: chain_ok_def neq_Nil_conv)
  then show "concat ms \<noteq> []" by auto
qed (use assms buflen_Flat[of "concat ms"] in \<open>auto simp: chain_ok_def list_all_iff\<close>)

lemma bpf_load_chain:
  assumes "chain_ok ms" and "insn_plain (length (concat ms)) i" and "unat (rX s) \<le> 60"
  shows "bpf_load w (Mbufs ms) i s = bpf_load w (Flat (concat ms)) i s"
proof -
  let ?M = "Mbufs ms" and ?F = "Flat (concat ms)" and ?k = "bk i" and ?X = "rX s"
  note ch = chain_okD[OF assms(1)]
  have M: "buflen ?M = 0" by (simp add: buflen_def)
  have W: "load_word ?M (\<not> (k > buflen ?M \<or> 4 > buflen ?M - k)) k = load_word ?F (\<not> (k > buflen ?F \<or> 4 > buflen ?F - k)) k" for k
    unfolding ld_abs_iff M ch(5) by (simp add: load_word_chain[OF ch(4,1,3)])
  have B: "load_byte ?M (\<not> k \<ge> buflen ?M) k = load_byte ?F (\<not> k \<ge> buflen ?F) k" for k
    unfolding byte_iff(1) M ch(5) by (simp add: load_byte_chain[OF ch(4,1)])
  have ind: "unat ?X + unat ?k < 2 ^ 32"
    if "code i = BPF_LD + BPF_W + BPF_IND \<or> code i = BPF_LD + BPF_H + BPF_IND \<or> code i = BPF_LD + BPF_B + BPF_IND"
    using assms(2,3) that unfolding insn_plain_def by linarith
  have WI: "load_word ?M (\<not> (?k > buflen ?M \<or> ?X > buflen ?M - ?k \<or> 4 > buflen ?M - (?X + ?k))) (?X + ?k) =
      load_word ?F (\<not> (?k > buflen ?F \<or> ?X > buflen ?F - ?k \<or> 4 > buflen ?F - (?X + ?k))) (?X + ?k)"
    if "code i = BPF_LD + BPF_W + BPF_IND"
    unfolding ld_ind_iff[OF ind[OF disjI1[OF that]]] M ch(5) by (simp add: load_word_chain[OF ch(4,1,3)])
  have HI: "load_half ?M (\<not> (?X > buflen ?M \<or> ?k > buflen ?M - ?X \<or> 2 > buflen ?M - (?X + ?k))) (?X + ?k) =
      load_half ?F (\<not> (?X > buflen ?F \<or> ?k > buflen ?F - ?X \<or> 2 > buflen ?F - (?X + ?k))) (?X + ?k)"
    if "code i = BPF_LD + BPF_H + BPF_IND"
    unfolding ld_ind_iff[OF ind[OF disjI2[OF disjI1[OF that]]]] M ch(5) by (simp add: load_half_chain[OF ch(4,1,2)])
  have BI: "load_byte ?M (\<not> (?k \<ge> buflen ?M \<or> ?X \<ge> buflen ?M - ?k)) (?X + ?k) =
      load_byte ?F (\<not> (?k \<ge> buflen ?F \<or> ?X \<ge> buflen ?F - ?k)) (?X + ?k)"
    if "code i = BPF_LD + BPF_B + BPF_IND"
    unfolding byte_iff(2)[OF ind[OF disjI2[OF disjI2[OF that]]]] M ch(5) by (simp add: load_byte_chain[OF ch(4,1)])
  have H: "load_half ?M False ?k = load_half ?F True ?k" "\<not> (?k > buflen ?F \<or> 2 > buflen ?F - ?k)"
      "?k > buflen ?M \<or> 2 > buflen ?M - ?k" "\<exists>v. load_half ?F True ?k = Inr (Some v)"
    if c: "code i = BPF_LD + BPF_H + BPF_ABS"
  proof -
    have r: "unat ?k + 2 \<le> length (concat ms)" using assms(2) c by (simp add: insn_plain_def)
    show "load_half ?M False ?k = load_half ?F True ?k" using load_half_chain[OF ch(4,1,2)] r by simp
    show "\<not> (?k > buflen ?F \<or> 2 > buflen ?F - ?k)" unfolding ld_abs_iff ch(5) by (rule r)
    show "?k > buflen ?M \<or> 2 > buflen ?M - ?k" using ld_abs_iff(2)[where k = ?k and bl = "buflen ?M"] unfolding M by simp
    show "\<exists>v. load_half ?F True ?k = Inr (Some v)" using r by (simp add: load_half_def EXTRACT_in)
  qed
  have HA: "(if ?k > buflen ?M \<or> 2 > buflen ?M - ?k
     then set_A s (rbind (load_half ?M False ?k) (\<lambda>r. Inr (if buflen ?M \<noteq> 0 then None else case r of None \<Rightarrow> Some 0 | Some w \<Rightarrow> Some w)))
     else set_A s (load_half ?M True ?k)) =
    (if ?k > buflen ?F \<or> 2 > buflen ?F - ?k
     then set_A s (rbind (load_half ?F False ?k) (\<lambda>r. Inr (if buflen ?F \<noteq> 0 then None else case r of None \<Rightarrow> Some 0 | Some w \<Rightarrow> Some w)))
     else set_A s (load_half ?F True ?k))" if c: "code i = BPF_LD + BPF_H + BPF_ABS"
    using H(4)[OF c] unfolding if_P[OF H(3)[OF c]] if_not_P[OF H(2)[OF c]] H(1)[OF c] by (auto simp: M)
  show ?thesis unfolding bpf_load_def Let_def
    by (intro if_cong refl arg_cong[where f = "set_A s"] W B WI HI BI HA arg_cong2[where f = rbind])
qed

lemma bpf_exec_chain:
  assumes "chain_ok ms" and "insn_plain (length (concat ms)) i" and "unat (rX s) \<le> 60"
  shows "bpf_exec w (Mbufs ms) i s = bpf_exec w (Flat (concat ms)) i s"
  unfolding bpf_exec_def bpf_load_chain[OF assms] by (rule refl)

lemma set_A_rX: "set_A s r = Inr (Continue s') \<Longrightarrow> rX s' = rX s"
  by (auto simp: set_A_def rbind_eq_Inr_iff split: option.splits)

lemma msh_small: "unat (push_bit 2 (b AND 0xf) :: u32) \<le> 60"
proof -
  have "(0xf :: u32) = mask 4" by (simp add: mask_eq_exp_minus_1)
  then have m: "unat (b AND 0xf) = unat b mod 16" by (simp only: unat_and_mask) simp
  have "unat (push_bit 2 (b AND 0xf)) = unat (b AND 0xf) * 4 mod 2 ^ 32"
    by (simp add: push_bit_eq_mult unat_word_ariths(2) mult.commute)
  also have "\<dots> \<le> unat (b AND 0xf) * 4" by (rule mod_less_eq_dividend)
  also have "unat b mod 16 < 16" by simp
  then have "unat (b AND 0xf) * 4 \<le> 60" using m by linarith
  finally show ?thesis .
qed

lemma bpf_load_rX:
  assumes "bpf_load w p i s = Inr (Continue s')" and "insn_plain n i"
  shows "rX s' = rX s \<or> unat (rX s') \<le> 60"
proof (cases "code i = BPF_LDX + BPF_MSH + BPF_B")
  case True
  let ?r = "load_byte p (\<not> bk i \<ge> buflen p) (bk i)"
  have "bpf_load w p i s = rbind ?r (\<lambda>v. Inr (case v of None \<Rightarrow> Return 0
      | Some b \<Rightarrow> Continue (s\<lparr>rX := push_bit 2 (b AND 0xf)\<rparr>)))"
    using True by (simp add: bpf_load_def Let_def bpf_codes)
  then have e: "rbind ?r (\<lambda>v. Inr (case v of None \<Rightarrow> Return 0
      | Some b \<Rightarrow> Continue (s\<lparr>rX := push_bit 2 (b AND 0xf)\<rparr>))) = Inr (Continue s')" using assms(1) by (simp only:)
  then obtain v where v: "(case v of None \<Rightarrow> Return 0 | Some b \<Rightarrow> Continue (s\<lparr>rX := push_bit 2 (b AND 0xf)\<rparr>)) = Continue s'"
    unfolding rbind_eq_Inr_iff sum.inject(2) by blast
  obtain b where "s' = s\<lparr>rX := push_bit 2 (b AND 0xf)\<rparr>"
    using v by (cases v) (simp_all only: option.case bpf_out.distinct bpf_out.inject, metis)
  then have "unat (rX s') = unat (push_bit 2 (b AND 0xf))" by (cases s) (simp only: bpf_state.simps)
  then show ?thesis by (metis msh_small)
next
  case False
  have n: "code i \<noteq> BPF_LDX + BPF_IMM" "code i \<noteq> BPF_LDX + BPF_MEM" "code i \<noteq> BPF_LDX + BPF_W + BPF_LEN"
    using assms(2) by (simp_all add: insn_plain_def)
  show ?thesis using assms(1) unfolding bpf_load_def Let_def if_not_P[OF False] if_not_P[OF n(1)] if_not_P[OF n(2)] if_not_P[OF n(3)]
    by (auto simp: rbind_eq_Inr_iff dest!: set_A_rX split: if_split_asm)
qed

lemma other_rX:
  "bpf_store i s = Inr (Continue s') \<Longrightarrow> rX s' = rX s" "bpf_jump i s = Inr (Continue s') \<Longrightarrow> rX s' = rX s"
  "bpf_alu i s = Inr (Continue s') \<Longrightarrow> rX s' = rX s"
  by (auto simp: bpf_store_def bpf_jump_def bpf_alu_def Let_def rbind_eq_Inr_iff split: if_splits)

lemma bpf_exec_rX:
  assumes "bpf_exec w p i s = Inr (Continue s')" and "insn_plain n i" and "unat (rX s) \<le> 60"
  shows "unat (rX s') \<le> 60"
proof -
  have n: "code i \<noteq> BPF_MISC + BPF_TAX" using assms(2) by (simp add: insn_plain_def)
  note e = assms(1)[unfolded bpf_exec_def Let_def if_not_P[OF n]]
  have "rX s' = rX s \<or> unat (rX s') \<le> 60"
  proof (cases "BPF_CLASS (code i) = BPF_LD \<or> BPF_CLASS (code i) = BPF_LDX")
    case True
    then show ?thesis using e bpf_load_rX[OF _ assms(2)] by (simp only: if_True)
  next
    case False
    then show ?thesis using e by (simp only: if_False split: if_split_asm) (auto dest: other_rX)
  qed
  then show ?thesis using assms(3) by auto
qed

lemma bpf_run_chain:
  assumes "chain_ok ms" and "list_all (insn_plain (length (concat ms))) prog"
  shows "unat (rX s) \<le> 60 \<Longrightarrow> bpf_run prog w (Mbufs ms) s = bpf_run prog w (Flat (concat ms)) s"
proof (induction "length prog - pc s" arbitrary: s rule: less_induct)
  case less
  show ?case
  proof (cases "pc s < length prog")
    case False
    then show ?thesis by (subst (1 2) bpf_run.simps) simp
  next
    case True
    let ?i = "prog ! pc s"
    have pl: "insn_plain (length (concat ms)) ?i" using assms(2) True by (simp add: list_all_length)
    note e = bpf_exec_chain[OF assms(1) pl less.prems, of w]
    have "bpf_run prog w (Mbufs ms) (s'\<lparr>pc := Suc (pc s')\<rparr>) = bpf_run prog w (Flat (concat ms)) (s'\<lparr>pc := Suc (pc s')\<rparr>)"
      if "bpf_exec w (Flat (concat ms)) ?i s = Inr (Continue s')" for s'
      by (rule less.hyps) (use bpf_exec_pc[OF that] bpf_exec_rX[OF that pl less.prems] True in auto)
    then have "(case r of Return v \<Rightarrow> Inr v | Continue s' \<Rightarrow> bpf_run prog w (Mbufs ms) (s'\<lparr>pc := Suc (pc s')\<rparr>)) =
        (case r of Return v \<Rightarrow> Inr v | Continue s' \<Rightarrow> bpf_run prog w (Flat (concat ms)) (s'\<lparr>pc := Suc (pc s')\<rparr>))"
      if "bpf_exec w (Flat (concat ms)) ?i s = Inr r" for r using that by (cases r) auto
    then show ?thesis using True e by (subst (1 2) bpf_run.simps) (auto intro: rbind_cong)
  qed
qed

section \<open>Properties\<close>


definition example_filter :: "bpf_insn list" where
  \<comment> \<open>accept IPv4 over Ethernet\<close>
  "example_filter = [\<lparr>code = 0x28, jt = 0, jf = 0, bk = 12\<rparr>, \<lparr>code = 0x15, jt = 0, jf = 1, bk = 0x800\<rparr>,
     \<lparr>code = 0x06, jt = 0, jf = 0, bk = 96\<rparr>, \<lparr>code = 0x06, jt = 0, jf = 0, bk = 0\<rparr>]"

lemma example_filter_validated: "bpf_validate example_filter 4"
  by code_simp




definition half_filter :: "bpf_insn list" where
  "half_filter = [\<lparr>code = 0x28, jt = 0, jf = 0, bk = 100\<rparr>, \<lparr>code = 0x06, jt = 0, jf = 0, bk = 96\<rparr>]"

definition wrap_filter :: "bpf_insn list" where
  "wrap_filter = [\<lparr>code = 0x01, jt = 0, jf = 0, bk = 0xffffffff\<rparr>, \<lparr>code = 0x50, jt = 0, jf = 0, bk = 1\<rparr>,
     \<lparr>code = 0x06, jt = 0, jf = 0, bk = 96\<rparr>]"

text \<open>
  Where the condition of the previous property fails, the verdicts differ: an
  absolute half-word load behind the end of an mbuf chain gives 0 instead of rejecting the
  packet, because its error result is not tested, and an indirect load whose offset wraps
  around 32 bits reads the start of the chain. Both programs are accepted by the validator.
\<close>

theorem bpf_chain_divergence:
  "bpf_validate half_filter 2 \<and> bpf_validate wrap_filter 3 \<and>
   bpf_filter (Some half_filter) (Flat [1, 2, 3, 4]) 4 = Inr 0 \<and>
   bpf_filter (Some half_filter) (Mbufs [[1, 2, 3, 4]]) 4 = Inr 96 \<and>
   bpf_filter (Some wrap_filter) (Flat [1, 2, 3, 4]) 4 = Inr 0 \<and>
   bpf_filter (Some wrap_filter) (Mbufs [[1, 2, 3, 4]]) 4 = Inr 96"
  by (intro conjI; code_simp)

end
