(* ===== verification/Timer.thy ===== *)
theory Timer
  imports Prelude "HOL-Library.Multiset"
begin

text \<open>
  \<open>src/src/timer/time_set.hh\<close>: the timers of the reactor.

  The \<open>std::priority_queue\<close> is the list of its elements together with a function \<open>pick\<close>
  for the position of \<open>top()\<close>: the standard promises an element with the earliest
  timestamp (\<open>operator<\<close> is reversed) and leaves the choice among several open. A callback
  is a value of an arbitrary type; \<open>call\<close> says what running it does to the world and which
  timers it adds, each with the reading of the clock at that moment.
\<close>

section \<open>Timers and their queue\<close>

record 'c timer_obj =
  timestamp :: u64
  tcb :: 'c

type_synonym 'c timer_request = "u64 \<times> u64 \<times> 'c"
type_synonym ('c, 's) callback = "'c \<Rightarrow> 's \<Rightarrow> 's \<times> 'c timer_request list"

definition compute_timestamp :: "u64 \<Rightarrow> u64 \<Rightarrow> u64" where
  "compute_timestamp now_tick delay = delay + now_tick"

definition new_timer :: "'c timer_request \<Rightarrow> 'c timer_obj" where
  "new_timer r = (case r of (now_tick, delay, f) \<Rightarrow> \<lparr>timestamp = compute_timestamp now_tick delay, tcb = f\<rparr>)"

definition timer_less :: "'c timer_obj \<Rightarrow> 'c timer_obj \<Rightarrow> bool" where
  "timer_less a b \<longleftrightarrow> timestamp a > timestamp b"

definition add_timer :: "'c timer_obj list \<Rightarrow> 'c timer_request \<Rightarrow> 'c timer_obj list" where
  "add_timer q r = q @ [new_timer r]"

definition pop_timer :: "nat \<Rightarrow> 'c timer_obj list \<Rightarrow> 'c timer_obj list" where
  "pop_timer i q = take i q @ drop (Suc i) q"

definition nearest_delay :: "('c timer_obj list \<Rightarrow> nat) \<Rightarrow> 'c timer_obj list \<Rightarrow> u64 \<Rightarrow> u64 option" where
  "nearest_delay pick q now =
     (if q = [] then None
      else let tic = timestamp (q ! pick q) in
           if tic \<le> now then Some 0 else Some (tic - now))"

text \<open>
  The loop runs the callback of the earliest timer while it is still in the queue and
  removes the earliest timer afterwards, whichever that is then. It need not end, so it is
  a partial function; beside the queue and the world it returns the timers run.
\<close>

partial_function (option) handle_timeout ::
  "('c timer_obj list \<Rightarrow> nat) \<Rightarrow> ('c, 's) callback \<Rightarrow> u64 \<Rightarrow> 'c timer_obj list \<Rightarrow> 's \<Rightarrow>
   ('c timer_obj list \<times> 's \<times> 'c timer_obj list) option" where
  "handle_timeout pick call now q s =
     (if q = [] then Some (q, s, [])
      else let t = q ! pick q in
           if timestamp t > now then Some (q, s, [])
           else let (s', rs) = call (tcb t) s;
                    q' = foldl add_timer q rs in
                Option.bind (handle_timeout pick call now (pop_timer (pick q') q') s')
                  (\<lambda>(q2, s2, ts). Some (q2, s2, t # ts)))"

declare handle_timeout.simps [code]

section \<open>What the priority queue promises\<close>

definition pick_ok :: "('c timer_obj list \<Rightarrow> nat) \<Rightarrow> bool" where
  "pick_ok pick \<longleftrightarrow>
     (\<forall>q. q \<noteq> [] \<longrightarrow> pick q < length q \<and> (\<forall>t \<in> set q. \<not> timer_less (q ! pick q) t))"

text \<open>Adding an element that does not come first leaves the first one where it is, as
  \<open>std::push_heap\<close> does.\<close>

definition pick_stable :: "('c timer_obj list \<Rightarrow> nat) \<Rightarrow> bool" where
  "pick_stable pick \<longleftrightarrow>
     (\<forall>q t. q \<noteq> [] \<longrightarrow> \<not> timer_less (q ! pick q) t \<longrightarrow> pick (q @ [t]) = pick q)"

lemma pick_okD:
  assumes "pick_ok pick" and "q \<noteq> []"
  shows "pick q < length q" and "t \<in> set q \<Longrightarrow> timestamp (q ! pick q) \<le> timestamp t"
  using assms by (auto simp: pick_ok_def timer_less_def not_less)

lemma foldl_add_timer: "foldl add_timer q rs = q @ map new_timer rs"
  by (induction rs arbitrary: q) (simp_all add: add_timer_def)

lemma mset_pop_timer: "i < length q \<Longrightarrow> mset q = add_mset (q ! i) (mset (pop_timer i q))"
  unfolding pop_timer_def using id_take_nth_drop[of i q]
  by (metis mset.simps(2) mset_append union_mset_add_mset_right)

lemma filter_mset_all: "\<forall>x \<in># M. P x \<Longrightarrow> filter_mset P M = M"
  by (induction M) auto

text \<open>The effect of a sequence of callbacks.\<close>

fun run_calls :: "('c, 's) callback \<Rightarrow> 'c timer_obj list \<Rightarrow> 's \<Rightarrow> 's \<times> 'c timer_request list" where
  "run_calls call [] s = (s, [])"
| "run_calls call (t # ts) s =
     (let (s1, rs) = call (tcb t) s; (s2, rs') = run_calls call ts s1 in (s2, rs @ rs'))"

text \<open>A clock that does not run backwards and delays of at least one millisecond.\<close>

definition request_later :: "u64 \<Rightarrow> 'c timer_request \<Rightarrow> bool" where
  "request_later now r \<longleftrightarrow>
     (case r of (now_tick, delay, f) \<Rightarrow> now \<le> now_tick \<and> 0 < delay \<and> unat delay + unat now_tick < 2 ^ 64)"

definition calls_later :: "u64 \<Rightarrow> ('c, 's) callback \<Rightarrow> bool" where
  "calls_later now call \<longleftrightarrow> (\<forall>c s. list_all (request_later now) (snd (call c s)))"

lemma request_later_timestamp: "request_later now r \<Longrightarrow> now < timestamp (new_timer r)"
  by (cases r) (auto simp: request_later_def new_timer_def compute_timestamp_def word_less_nat_alt
      word_le_nat_alt unat_word_ariths(1))

lemma calls_laterD:
  assumes "calls_later now call" and "call c s = (s', rs)" and "t \<in> set (map new_timer rs)"
  shows "now < timestamp t"
proof -
  have "list_all (request_later now) rs" using assms(1,2) by (metis calls_later_def snd_conv)
  then show ?thesis using assms(3) by (auto simp: list_all_iff intro: request_later_timestamp)
qed

lemma run_calls_later:
  assumes "calls_later now call" and "run_calls call ts s = (s', rs)" and "t \<in> set (map new_timer rs)"
  shows "now < timestamp t"
  using assms
proof (induction call ts s arbitrary: s' rs rule: run_calls.induct)
  case (2 call u ts s)
  obtain s1 rs1 s2 rs2 where e: "call (tcb u) s = (s1, rs1)" "run_calls call ts s1 = (s2, rs2)"
    by (metis surj_pair)
  then have "rs = rs1 @ rs2" using 2(3) by simp
  then consider "t \<in> set (map new_timer rs1)" | "t \<in> set (map new_timer rs2)" using 2(4) by auto
  then show ?case
  proof cases
    case 1
    then show ?thesis by (rule calls_laterD[OF 2(2) e(1)])
  next
    case 2
    then show ?thesis by (rule "2.IH"[OF e(1)[symmetric] refl "2.prems"(1) e(2)])
  qed
qed simp

section \<open>Correctness of one round\<close>

definition due :: "u64 \<Rightarrow> 'c timer_obj \<Rightarrow> bool" where
  "due now t \<longleftrightarrow> timestamp t \<le> now"

lemma pick_append:
  assumes "pick_ok pick" and "pick_stable pick" and "q \<noteq> []" and "due now (q ! pick q)"
    and "\<And>t. t \<in> set new \<Longrightarrow> now < timestamp t"
  shows "pick (q @ new) = pick q"
  using assms(5)
proof (induction new rule: rev_induct)
  case (snoc t new)
  let ?q = "q @ new"
  have same: "pick ?q = pick q" using snoc by simp
  have lt: "pick q < length q" using pick_okD(1)[OF assms(1,3)] .
  then have "?q ! pick ?q = q ! pick q" using same by (simp add: nth_append)
  moreover have "now < timestamp t" using snoc.prems by simp
  ultimately have "\<not> timer_less (?q ! pick ?q) t" using assms(4) unfolding timer_less_def due_def by auto
  then have "pick (?q @ [t]) = pick ?q" using assms(2,3) unfolding pick_stable_def by (metis append_is_Nil_conv)
  then show ?case using same by simp
qed simp

text \<open>One iteration of the loop: the timer that ran is the one that is removed.\<close>

lemma handle_timeout_step:
  assumes "pick_ok pick" and "pick_stable pick" and "calls_later now call"
    and "q \<noteq> []" and "due now (q ! pick q)" and "call (tcb (q ! pick q)) s = (s', rs)"
  shows "handle_timeout pick call now q s =
     Option.bind (handle_timeout pick call now (pop_timer (pick q) q @ map new_timer rs) s')
       (\<lambda>(q2, s2, ts). Some (q2, s2, q ! pick q # ts))"
proof -
  have p: "pick q < length q" using pick_okD(1)[OF assms(1,4)] .
  have "pick (q @ map new_timer rs) = pick q"
    by (rule pick_append[OF assms(1,2,4,5)]) (rule calls_laterD[OF assms(3,6)])
  moreover have "pop_timer (pick q) (q @ map new_timer rs) = pop_timer (pick q) q @ map new_timer rs"
    using p by (simp add: pop_timer_def)
  moreover have "\<not> now < timestamp (q ! pick q)" using assms(5) by (simp add: due_def)
  ultimately show ?thesis using assms(4,6) by (subst handle_timeout.simps) (simp add: Let_def foldl_add_timer)
qed

lemma handle_timeout_stop:
  "q = [] \<or> \<not> due now (q ! pick q) \<Longrightarrow> handle_timeout pick call now q s = Some (q, s, [])"
  by (subst handle_timeout.simps) (auto simp: due_def not_le)

lemma none_due:
  assumes "pick_ok pick" and "q = [] \<or> \<not> due now (q ! pick q)"
  shows "\<forall>t \<in> set q. \<not> due now t"
  using assms pick_okD[OF assms(1), of q] unfolding due_def by (metis empty_iff empty_set order_trans)

lemma handle_timeout_spec:
  assumes "pick_ok pick" and "pick_stable pick" and "calls_later now call"
  shows "\<exists>q' s' ts rs. handle_timeout pick call now q s = Some (q', s', ts) \<and>
     mset ts = filter_mset (due now) (mset q) \<and> sorted (map timestamp ts) \<and>
     run_calls call ts s = (s', rs) \<and>
     mset q' = filter_mset (\<lambda>t. \<not> due now t) (mset q) + mset (map new_timer rs)"
proof (induction "size (filter_mset (due now) (mset q))" arbitrary: q s rule: less_induct)
  case less
  show ?case
  proof (cases "q = [] \<or> \<not> due now (q ! pick q)")
    case True
    then have "\<forall>t \<in> set q. \<not> due now t" by (rule none_due[OF assms(1)])
    then have "filter_mset (due now) (mset q) = {#}" "filter_mset (\<lambda>t. \<not> due now t) (mset q) = mset q"
      by (simp_all add: filter_mset_all)
    then show ?thesis using handle_timeout_stop[where pick = pick and call = call and s = s, OF True] by auto
  next
    case False
    let ?t = "q ! pick q" and ?p = "pop_timer (pick q) q"
    obtain s1 rs1 where c: "call (tcb ?t) s = (s1, rs1)" by (cases "call (tcb ?t) s")
    let ?q = "?p @ map new_timer rs1"
    have p: "pick q < length q" "\<And>t. t \<in> set q \<Longrightarrow> timestamp ?t \<le> timestamp t"
      using pick_okD[OF assms(1)] False by blast+
    have m: "mset q = add_mset ?t (mset ?p)" by (rule mset_pop_timer[OF p(1)])
    have later: "filter_mset (due now) (mset (map new_timer rs1)) = {#}"
      "filter_mset (\<lambda>t. \<not> due now t) (mset (map new_timer rs1)) = mset (map new_timer rs1)"
      using calls_laterD[OF assms(3) c] unfolding due_def by (auto simp: not_le intro!: filter_mset_all)
    have f: "filter_mset (due now) (mset q) = add_mset ?t (filter_mset (due now) (mset ?q))"
      using False later(1) by (simp add: m)
    obtain q' s' ts rs where ih: "handle_timeout pick call now ?q s1 = Some (q', s', ts)"
      "mset ts = filter_mset (due now) (mset ?q)" "sorted (map timestamp ts)" "run_calls call ts s1 = (s', rs)"
      "mset q' = filter_mset (\<lambda>t. \<not> due now t) (mset ?q) + mset (map new_timer rs)"
      using less.hyps[of ?q s1] f by (metis lessI size_add_mset)
    have run: "handle_timeout pick call now q s = Some (q', s', ?t # ts)"
      using handle_timeout_step[OF assms _ _ c] False ih(1) by simp
    have ms: "mset (?t # ts) = filter_mset (due now) (mset q)" using f ih(2) by simp
    have "set ts \<subseteq> set q" using arg_cong[OF ms, of set_mset] by auto
    then have so: "sorted (map timestamp (?t # ts))" using p(2) ih(3) by auto
    have rc: "run_calls call (?t # ts) s = (s', rs1 @ rs)" using c ih(4) by simp
    have mq: "mset q' = filter_mset (\<lambda>t. \<not> due now t) (mset q) + mset (map new_timer (rs1 @ rs))"
      using ih(5) later(2) False by (simp add: m)
    show ?thesis using run ms so rc mq by blast
  qed
qed

section \<open>Properties\<close>


text \<open>A queue whose top is the first of the earliest timers.\<close>

fun first_min :: "'c timer_obj list \<Rightarrow> nat" where
  "first_min [] = 0"
| "first_min [t] = 0"
| "first_min (t # u # ts) =
     (let i = first_min (u # ts) in if timestamp ((u # ts) ! i) < timestamp t then Suc i else 0)"

lemma first_min_le: "q \<noteq> [] \<Longrightarrow> first_min q < length q \<and> (\<forall>t \<in> set q. timestamp (q ! first_min q) \<le> timestamp t)"
  by (induction q rule: first_min.induct) (auto simp: Let_def not_less)

lemma first_min_append:
  "q \<noteq> [] \<Longrightarrow> timestamp (q ! first_min q) \<le> timestamp t \<Longrightarrow> first_min (q @ [t]) = first_min q"
proof (induction q rule: first_min.induct)
  case (3 a b ts)
  let ?r = "b # ts"
  have r: "first_min ?r < length ?r" using first_min_le[of ?r] by simp
  show ?case
  proof (cases "timestamp (?r ! first_min ?r) \<le> timestamp t")
    case True
    then have "first_min (?r @ [t]) = first_min ?r" using 3 by simp
    moreover from r have "(?r @ [t]) ! first_min ?r = ?r ! first_min ?r" by (rule nth_append_take)
    ultimately show ?thesis by (simp add: Let_def)
  next
    case False
    then have a: "timestamp a \<le> timestamp t" "\<not> timestamp (?r ! first_min ?r) < timestamp a"
      using 3(3) by (auto simp: Let_def split: if_splits)
    have "timestamp a \<le> timestamp u" if "u \<in> set (?r @ [t])" for u
      using that first_min_le[of ?r] a by (auto intro: order_trans simp: not_less)
    moreover have "(?r @ [t]) ! first_min (?r @ [t]) \<in> set (?r @ [t])"
      using first_min_le[of "?r @ [t]"] by (intro nth_mem) blast
    ultimately have "\<not> timestamp ((?r @ [t]) ! first_min (?r @ [t])) < timestamp a" by (auto simp: not_less)
    then show ?thesis using a(2) by (simp add: Let_def)
  qed
qed auto

lemma first_min_ok: "pick_ok first_min" "pick_stable first_min"
  using first_min_le first_min_append
  by (auto simp: pick_ok_def pick_stable_def timer_less_def not_less)

text \<open>A callback that starts its timer again, five milliseconds later.\<close>

definition restart :: "(nat, nat list) callback" where
  "restart c s = (s @ [c], [(100, 5, c)])"


text \<open>The condition on the clock is needed: a callback that adds a timer with an earlier
  timestamp than its own makes \<open>pop\<close> remove the new timer, which never runs, and is run a
  second time itself.\<close>

definition backward :: "(nat, nat) callback" where
  "backward c s = (Suc s, if s = 0 then [(45, 5, 8)] else [])"

lemma timer_backward_clock_loses_timer:
  "handle_timeout first_min backward 100 [\<lparr>timestamp = 100, tcb = 7\<rparr>] 0 =
   Some ([], 2, [\<lparr>timestamp = 100, tcb = 7\<rparr>, \<lparr>timestamp = 100, tcb = 7\<rparr>])"
  by code_simp

end
