(* ===== verification/Reactor.thy ===== *)
theory Reactor
  imports Timer
begin

text \<open>
  \<open>src/src/reactor/flow.hh\<close>, \<open>src/src/reactor/schedule.hh\<close> and the loop of
  \<open>src/src/epoll/task_proc.hh\<close>: flows, the runners that execute them and the task queue.

  A flow is an entry of a table, its id stands for the shared pointer. Its action is a user
  function with the id of the next flow, or the lambda that \<open>assemble_act_func_\<close> attaches
  to a flow a user function returned. The nesting of calls on an immediate runner is an
  explicit list of operations still to do; what is queued at the task center is a list of
  the same operations. User functions are arbitrary functions on the argument and a world.
\<close>

section \<open>The task center\<close>

text \<open>\<open>exec\<close> is what a task does to the world, whether or not it ends with an exception, and
  the tasks it schedules; the task is removed after it has run.\<close>

definition schedule :: "'t list \<Rightarrow> 't \<Rightarrow> 't list" where
  "schedule waiting_tasks f = waiting_tasks @ [f]"

fun center_loop :: "('t \<Rightarrow> 's \<Rightarrow> 's \<times> 't list) \<Rightarrow> nat \<Rightarrow> 't list \<Rightarrow> 's \<Rightarrow> 't list \<times> 's" where
  "center_loop exec 0 waiting s = (waiting, s)"
| "center_loop exec (Suc len) [] s = ([], s)"
| "center_loop exec (Suc len) (t # waiting) s =
     (let (s', new) = exec t s in center_loop exec len (tl (foldl schedule (t # waiting) new)) s')"

definition center_run :: "('t \<Rightarrow> 's \<Rightarrow> 's \<times> 't list) \<Rightarrow> 't list \<Rightarrow> 's \<Rightarrow> 't list \<times> 's" where
  "center_run exec waiting s =
     center_loop exec (nat (sint (of_nat (length waiting) :: 32 word))) waiting s"

fun run_tasks :: "('t \<Rightarrow> 's \<Rightarrow> 's \<times> 't list) \<Rightarrow> 't list \<Rightarrow> 's \<Rightarrow> 's \<times> 't list" where
  "run_tasks exec [] s = (s, [])"
| "run_tasks exec (t # ts) s = (let (s1, a) = exec t s; (s2, b) = run_tasks exec ts s1 in (s2, a @ b))"

lemma foldl_schedule: "foldl schedule ts new = ts @ new"
  by (induction new arbitrary: ts) (simp_all add: schedule_def)

lemma center_loop_prefix:
  "center_loop exec (length ts) (ts @ later) s = (later @ snd (run_tasks exec ts s), fst (run_tasks exec ts s))"
proof (induction ts arbitrary: later s)
  case (Cons t ts)
  obtain s' new where e: "exec t s = (s', new)" by (cases "exec t s")
  then show ?case using Cons[of "later @ new" s'] by (simp add: foldl_schedule split_beta)
qed simp

section \<open>The main loop\<close>

text \<open>One round of \<open>run_at\<close> up to the call of \<open>wait_event\<close>: the argument of that call, the
  timers, the tasks and the world. The callbacks of timers see the task queue, tasks see
  the timers. \<open>now1\<close> and \<open>now2\<close> are the two readings of the clock; the delay is cast
  from 64 bits to \<open>int\<close>.\<close>

definition proc_round ::
  "('c timer_obj list \<Rightarrow> nat) \<Rightarrow> ('c, 't list \<times> 'w) callback \<Rightarrow>
   ('t \<Rightarrow> 'c timer_obj list \<times> 'w \<Rightarrow> ('c timer_obj list \<times> 'w) \<times> 't list) \<Rightarrow> u64 \<Rightarrow> u64 \<Rightarrow>
   'c timer_obj list \<Rightarrow> 't list \<Rightarrow> 'w \<Rightarrow> (int \<times> 'c timer_obj list \<times> 't list \<times> 'w) option" where
  "proc_round pick call exec now1 now2 q tasks w =
     Option.bind (handle_timeout pick call now1 q (tasks, w)) (\<lambda>(q1, (tasks1, w1), _).
       let wait = (case nearest_delay pick q1 now2 of None \<Rightarrow> - 1 | Some d \<Rightarrow> sint (ucast d :: 32 word));
           (tasks2, (q2, w2)) = center_run exec tasks1 (q1, w1);
           wait_timer = (if tasks2 \<noteq> [] then 0 else wait)
       in Some (wait_timer, q2, tasks2, w2))"

lemma center_run_all:
  assumes "length ts < 2 ^ 31"
  shows "center_run exec ts s = (snd (run_tasks exec ts s), fst (run_tasks exec ts s))"
proof -
  have "sint (of_nat (length ts) :: 32 word) = int (length ts)" by (rule sint_of_nat_small) (use assms in simp)
  then show ?thesis using center_loop_prefix[of exec ts "[]" s] by (simp add: center_run_def)
qed

section \<open>Flows\<close>

type_synonym flow_id = nat

datatype 'v flow_arg = Monostate | Exception_ptr string | Arg 'v

definition forward_flow_monostate_exception :: "bool \<Rightarrow> 'v flow_arg \<Rightarrow> unit res" where
  \<comment> \<open>\<open>has_arg\<close>: the flow carries a value\<close>
  "forward_flow_monostate_exception has_arg v =
     (case v of Monostate \<Rightarrow> if has_arg then Inl (Throw ''monostate'') else Inr ()
      | Exception_ptr e \<Rightarrow> Inl (Throw e)
      | Arg a \<Rightarrow> Inr ())"

datatype flow_runner = Immediate_runner | Global_task_center

text \<open>How a flow builder is submitted: on a runner (\<open>at_schedule(_schedule_at_)\<close>), with a value
  at hand (\<open>make_imme_flow\<close>), or by handing the flow to somebody who will trigger it
  (\<open>at_schedule(_submit_at_, ...)\<close>).\<close>

datatype 'v submit_at = On_runner flow_runner | Imme 'v | At_event nat

datatype ('v, 's) outcome =
    Void | Result 'v | Raise string
  | Builder flow_runner "'v submit_at" "('v flow_arg \<Rightarrow> 's \<Rightarrow> 's \<times> ('v, 's) outcome) list"

type_synonym ('v, 's) func = "'v flow_arg \<Rightarrow> 's \<Rightarrow> 's \<times> ('v, 's) outcome"

datatype ('v, 's) act = User "('v, 's) func" flow_id | Forward flow_id flow_id

record ('v, 's) flow_implent =
  called :: bool
  act_func :: "('v, 's) act option"
  runner :: flow_runner
  fvalue :: "'v flow_arg"

datatype 'v flow_op = Active flow_id "'v flow_arg" | Trigge flow_id "'v flow_arg" | Run_act flow_id

record ('v, 's) reactor =
  flows :: "('v, 's) flow_implent list"
  todo :: "'v flow_op list"
  tasks :: "'v flow_op list"
  waiting :: "(nat \<times> flow_id) list"
  world :: 's
  trace :: "flow_id list" \<comment> \<open>the flows whose action has run\<close>

definition new_flow :: "flow_runner \<Rightarrow> ('v, 's) flow_implent" where
  "new_flow r = \<lparr>called = False, act_func = None, runner = r, fvalue = Monostate\<rparr>"

definition runner_schedule :: "flow_runner \<Rightarrow> 'v flow_op \<Rightarrow> ('v, 's) reactor \<Rightarrow> ('v, 's) reactor" where
  "runner_schedule r op st =
     (case r of Immediate_runner \<Rightarrow> st\<lparr>todo := op # todo st\<rparr>
      | Global_task_center \<Rightarrow> st\<lparr>tasks := schedule (tasks st) op\<rparr>)"

definition active_impl :: "flow_id \<Rightarrow> ('v, 's) reactor \<Rightarrow> ('v, 's) reactor" where
  "active_impl i st = runner_schedule (runner (flows st ! i)) (Run_act i) st"

definition trigge :: "flow_id \<Rightarrow> 'v flow_arg \<Rightarrow> ('v, 's) reactor \<Rightarrow> ('v, 's) reactor" where
  "trigge i arg st =
     (let fl = flows st ! i in
      if called fl then st
      else let st' = st\<lparr>flows := (flows st)[i := fl\<lparr>called := True\<rparr>]\<rparr> in
           if act_func fl = None then st'
           else active_impl i (st'\<lparr>flows := (flows st)[i := fl\<lparr>called := True, fvalue := arg\<rparr>]\<rparr>))"

definition active :: "flow_id \<Rightarrow> 'v flow_arg \<Rightarrow> ('v, 's) reactor \<Rightarrow> ('v, 's) reactor" where
  "active i arg st =
     (let fl = flows st ! i in
      if called fl then st
      else let st' = st\<lparr>flows := (flows st)[i := fl\<lparr>called := True\<rparr>]\<rparr> in
           if act_func fl = None then st'
           else active_impl i (st'\<lparr>flows := (flows st)[i := fl\<lparr>called := True, fvalue := arg\<rparr>]\<rparr>))"

text \<open>\<open>then\<close>: a new flow behind the flow \<open>i\<close> of a builder; \<open>then_all\<close> chains several and
  gives the last one.\<close>

definition then_flow :: "flow_runner \<Rightarrow> flow_id \<Rightarrow> (flow_id \<Rightarrow> ('v, 's) act) \<Rightarrow> ('v, 's) reactor \<Rightarrow> flow_id \<times> ('v, 's) reactor" where
  "then_flow r i act st =
     (let n = length (flows st) in
      (n, st\<lparr>flows := (flows st)[i := (flows st ! i)\<lparr>act_func := Some (act n), runner := r\<rparr>] @ [new_flow r]\<rparr>))"

fun then_all :: "flow_runner \<Rightarrow> flow_id \<Rightarrow> ('v, 's) func list \<Rightarrow> ('v, 's) reactor \<Rightarrow> flow_id \<times> ('v, 's) reactor" where
  "then_all r i [] st = (i, st)"
| "then_all r i (f # fs) st = (let (n, st') = then_flow r i (User f) st in then_all r n fs st')"

definition alloc_flow :: "flow_runner \<Rightarrow> ('v, 's) reactor \<Rightarrow> flow_id \<times> ('v, 's) reactor" where
  "alloc_flow r st = (length (flows st), st\<lparr>flows := flows st @ [new_flow r]\<rparr>)"

definition submit :: "'v submit_at \<Rightarrow> flow_id \<Rightarrow> ('v, 's) reactor \<Rightarrow> ('v, 's) reactor" where
  "submit src i st =
     (case src of On_runner r \<Rightarrow> runner_schedule r (Trigge i Monostate) st
      | Imme a \<Rightarrow> runner_schedule Immediate_runner (Trigge i (Arg a)) st
      | At_event k \<Rightarrow> st\<lparr>waiting := waiting st @ [(k, i)]\<rparr>)"

definition submit_flow :: "flow_runner \<Rightarrow> 'v submit_at \<Rightarrow> ('v, 's) func list \<Rightarrow> ('v, 's) reactor \<Rightarrow> ('v, 's) reactor" where
  "submit_flow r src fs st =
     (let (i, st1) = alloc_flow r st; (l, st2) = then_all r i fs st1 in submit src i st2)"

text \<open>\<open>assemble_act_func_\<close>: the call of the action of a flow.\<close>

definition run_act :: "flow_id \<Rightarrow> ('v, 's) reactor \<Rightarrow> ('v, 's) reactor" where
  "run_act i st =
     (let fl = flows st ! i; st = st\<lparr>trace := trace st @ [i]\<rparr> in
      case act_func fl of
        None \<Rightarrow> st
      | Some (Forward target n) \<Rightarrow> st\<lparr>todo := Trigge target (fvalue fl) # Active n Monostate # todo st\<rparr>
      | Some (User f n) \<Rightarrow>
          (let (w, out) = f (fvalue fl) (world st); st1 = st\<lparr>world := w\<rparr> in
           case out of
             Void \<Rightarrow> st1\<lparr>todo := Active n Monostate # todo st1\<rparr>
           | Result v \<Rightarrow> st1\<lparr>todo := Active n (Arg v) # todo st1\<rparr>
           | Raise e \<Rightarrow> st1\<lparr>todo := Active n (Exception_ptr e) # todo st1\<rparr>
           | Builder r src fs \<Rightarrow>
               (let (h, st2) = alloc_flow r st1; (l, st3) = then_all r h fs st2;
                    (e, st4) = then_flow r l (Forward n) st3 in submit src h st4)))"

definition flow_step :: "('v, 's) reactor \<Rightarrow> ('v, 's) reactor" where
  "flow_step st =
     (case todo st of
        [] \<Rightarrow> st
      | Active i a # rest \<Rightarrow> active i a (st\<lparr>todo := rest\<rparr>)
      | Trigge i a # rest \<Rightarrow> trigge i a (st\<lparr>todo := rest\<rparr>)
      | Run_act i # rest \<Rightarrow> run_act i (st\<lparr>todo := rest\<rparr>))"

text \<open>Everything that can happen: a new flow is submitted, the operation at hand is done, the
  task center takes its next task, or somebody triggers a flow it was given (a received
  packet, a timer).\<close>

inductive reachable :: "('v, 's) reactor \<Rightarrow> ('v, 's) reactor \<Rightarrow> bool" for st0 where
  start: "reachable st0 st0"
| new: "reachable st0 st \<Longrightarrow> reachable st0 (submit_flow r src fs st)"
| step: "reachable st0 st \<Longrightarrow> reachable st0 (flow_step st)"
| task: "reachable st0 st \<Longrightarrow> todo st = [] \<Longrightarrow> tasks st = t # ts \<Longrightarrow> reachable st0 (st\<lparr>todo := [t], tasks := ts\<rparr>)"
| event: "reachable st0 st \<Longrightarrow> todo st = [] \<Longrightarrow> (k, i) \<in> set (waiting st) \<Longrightarrow> reachable st0 (st\<lparr>todo := [Trigge i a]\<rparr>)"

definition empty_reactor :: "'s \<Rightarrow> ('v, 's) reactor" where
  "empty_reactor w = \<lparr>flows = [], todo = [], tasks = [], waiting = [], world = w, trace = []\<rparr>"

section \<open>Every action runs at most once\<close>

fun op_id :: "'v flow_op \<Rightarrow> flow_id" where
  "op_id (Active i a) = i"
| "op_id (Trigge i a) = i"
| "op_id (Run_act i) = i"

fun act_ids :: "('v, 's) act option \<Rightarrow> flow_id list" where
  "act_ids None = []"
| "act_ids (Some (User f n)) = [n]"
| "act_ids (Some (Forward i n)) = [i, n]"

definition pend :: "flow_id \<Rightarrow> 'v flow_op list \<Rightarrow> nat" where
  "pend i ops = length (filter (\<lambda>op. op = Run_act i) ops)"

definition uses :: "('v, 's) reactor \<Rightarrow> flow_id \<Rightarrow> nat" where
  "uses st i = pend i (todo st) + pend i (tasks st) + count_list (trace st) i"

definition is_called :: "('v, 's) reactor \<Rightarrow> flow_id \<Rightarrow> bool" where
  "is_called st i \<longleftrightarrow> i < length (flows st) \<and> called (flows st ! i)"

definition acts_ok :: "nat \<Rightarrow> ('v, 's) flow_implent list \<Rightarrow> bool" where
  "acts_ok n fls \<longleftrightarrow> list_all (\<lambda>fl. list_all (\<lambda>i. i < n) (act_ids (act_func fl))) fls"

definition ids_ok :: "('v, 's) reactor \<Rightarrow> bool" where
  "ids_ok st \<longleftrightarrow>
     list_all (\<lambda>op. op_id op < length (flows st)) (todo st @ tasks st) \<and>
     list_all (\<lambda>x. snd x < length (flows st)) (waiting st) \<and> acts_ok (length (flows st)) (flows st)"

definition flow_inv :: "('v, 's) reactor \<Rightarrow> bool" where
  "flow_inv st \<longleftrightarrow> ids_ok st \<and> (\<forall>i. uses st i \<le> (if is_called st i then 1 else 0))"

lemma pend_simps [simp]:
  "pend i [] = 0" "pend i (op # ops) = (if op = Run_act i then 1 else 0) + pend i ops"
  "pend i (a @ b) = pend i a + pend i b"
  by (simp_all add: pend_def)

lemma distinct_count_list: "(\<And>i. count_list xs i \<le> 1) \<Longrightarrow> distinct xs"
proof (induction xs)
  case (Cons x xs)
  have "count_list xs x = 0" using Cons.prems[of x] by simp
  moreover have "count_list xs i \<le> 1" for i using Cons.prems[of i] by (auto split: if_splits)
  ultimately show ?case using Cons.IH by (simp add: count_list_0_iff)
qed simp

lemma count_list_gr_0: "i \<in> set xs \<Longrightarrow> 0 < count_list xs i"
  by (induction xs) auto

lemma flow_invI:
  "ids_ok st \<Longrightarrow> (\<And>i. uses st i \<le> (if is_called st i then 1 else 0)) \<Longrightarrow> flow_inv st"
  by (simp add: flow_inv_def)

lemma runner_schedule_simps [simp]:
  "flows (runner_schedule r op st) = flows st" "waiting (runner_schedule r op st) = waiting st"
  "trace (runner_schedule r op st) = trace st" "world (runner_schedule r op st) = world st"
  by (simp_all add: runner_schedule_def split: flow_runner.splits)

lemma runner_schedule_ids: "ids_ok (runner_schedule r op st) \<longleftrightarrow> ids_ok st \<and> op_id op < length (flows st)"
  by (auto simp: runner_schedule_def ids_ok_def schedule_def split: flow_runner.splits)

lemma runner_schedule_uses:
  "uses (runner_schedule r op st) i = uses st i + (if op = Run_act i then 1 else 0)"
  by (auto simp: runner_schedule_def uses_def schedule_def split: flow_runner.splits)

lemma runner_schedule_called [simp]: "is_called (runner_schedule r op st) i = is_called st i"
  by (simp add: is_called_def)

lemma runner_schedule_inv:
  "flow_inv st \<Longrightarrow> op_id op < length (flows st) \<Longrightarrow> \<forall>i. op \<noteq> Run_act i \<Longrightarrow> flow_inv (runner_schedule r op st)"
  by (simp add: flow_inv_def runner_schedule_ids runner_schedule_uses)

lemma active_eq_trigge: "active = trigge"
  by (intro ext) (simp add: active_def trigge_def)

text \<open>Changes of the table that forget no call keep the invariant.\<close>

lemma acts_ok_simps [simp]:
  "acts_ok n []" "acts_ok n (fl # fls) \<longleftrightarrow> list_all (\<lambda>i. i < n) (act_ids (act_func fl)) \<and> acts_ok n fls"
  "acts_ok n (a @ b) \<longleftrightarrow> acts_ok n a \<and> acts_ok n b"
  by (simp_all add: acts_ok_def)

lemma acts_ok_mono: "acts_ok n fls \<Longrightarrow> n \<le> m \<Longrightarrow> acts_ok m fls"
  by (auto simp: acts_ok_def list_all_iff intro: less_le_trans)

lemma acts_ok_update:
  "acts_ok n fls \<Longrightarrow> list_all (\<lambda>i. i < n) (act_ids (act_func fl)) \<Longrightarrow> acts_ok n (fls[i := fl])"
  unfolding acts_ok_def list_all_iff using set_update_subset_insert[of fls i fl] by blast

lemma acts_ok_nth: "acts_ok n fls \<Longrightarrow> i < length fls \<Longrightarrow> list_all (\<lambda>i. i < n) (act_ids (act_func (fls ! i)))"
  by (simp add: acts_ok_def list_all_length)

lemma list_all_less_mono: "list_all (\<lambda>x. g x < n) xs \<Longrightarrow> n \<le> m \<Longrightarrow> list_all (\<lambda>x. g x < m) xs" for n :: nat
  by (auto simp: list_all_iff intro: less_le_trans)

lemma flow_inv_flows:
  assumes "flow_inv st" and "todo st' = todo st" "tasks st' = tasks st" "waiting st' = waiting st" "trace st' = trace st"
    and "length (flows st) \<le> length (flows st')" and "\<And>i. is_called st i \<Longrightarrow> is_called st' i"
    and "acts_ok (length (flows st')) (flows st')"
  shows "flow_inv st'"
proof (rule flow_invI)
  have "ids_ok st" using assms(1) by (simp add: flow_inv_def)
  then show "ids_ok st'" using assms(2-6,8) list_all_less_mono[OF _ assms(6), of op_id] list_all_less_mono[OF _ assms(6), of snd]
    unfolding ids_ok_def by auto
  fix i
  have "uses st' i = uses st i" by (simp add: uses_def assms(2-5))
  moreover have "uses st i \<le> (if is_called st i then 1 else 0)" using assms(1) by (simp add: flow_inv_def)
  moreover have "\<dots> \<le> (if is_called st' i then 1 else (0 :: nat))" using assms(7)[of i] by simp
  ultimately show "uses st' i \<le> (if is_called st' i then 1 else 0)" by linarith
qed

lemma flow_inv_acts: "flow_inv st \<Longrightarrow> acts_ok (length (flows st)) (flows st)"
  by (simp add: flow_inv_def ids_ok_def)

lemma mark_called:
  assumes "flow_inv st" and "i < length (flows st)" and "act_func fl' = act_func (flows st ! i)" and "called fl'"
  defines "st' \<equiv> st\<lparr>flows := (flows st)[i := fl']\<rparr>"
  shows "flow_inv st'" and "uses st' j = uses st j" and "is_called st' j = (is_called st j \<or> j = i)"
    and "length (flows st') = length (flows st)"
proof -
  show c: "is_called st' j = (is_called st j \<or> j = i)" for j
    using assms(2,4) by (auto simp: is_called_def st'_def nth_list_update)
  show u: "uses st' j = uses st j" for j by (simp add: uses_def st'_def)
  show l: "length (flows st') = length (flows st)" by (simp add: st'_def)
  have a: "acts_ok (length (flows st)) (flows st')"
    using acts_ok_update[OF flow_inv_acts[OF assms(1)]] acts_ok_nth[OF flow_inv_acts[OF assms(1)] assms(2)] assms(3)
    by (simp add: st'_def)
  show "flow_inv st'"
    by (rule flow_inv_flows[OF assms(1)]) (use a c l in \<open>simp_all add: st'_def\<close>)
qed

lemma trigge_inv:
  assumes "flow_inv st" and "i < length (flows st)"
  shows "flow_inv (trigge i arg st)" and "length (flows (trigge i arg st)) = length (flows st)"
proof -
  let ?fl = "flows st ! i"
  have "flow_inv (trigge i arg st) \<and> length (flows (trigge i arg st)) = length (flows st)"
  proof (cases "called ?fl \<or> act_func ?fl = None")
    case True
    then show ?thesis using assms mark_called(1)[OF assms, of "?fl\<lparr>called := True\<rparr>"] by (auto simp: trigge_def Let_def)
  next
    case False
    let ?st = "st\<lparr>flows := (flows st)[i := ?fl\<lparr>called := True, fvalue := arg\<rparr>]\<rparr>"
    note m = mark_called[OF assms, of "?fl\<lparr>called := True, fvalue := arg\<rparr>"]
    have e: "trigge i arg st = runner_schedule (runner ?fl) (Run_act i) ?st"
      using False assms(2) by (auto simp: trigge_def active_impl_def Let_def)
    have "\<not> is_called st i" using False by (simp add: is_called_def)
    then have z: "uses st i = 0" using assms(1) unfolding flow_inv_def by (metis le_zero_eq)
    have "uses (trigge i arg st) j \<le> (if is_called (trigge i arg st) j then 1 else 0)" for j
    proof -
      have "uses st j \<le> (if is_called st j then 1 else 0)" using assms(1) by (simp add: flow_inv_def)
      then show ?thesis using m(2,3) z unfolding e runner_schedule_uses by auto
    qed
    moreover have "ids_ok (trigge i arg st)" using m(1) assms(2) by (simp add: e runner_schedule_ids flow_inv_def)
    ultimately show ?thesis by (simp add: flow_inv_def) (simp add: e)
  qed
  then show "flow_inv (trigge i arg st)" "length (flows (trigge i arg st)) = length (flows st)" by simp_all
qed

lemma alloc_flow_inv:
  assumes "flow_inv st" and "alloc_flow r st = (i, st')"
  shows "flow_inv st'" "i < length (flows st')" "length (flows st) \<le> length (flows st')"
proof -
  have st': "st' = st\<lparr>flows := flows st @ [new_flow r]\<rparr>" "i = length (flows st)" using assms(2) by (auto simp: alloc_flow_def)
  show "flow_inv st'"
    by (rule flow_inv_flows[OF assms(1)])
      (use acts_ok_mono[OF flow_inv_acts[OF assms(1)]] in \<open>auto simp: st' is_called_def nth_append new_flow_def\<close>)
qed (use assms(2) in \<open>auto simp: alloc_flow_def\<close>)

lemma then_flow_inv:
  assumes "flow_inv st" and "then_flow r i act st = (n, st')" and "i < length (flows st)"
    and "list_all (\<lambda>j. j \<le> length (flows st)) (act_ids (Some (act (length (flows st)))))"
  shows "flow_inv st'" "n < length (flows st')" "length (flows st) \<le> length (flows st')"
proof -
  let ?fls = "(flows st)[i := (flows st ! i)\<lparr>act_func := Some (act (length (flows st))), runner := r\<rparr>]"
  have st': "st' = st\<lparr>flows := ?fls @ [new_flow r]\<rparr>" using assms(2) by (auto simp: then_flow_def Let_def)
  have "acts_ok (Suc (length (flows st))) ?fls"
    by (rule acts_ok_update[OF acts_ok_mono[OF flow_inv_acts[OF assms(1)]]]) (use assms(4) in \<open>simp_all add: less_Suc_eq_le\<close>)
  then show "flow_inv st'"
    by (intro flow_inv_flows[OF assms(1)])
      (use assms(3) in \<open>auto simp: st' is_called_def nth_append nth_list_update new_flow_def\<close>)
qed (use assms(2) in \<open>auto simp: then_flow_def Let_def\<close>)

lemma then_all_inv:
  assumes "flow_inv st" and "then_all r i fs st = (l, st')" and "i < length (flows st)"
  shows "flow_inv st' \<and> l < length (flows st') \<and> length (flows st) \<le> length (flows st')"
  using assms
proof (induction r i fs st rule: then_all.induct)
  case (2 r i f fs st)
  obtain n st1 where t: "then_flow r i (User f) st = (n, st1)" by (cases "then_flow r i (User f) st")
  have "list_all (\<lambda>j. j \<le> length (flows st)) (act_ids (Some (User f (length (flows st)))))" by simp
  note t1 = then_flow_inv[OF 2(2) t 2(4) this]
  show ?case using 2(1)[OF t[symmetric] refl t1(1) _ t1(2)] 2(3) t t1(3) by auto
qed simp

lemma submit_inv: "flow_inv st \<Longrightarrow> i < length (flows st) \<Longrightarrow> flow_inv (submit src i st)"
proof (cases src)
  case (At_event k)
  assume "flow_inv st" "i < length (flows st)"
  then show ?thesis using At_event by (simp add: submit_def flow_inv_def ids_ok_def uses_def is_called_def)
qed (simp_all add: submit_def runner_schedule_inv)

lemma submit_flow_inv:
  assumes "flow_inv st"
  shows "flow_inv (submit_flow r src fs st)"
proof -
  obtain i st1 l st2 where e: "alloc_flow r st = (i, st1)" "then_all r i fs st1 = (l, st2)" by (metis surj_pair)
  note a = alloc_flow_inv[OF assms e(1)] and b = then_all_inv[OF alloc_flow_inv(1)[OF assms e(1)] e(2)]
  show ?thesis using submit_inv[of st2 i src] a b by (simp add: submit_flow_def e)
qed

lemma todo_inv:
  assumes "flow_inv st" and "todo st' = ops @ todo st" and "flows st' = flows st" "tasks st' = tasks st"
    "waiting st' = waiting st" "trace st' = trace st"
    and "list_all (\<lambda>op. op_id op < length (flows st) \<and> (\<forall>i. op \<noteq> Run_act i)) ops"
  shows "flow_inv st'"
proof -
  have "pend i ops = 0" for i using assms(7) by (induction ops) auto
  then have "uses st' i = uses st i" for i by (simp add: uses_def assms(2-6))
  then show ?thesis using assms by (auto simp: flow_inv_def ids_ok_def is_called_def list_all_iff)
qed

text \<open>Running an action: the flow moves from the list of operations to the trace.\<close>

lemma run_act_inv:
  assumes "flow_inv st" and "todo st = Run_act i # rest"
  shows "flow_inv (run_act i (st\<lparr>todo := rest\<rparr>))"
proof -
  let ?fl = "flows st ! i"
  define st1 where "st1 = st\<lparr>todo := rest, trace := trace st @ [i]\<rparr>"
  have i: "i < length (flows st)" using assms by (simp add: flow_inv_def ids_ok_def)
  have "uses st1 j = uses st j" for j by (simp add: uses_def st1_def assms(2) count_list_append)
  then have inv: "flow_inv st1" using assms by (auto simp: flow_inv_def ids_ok_def is_called_def st1_def)
  have ids: "list_all (\<lambda>j. j < length (flows st1)) (act_ids (act_func ?fl))"
    using acts_ok_nth[OF flow_inv_acts[OF assms(1)] i] by (simp add: st1_def)
  have s1: "st\<lparr>todo := rest, trace := trace st @ [i]\<rparr> = st1" by (simp add: st1_def)
  have f1: "flows st1 = flows st" "world st1 = world st" by (simp_all add: st1_def)
  show ?thesis
  proof (cases "act_func ?fl")
    case None
    then show ?thesis using inv by (simp add: run_act_def Let_def s1)
  next
    case (Some a)
    show ?thesis
    proof (cases a)
      case (Forward target n)
      then show ?thesis using Some ids f1
        by (simp add: run_act_def Let_def s1)
          (rule todo_inv[OF inv, where ops = "[Trigge target (fvalue ?fl), Active n Monostate]"], simp_all add: st1_def)
    next
      case (User f n)
      obtain w out where o: "f (fvalue ?fl) (world st) = (w, out)" by (cases "f (fvalue ?fl) (world st)")
      have n: "n < length (flows st1)" using ids Some User by simp
      have inv2: "flow_inv (st1\<lparr>world := w\<rparr>)" by (rule todo_inv[OF inv, where ops = "[]"]) simp_all
      have act: "flow_inv (st1\<lparr>world := w, todo := Active n x # todo st1\<rparr>)" for x
        by (rule todo_inv[OF inv, where ops = "[Active n x]"]) (use n in simp_all)
      show ?thesis
      proof (cases out)
        case (Builder r src fs)
        obtain h st2 l st3 e st4 where b: "alloc_flow r (st1\<lparr>world := w\<rparr>) = (h, st2)"
          "then_all r h fs st2 = (l, st3)" "then_flow r l (Forward n) st3 = (e, st4)" by (metis surj_pair)
        note i2 = alloc_flow_inv[OF inv2 b(1)]
        note i3 = then_all_inv[OF i2(1) b(2) i2(2)]
        have "list_all (\<lambda>j. j \<le> length (flows st3)) (act_ids (Some (Forward n (length (flows st3)))))"
          using n i2(3) i3 by simp
        note i4 = then_flow_inv[OF _ b(3) _ this]
        have "flow_inv (submit src h st4)" using submit_inv i2(2) i3 i4 by (meson less_le_trans)
        then show ?thesis using Some User o Builder b f1 by (simp add: run_act_def Let_def s1)
      qed (use Some User o act f1 in \<open>simp_all add: run_act_def Let_def s1\<close>)
    qed
  qed
qed

lemma flow_step_inv: "flow_inv st \<Longrightarrow> flow_inv (flow_step st)"
proof (cases "todo st")
  case (Cons op rest)
  assume inv: "flow_inv st"
  show ?thesis
  proof (cases "\<exists>i. op = Run_act i")
    case True
    then show ?thesis using run_act_inv[OF inv] Cons by (auto simp: flow_step_def)
  next
    case False
    have "uses (st\<lparr>todo := rest\<rparr>) j = uses st j" for j using False Cons by (simp add: uses_def)
    then have inv': "flow_inv (st\<lparr>todo := rest\<rparr>)" and i: "op_id op < length (flows st)"
      using inv Cons by (auto simp: flow_inv_def ids_ok_def is_called_def)
    show ?thesis using trigge_inv(1)[OF inv'] i False Cons
      by (cases op) (auto simp: flow_step_def active_eq_trigge)
  qed
qed (simp add: flow_step_def)

lemma reachable_inv: "reachable st0 st \<Longrightarrow> flow_inv st0 \<Longrightarrow> flow_inv st"
proof (induction rule: reachable.induct)
  case (task st t ts)
  then show ?case by (simp add: flow_inv_def ids_ok_def uses_def is_called_def)
next
  case (event st k i a)
  then show ?case by (fastforce simp: flow_inv_def ids_ok_def uses_def is_called_def list_all_iff)
qed (simp_all add: submit_flow_inv flow_step_inv)

section \<open>Chains on the immediate runner\<close>

text \<open>What a chain of functions means: each gets what the one before it returned or threw,
  and a flow that a function returns is run to its result first.\<close>

inductive chain_eval :: "('v, 's) func list \<Rightarrow> 'v flow_arg \<Rightarrow> 's \<Rightarrow> 'v flow_arg \<Rightarrow> 's \<Rightarrow> bool" where
  Nil: "chain_eval [] a s a s"
| Void: "f a s = (s1, Void) \<Longrightarrow> chain_eval fs Monostate s1 b s' \<Longrightarrow> chain_eval (f # fs) a s b s'"
| Result: "f a s = (s1, Result v) \<Longrightarrow> chain_eval fs (Arg v) s1 b s' \<Longrightarrow> chain_eval (f # fs) a s b s'"
| Raise: "f a s = (s1, Raise e) \<Longrightarrow> chain_eval fs (Exception_ptr e) s1 b s' \<Longrightarrow> chain_eval (f # fs) a s b s'"
| Imme: "f a s = (s1, Builder Immediate_runner (Imme v) gs) \<Longrightarrow> chain_eval gs (Arg v) s1 c s2 \<Longrightarrow>
    chain_eval fs c s2 b s' \<Longrightarrow> chain_eval (f # fs) a s b s'"
| On_runner: "f a s = (s1, Builder Immediate_runner (On_runner Immediate_runner) gs) \<Longrightarrow>
    chain_eval gs Monostate s1 c s2 \<Longrightarrow> chain_eval fs c s2 b s' \<Longrightarrow> chain_eval (f # fs) a s b s'"

text \<open>A function that begins with \<open>____forward_flow_monostate_exception\<close>.\<close>

definition guarded :: "('v \<Rightarrow> 's \<Rightarrow> 's \<times> ('v, 's) outcome) \<Rightarrow> ('v, 's) func" where
  "guarded g a s =
     (case forward_flow_monostate_exception True a of
        Inl (Throw e) \<Rightarrow> (s, Raise e) | Inl _ \<Rightarrow> (s, Void)
      | Inr _ \<Rightarrow> (case a of Arg v \<Rightarrow> g v s | _ \<Rightarrow> (s, Void)))"

lemma chain_exception_propagates:
  "chain_eval (map guarded gs) (Exception_ptr e) s (Exception_ptr e) s"
proof (induction gs)
  case (Cons g gs)
  have "guarded g (Exception_ptr e) s = (s, Raise e)" by (simp add: guarded_def forward_flow_monostate_exception_def)
  then show ?case using Cons by (simp add: chain_eval.Raise)
qed (simp add: chain_eval.Nil)

definition steps :: "('v, 's) reactor \<Rightarrow> ('v, 's) reactor \<Rightarrow> bool" where
  "steps st st' \<longleftrightarrow> (\<exists>k. st' = (flow_step ^^ k) st)"

lemma steps_refl [simp]: "steps st st"
  unfolding steps_def by (rule exI[of _ 0]) simp

lemma steps_trans [trans]: "steps a b \<Longrightarrow> steps b c \<Longrightarrow> steps a c"
  unfolding steps_def by (metis comp_apply funpow_add)

lemma steps_step: "steps (flow_step st) st' \<Longrightarrow> steps st st'"
  unfolding steps_def by (metis comp_apply funpow_Suc_right)

fun chain_at :: "('v, 's) flow_implent list \<Rightarrow> flow_id list \<Rightarrow> ('v, 's) func list \<Rightarrow> bool" where
  "chain_at fls [l] [] \<longleftrightarrow> l < length fls \<and> \<not> called (fls ! l)"
| "chain_at fls (i # n # ids) (f # fs) \<longleftrightarrow>
     i < length fls \<and> \<not> called (fls ! i) \<and> act_func (fls ! i) = Some (User f n) \<and>
     runner (fls ! i) = Immediate_runner \<and> i \<notin> set (n # ids) \<and> chain_at fls (n # ids) fs"
| "chain_at fls ids fs \<longleftrightarrow> False"

lemma chain_at_len: "chain_at fls ids fs \<Longrightarrow> length ids = Suc (length fs) \<and> (\<forall>i \<in> set ids. i < length fls)"
  by (induction fls ids fs rule: chain_at.induct) auto

lemma chain_at_cong:
  "(\<And>i. i \<in> set ids \<Longrightarrow> fls' ! i = fls ! i) \<Longrightarrow> length fls \<le> length fls' \<Longrightarrow> chain_at fls ids fs \<Longrightarrow> chain_at fls' ids fs"
  by (induction fls ids fs rule: chain_at.induct) auto

lemma chain_at_last: "chain_at fls ids fs \<Longrightarrow> ids \<noteq> [] \<and> last ids < length fls \<and> \<not> called (fls ! last ids)"
  by (induction fls ids fs rule: chain_at.induct) auto

text \<open>Building a chain behind the last flow of the table.\<close>

lemma then_all_chain:
  assumes "i = length (flows st) - 1" and "flows st \<noteq> []" and "\<not> called (flows st ! i)"
    and "then_all Immediate_runner i fs st = (l, st')"
  shows "chain_at (flows st') [i..<Suc l] fs \<and> l = length (flows st') - 1 \<and> i \<le> l \<and> flows st' \<noteq> [] \<and>
     (\<forall>j < i. flows st' ! j = flows st ! j) \<and> act_func (flows st' ! l) = (if fs = [] then act_func (flows st ! i) else None) \<and>
     (fs \<noteq> [] \<longrightarrow> runner (flows st' ! l) = Immediate_runner) \<and> \<not> called (flows st' ! l) \<and>
     st' = st\<lparr>flows := flows st'\<rparr>"
  using assms
proof (induction fs arbitrary: i st)
  case Nil
  then show ?case by (auto simp: upt_rec)
next
  case (Cons f fs)
  let ?n = "length (flows st)"
  let ?st = "st\<lparr>flows := (flows st)[i := (flows st ! i)\<lparr>act_func := Some (User f ?n), runner := Immediate_runner\<rparr>] @ [new_flow Immediate_runner]\<rparr>"
  have i: "i < ?n" using Cons.prems(1,2) by (cases "flows st") auto
  have r: "then_all Immediate_runner ?n fs ?st = (l, st')" using Cons.prems(4) by (simp add: then_flow_def Let_def)
  have n0: "?n = length (flows ?st) - 1" "flows ?st \<noteq> []" "\<not> called (flows ?st ! ?n)" "act_func (flows ?st ! ?n) = None"
      "runner (flows ?st ! ?n) = Immediate_runner"
    by (simp_all add: nth_append new_flow_def)
  note ih = Cons.IH[OF n0(1-3) r]
  have fi: "flows st' ! j = flows ?st ! j" if "j < ?n" for j using ih that by blast
  have si: "Suc i = ?n" and il: "i < Suc l" and nl: "?n < Suc l" using Cons.prems(1) i ih by linarith+
  have up: "[i..<Suc l] = i # [?n..<Suc l]" using upt_conv_Cons[OF il] unfolding si .
  have up2: "[?n..<Suc l] = ?n # [Suc ?n..<Suc l]" by (rule upt_conv_Cons[OF nl])
  have "0 < length (flows st')" "l = length (flows st') - 1" using ih by auto
  then have il': "i < length (flows st')" using il by linarith
  have "chain_at (flows st') (i # [?n..<Suc l]) (f # fs)"
    using ih[unfolded up2, THEN conjunct1] fi[OF i] i il' Cons.prems(3) unfolding up2 by (simp add: nth_append)
  moreover have "flows st' ! j = flows st ! j" if "j < i" for j
    using fi[of j] that i by (simp add: nth_append)
  moreover have "runner (flows st' ! l) = Immediate_runner" 
  proof (cases fs)
    case Nil
    then show ?thesis using r n0(5) by auto
  qed (use ih in auto)
  ultimately show ?case using ih i n0(4) up by auto
qed

text \<open>An operation that hands an argument to a flow.\<close>

definition gives :: "'v flow_op \<Rightarrow> flow_id \<Rightarrow> 'v flow_arg \<Rightarrow> bool" where
  "gives op i a \<longleftrightarrow> op = Active i a \<or> op = Trigge i a"

lemma step_gives:
  assumes "todo st = op # rest" and "gives op i a" and "i < length (flows st)" and "\<not> called (flows st ! i)"
    and "act_func (flows st ! i) = Some g" and "runner (flows st ! i) = Immediate_runner"
  shows "flow_step st =
     st\<lparr>todo := Run_act i # rest, flows := (flows st)[i := (flows st ! i)\<lparr>called := True, fvalue := a\<rparr>]\<rparr>"
proof -
  have "flow_step st = trigge i a (st\<lparr>todo := rest\<rparr>)"
    using assms(1,2) by (auto simp: flow_step_def gives_def active_eq_trigge)
  then show ?thesis using assms(3-6) by (simp add: trigge_def Let_def active_impl_def runner_schedule_def)
qed

lemma step_idle:
  assumes "todo st = op # rest" and "gives op i a" and "act_func (flows st ! i) = None"
  shows "\<exists>fls. flow_step st = st\<lparr>todo := rest, flows := fls\<rparr> \<and> length fls = length (flows st) \<and>
     (\<forall>j. act_func (fls ! j) = act_func (flows st ! j))"
proof -
  have e: "flow_step st = trigge i a (st\<lparr>todo := rest\<rparr>)"
    using assms(1,2) by (auto simp: flow_step_def gives_def active_eq_trigge)
  have u: "act_func ((flows st)[i := (flows st ! i)\<lparr>called := True\<rparr>] ! j) = act_func (flows st ! j)" for j
    by (cases "i < length (flows st)") (auto simp: nth_list_update list_update_beyond)
  show ?thesis
  proof (cases "called (flows st ! i)")
    case True
    then show ?thesis by (intro exI[of _ "flows st"]) (simp add: e trigge_def)
  next
    case False
    then show ?thesis using assms(3) u
      by (intro exI[of _ "(flows st)[i := (flows st ! i)\<lparr>called := True\<rparr>]"]) (simp add: e trigge_def Let_def)
  qed
qed

text \<open>Operations on flows without an action: what a returned flow leaves behind.\<close>

definition idle_ops :: "('v, 's) flow_implent list \<Rightarrow> nat \<Rightarrow> 'v flow_op list \<Rightarrow> bool" where
  "idle_ops fls b ops \<longleftrightarrow>
     list_all (\<lambda>op. \<exists>i a. gives op i a \<and> b \<le> i \<and> i < length fls \<and> act_func (fls ! i) = None) ops"

lemma idle_ops_drain:
  assumes "todo st = ops @ rest" and "idle_ops (flows st) b ops"
  shows "\<exists>fls. steps st (st\<lparr>todo := rest, flows := fls\<rparr>)"
  using assms
proof (induction ops arbitrary: st)
  case Nil
  then have "st\<lparr>todo := rest, flows := flows st\<rparr> = st" by simp
  then show ?case by (metis steps_refl)
next
  case (Cons op ops)
  obtain i a where i: "gives op i a" "act_func (flows st ! i) = None" using Cons.prems(2) by (auto simp: idle_ops_def)
  obtain fls where s: "flow_step st = st\<lparr>todo := ops @ rest, flows := fls\<rparr>" "length fls = length (flows st)"
    "\<forall>j. act_func (fls ! j) = act_func (flows st ! j)"
    using step_idle[OF _ i, of "ops @ rest"] Cons.prems(1) by auto
  have "idle_ops (flows (flow_step st)) b ops" using Cons.prems(2) s(2,3) by (simp add: idle_ops_def s(1))
  then obtain fls' where "steps (flow_step st) ((flow_step st)\<lparr>todo := rest, flows := fls'\<rparr>)"
    using Cons.IH[of "flow_step st"] by (auto simp: s(1))
  moreover have "(flow_step st)\<lparr>todo := rest, flows := fls'\<rparr> = st\<lparr>todo := rest, flows := fls'\<rparr>" by (simp add: s(1))
  ultimately have "steps st (st\<lparr>todo := rest, flows := fls'\<rparr>)" by (metis steps_step)
  then show ?case by blast
qed

text \<open>The state after a chain: the argument of its last flow is handed over, and nothing but
  the chain has changed in the old part of the table.\<close>

definition chain_done :: "('v, 's) reactor \<Rightarrow> flow_id list \<Rightarrow> 'v flow_arg \<Rightarrow> 's \<Rightarrow> 'v flow_op list \<Rightarrow> ('v, 's) reactor \<Rightarrow> bool" where
  "chain_done st ids b s' rest st' \<longleftrightarrow>
     (\<exists>op ops. todo st' = op # ops @ rest \<and> gives op (last ids) b \<and> idle_ops (flows st') (length (flows st)) ops) \<and>
     world st' = s' \<and> tasks st' = tasks st \<and> length (flows st) \<le> length (flows st') \<and>
     (\<forall>j < length (flows st). j \<notin> set (butlast ids) \<longrightarrow> flows st' ! j = flows st ! j)"

lemma idle_ops_mono:
  "idle_ops fls b ops \<Longrightarrow> c \<le> b \<Longrightarrow> length fls \<le> length fls' \<Longrightarrow>
   (\<And>j. b \<le> j \<Longrightarrow> j < length fls \<Longrightarrow> fls' ! j = fls ! j) \<Longrightarrow> idle_ops fls' c ops"
  unfolding idle_ops_def by (erule list.pred_mono_strong) (metis le_trans less_le_trans)

lemma chain_at_change_last:
  "chain_at fls ids fs \<Longrightarrow> \<not> called (fls' ! last ids) \<Longrightarrow> length fls \<le> length fls' \<Longrightarrow>
   (\<And>j. j \<in> set (butlast ids) \<Longrightarrow> fls' ! j = fls ! j) \<Longrightarrow> chain_at fls' ids fs"
  by (induction fls ids fs rule: chain_at.induct) auto

lemma chain_at_butlast_notin: "chain_at fls ids fs \<Longrightarrow> last ids \<notin> set (butlast ids)"
  by (induction fls ids fs rule: chain_at.induct) auto

lemma chain_done_trans:
  assumes "steps st st1" and "flows st1 = (flows st)[i := fl]" and "tasks st1 = tasks st"
    and "chain_done st1 (n # ids) b s' rest st'"
  shows "chain_done st (i # n # ids) b s' rest st'"
  using assms(2-4) by (auto simp: chain_done_def)

text \<open>Running the action at hand, when it does not return a flow.\<close>

lemma run_plain:
  assumes "todo st = op # rest" and "gives op i a" and "chain_at (flows st) (i # n # ids) (f # fs)"
    and "f a (world st) = (s1, out)"
    and "x = (case out of Void \<Rightarrow> Monostate | Result v \<Rightarrow> Arg v | Raise e \<Rightarrow> Exception_ptr e)"
    and "\<forall>r src gs. out \<noteq> Builder r src gs"
  shows "\<exists>st1. steps st st1 \<and> todo st1 = Active n x # rest \<and> world st1 = s1 \<and> tasks st1 = tasks st \<and>
     flows st1 = (flows st)[i := (flows st ! i)\<lparr>called := True, fvalue := a\<rparr>]"
proof -
  have i: "i < length (flows st)" "\<not> called (flows st ! i)" "act_func (flows st ! i) = Some (User f n)"
    "runner (flows st ! i) = Immediate_runner" using assms(3) by simp_all
  let ?fls = "(flows st)[i := (flows st ! i)\<lparr>called := True, fvalue := a\<rparr>]"
  note s = step_gives[OF assms(1,2) i]
  have s2: "flow_step (flow_step st) =
     st\<lparr>todo := Active n x # rest, flows := ?fls, world := s1, trace := trace st @ [i]\<rparr>"
    unfolding s using assms(4-6) i by (cases out) (simp_all add: flow_step_def run_act_def Let_def)
  then have "steps st (flow_step (flow_step st))" by (metis steps_refl steps_step)
  then show ?thesis using s2 by (intro exI[of _ "flow_step (flow_step st)"]) simp
qed

lemma chain_tail:
  assumes "chain_at (flows st) (i # n # ids) (f # fs)" and "flows st1 = (flows st)[i := fl]"
  shows "chain_at (flows st1) (n # ids) fs"
proof (rule chain_at_cong)
  show "chain_at (flows st) (n # ids) fs" using assms(1) by simp
  show "flows st1 ! j = flows st ! j" if "j \<in> set (n # ids)" for j
  proof -
    have "j \<noteq> i" using assms(1) that by auto
    then show ?thesis by (simp add: assms(2))
  qed
qed (simp add: assms(2))

text \<open>Running an action that returns a flow: the chain of the flow is appended to the table,
  with the hand-over to the next flow at its end.\<close>

definition start_arg :: "'v submit_at \<Rightarrow> 'v flow_arg option" where
  "start_arg src = (case src of Imme v \<Rightarrow> Some (Arg v) | On_runner Immediate_runner \<Rightarrow> Some Monostate | _ \<Rightarrow> None)"

lemma submit_start: "start_arg src = Some a \<Longrightarrow> submit src h st = st\<lparr>todo := Trigge h a # todo st\<rparr>"
  by (auto simp: start_arg_def submit_def runner_schedule_def split: submit_at.splits flow_runner.splits)

lemma build_forward:
  assumes "alloc_flow Immediate_runner st = (h, st2)" and "then_all Immediate_runner h gs st2 = (l, st3)"
    and "then_flow Immediate_runner l (Forward n) st3 = (e, st4)"
  shows "h = length (flows st)" and "h \<le> l" and "length (flows st4) = Suc (Suc l)"
    and "chain_at (flows st4) [h..<Suc l] gs" and "act_func (flows st4 ! l) = Some (Forward n (Suc l))"
    and "runner (flows st4 ! l) = Immediate_runner" and "act_func (flows st4 ! Suc l) = None"
    and "j < h \<Longrightarrow> flows st4 ! j = flows st ! j" and "st4 = st\<lparr>flows := flows st4\<rparr>"
proof -
  show h: "h = length (flows st)" using assms(1) by (simp add: alloc_flow_def)
  have st2: "st2 = st\<lparr>flows := flows st @ [new_flow Immediate_runner]\<rparr>" using assms(1) by (simp add: alloc_flow_def)
  have c: "h = length (flows st2) - 1" "flows st2 \<noteq> []" "\<not> called (flows st2 ! h)"
    by (simp_all add: st2 h nth_append new_flow_def)
  note t = then_all_chain[OF c assms(2)]
  show hl: "h \<le> l" using t by simp
  have l: "l < length (flows st3)" "length (flows st3) = Suc l" using t by (cases "flows st3"; simp)+
  have st4: "st4 = st3\<lparr>flows := (flows st3)[l := (flows st3 ! l)\<lparr>act_func := Some (Forward n (Suc l)), runner := Immediate_runner\<rparr>] @ [new_flow Immediate_runner]\<rparr>"
    using assms(3) l by (auto simp: then_flow_def Let_def)
  show "length (flows st4) = Suc (Suc l)" by (simp add: st4 l)
  have o: "flows st4 ! j = flows st3 ! j" if "j < l" for j using that l by (simp add: st4 nth_append)
  show "act_func (flows st4 ! l) = Some (Forward n (Suc l))" "runner (flows st4 ! l) = Immediate_runner"
    "act_func (flows st4 ! Suc l) = None" using l by (simp_all add: st4 nth_append new_flow_def)
  show "flows st4 ! j = flows st ! j" if "j < h"
    using o[of j] t that hl by (simp add: st2 nth_append h)
  have "st3 = st2\<lparr>flows := flows st3\<rparr>" using t by blast
  then obtain fls where "st3 = st2\<lparr>flows := fls\<rparr>" by blast
  then show "st4 = st\<lparr>flows := flows st4\<rparr>" by (simp add: st4 st2)
  have "\<not> called (flows st4 ! l)" using t l by (simp add: st4 nth_append)
  moreover have "last [h..<Suc l] = l" "butlast [h..<Suc l] = [h..<l]" using hl by simp_all
  moreover have "length (flows st3) \<le> length (flows st4)" by (simp add: st4)
  ultimately show "chain_at (flows st4) [h..<Suc l] gs" using o
    by (intro chain_at_change_last[OF t[THEN conjunct1]]) (auto simp only: set_upt atLeastLessThan_iff)
qed

lemma run_builder:
  assumes "todo st = op # rest" and "gives op i a" and "chain_at (flows st) (i # n # ids) (f # fs)"
    and "f a (world st) = (s1, Builder Immediate_runner src gs)" and "start_arg src = Some a0"
  shows "\<exists>st1 l. steps st st1 \<and> todo st1 = Trigge (length (flows st)) a0 # rest \<and> world st1 = s1 \<and>
     tasks st1 = tasks st \<and> length (flows st) \<le> l \<and> length (flows st1) = Suc (Suc l) \<and>
     chain_at (flows st1) [length (flows st)..<Suc l] gs \<and> act_func (flows st1 ! l) = Some (Forward n (Suc l)) \<and>
     runner (flows st1 ! l) = Immediate_runner \<and> act_func (flows st1 ! Suc l) = None \<and>
     (\<forall>j < length (flows st). j \<noteq> i \<longrightarrow> flows st1 ! j = flows st ! j)"
proof -
  have i: "i < length (flows st)" "\<not> called (flows st ! i)" "act_func (flows st ! i) = Some (User f n)"
    "runner (flows st ! i) = Immediate_runner" using assms(3) by simp_all
  let ?fls = "(flows st)[i := (flows st ! i)\<lparr>called := True, fvalue := a\<rparr>]"
  note s = step_gives[OF assms(1,2) i]
  define st0 where "st0 = st\<lparr>todo := rest, flows := ?fls, world := s1, trace := trace st @ [i]\<rparr>"
  obtain h st2 l st3 e st4 where b: "alloc_flow Immediate_runner st0 = (h, st2)"
    "then_all Immediate_runner h gs st2 = (l, st3)" "then_flow Immediate_runner l (Forward n) st3 = (e, st4)"
    by (metis surj_pair)
  note f = build_forward[OF b]
  have e0: "st\<lparr>flows := ?fls, todo := rest, trace := trace st @ [i], world := s1\<rparr> = st0" by (simp add: st0_def)
  have "flow_step (flow_step st) = submit src h st4"
    unfolding s using assms(4) i b by (simp add: flow_step_def run_act_def Let_def e0)
  also have "\<dots> = st4\<lparr>todo := Trigge h a0 # todo st4\<rparr>" by (rule submit_start[OF assms(5)])
  finally have s2: "flow_step (flow_step st) = st4\<lparr>todo := Trigge h a0 # todo st4\<rparr>" .
  have st4: "todo st4 = rest" "world st4 = s1" "tasks st4 = tasks st" using arg_cong[OF f(9), of todo]
    arg_cong[OF f(9), of world] arg_cong[OF f(9), of tasks] by (simp_all add: st0_def)
  have len: "length (flows st0) = length (flows st)" by (simp add: st0_def)
  have "flows st4 ! j = flows st ! j" if "j < length (flows st)" "j \<noteq> i" for j
    using f(8)[of j] that f(1) by (simp add: st0_def)
  moreover have "steps st (flow_step (flow_step st))" by (metis steps_refl steps_step)
  ultimately show ?thesis using f(1-7) st4 len by (intro exI[of _ "flow_step (flow_step st)"] exI[of _ l]) (simp add: s2)
qed

text \<open>The hand-over at the end of a returned flow.\<close>

lemma run_forward:
  assumes "todo st = op # rest" and "gives op l c" and "l < length (flows st)" and "\<not> called (flows st ! l)"
    and "act_func (flows st ! l) = Some (Forward n e)" and "runner (flows st ! l) = Immediate_runner"
  shows "\<exists>st1. steps st st1 \<and> todo st1 = Trigge n c # Active e Monostate # rest \<and> world st1 = world st \<and>
     tasks st1 = tasks st \<and> flows st1 = (flows st)[l := (flows st ! l)\<lparr>called := True, fvalue := c\<rparr>]"
proof -
  note s = step_gives[OF assms]
  have "flow_step (flow_step st) = st\<lparr>todo := Trigge n c # Active e Monostate # rest,
      flows := (flows st)[l := (flows st ! l)\<lparr>called := True, fvalue := c\<rparr>], trace := trace st @ [l]\<rparr>"
    unfolding s using assms(3,5) by (simp add: flow_step_def run_act_def Let_def)
  moreover have "steps st (flow_step (flow_step st))" by (metis steps_refl steps_step)
  ultimately show ?thesis by (intro exI[of _ "flow_step (flow_step st)"]) simp
qed

lemma idle_ops_simps [simp]:
  "idle_ops fls b []" "idle_ops fls b (a @ c) \<longleftrightarrow> idle_ops fls b a \<and> idle_ops fls b c"
  "idle_ops fls b (Active i x # c) \<longleftrightarrow> b \<le> i \<and> i < length fls \<and> act_func (fls ! i) = None \<and> idle_ops fls b c"
  by (auto simp: idle_ops_def gives_def)

lemma chain_runs_builder:
  assumes st: "todo st = op # rest" "gives op i a" "chain_at (flows st) (i # n # ids) (f # fs)"
    "f a (world st) = (s1, Builder Immediate_runner src gs)" "start_arg src = Some a0"
    and ih1: "\<And>st op ids rest. chain_at (flows st) ids gs \<Longrightarrow> todo st = op # rest \<Longrightarrow> gives op (hd ids) a0 \<Longrightarrow>
      world st = s1 \<Longrightarrow> \<exists>st'. steps st st' \<and> chain_done st ids c s2 rest st'"
    and ih2: "\<And>st op ids rest. chain_at (flows st) ids fs \<Longrightarrow> todo st = op # rest \<Longrightarrow> gives op (hd ids) c \<Longrightarrow>
      world st = s2 \<Longrightarrow> \<exists>st'. steps st st' \<and> chain_done st ids b s' rest st'"
  shows "\<exists>st'. steps st st' \<and> chain_done st (i # n # ids) b s' rest st'"
proof -
  let ?h = "length (flows st)"
  obtain st1 l where b1: "steps st st1" "todo st1 = Trigge ?h a0 # rest" "world st1 = s1" "tasks st1 = tasks st"
    "?h \<le> l" "length (flows st1) = Suc (Suc l)" "chain_at (flows st1) [?h..<Suc l] gs"
    "act_func (flows st1 ! l) = Some (Forward n (Suc l))" "runner (flows st1 ! l) = Immediate_runner"
    "act_func (flows st1 ! Suc l) = None" "\<And>j. j < ?h \<Longrightarrow> j \<noteq> i \<Longrightarrow> flows st1 ! j = flows st ! j"
    using run_builder[OF st] by blast
  have "[?h..<Suc l] = ?h # [Suc ?h..<Suc l]" using b1(5) by (intro upt_conv_Cons) simp
  then have hd: "hd [?h..<Suc l] = ?h" by (metis list.sel(1))
  have lb: "last [?h..<Suc l] = l" "butlast [?h..<Suc l] = [?h..<l]" using b1(5) by simp_all
  obtain st2 where st2: "steps st1 st2" "chain_done st1 [?h..<Suc l] c s2 rest st2"
    using ih1[OF b1(7,2) _ b1(3)] hd by (auto simp: gives_def)
  obtain op2 ops2 where d2: "todo st2 = op2 # ops2 @ rest" "gives op2 l c" "idle_ops (flows st2) (Suc (Suc l)) ops2"
    "world st2 = s2" "tasks st2 = tasks st1" "Suc (Suc l) \<le> length (flows st2)"
    "\<And>j. j < Suc (Suc l) \<Longrightarrow> \<not> (?h \<le> j \<and> j < l) \<Longrightarrow> flows st2 ! j = flows st1 ! j"
    using st2(2) unfolding chain_done_def lb b1(6) set_upt atLeastLessThan_iff by blast
  have l2: "flows st2 ! l = flows st1 ! l" "l < length (flows st2)" using d2(6,7) by auto
  have nc: "\<not> called (flows st2 ! l)" using chain_at_last[OF b1(7)] l2 lb(1) by simp
  obtain st3 where st3: "steps st2 st3" "todo st3 = Trigge n c # Active (Suc l) Monostate # ops2 @ rest"
    "world st3 = s2" "tasks st3 = tasks st1" "flows st3 = (flows st2)[l := (flows st2 ! l)\<lparr>called := True, fvalue := c\<rparr>]"
    using run_forward[OF d2(1,2) l2(2) nc] b1(8,9) l2(1) d2(4,5) by auto
  have old: "flows st3 ! j = flows st ! j" if "j < ?h" "j \<noteq> i" for j
    using that b1(5,11) d2(7)[of j] by (simp add: st3(5))
  have len3: "length (flows st3) = length (flows st2)" by (simp add: st3(5))
  have ch: "chain_at (flows st3) (n # ids) fs"
  proof (rule chain_at_cong)
    show "chain_at (flows st) (n # ids) fs" using st(3) by simp
    show "?h \<le> length (flows st3)" using b1(5) d2(6) len3 by simp
    show "flows st3 ! j = flows st ! j" if "j \<in> set (n # ids)" for j
      using that st(3) chain_at_len[OF st(3)] by (intro old) auto
  qed
  obtain st4 where st4: "steps st3 st4" "chain_done st3 (n # ids) b s' (Active (Suc l) Monostate # ops2 @ rest) st4"
    using ih2[OF ch st3(2) _ st3(3)] by (auto simp: gives_def)
  obtain op4 ops4 where d4: "todo st4 = op4 # ops4 @ Active (Suc l) Monostate # ops2 @ rest" "gives op4 (last (n # ids)) b"
    "idle_ops (flows st4) (length (flows st3)) ops4" "world st4 = s'" "tasks st4 = tasks st3" "length (flows st3) \<le> length (flows st4)"
    "\<And>j. j < length (flows st3) \<Longrightarrow> j \<notin> set (butlast (n # ids)) \<Longrightarrow> flows st4 ! j = flows st3 ! j"
    using st4(2) unfolding chain_done_def by blast
  have small: "j < ?h" if "j \<in> set (butlast (n # ids))" for j using that chain_at_len[OF st(3)] by (auto dest: in_set_butlastD split: if_splits)
  have fresh: "flows st4 ! j = flows st2 ! j" if "l < j" "j < length (flows st2)" for j
    using that d4(7)[of j] small[of j] b1(5) by (auto simp: len3 st3(5))
  have "idle_ops (flows st4) ?h ops2"
    by (rule idle_ops_mono[OF d2(3)]) (use b1(5) d4(6) len3 fresh in auto)
  moreover have "idle_ops (flows st4) ?h ops4"
    by (rule idle_ops_mono[OF d4(3)]) (use b1(5) d2(6) len3 in auto)
  moreover have "act_func (flows st4 ! Suc l) = None" using fresh[of "Suc l"] d2(6) d2(7)[of "Suc l"] b1(10) by simp
  ultimately have idle: "idle_ops (flows st4) ?h (ops4 @ Active (Suc l) Monostate # ops2)"
    using b1(5) d2(6) d4(6) len3 by simp
  have same: "flows st4 ! j = flows st ! j" if "j < ?h" "j \<notin> set (butlast (i # n # ids))" for j
    using that d4(7)[of j] old[of j] b1(5) d2(6) len3 by (auto split: if_splits)
  have "chain_done st (i # n # ids) b s' rest st4"
    unfolding chain_done_def using d4 idle same b1(4,5) st3(4) d2(6) len3
    by (auto intro!: exI[of _ op4] exI[of _ "ops4 @ Active (Suc l) Monostate # ops2"])
  moreover have "steps st st4" using b1(1) st2(1) st3(1) st4(1) by (blast intro: steps_trans)
  ultimately show ?thesis by blast
qed

lemma chain_runs:
  assumes "chain_eval fs a s b s'" and "chain_at (flows st) ids fs" and "todo st = op # rest"
    and "gives op (hd ids) a" and "world st = s"
  shows "\<exists>st'. steps st st' \<and> chain_done st ids b s' rest st'"
proof -
  have plain: "\<exists>st'. steps st st' \<and> chain_done st ids b s' rest st'"
    if o: "f a s = (s1, out)" "x = (case out of Void \<Rightarrow> Monostate | Result v \<Rightarrow> Arg v | Raise e \<Rightarrow> Exception_ptr e)"
      "\<forall>r src gs. out \<noteq> Builder r src gs"
      and ih: "\<And>st op ids rest. chain_at (flows st) ids fs \<Longrightarrow> todo st = op # rest \<Longrightarrow> gives op (hd ids) x \<Longrightarrow>
        world st = s1 \<Longrightarrow> \<exists>st'. steps st st' \<and> chain_done st ids b s' rest st'"
      and p: "chain_at (flows st) ids (f # fs)" "todo st = op # rest" "gives op (hd ids) a" "world st = s"
    for f a s s1 out x fs b s' st op ids rest
  proof -
    obtain i n ids' where ids: "ids = i # n # ids'" using chain_at_len[OF p(1)] by (metis length_Suc_conv)
    obtain st1 where s1: "steps st st1" "todo st1 = Active n x # rest" "world st1 = s1" "tasks st1 = tasks st"
      "flows st1 = (flows st)[i := (flows st ! i)\<lparr>called := True, fvalue := a\<rparr>]"
      using run_plain[OF p(2) _ p(1)[unfolded ids], of a s1 out x] p(3,4) o ids by auto
    obtain st' where s': "steps st1 st'" "chain_done st1 (n # ids') b s' rest st'"
      using ih[OF chain_tail[OF p(1)[unfolded ids] s1(5)] s1(2) _ s1(3)] by (auto simp: gives_def)
    have "chain_done st ids b s' rest st'" unfolding ids by (rule chain_done_trans[OF s1(1,5,4) s'(2)])
    then show ?thesis using s1(1) s'(1) steps_trans by blast
  qed
  have builder: "\<exists>st'. steps st st' \<and> chain_done st ids b s' rest st'"
    if o: "f a s = (s1, Builder Immediate_runner src gs)" "start_arg src = Some a0"
      and ih1: "\<And>st op ids rest. chain_at (flows st) ids gs \<Longrightarrow> todo st = op # rest \<Longrightarrow> gives op (hd ids) a0 \<Longrightarrow>
        world st = s1 \<Longrightarrow> \<exists>st'. steps st st' \<and> chain_done st ids c s2 rest st'"
      and ih2: "\<And>st op ids rest. chain_at (flows st) ids fs \<Longrightarrow> todo st = op # rest \<Longrightarrow> gives op (hd ids) c \<Longrightarrow>
        world st = s2 \<Longrightarrow> \<exists>st'. steps st st' \<and> chain_done st ids b s' rest st'"
      and p: "chain_at (flows st) ids (f # fs)" "todo st = op # rest" "gives op (hd ids) a" "world st = s"
    for f a s s1 src gs a0 c s2 fs b s' st op ids rest
  proof -
    obtain i n ids' where ids: "ids = i # n # ids'" using chain_at_len[OF p(1)] by (metis length_Suc_conv)
    show ?thesis unfolding ids
      by (rule chain_runs_builder[OF p(2) _ p(1)[unfolded ids] _ o(2) ih1 ih2]) (use p(3,4) ids o(1) in simp_all)
  qed
  show ?thesis using assms
  proof (induction arbitrary: st op ids rest rule: chain_eval.induct)
    case (Nil a s)
    then have "length ids = 1" using chain_at_len[of "flows st" ids "[]"] by auto
    then obtain i where "ids = [i]" by (auto simp: length_Suc_conv)
    then show ?case using Nil by (intro exI[of _ st]) (auto simp: chain_done_def)
  next
    case (Void f a s s1 fs b s')
    show ?case by (rule plain[OF Void(1) _ _ Void(3) Void(4-7)]) simp_all
  next
    case (Result f a s s1 v fs b s')
    show ?case by (rule plain[OF Result(1) _ _ Result(3) Result(4-7)]) simp_all
  next
    case (Raise f a s s1 e fs b s')
    show ?case by (rule plain[OF Raise(1) _ _ Raise(3) Raise(4-7)]) simp_all
  next
    case (Imme f a s s1 v gs c s2 fs b s')
    show ?case by (rule builder[OF Imme(1) _ Imme(4,5) Imme(6-9)]) (simp add: start_arg_def)
  next
    case (On_runner f a s s1 gs c s2 fs b s')
    show ?case by (rule builder[OF On_runner(1) _ On_runner(4,5) On_runner(6-9)]) (simp add: start_arg_def)
  qed
qed

lemma chain_done_drain:
  assumes "chain_done st ids b s' rest st'" and "act_func (flows st ! last ids) = None" and "last ids < length (flows st)"
    and "last ids \<notin> set (butlast ids)"
  shows "\<exists>st2. steps st' st2 \<and> todo st2 = rest \<and> world st2 = s' \<and> tasks st2 = tasks st"
proof -
  obtain op ops where d: "todo st' = op # ops @ rest" "gives op (last ids) b" "idle_ops (flows st') (length (flows st)) ops"
    "world st' = s'" "tasks st' = tasks st" "length (flows st) \<le> length (flows st')" "flows st' ! last ids = flows st ! last ids"
    using assms unfolding chain_done_def by blast
  have "idle_ops (flows st') 0 (op # ops)"
    using d assms(2,3) idle_ops_mono[OF d(3), of 0 "flows st'"] by (auto simp: idle_ops_def)
  from idle_ops_drain[OF _ this, of rest] d(1) obtain fls where "steps st' (st'\<lparr>todo := rest, flows := fls\<rparr>)" by auto
  then show ?thesis using d(4,5) by (intro exI[of _ "st'\<lparr>todo := rest, flows := fls\<rparr>"]) simp
qed

section \<open>Properties\<close>

text \<open>
  A run of the task center executes exactly the tasks that were queued when it
  started, each once and in the order of their submission; the tasks they schedule stay
  queued, in order, for the next run.
\<close>

theorem task_center_fifo:
  assumes "length ts < 2 ^ 31"
  shows "center_run exec (ts :: 't list) s = (snd (run_tasks exec ts s), fst (run_tasks exec ts s))"
  by (rule center_run_all[OF assms])

theorem task_center_fifo_witness:
  "center_run (\<lambda>t s. (s @ [t], [t + 10])) [1, 2, 3 :: nat] [] = ([11, 12, 13], [1, 2, 3])"
  by (subst task_center_fifo) simp_all

text \<open>
  Property C9. Whatever flows are submitted and however tasks, timers and received packets
  interleave, the action of a flow runs at most once, and once it has run it is queued
  nowhere. A flow that a timer and a packet both trigger therefore continues only once.
\<close>

theorem flow_runs_at_most_once:
  assumes "reachable (empty_reactor w) st"
  shows "distinct (trace st) \<and> list_all (\<lambda>i. Run_act i \<notin> set (todo st @ tasks st)) (trace st)"
proof -
  have "flow_inv (empty_reactor w)"
    by (simp add: empty_reactor_def flow_inv_def ids_ok_def uses_def)
  from reachable_inv[OF assms this] have u: "uses st i \<le> 1" for i
    unfolding flow_inv_def by (cases "is_called st i") (auto dest!: spec[of _ i])
  have "count_list (trace st) i \<le> 1" for i using u[of i] by (simp add: uses_def)
  then have d: "distinct (trace st)" by (rule distinct_count_list)
  have "Run_act i \<notin> set (todo st @ tasks st)" if "i \<in> set (trace st)" for i
  proof -
    have "0 < count_list (trace st) i" using that by (simp add: count_list_gr_0)
    then have "pend i (todo st) = 0" "pend i (tasks st) = 0" using u[of i] by (simp_all add: uses_def)
    then show ?thesis by (auto simp: pend_def filter_empty_conv)
  qed
  then show ?thesis using d by (simp add: list_all_iff)
qed

text \<open>A flow that waits for an event: its function appends the argument to the world.\<close>

definition note_arg :: "(nat, nat flow_arg list) func" where
  "note_arg a s = (s @ [a], Void)"

definition waiting_reactor :: "(nat, nat flow_arg list) reactor" where
  "waiting_reactor = submit_flow Immediate_runner (At_event 0) [note_arg] (empty_reactor [])"

definition twice_triggered :: "(nat, nat flow_arg list) reactor" where
  "twice_triggered =
     (let st1 = (flow_step ^^ 3) (waiting_reactor\<lparr>todo := [Trigge 0 (Arg 5)]\<rparr>) in
      (flow_step ^^ 3) (st1\<lparr>todo := [Trigge 0 (Arg 6)]\<rparr>))"

lemma waiting_reactor_eq:
  "waiting waiting_reactor = [(0, 0)]" "todo waiting_reactor = []"
  by code_simp+

lemma reachable_steps: "reachable st0 st \<Longrightarrow> reachable st0 ((flow_step ^^ k) st)"
  by (induction k) (auto intro: reachable.step)

theorem flow_runs_at_most_once_witness:
  "distinct (trace twice_triggered) \<and>
   list_all (\<lambda>i. Run_act i \<notin> set (todo twice_triggered @ tasks twice_triggered)) (trace twice_triggered)"
proof (rule flow_runs_at_most_once)
  let ?st0 = "empty_reactor [] :: (nat, nat flow_arg list) reactor"
  let ?st1 = "(flow_step ^^ 3) (waiting_reactor\<lparr>todo := [Trigge 0 (Arg 5)]\<rparr>)"
  have "reachable ?st0 waiting_reactor" unfolding waiting_reactor_def by (intro reachable.new reachable.start)
  then have "reachable ?st0 ?st1"
    by (intro reachable_steps reachable.event[where k = 0]) (simp_all add: waiting_reactor_eq)
  moreover have "todo ?st1 = []" "waiting ?st1 = [(0, 0)]" by code_simp+
  ultimately have "reachable ?st0 (?st1\<lparr>todo := [Trigge 0 (Arg 6)]\<rparr>)"
    by (intro reachable.event[of ?st0 ?st1 0 0]) simp_all
  then show "reachable ?st0 twice_triggered" unfolding twice_triggered_def Let_def by (rule reachable_steps)
qed

lemma twice_triggered_world: "world twice_triggered = [Arg 5]"
  by code_simp

text \<open>
  Property C10. On the immediate runner a submitted chain \<open>f1.then(f2)...\<close> ends and has
  exactly the effect of calling the functions one after the other, each with the value or
  the exception of the one before it; a flow that a function returns is run to its result
  first. Nothing is left to do and no task is queued.
\<close>

theorem flow_chain_sequential:
  assumes "chain_eval fs (Arg v) (world st) b s'" and "todo st = []"
  shows "\<exists>k. todo ((flow_step ^^ k) (submit_flow Immediate_runner (Imme v) fs st)) = [] \<and>
     tasks ((flow_step ^^ k) (submit_flow Immediate_runner (Imme v) fs st)) = tasks st \<and>
     world ((flow_step ^^ k) (submit_flow Immediate_runner (Imme v) fs st)) = s'"
proof -
  obtain h st1 l st2 where e: "alloc_flow Immediate_runner st = (h, st1)" "then_all Immediate_runner h fs st1 = (l, st2)"
    by (metis surj_pair)
  have st1: "h = length (flows st)" "st1 = st\<lparr>flows := flows st @ [new_flow Immediate_runner]\<rparr>"
    using e(1) by (simp_all add: alloc_flow_def)
  have h: "h = length (flows st1) - 1" "flows st1 \<noteq> []" "\<not> called (flows st1 ! h)" "act_func (flows st1 ! h) = None"
    by (simp_all add: st1 nth_append new_flow_def)
  note t = then_all_chain[OF h(1-3) e(2)]
  obtain fls where "st2 = st1\<lparr>flows := fls\<rparr>" using t by blast
  then have st2: "todo st2 = todo st" "tasks st2 = tasks st" "world st2 = world st" by (simp_all add: st1)
  let ?s = "submit_flow Immediate_runner (Imme v) fs st"
  have s: "?s = st2\<lparr>todo := [Trigge h (Arg v)]\<rparr>"
    using st2 assms(2) by (simp add: submit_flow_def e submit_def runner_schedule_def)
  have hl: "h \<le> l" using t by blast
  then have "[h..<Suc l] = h # [Suc h..<Suc l]" by (intro upt_conv_Cons) linarith
  then have hd: "hd [h..<Suc l] = h" by (metis list.sel(1))
  have la: "last [h..<Suc l] = l" "butlast [h..<Suc l] = [h..<l]" using hl by simp_all
  have "act_func (flows st2 ! l) = None" "l < length (flows st2)" using t h(4) by (auto simp: neq_Nil_conv)
  have c: "chain_at (flows ?s) [h..<Suc l] fs" using t[THEN conjunct1] by (simp add: s del: upt_Suc)
  obtain st3 where st3: "steps ?s st3" "chain_done ?s [h..<Suc l] b s' [] st3"
    using chain_runs[OF assms(1) c, of "Trigge h (Arg v)" "[]"] st2 hd by (auto simp: s gives_def)
  obtain st4 where "steps st3 st4" "todo st4 = []" "world st4 = s'" "tasks st4 = tasks ?s"
    using chain_done_drain[OF st3(2)] \<open>act_func (flows st2 ! l) = None\<close> \<open>l < length (flows st2)\<close> la by (auto simp: s)
  then have "steps ?s st4 \<and> todo st4 = [] \<and> tasks st4 = tasks st \<and> world st4 = s'"
    using steps_trans[OF st3(1)] st2 by (simp add: s)
  then show ?thesis unfolding steps_def by blast
qed

definition inc :: "(nat, nat flow_arg list) func" where
  "inc a s = (s @ [a], case a of Arg v \<Rightarrow> Result (v + 1) | _ \<Rightarrow> Raise ''no value'')"

definition sub_flow :: "(nat, nat flow_arg list) func" where
  "sub_flow a s = (s @ [a], Builder Immediate_runner (Imme 7) [inc])"

lemma example_chain:
  "chain_eval [inc, sub_flow, note_arg] (Arg 1) [] Monostate [Arg 1, Arg 2, Arg 7, Arg 8]"
proof (rule chain_eval.Result)
  show "inc (Arg 1) [] = ([Arg 1], Result 2)" by (simp add: inc_def)
  show "chain_eval [sub_flow, note_arg] (Arg 2) [Arg 1] Monostate [Arg 1, Arg 2, Arg 7, Arg 8]"
  proof (rule chain_eval.Imme)
    show "sub_flow (Arg 2) [Arg 1] = ([Arg 1, Arg 2], Builder Immediate_runner (Imme 7) [inc])" by (simp add: sub_flow_def)
    show "chain_eval [inc] (Arg 7) [Arg 1, Arg 2] (Arg 8) [Arg 1, Arg 2, Arg 7]"
      by (rule chain_eval.Result[OF _ chain_eval.Nil]) (simp add: inc_def)
    show "chain_eval [note_arg] (Arg 8) [Arg 1, Arg 2, Arg 7] Monostate [Arg 1, Arg 2, Arg 7, Arg 8]"
      by (rule chain_eval.Void[OF _ chain_eval.Nil]) (simp add: note_arg_def)
  qed
qed

theorem flow_chain_sequential_witness:
  "\<exists>k. todo ((flow_step ^^ k) (submit_flow Immediate_runner (Imme 1) [inc, sub_flow, note_arg] (empty_reactor []))) = [] \<and>
     tasks ((flow_step ^^ k) (submit_flow Immediate_runner (Imme 1) [inc, sub_flow, note_arg] (empty_reactor []))) =
       tasks (empty_reactor [] :: (nat, nat flow_arg list) reactor) \<and>
     world ((flow_step ^^ k) (submit_flow Immediate_runner (Imme 1) [inc, sub_flow, note_arg] (empty_reactor []))) =
       [Arg 1, Arg 2, Arg 7, Arg 8]"
  by (rule flow_chain_sequential) (use example_chain in \<open>simp_all add: empty_reactor_def\<close>)

text \<open>
  The main loop computes how long to sleep before it runs the tasks. With no
  timer at that moment and no task left afterwards it waits for events without a timeout
  (\<open>-1\<close>), whatever timers the tasks have added; such a timer fires only after some event.
\<close>

theorem proc_sleep_ignores_new_timers:
  assumes "length ts < 2 ^ 31" and "run_tasks exec ts ([], w) = ((q2, w2), [])"
  shows "proc_round pick call exec now1 now2 [] ts w = Some (- 1, q2, [], w2)"
proof -
  have "handle_timeout pick call now1 [] (ts, w) = Some ([], (ts, w), [])" by (rule handle_timeout_stop) simp
  then show ?thesis using assms by (simp add: proc_round_def nearest_delay_def center_run_all)
qed

theorem proc_sleep_ignores_new_timers_witness:
  "proc_round first_min (\<lambda>(c :: nat) s. (s, [])) (\<lambda>(t :: nat) (q, w). ((add_timer q (1000, 50, t), w), []))
     1000 1000 [] [3] () = Some (- 1, [\<lparr>timestamp = 1050, tcb = 3\<rparr>], [], ())"
  by (rule proc_sleep_ignores_new_timers) (simp_all add: add_timer_def new_timer_def compute_timestamp_def)

end
