(* ===== verification/Tcp_Session.thy ===== *)
theory Tcp_Session
  imports Ringbuffer
begin

text \<open>
  \<open>src/src/dpdk/net/tcp_session.hh\<close> and \<open>src/src/net/unsent_data.hh\<close>: a TCP session on
  the f-stack sockets, with its queues of packets to send and of handlers that wait for data.

  The f-stack calls are parameters: \<open>ff_write\<close> and \<open>ff_read\<close> are functions on a kernel
  state, the calls of \<open>ff_kevent\<close> and \<open>ff_close\<close> are recorded. What handlers and
  completion callbacks do is a parameter as well: they change the world and may use the
  session again, which is given as a list of requests.
\<close>

section \<open>Data still to be sent\<close>

record unsent_data =
  u_buf :: "byte list"
  u_len :: nat
  u_cur :: nat

definition unsent :: "byte list \<Rightarrow> unsent_data" where
  "unsent bs = \<lparr>u_buf = bs, u_len = length bs, u_cur = 0\<rparr>"

definition u_send_len :: "unsent_data \<Rightarrow> nat" where
  "u_send_len a = (if u_len a > u_cur a then u_len a - u_cur a else 0)"

definition u_head :: "unsent_data \<Rightarrow> byte list" where
  \<comment> \<open>the bytes at \<open>_buf + _cur\<close>, \<open>send_len()\<close> of them\<close>
  "u_head a = take (u_send_len a) (drop (u_cur a) (u_buf a))"

definition u_has_sent :: "unsent_data \<Rightarrow> nat" where
  "u_has_sent a = u_cur a"

definition u_done :: "unsent_data \<Rightarrow> bool" where
  "u_done a \<longleftrightarrow> u_len a \<le> u_cur a"

definition u_update :: "nat \<Rightarrow> unsent_data \<Rightarrow> unsent_data" where
  "u_update t a = a\<lparr>u_cur := (u_cur a + t) mod 2 ^ 64\<rparr>"

definition u_send :: "(byte list \<Rightarrow> int) \<Rightarrow> unsent_data \<Rightarrow> int \<times> unsent_data" where
  \<comment> \<open>passes \<open>_buf\<close>, not \<open>head()\<close>\<close>
  "u_send f a =
     (let l = f (take (szt (int (u_len a) - int (u_cur a))) (u_buf a)) in
      (l, if l > 0 then u_update (nat l) a else a))"

section \<open>The session\<close>

datatype kfilter = EVFILT_READ | EVFILT_WRITE
datatype kflag = EV_ADD | EV_DELETE | EV_ENABLE | EV_DISABLE
datatype sent = Sent unsent_data | Send_error

datatype ('h, 'f) request = Recv nat 'h | Send unsent_data 'f | Close

record ('h, 'f, 'k, 's) env =
  available :: "'h \<Rightarrow> 's \<Rightarrow> bool"
  handle :: "'h \<Rightarrow> ringbuffer \<Rightarrow> 's \<Rightarrow> ringbuffer \<times> 's \<times> ('h, 'f) request list"
  complete :: "'f \<Rightarrow> sent \<Rightarrow> 's \<Rightarrow> 's \<times> ('h, 'f) request list"
  ff_write :: "'k \<Rightarrow> byte list \<Rightarrow> 'k \<times> int \<times> int" \<comment> \<open>result and \<open>errno\<close>\<close>
  ff_read :: "'k \<Rightarrow> nat \<Rightarrow> 'k \<times> byte list \<times> int \<times> int" \<comment> \<open>bytes stored, result, \<open>errno\<close>\<close>

record ('h, 'f, 'k, 's) tcp_data =
  state :: int
  waiting_recv_tasks :: "(nat \<times> 'h) list"
  waiting_send_tasks :: "(unsent_data \<times> 'f) list"
  recv_buf :: ringbuffer
  kevents :: "(kfilter \<times> kflag) list" \<comment> \<open>the changes given to \<open>ff_kevent\<close>\<close>
  ff_closed :: nat \<comment> \<open>the calls of \<open>ff_close\<close>\<close>
  kernel :: 'k
  world :: 's

definition enable_write_event :: "bool \<Rightarrow> ('h, 'f, 'k, 's) tcp_data \<Rightarrow> ('h, 'f, 'k, 's) tcp_data" where
  "enable_write_event e d =
     (if state d = 0 then d
      else d\<lparr>kevents := kevents d @ [(EVFILT_WRITE, if e then EV_ENABLE else EV_DISABLE)]\<rparr>)"

definition schedule_recv :: "nat \<Rightarrow> 'h \<Rightarrow> ('h, 'f, 'k, 's) tcp_data \<Rightarrow> ('h, 'f, 'k, 's) tcp_data" where
  "schedule_recv need h d = d\<lparr>waiting_recv_tasks := waiting_recv_tasks d @ [(need, h)]\<rparr>"

definition schedule_send :: "unsent_data \<Rightarrow> 'f \<Rightarrow> ('h, 'f, 'k, 's) tcp_data \<Rightarrow> ('h, 'f, 'k, 's) tcp_data" where
  "schedule_send a f d =
     enable_write_event True (d\<lparr>waiting_send_tasks := waiting_send_tasks d @ [(a, f)]\<rparr>)"

definition data_close :: "('h, 'f, 'k, 's) tcp_data \<Rightarrow> ('h, 'f, 'k, 's) tcp_data" where
  "data_close d =
     (if state d = 0 then d
      else d\<lparr>state := 0, kevents := kevents d @ [(EVFILT_READ, EV_DELETE), (EVFILT_WRITE, EV_DELETE)],
             ff_closed := Suc (ff_closed d)\<rparr>)"

definition data_start :: "('h, 'f, 'k, 's) tcp_data \<Rightarrow> ('h, 'f, 'k, 's) tcp_data" where
  "data_start d =
     (if state d \<noteq> 0 then d
      else enable_write_event False
        (d\<lparr>state := 1, kevents := kevents d @ [(EVFILT_READ, EV_ADD), (EVFILT_WRITE, EV_ADD)]\<rparr>))"

definition do_request :: "('h, 'f, 'k, 's) tcp_data \<Rightarrow> ('h, 'f) request \<Rightarrow> ('h, 'f, 'k, 's) tcp_data" where
  "do_request d r =
     (case r of Recv need h \<Rightarrow> schedule_recv need h d | Send a f \<Rightarrow> schedule_send a f d | Close \<Rightarrow> data_close d)"

text \<open>The completion callback runs while its packet is still at the front.\<close>

definition complete_front :: "('h, 'f, 'k, 's) env \<Rightarrow> 'f \<Rightarrow> sent \<Rightarrow> ('h, 'f, 'k, 's) tcp_data \<Rightarrow> ('h, 'f, 'k, 's) tcp_data" where
  "complete_front E f r d =
     (let (w, rs) = complete E f r (world d); d = foldl do_request (d\<lparr>world := w\<rparr>) rs in
      d\<lparr>waiting_send_tasks := tl (waiting_send_tasks d)\<rparr>)"

partial_function (option) send_loop :: "('h, 'f, 'k, 's) env \<Rightarrow> ('h, 'f, 'k, 's) tcp_data \<Rightarrow> ('h, 'f, 'k, 's) tcp_data option" where
  "send_loop E d =
     (case waiting_send_tasks d of
        [] \<Rightarrow> Some d
      | (a, f) # rest \<Rightarrow>
          (let (k, n, errno) = ff_write E (kernel d) (u_head a); d = d\<lparr>kernel := k\<rparr> in
           if n > 0
           then let a' = u_update (nat n) a; d = d\<lparr>waiting_send_tasks := (a', f) # rest\<rparr> in
                if u_done a' then send_loop E (complete_front E f (Sent a') d) else Some d
           else if EAGAIN \<noteq> errno then send_loop E (complete_front E f Send_error d)
           else Some (data_close d)))"

definition on_send_event :: "('h, 'f, 'k, 's) env \<Rightarrow> ('h, 'f, 'k, 's) tcp_data \<Rightarrow> ('h, 'f, 'k, 's) tcp_data option" where
  "on_send_event E d =
     Option.bind (send_loop E d) (\<lambda>d. Some (enable_write_event (waiting_send_tasks d \<noteq> []) d))"

text \<open>The loop over the waiting handlers, and the event itself: the data are read to the
  read head of the buffer.\<close>

partial_function (option) recv_loop :: "('h, 'f, 'k, 's) env \<Rightarrow> ('h, 'f, 'k, 's) tcp_data \<Rightarrow> ('h, 'f, 'k, 's) tcp_data option" where
  "recv_loop E d =
     (case waiting_recv_tasks d of
        [] \<Rightarrow> Some d
      | (need, h) # rest \<Rightarrow>
          if rb_empty (recv_buf d) then Some d
          else if available E h (world d)
          then if need > rb_len (recv_buf d) then Some d
               else let (rb, w, rs) = handle E h (recv_buf d) (world d);
                        d = foldl do_request (d\<lparr>recv_buf := rb, world := w\<rparr>) rs in
                    recv_loop E (d\<lparr>waiting_recv_tasks := tl (waiting_recv_tasks d)\<rparr>)
          else recv_loop E (d\<lparr>waiting_recv_tasks := rest\<rparr>))"

definition on_recv_event :: "('h, 'f, 'k, 's) env \<Rightarrow> ('h, 'f, 'k, 's) tcp_data \<Rightarrow> ('h, 'f, 'k, 's) tcp_data option res" where
  "on_recv_event E d =
     (let (k, bs, len, errno) = ff_read E (kernel d) (rb_free_size (recv_buf d)); d = d\<lparr>kernel := k\<rparr> in
      rbind (rb_store (recv_buf d) (rb_read_head (recv_buf d)) bs) (\<lambda>rb.
        let d = d\<lparr>recv_buf := rb\<rparr> in
        if len = - 1 then Inr (Some (if errno = EAGAIN then d else data_close d))
        else if len = 0 then Inr (Some (data_close d))
        else rbind (rb_commit (nat len) rb) (\<lambda>rb. Inr (recv_loop E (d\<lparr>recv_buf := rb\<rparr>)))))"

text \<open>The callback of the event queue.\<close>

definition on_kevent :: "('h, 'f, 'k, 's) env \<Rightarrow> bool \<Rightarrow> kfilter \<Rightarrow> ('h, 'f, 'k, 's) tcp_data \<Rightarrow> ('h, 'f, 'k, 's) tcp_data option res" where
  "on_kevent E eof filt d =
     (if eof then Inr (Some (data_close d))
      else case filt of EVFILT_READ \<Rightarrow> on_recv_event E d | EVFILT_WRITE \<Rightarrow> Inr (on_send_event E d))"

text \<open>\<open>wait_packet\<close> gives the buffer at once (second component), or registers a handler and,
  for a positive timeout, asks for a timer; \<open>send_packet\<close> queues the data.\<close>

definition tcp_wait_packet :: "int \<Rightarrow> nat \<Rightarrow> 'h \<Rightarrow> ('h, 'f, 'k, 's) tcp_data \<Rightarrow> ('h, 'f, 'k, 's) tcp_data \<times> bool \<times> int option" where
  "tcp_wait_packet ms len h d =
     (if rb_empty (recv_buf d) \<or> rb_len (recv_buf d) < len
      then (schedule_recv len h d, False, if ms \<le> 0 then None else Some ms)
      else (d, True, None))"

definition tcp_send_packet :: "byte list \<Rightarrow> 'f \<Rightarrow> ('h, 'f, 'k, 's) tcp_data \<Rightarrow> ('h, 'f, 'k, 's) tcp_data" where
  "tcp_send_packet bs f d = schedule_send (unsent bs) f d"

declare send_loop.simps [code] recv_loop.simps [code]

section \<open>Sending\<close>

definition pending :: "(unsent_data \<times> 'f) list \<Rightarrow> byte list" where
  "pending ws = concat (map (u_head \<circ> fst) ws)"

text \<open>A packet that is not finished; its buffer holds at least \<open>_len\<close> bytes.\<close>

definition unsent_ok :: "unsent_data \<Rightarrow> bool" where
  "unsent_ok a \<longleftrightarrow> u_cur a < u_len a \<and> u_len a \<le> length (u_buf a) \<and> u_len a < 2 ^ 63"

text \<open>What \<open>ff_write\<close> promises: it accepts a prefix of the data, or nothing. \<open>out\<close> is what it has
  accepted so far.\<close>

definition write_ok :: "('h, 'f, 'k, 's) env \<Rightarrow> ('k \<Rightarrow> byte list) \<Rightarrow> bool" where
  "write_ok E out \<longleftrightarrow>
     (\<forall>k bs k' n errno. ff_write E k bs = (k', n, errno) \<longrightarrow>
        n \<le> int (length bs) \<and> out k' = out k @ take (nat n) bs)"

lemma u_head_length: "unsent_ok a \<Longrightarrow> length (u_head a) = u_len a - u_cur a"
  by (auto simp: unsent_ok_def u_head_def u_send_len_def min_def)

lemma u_update_head:
  assumes "unsent_ok a" and "n \<le> length (u_head a)"
  shows "u_head a = take n (u_head a) @ u_head (u_update n a)"
    and "u_done (u_update n a) \<longleftrightarrow> n = length (u_head a)"
    and "\<not> u_done (u_update n a) \<Longrightarrow> unsent_ok (u_update n a)"
proof -
  have l: "length (u_head a) = u_len a - u_cur a" "u_cur a < u_len a" "u_len a \<le> length (u_buf a)" "u_len a < 2 ^ 63"
    using assms(1) u_head_length by (auto simp: unsent_ok_def)
  have c: "(u_cur a + n) mod 2 ^ 64 = u_cur a + n" using assms(2) l by (intro mod_less) simp
  show "u_done (u_update n a) \<longleftrightarrow> n = length (u_head a)" using assms(2) l unfolding u_done_def u_update_def c by auto
  show "\<not> u_done (u_update n a) \<Longrightarrow> unsent_ok (u_update n a)" using l unfolding unsent_ok_def u_done_def u_update_def c by simp
  have "drop n (u_head a) = u_head (u_update n a)" using assms(2) l
    unfolding u_head_def u_send_len_def u_update_def c by (auto simp: drop_take add.commute)
  then show "u_head a = take n (u_head a) @ u_head (u_update n a)" by (metis append_take_drop_id)
qed

text \<open>Callbacks that do not send on this session again, and no errors but \<open>EAGAIN\<close>.\<close>

definition no_send :: "('h, 'f) request \<Rightarrow> bool" where
  "no_send r \<longleftrightarrow> (\<forall>a f. r \<noteq> Send a f)"

definition quiet :: "('h, 'f, 'k, 's) env \<Rightarrow> bool" where
  "quiet E \<longleftrightarrow> (\<forall>f r s. list_all no_send (snd (complete E f r s)))"

definition only_eagain :: "('h, 'f, 'k, 's) env \<Rightarrow> bool" where
  "only_eagain E \<longleftrightarrow> (\<forall>k bs k' n errno. ff_write E k bs = (k', n, errno) \<longrightarrow> n > 0 \<or> errno = EAGAIN)"

lemma data_close_simps [simp]:
  "waiting_send_tasks (data_close d) = waiting_send_tasks d" "kernel (data_close d) = kernel d"
  "world (data_close d) = world d" "recv_buf (data_close d) = recv_buf d"
  by (simp_all add: data_close_def)

lemma enable_write_event_simps [simp]:
  "waiting_send_tasks (enable_write_event e d) = waiting_send_tasks d" "kernel (enable_write_event e d) = kernel d"
  "world (enable_write_event e d) = world d" "recv_buf (enable_write_event e d) = recv_buf d"
  "state (enable_write_event e d) = state d" "ff_closed (enable_write_event e d) = ff_closed d"
  by (simp_all add: enable_write_event_def)

lemma do_request_no_send:
  "no_send r \<Longrightarrow> waiting_send_tasks (do_request d r) = waiting_send_tasks d \<and> kernel (do_request d r) = kernel d \<and>
     world (do_request d r) = world d"
  by (cases r) (auto simp: no_send_def do_request_def schedule_recv_def)

lemma do_requests_no_send:
  "list_all no_send rs \<Longrightarrow> waiting_send_tasks (foldl do_request d rs) = waiting_send_tasks d \<and>
     kernel (foldl do_request d rs) = kernel d \<and> world (foldl do_request d rs) = world d"
proof (induction rs arbitrary: d)
  case (Cons r rs)
  then show ?case using do_request_no_send[of r d] by simp
qed simp

lemma complete_front_quiet:
  assumes "quiet E"
  shows "waiting_send_tasks (complete_front E f r d) = tl (waiting_send_tasks d)" and "kernel (complete_front E f r d) = kernel d"
    and "world (complete_front E f r d) = fst (complete E f r (world d))"
proof -
  obtain w rs where c: "complete E f r (world d) = (w, rs)" by (cases "complete E f r (world d)")
  then have "list_all no_send rs" using assms by (metis quiet_def snd_conv)
  note q = do_requests_no_send[OF this, of "d\<lparr>world := w\<rparr>"]
  then show "waiting_send_tasks (complete_front E f r d) = tl (waiting_send_tasks d)"
    "kernel (complete_front E f r d) = kernel d" "world (complete_front E f r d) = fst (complete E f r (world d))"
    by (simp_all add: complete_front_def c Let_def)
qed

text \<open>The completions of a list of packets, in order.\<close>

fun completions :: "('h, 'f, 'k, 's) env \<Rightarrow> (unsent_data \<times> 'f) list \<Rightarrow> 's \<Rightarrow> 's" where
  "completions E [] s = s"
| "completions E ((a, f) # ws) s = completions E ws (fst (complete E f (Sent (a\<lparr>u_cur := u_len a\<rparr>)) s))"

lemma u_update_done:
  assumes "unsent_ok a" and "u_done (u_update n a)" and "n \<le> length (u_head a)"
  shows "u_update n a = a\<lparr>u_cur := u_len a\<rparr>"
proof -
  have "n = u_len a - u_cur a" using u_update_head(2)[OF assms(1,3)] assms(2) u_head_length[OF assms(1)] by simp
  then have "(u_cur a + n) mod 2 ^ 64 = u_len a" using assms(1) by (simp add: unsent_ok_def)
  then show ?thesis by (simp add: u_update_def)
qed

lemma send_loop_spec:
  assumes "write_ok E out" and "quiet E" and "only_eagain E"
  shows "list_all (unsent_ok \<circ> fst) (waiting_send_tasks d) \<Longrightarrow>
    \<exists>d' fin. send_loop E d = Some d' \<and> list_all (unsent_ok \<circ> fst) (waiting_send_tasks d') \<and>
      out (kernel d') @ pending (waiting_send_tasks d') = out (kernel d) @ pending (waiting_send_tasks d) \<and>
      map snd (waiting_send_tasks d) = map snd fin @ map snd (waiting_send_tasks d') \<and>
      fin = take (length fin) (waiting_send_tasks d) \<and> world d' = completions E fin (world d)"
proof (induction "waiting_send_tasks d" arbitrary: d)
  case Nil
  then show ?case by (intro exI[of _ d] exI[of _ "[]"]) (subst send_loop.simps, simp)
next
  case (Cons p rest)
  obtain a f where p: "p = (a, f)" by (cases p)
  note ws = Cons.hyps(2)[symmetric, unfolded p]
  have ok: "unsent_ok a" "list_all (unsent_ok \<circ> fst) rest" using Cons.prems ws by simp_all
  obtain k n errno where w: "ff_write E (kernel d) (u_head a) = (k, n, errno)" by (cases "ff_write E (kernel d) (u_head a)")
  have n: "n \<le> int (length (u_head a))" "out k = out (kernel d) @ take (nat n) (u_head a)" "n > 0 \<or> errno = EAGAIN"
    using assms(1,3) w unfolding write_ok_def only_eagain_def by blast+
  have n': "nat n \<le> length (u_head a)" using n(1) by simp
  note u = u_update_head[OF ok(1) n']
  let ?a = "u_update (nat n) a"
  let ?d = "d\<lparr>kernel := k, waiting_send_tasks := (?a, f) # rest\<rparr>"
  have pd: "pending (waiting_send_tasks d) = u_head a @ pending rest" by (simp add: pending_def ws)
  show ?case
  proof (cases "n > 0")
    case False
    then have "send_loop E d = Some (data_close (d\<lparr>kernel := k\<rparr>))" using n(3)
      by (subst send_loop.simps) (simp add: ws w Let_def)
    moreover have "out k = out (kernel d)" using n(2) False by simp
    ultimately show ?thesis using Cons.prems by (intro exI[of _ "data_close (d\<lparr>kernel := k\<rparr>)"] exI[of _ "[]"]) simp
  next
    case True
    show ?thesis
    proof (cases "u_done ?a")
      case False
      then have "send_loop E d = Some ?d" using True by (subst send_loop.simps) (simp add: ws w Let_def)
      moreover have "out k @ u_head ?a @ pending rest = out (kernel d) @ u_head a @ pending rest"
        using n(2) u(1) by simp
      ultimately show ?thesis using u(3)[OF False] ok(2) pd
        by (intro exI[of _ ?d] exI[of _ "[]"]) (simp add: ws pending_def)
    next
      case dn: True
      let ?c = "complete_front E f (Sent ?a) ?d"
      have e: "send_loop E d = send_loop E ?c" using True dn by (subst send_loop.simps) (simp add: ws w Let_def)
      note c = complete_front_quiet[OF assms(2), of f "Sent ?a" ?d]
      have "u_head ?a = []" using dn by (simp add: u_done_def u_head_def u_send_len_def)
      then have "out k = out (kernel d) @ u_head a" using n(2) u(1) by simp
      moreover have "?a = a\<lparr>u_cur := u_len a\<rparr>" by (rule u_update_done[OF ok(1) dn n'])
      moreover have "rest = waiting_send_tasks ?c" using c(1) by simp
      moreover have "list_all (unsent_ok \<circ> fst) (waiting_send_tasks ?c)" using c(1) ok(2) by simp
      ultimately obtain d' fin where ih: "send_loop E ?c = Some d'" "list_all (unsent_ok \<circ> fst) (waiting_send_tasks d')"
        "out (kernel d') @ pending (waiting_send_tasks d') = out (kernel d) @ u_head a @ pending rest"
        "map snd rest = map snd fin @ map snd (waiting_send_tasks d')" "fin = take (length fin) rest"
        "world d' = completions E ((a, f) # fin) (world d)"
        using Cons.hyps(1)[of ?c] c by auto
      show ?thesis using ih e pd by (intro exI[of _ d'] exI[of _ "(a, f) # fin"]) (simp add: ws)
    qed
  qed
qed

section \<open>Receiving\<close>

lemma rb_inv_store:
  assumes "rb_inv rb" and "length m = rb_capacity rb"
  shows "rb_inv (rb\<lparr>rb_buffer := m\<rparr>)"
  using assms by (simp add: rb_inv_def)

text \<open>Storing at the read head replaces the front of the unread data; committing then makes
  as many bytes behind them readable, whatever they are.\<close>

lemma store_read_head:
  assumes "rb_inv rb" and "length bs \<le> rb_free_size rb"
  shows "\<exists>rb1 rb2 stale. rb_store rb (rb_read_head rb) bs = Inr rb1 \<and> rb_commit (length bs) rb1 = Inr rb2 \<and> rb_inv rb2 \<and>
     rb_contents rb2 = bs @ drop (length bs) (rb_contents rb) @ stale \<and>
     length stale = min (length bs) (length (rb_contents rb))"
proof -
  let ?c = "rb_capacity rb" and ?h = "rb_head rb" and ?n = "length bs" and ?s = "nat (rb_size rb)"
  have i: "0 < ?c" "length (rb_buffer rb) = ?c" "?h < ?c" "?s \<le> ?c" "0 \<le> rb_size rb" using assms(1) by (auto simp: rb_inv_def)
  have n: "?n + ?s \<le> ?c" using assms i by (simp add: rb_free_size_inv)
  obtain m where m: "rb_store rb ?h bs = Inr (rb\<lparr>rb_buffer := m\<rparr>)" "length m = ?c"
    "\<And>i. i < ?n \<Longrightarrow> m ! ((?h + i) mod ?c) = bs ! i"
    "\<And>j. j < ?c \<Longrightarrow> \<forall>i < ?n. j \<noteq> (?h + i) mod ?c \<Longrightarrow> m ! j = rb_buffer rb ! j"
    using rb_store_spec[of rb ?h bs] i n by auto
  let ?rb1 = "rb\<lparr>rb_buffer := m\<rparr>"
  have inv1: "rb_inv ?rb1" by (rule rb_inv_store[OF assms(1) m(2)])
  have free: "?n \<le> rb_free_size ?rb1" using assms(2) by (simp add: rb_free_size_def)
  let ?rb2 = "?rb1\<lparr>rb_tail := (rb_tail rb + ?n) mod ?c, rb_size := rb_size rb + int ?n\<rparr>"
  have cm: "rb_commit ?n ?rb1 = Inr ?rb2" using rb_commit_ok[OF inv1 free] by simp
  have "rb_tail rb = (?h + ?s) mod ?c" using assms(1) by (simp add: rb_inv_def)
  then have "(rb_tail rb + ?n) mod ?c = (?h + nat (rb_size rb + int ?n)) mod ?c"
    using i(5) by (simp add: mod_add_left_eq nat_add_distrib add.assoc)
  then have inv2: "rb_inv ?rb2" using inv1 n i by (simp add: rb_inv_def nat_add_distrib)
  let ?g = "\<lambda>i. m ! ((?h + i) mod ?c)"
  have cont: "rb_contents ?rb2 = map ?g [0..<?n + ?s]"
    using i(5) by (simp add: rb_contents_def nat_add_distrib add.commute)
  have old: "?g j = rb_contents rb ! j" if "?n \<le> j" "j < ?s" for j
  proof -
    have "(?h + j) mod ?c \<noteq> (?h + i) mod ?c" if "i < ?n" for i
      using mod_add_inj[of j ?c i ?h] that \<open>?n \<le> j\<close> \<open>j < ?s\<close> i n by auto
    then show ?thesis using m(4)[of "(?h + j) mod ?c"] i that by (simp add: rb_contents_def)
  qed
  define stale where "stale = drop (max ?n ?s) (map ?g [0..<?n + ?s])"
  have "map ?g [0..<?n + ?s] = take (max ?n ?s) (map ?g [0..<?n + ?s]) @ stale" by (simp add: stale_def)
  also have "take (max ?n ?s) (map ?g [0..<?n + ?s]) = bs @ drop ?n (rb_contents rb)"
    by (rule nth_equalityI) (use m(3) old in \<open>auto simp: nth_append\<close>)
  finally have "rb_contents ?rb2 = bs @ drop ?n (rb_contents rb) @ stale" using cont by simp
  moreover have "length stale = min ?n (length (rb_contents rb))" by (auto simp: stale_def)
  ultimately show ?thesis using m(1) cm inv2 by (auto simp: rb_read_head_def)
qed

section \<open>Properties\<close>


definition echo_env :: "(nat, nat, byte list, nat list) env" where
  \<comment> \<open>a kernel that takes two bytes at a time; callbacks note their number\<close>
  "echo_env = \<lparr>available = \<lambda>h s. True, handle = \<lambda>h rb s. (rb, s @ [h], []), complete = \<lambda>f r s. (s @ [f], []),
     ff_write = \<lambda>k bs. if bs = [] then (k, - 1, EAGAIN) else (k @ take 2 bs, int (length (take 2 bs)), 0),
     ff_read = \<lambda>k n. (drop n k, take n k, int (length (take n k)), 0)\<rparr>"

definition echo_data :: "(nat, nat, byte list, nat list) tcp_data" where
  "echo_data = \<lparr>state = 1, waiting_recv_tasks = [], waiting_send_tasks = [(unsent [1, 2], 7), (unsent [3, 4, 5], 8)],
     recv_buf = rb_delayed_init, kevents = [], ff_closed = 0, kernel = [], world = []\<rparr>"

lemma echo_env_ok: "write_ok echo_env (\<lambda>k. k)" "quiet echo_env" "only_eagain echo_env"
  by (auto simp: write_ok_def quiet_def only_eagain_def echo_env_def min_def)


text \<open>
  Received bytes are stored at the read head: with unread data in the buffer
  they replace the first of these, and bytes that were never received become readable
  behind them. Only an empty buffer then holds what was received.
\<close>

theorem tcp_recv_overwrites_unread:
  assumes "rb_inv (recv_buf d)" and "waiting_recv_tasks d = []"
    and "ff_read E (kernel d) (rb_free_size (recv_buf d)) = (k, bs, int (length bs), errno)"
    and "bs \<noteq> []" and "length bs \<le> rb_free_size (recv_buf d)"
  shows "\<exists>d' stale. on_recv_event E d = Inr (Some d') \<and> rb_inv (recv_buf d') \<and>
     rb_contents (recv_buf d') = bs @ drop (length bs) (rb_contents (recv_buf d)) @ stale \<and>
     length stale = min (length bs) (length (rb_contents (recv_buf d)))"
proof -
  obtain rb1 rb2 stale where s: "rb_store (recv_buf d) (rb_read_head (recv_buf d)) bs = Inr rb1"
    "rb_commit (length bs) rb1 = Inr rb2" "rb_inv rb2"
    "rb_contents rb2 = bs @ drop (length bs) (rb_contents (recv_buf d)) @ stale"
    "length stale = min (length bs) (length (rb_contents (recv_buf d)))"
    using store_read_head[OF assms(1,5)] by blast
  let ?d = "d\<lparr>kernel := k, recv_buf := rb2\<rparr>"
  have "recv_loop E ?d = Some ?d" by (subst recv_loop.simps) (simp add: assms(2))
  then have "on_recv_event E d = Inr (Some ?d)" using assms(2-4) s(1,2) by (simp add: on_recv_event_def)
  then show ?thesis using s(3-5) by (intro exI[of _ ?d] exI[of _ stale]) simp
qed

definition echo_recv :: "(nat, nat, byte list, nat list) tcp_data" where
  \<comment> \<open>two unread bytes, two more arrive\<close>
  "echo_recv = echo_data\<lparr>kernel := [3, 4],
     recv_buf := \<lparr>rb_buffer = [1, 2, 0, 0, 0, 0, 0, 0], rb_capacity = 8, rb_head = 0, rb_tail = 2, rb_size = 2\<rparr>\<rparr>"

theorem tcp_recv_overwrites_unread_witness:
  "\<exists>d' stale. on_recv_event echo_env echo_recv = Inr (Some d') \<and> rb_inv (recv_buf d') \<and>
     rb_contents (recv_buf d') = [3, 4] @ drop (length [3 :: byte, 4]) (rb_contents (recv_buf echo_recv)) @ stale \<and>
     length stale = min (length [3 :: byte, 4]) (length (rb_contents (recv_buf echo_recv)))"
  by (rule tcp_recv_overwrites_unread)
    (simp_all add: echo_recv_def echo_data_def echo_env_def rb_inv_def rb_free_size_def)

text \<open>
  A write that would block (\<open>EAGAIN\<close>) closes the session: the socket is closed
  and the packet stays in the queue without its callback being called.
\<close>

theorem tcp_eagain_closes:
  assumes "waiting_send_tasks d = (a, f) # rest" and "state d \<noteq> 0"
    and "ff_write E (kernel d) (u_head a) = (k, - 1, EAGAIN)"
  shows "\<exists>d'. on_send_event E d = Some d' \<and> state d' = 0 \<and> ff_closed d' = Suc (ff_closed d) \<and>
     waiting_send_tasks d' = waiting_send_tasks d \<and> world d' = world d"
proof -
  have "send_loop E d = Some (data_close (d\<lparr>kernel := k\<rparr>))"
    using assms(1,3) by (subst send_loop.simps) simp
  then show ?thesis using assms(2) by (simp add: on_send_event_def) (simp add: data_close_def)
qed

theorem tcp_eagain_closes_witness:
  "\<exists>d'. on_send_event (echo_env\<lparr>ff_write := \<lambda>k bs. (k, - 1, EAGAIN)\<rparr>) echo_data = Some d' \<and> state d' = 0 \<and>
     ff_closed d' = Suc (ff_closed echo_data) \<and>
     waiting_send_tasks d' = waiting_send_tasks echo_data \<and> world d' = world echo_data"
  by (rule tcp_eagain_closes) (simp_all add: echo_data_def)

end
