(* ===== verification/Strto.thy ===== *)
theory Strto
  imports Prelude
begin

text \<open>
  \<open>src/3rd/freebsd/libkern/strtol.c\<close>, \<open>strtoul.c\<close>, \<open>strtoq.c\<close> and \<open>strtouq.c\<close>: conversion of
  strings to integers, on a machine with 64-bit \<open>long\<close>.

  A string is the list of bytes from \<open>nptr\<close> to the end of its object, so reading on behind
  the last byte is \<open>Undef\<close>. Each function returns the value and the offset of \<open>endptr\<close>. The
  four functions differ in their limits only; the scanning they share is defined once.
\<close>

section \<open>Characters\<close>

definition isspace :: "byte \<Rightarrow> bool" where
  "isspace c \<longleftrightarrow> c = 0x20 \<or> (c \<ge> 0x09 \<and> c \<le> 0x0d)"

definition isascii :: "byte \<Rightarrow> bool" where
  "isascii c \<longleftrightarrow> c < 0x80"

definition isupper :: "byte \<Rightarrow> bool" where
  "isupper c \<longleftrightarrow> c \<ge> 0x41 \<and> c \<le> 0x5a"

definition islower :: "byte \<Rightarrow> bool" where
  "islower c \<longleftrightarrow> c \<ge> 0x61 \<and> c \<le> 0x7a"

definition isalpha :: "byte \<Rightarrow> bool" where
  "isalpha c \<longleftrightarrow> isupper c \<or> islower c"

definition isdigit :: "byte \<Rightarrow> bool" where
  "isdigit c \<longleftrightarrow> c \<ge> 0x30 \<and> c \<le> 0x39"

section \<open>Scanning\<close>

fun skip_space :: "nat \<Rightarrow> byte list \<Rightarrow> (nat \<times> byte list) res" where
  "skip_space pos [] = Inl Undef"
| "skip_space pos (c # cs) = (if isspace c then skip_space (Suc pos) cs else Inr (pos, c # cs))"

definition strto_sign :: "nat \<Rightarrow> byte list \<Rightarrow> bool \<times> nat \<times> byte list" where
  "strto_sign pos cs =
     (if hd cs = 0x2d then (True, Suc pos, tl cs)
      else if hd cs = 0x2b then (False, Suc pos, tl cs)
      else (False, pos, cs))"

definition strto_prefix :: "int \<Rightarrow> nat \<Rightarrow> byte list \<Rightarrow> (int \<times> nat \<times> byte list) res" where
  "strto_prefix base pos cs =
     rbind (rd cs 0) (\<lambda>c.
     rbind (if (base = 0 \<or> base = 16) \<and> c = 0x30
            then rbind (rd cs 1) (\<lambda>x. Inr (x = 0x78 \<or> x = 0x58)) else Inr False) (\<lambda>hex.
       if hex then rbind (rd cs 2) (\<lambda>_. Inr (16, pos + 2, drop 2 cs))
       else Inr (if base = 0 then if c = 0x30 then 8 else 10 else base, pos, cs)))"

definition digit_val :: "byte \<Rightarrow> byte option" where
  "digit_val c =
     (if \<not> isascii c then None
      else if isdigit c then Some (c - 0x30)
      else if isalpha c then Some (c - (if isupper c then 0x41 - 10 else 0x61 - 10))
      else None)"

text \<open>The loop over the digits, at the character \<open>c\<close> at offset \<open>pos\<close>; \<open>any\<close> is negative after an
  overflow.\<close>

fun strto_loop :: "int \<Rightarrow> u64 \<Rightarrow> int \<Rightarrow> u64 \<Rightarrow> int \<Rightarrow> nat \<Rightarrow> byte list \<Rightarrow> (u64 \<times> int \<times> nat) res" where
  "strto_loop base cutoff cutlim acc any pos [] = Inl Undef"
| "strto_loop base cutoff cutlim acc any pos (c # cs) =
     (case digit_val c of
        None \<Rightarrow> Inr (acc, any, pos)
      | Some d \<Rightarrow>
          if uint d \<ge> base then Inr (acc, any, pos)
          else if any < 0 \<or> acc > cutoff \<or> (acc = cutoff \<and> uint d > cutlim)
          then strto_loop base cutoff cutlim acc (- 1) (Suc pos) cs
          else strto_loop base cutoff cutlim (acc * of_int base + ucast d) 1 (Suc pos) cs)"

text \<open>From the start of the string to the end of the digits; \<open>limit\<close> is the largest value for a
  number with or without a minus sign.\<close>

definition strto_scan :: "(bool \<Rightarrow> u64) \<Rightarrow> byte list \<Rightarrow> int \<Rightarrow> (bool \<times> u64 \<times> int \<times> nat) res" where
  "strto_scan limit nptr base =
     rbind (skip_space 0 nptr) (\<lambda>(pos, cs).
     let (neg, pos, cs) = strto_sign pos cs in
     rbind (strto_prefix base pos cs) (\<lambda>(base, pos, cs).
     let cutlim = sint (ucast (limit neg mod of_int base) :: u32); cutoff = limit neg div of_int base in
     rbind (strto_loop base cutoff cutlim 0 0 pos cs) (\<lambda>(acc, any, pos). Inr (neg, acc, any, pos))))"

definition strto_end :: "int \<Rightarrow> nat \<Rightarrow> nat" where
  "strto_end any pos = (if any \<noteq> 0 then pos else 0)"

section \<open>The four functions\<close>

definition LONG_MAX :: u64 where "LONG_MAX = 0x7fffffffffffffff"
definition LONG_MIN :: u64 where "LONG_MIN = 0x8000000000000000"
definition ULONG_MAX :: u64 where "ULONG_MAX = 0xffffffffffffffff"

definition strtol :: "byte list \<Rightarrow> int \<Rightarrow> (int \<times> nat) res" where
  "strtol nptr base =
     rbind (strto_scan (\<lambda>neg. if neg then - LONG_MIN else LONG_MAX) nptr base) (\<lambda>(neg, acc, any, pos).
     let acc = (if any < 0 then if neg then LONG_MIN else LONG_MAX else if neg then - acc else acc) in
     Inr (sint acc, strto_end any pos))"

definition strtoul :: "byte list \<Rightarrow> int \<Rightarrow> (u64 \<times> nat) res" where
  "strtoul nptr base =
     rbind (strto_scan (\<lambda>neg. ULONG_MAX) nptr base) (\<lambda>(neg, acc, any, pos).
     let acc = (if any < 0 then ULONG_MAX else if neg then - acc else acc) in
     Inr (acc, strto_end any pos))"

definition strtoq :: "byte list \<Rightarrow> int \<Rightarrow> (int \<times> nat) res" where
  "strtoq nptr base =
     rbind (strto_scan (\<lambda>neg. if neg then - (LONG_MIN + LONG_MAX) + LONG_MAX else LONG_MAX) nptr base) (\<lambda>(neg, acc, any, pos).
     let acc = (if any < 0 then if neg then LONG_MIN else LONG_MAX else if neg then - acc else acc) in
     Inr (sint acc, strto_end any pos))"

definition strtouq :: "byte list \<Rightarrow> int \<Rightarrow> (u64 \<times> nat) res" where
  "strtouq nptr base =
     rbind (strto_scan (\<lambda>neg. ULONG_MAX) nptr base) (\<lambda>(neg, acc, any, pos).
     let acc = (if any < 0 then ULONG_MAX else if neg then - acc else acc) in
     Inr (acc, strto_end any pos))"

lemma strto_quad: "strtoq = strtol" "strtouq = strtoul"
  by (intro ext; simp add: strtoq_def strtol_def strtouq_def strtoul_def LONG_MIN_def LONG_MAX_def cong: if_cong)+

section \<open>The value of a string of digits\<close>

lemma uint_cmp: "int b \<le> uint d \<longleftrightarrow> \<not> unat d < b" "int m < uint d \<longleftrightarrow> m < unat d" for d :: byte
  unfolding uint_nat by linarith+

definition is_digit :: "nat \<Rightarrow> byte \<Rightarrow> bool" where
  "is_digit b c \<longleftrightarrow> (case digit_val c of None \<Rightarrow> False | Some d \<Rightarrow> unat d < b)"

definition dval :: "byte \<Rightarrow> nat" where
  "dval c = (case digit_val c of None \<Rightarrow> 0 | Some d \<Rightarrow> unat d)"

definition digits_val :: "nat \<Rightarrow> nat \<Rightarrow> byte list \<Rightarrow> nat" where
  "digits_val b v ds = foldl (\<lambda>v c. v * b + dval c) v ds"

lemma digits_val_simps [simp]:
  "digits_val b v [] = v" "digits_val b v (c # ds) = digits_val b (v * b + dval c) ds"
  by (simp_all add: digits_val_def)

lemma digits_val_mono: "0 < b \<Longrightarrow> v \<le> digits_val b v ds"
proof (induction ds arbitrary: v)
  case (Cons c ds)
  have "v \<le> v * b" using Cons.prems by simp
  also have "\<dots> \<le> digits_val b (v * b + dval c) ds" using Cons.IH[OF Cons.prems, of "v * b + dval c"] by linarith
  finally show ?case by simp
qed simp

text \<open>The test against the cut-off values is the test against the limit.\<close>

lemma cutoff_test:
  fixes v d b L :: nat
  assumes "d < b"
  shows "v > L div b \<or> (v = L div b \<and> d > L mod b) \<longleftrightarrow> v * b + d > L"
proof -
  have L: "L = L div b * b + L mod b" by simp
  consider "v < L div b" | "v = L div b" | "v > L div b" by linarith
  then show ?thesis
  proof cases
    case 1
    then have "(v + 1) * b \<le> L div b * b" by (intro mult_right_mono) simp_all
    then show ?thesis using 1 assms L by (simp only: add_mult_distrib) linarith
  next
    case 2
    then have "v * b + L mod b = L" by simp
    then show ?thesis using 2 by linarith
  next
    case 3
    then have "(L div b + 1) * b \<le> v * b" by (intro mult_right_mono) simp_all
    moreover have "L mod b < b" using assms by simp
    moreover have "L = L div b * b + L mod b" by simp
    ultimately have "L < v * b" unfolding add_mult_distrib by linarith
    then show ?thesis using 3 by simp
  qed
qed

lemma strto_loop_stop:
  assumes "\<not> is_digit b c"
  shows "strto_loop (int b) cutoff cutlim acc any pos (c # cs) = Inr (acc, any, pos)"
  using assms by (auto simp: is_digit_def uint_cmp split: option.splits)

lemma strto_loop_overflow:
  assumes "list_all (is_digit b) ds" and "\<not> is_digit b r"
  shows "strto_loop (int b) cutoff cutlim acc (- 1) pos (ds @ r # rest) = Inr (acc, - 1, pos + length ds)"
  using assms(1)
proof (induction ds arbitrary: pos)
  case Nil
  then show ?case using strto_loop_stop[OF assms(2)] by simp
next
  case (Cons c ds)
  obtain d where d: "digit_val c = Some d" "unat d < b" using Cons.prems by (auto simp: is_digit_def split: option.splits)
  then show ?case using Cons by (simp add: uint_cmp)
qed

lemma strto_loop_spec:
  assumes "2 \<le> b" and "b \<le> 36" and "L < 2 ^ 64" and "\<not> is_digit b r"
  shows "list_all (is_digit b) ds \<Longrightarrow> v \<le> L \<Longrightarrow> 0 \<le> any \<Longrightarrow>
    \<exists>acc. strto_loop (int b) (of_nat (L div b)) (int (L mod b)) (of_nat v) any pos (ds @ r # rest) =
      Inr (acc, if digits_val b v ds \<le> L then if ds = [] then any else 1 else - 1, pos + length ds) \<and>
      (digits_val b v ds \<le> L \<longrightarrow> acc = of_nat (digits_val b v ds))"
proof (induction ds arbitrary: v any pos)
  case Nil
  then show ?case using strto_loop_stop[OF assms(4)] by simp
next
  case (Cons c ds)
  obtain d where d: "digit_val c = Some d" "unat d < b" using Cons.prems(1) by (auto simp: is_digit_def split: option.splits)
  then have dv: "dval c = unat d" by (simp add: dval_def)
  have "v < 2 ^ LENGTH(64)" "L div b < 2 ^ LENGTH(64)"
    using assms(3) Cons.prems(2) le_less_trans[OF div_le_dividend[of L b]] by simp_all
  then have w: "unat (of_nat v :: u64) = v" "unat (of_nat (L div b) :: u64) = L div b" by (simp_all only: unat_of_nat_small)
  have test: "(of_nat v :: u64) > of_nat (L div b) \<or> ((of_nat v :: u64) = of_nat (L div b) \<and> uint d > int (L mod b)) \<longleftrightarrow>
      v * b + unat d > L"
    unfolding word_less_nat_alt word_unat_eq_iff w uint_cmp by (rule cutoff_test[OF d(2)])
  show ?case
  proof (cases "v * b + unat d > L")
    case True
    have "L < digits_val b v (c # ds)" using digits_val_mono[of b "v * b + dval c" ds] True assms(1) by (simp add: dv)
    moreover have "strto_loop (int b) (of_nat (L div b)) (int (L mod b)) (of_nat v) any pos ((c # ds) @ r # rest) =
        Inr (of_nat v, - 1, Suc pos + length ds)"
      using strto_loop_overflow[OF _ assms(4), of ds] Cons.prems(1) d True test
      by (simp only: append_Cons strto_loop.simps option.case) (simp add: uint_cmp)
    ultimately show ?thesis by simp
  next
    case False
    have e: "of_nat v * of_int (int b) + ucast d = (of_nat (v * b + dval c) :: u64)"
      by (simp add: dv unsigned_of_nat)
    have s: "strto_loop (int b) (of_nat (L div b)) (int (L mod b)) (of_nat v) any pos ((c # ds) @ r # rest) =
       strto_loop (int b) (of_nat (L div b)) (int (L mod b)) (of_nat (v * b + dval c)) 1 (Suc pos) (ds @ r # rest)"
      using d False test Cons.prems(3) unfolding append_Cons strto_loop.simps d(1) option.case e by (auto simp: uint_cmp)
    show ?thesis using Cons.IH[of "v * b + dval c" 1 "Suc pos"] Cons.prems False unfolding s
      by (cases "ds = []") (auto simp: dv)
  qed
qed

section \<open>The whole scan\<close>

lemma skip_space_spec:
  "list_all isspace ws \<Longrightarrow> \<not> isspace c \<Longrightarrow> skip_space pos (ws @ c # cs) = Inr (pos + length ws, c # cs)"
  by (induction ws arbitrary: pos) simp_all

text \<open>A decimal, octal or other plain number: blanks, an optional sign, digits, and a character that
  is not a digit.\<close>

definition sign_ok :: "byte list \<Rightarrow> bool" where
  "sign_ok sg \<longleftrightarrow> sg = [] \<or> sg = [0x2d] \<or> sg = [0x2b]"

definition neg_sign :: "byte list \<Rightarrow> bool" where
  "neg_sign sg \<longleftrightarrow> sg = [0x2d]"

lemma digit_not_special:
  assumes "is_digit b c"
  shows "\<not> isspace c" "c \<noteq> 0x2d" "c \<noteq> 0x2b"
  using assms by (auto simp: is_digit_def digit_val_def isspace_def isdigit_def isalpha_def isupper_def islower_def
      word_le_nat_alt split: if_splits)

lemma sint_small_mod:
  assumes "2 \<le> b" and "b \<le> 36" and "L < 2 ^ 64"
  shows "sint (ucast (of_nat L mod of_int (int b) :: u64) :: u32) = int (L mod b)"
    and "(of_nat L :: u64) div of_int (int b) = of_nat (L div b)"
proof -
  have b: "unat (of_nat b :: u64) = b" "unat (of_nat L :: u64) = L" using assms by (simp_all add: unat_of_nat_small)
  have "unat (of_nat L mod of_int (int b) :: u64) = L mod b" by (simp add: unat_mod_distrib b)
  moreover have lt: "L mod b < 36" using assms(1,2) mod_less_divisor[of b L] by linarith
  ultimately have m: "(of_nat L mod of_int (int b) :: u64) = of_nat (L mod b)"
    by (simp only: word_unat_eq_iff) (simp add: unat_of_nat_small)
  have "(ucast (of_nat (L mod b) :: u64) :: u32) = of_nat (L mod b)"
    unfolding word_unat_eq_iff using lt by (simp add: unat_ucast_small unat_of_nat_small)
  then show "sint (ucast (of_nat L mod of_int (int b) :: u64) :: u32) = int (L mod b)"
    unfolding m using sint_of_nat_small[where 'a = 32, of "L mod b"] lt by simp
  have "unat ((of_nat L :: u64) div of_int (int b)) = L div b" by (simp add: unat_div_distrib b)
  moreover have "L div b < 2 ^ 64" using assms(3) le_less_trans[OF div_le_dividend] by blast
  ultimately show "(of_nat L :: u64) div of_int (int b) = of_nat (L div b)"
    by (simp only: word_unat_eq_iff) (simp add: unat_of_nat_small)
qed

lemma strto_scan_spec:
  assumes ws: "list_all isspace ws" and sg: "sign_ok sg" and b: "2 \<le> b" "b \<le> 36"
    and ds: "ds \<noteq> []" "list_all (is_digit b) ds" and r: "\<not> is_digit b r"
    and hex: "b \<noteq> 16 \<or> hd ds \<noteq> 0x30 \<or> tl ds \<noteq> [] \<or> (r \<noteq> 0x78 \<and> r \<noteq> 0x58)"
    and L: "limit (neg_sign sg) = of_nat L" "L < 2 ^ 64"
  shows "\<exists>acc. strto_scan limit (ws @ sg @ ds @ r # rest) (int b) =
     Inr (neg_sign sg, acc, if digits_val b 0 ds \<le> L then 1 else - 1, length ws + length sg + length ds) \<and>
     (digits_val b 0 ds \<le> L \<longrightarrow> acc = of_nat (digits_val b 0 ds))"
proof -
  obtain c cs where c: "ds = c # cs" using ds(1) by (cases ds) auto
  have dc: "is_digit b c" using ds(2) c by simp
  note nc = digit_not_special[OF dc]
  obtain e es where e: "sg @ ds @ r # rest = e # es" "\<not> isspace e"
    using sg nc(1) c by (auto simp: sign_ok_def isspace_def)
  have 1: "skip_space 0 (ws @ sg @ ds @ r # rest) = Inr (length ws, sg @ ds @ r # rest)"
    using skip_space_spec[OF ws e(2), of 0 es] e(1) by simp
  have 2: "strto_sign (length ws) (sg @ ds @ r # rest) = (neg_sign sg, length ws + length sg, ds @ r # rest)"
    using sg nc c by (auto simp: sign_ok_def strto_sign_def neg_sign_def)
  have x: "hd (cs @ [r]) \<noteq> 0x78 \<and> hd (cs @ [r]) \<noteq> 0x58" if "b = 16" "c = 0x30"
  proof (cases cs)
    case Nil
    then show ?thesis using hex c that by simp
  next
    case (Cons c2 cs2)
    then have "is_digit 16 c2" using ds(2) c that by simp
    then show ?thesis using Cons by (auto simp: is_digit_def digit_val_def isascii_def isdigit_def isalpha_def isupper_def islower_def)
  qed
  have 3: "strto_prefix (int b) pos (ds @ r # rest) = Inr (int b, pos, ds @ r # rest)" for pos
    using x b by (cases cs) (auto simp: strto_prefix_def c)
  obtain acc where "strto_loop (int b) (of_nat (L div b)) (int (L mod b)) 0 0 (length ws + length sg) (ds @ r # rest) =
      Inr (acc, if digits_val b 0 ds \<le> L then 1 else - 1, length ws + length sg + length ds)"
    "digits_val b 0 ds \<le> L \<longrightarrow> acc = of_nat (digits_val b 0 ds)"
    using strto_loop_spec[OF b L(2) r ds(2), of 0 0 "length ws + length sg" rest] ds(1) by auto
  then show ?thesis unfolding strto_scan_def 1 rbind_Inr prod.case 2 Let_def 3 L(1) sint_small_mod[OF b L(2)]
    by simp
qed

lemma sint_neg_of_nat:
  assumes "v \<le> 2 ^ 63"
  shows "sint (- (of_nat v :: u64)) = - int v"
proof (cases "v = 2 ^ 63")
  case True
  then show ?thesis by simp
next
  case False
  then have "int v < 2 ^ 63" using assms by (metis le_neq_implies_less of_nat_less_iff of_nat_numeral of_nat_power)
  then have "signed_take_bit 63 (- int v) = - int v" by (intro signed_take_bit_int_eq_self) simp_all
  moreover have "- (of_nat v :: u64) = of_int (- int v)" by simp
  ultimately show ?thesis by (simp only: signed_of_int) simp
qed

section \<open>Properties\<close>

text \<open>
  Property C35. On blanks, an optional sign, digits of the base and a character that is no such
  digit, the conversions return the value of the digits with the sign and the position
  behind the digits; values outside the range of \<open>long\<close> are clamped to its ends, values above
  the range of \<open>unsigned long\<close> to its maximum. The string must not be read as one with a
  \<open>0x\<close> prefix.
\<close>

theorem strto_value:
  assumes "list_all isspace ws" and "sign_ok sg" and "2 \<le> b" and "b \<le> 36"
    and "ds \<noteq> []" and "list_all (is_digit b) ds" and "\<not> is_digit b r"
    and "b \<noteq> 16 \<or> hd ds \<noteq> 0x30 \<or> tl ds \<noteq> [] \<or> (r \<noteq> 0x78 \<and> r \<noteq> 0x58)"
  shows "strtol (ws @ sg @ ds @ r # rest) (int b) =
      Inr (if neg_sign sg then max (- (2 ^ 63)) (- int (digits_val b 0 ds)) else min (2 ^ 63 - 1) (int (digits_val b 0 ds)),
           length ws + length sg + length ds) \<and>
    strtoul (ws @ sg @ ds @ r # rest) (int b) =
      Inr (if digits_val b 0 ds \<ge> 2 ^ 64 then - 1
           else if neg_sign sg then - of_nat (digits_val b 0 ds) else of_nat (digits_val b 0 ds),
           length ws + length sg + length ds)"
proof
  let ?v = "digits_val b 0 ds" and ?neg = "neg_sign sg"
  let ?L = "if ?neg then 2 ^ 63 else 2 ^ 63 - 1 :: nat"
  have L: "(if ?neg then - LONG_MIN else LONG_MAX) = of_nat ?L" "?L < 2 ^ 64"
    by (simp_all add: LONG_MIN_def LONG_MAX_def)
  obtain acc where s: "strto_scan (\<lambda>neg. if neg then - LONG_MIN else LONG_MAX) (ws @ sg @ ds @ r # rest) (int b) =
     Inr (?neg, acc, if ?v \<le> ?L then 1 else - 1, length ws + length sg + length ds)" "?v \<le> ?L \<longrightarrow> acc = of_nat ?v"
    using strto_scan_spec[OF assms, where limit = "\<lambda>neg. if neg then - LONG_MIN else LONG_MAX", OF L] by blast
  have pos: "sint (of_nat ?v :: u64) = int ?v" if "?v \<le> 2 ^ 63 - 1"
    using sint_of_nat_small[where 'a = 64, of ?v] that by simp
  have lim: "sint LONG_MIN = - (2 ^ 63)" "sint LONG_MAX = 2 ^ 63 - 1" by (simp_all add: LONG_MIN_def LONG_MAX_def)
  show "strtol (ws @ sg @ ds @ r # rest) (int b) =
      Inr (if ?neg then max (- (2 ^ 63)) (- int ?v) else min (2 ^ 63 - 1) (int ?v), length ws + length sg + length ds)"
    unfolding strtol_def s(1) using s(2) pos sint_neg_of_nat[of ?v] lim
    by (cases ?neg; cases "?v \<le> ?L") (auto simp: strto_end_def max_def min_def)
  have U: "ULONG_MAX = of_nat (2 ^ 64 - 1)" "(2 :: nat) ^ 64 - 1 < 2 ^ 64" by (simp_all add: ULONG_MAX_def)
  obtain acc where s: "strto_scan (\<lambda>neg. ULONG_MAX) (ws @ sg @ ds @ r # rest) (int b) =
     Inr (?neg, acc, if ?v \<le> 2 ^ 64 - 1 then 1 else - 1, length ws + length sg + length ds)" "?v \<le> 2 ^ 64 - 1 \<longrightarrow> acc = of_nat ?v"
    using strto_scan_spec[OF assms, where limit = "\<lambda>neg. ULONG_MAX", OF U] by blast
  show "strtoul (ws @ sg @ ds @ r # rest) (int b) =
      Inr (if ?v \<ge> 2 ^ 64 then - 1 else if ?neg then - of_nat ?v else of_nat ?v, length ws + length sg + length ds)"
    unfolding strtoul_def s(1) using s(2) by (cases "?v \<le> 2 ^ 64 - 1") (auto simp: strto_end_def ULONG_MAX_def)
qed

theorem strto_value_witness:
  "strtol ([0x20] @ [0x2d] @ [0x31, 0x32, 0x33] @ 0 # []) (int 10) = Inr (- 123, 5) \<and>
   strtoul ([0x20] @ [0x2d] @ [0x31, 0x32, 0x33] @ 0 # []) (int 10) = Inr (- 123, 5)"
proof -
  have d: "digits_val 10 0 [0x31, 0x32, 0x33] = 123" by code_simp
  have "list_all isspace [0x20]" "sign_ok [0x2d]" "list_all (is_digit 10) [0x31, 0x32, 0x33]" "\<not> is_digit 10 0"
    by code_simp+
  then show ?thesis using strto_value[of "[0x20]" "[0x2d]" 10 "[0x31, 0x32, 0x33]" 0 "[]"]
    unfolding d by (simp add: neg_sign_def del: append.simps digits_val_simps)
qed

end
