(* ===== verification/Inet.thy ===== *)
theory Inet
  imports Strto
begin

text \<open>
  Internet addresses as text: \<open>inet_pton.c\<close>, \<open>inet_ntop.c\<close>, \<open>inet_aton.c\<close> and \<open>inet_ntoa.c\<close>
  under \<open>src/3rd/freebsd/libkern\<close>.

  Strings are byte lists that end with a NUL; a read behind the list and a write behind a
  local array are \<open>Undef\<close>. \<open>None\<close> stands for the result 0 of the readers (the address
  is not valid) and for the null pointer of the printers.
\<close>

unbundle bit_operations_syntax

section \<open>Printing and reading digits\<close>

text \<open>\<open>%u\<close>, \<open>%d\<close> and \<open>%x\<close> of \<open>printf\<close>, for a value that is not negative.\<close>

definition digit_char :: "nat \<Rightarrow> byte" where
  "digit_char d = (if d < 10 then of_nat (0x30 + d) else of_nat (0x61 + (d - 10)))"

function fmt_base :: "nat \<Rightarrow> nat \<Rightarrow> byte list" where
  "fmt_base b n = (if b < 2 \<or> n < b then [digit_char n] else fmt_base b (n div b) @ [digit_char (n mod b)])"
  by pat_completeness auto
termination by (relation "measure (\<lambda>(b, n). n)") auto

declare fmt_base.simps [simp del]

definition fmt_dotted :: "byte list \<Rightarrow> nat \<Rightarrow> byte list res" where
  "fmt_dotted src i =
     rbind (rd src i) (\<lambda>a. rbind (rd src (i + 1)) (\<lambda>b. rbind (rd src (i + 2)) (\<lambda>c. rbind (rd src (i + 3)) (\<lambda>d.
     Inr (fmt_base 10 (unat a) @ [0x2e] @ fmt_base 10 (unat b) @ [0x2e] @ fmt_base 10 (unat c) @ [0x2e] @ fmt_base 10 (unat d))))))"

text \<open>\<open>strchr\<close> in the strings of decimal and hexadecimal digits.\<close>

definition digit10 :: "byte \<Rightarrow> nat option" where
  "digit10 c = (if c \<ge> 0x30 \<and> c \<le> 0x39 then Some (unat (c - 0x30)) else None)"

definition xdigit :: "byte \<Rightarrow> nat option" where
  "xdigit c =
     (if c \<ge> 0x30 \<and> c \<le> 0x39 then Some (unat (c - 0x30))
      else if c \<ge> 0x61 \<and> c \<le> 0x66 then Some (unat (c - 0x61) + 10)
      else if c \<ge> 0x41 \<and> c \<le> 0x46 then Some (unat (c - 0x41) + 10)
      else None)"

section \<open>inet\_pton\<close>

text \<open>The loop of \<open>inet_pton4\<close>; \<open>tmp\<close> starts as zeros, of which only the first is initialised in
  the source; the others are set to 0 before they are read.\<close>

fun pton4_loop :: "byte list \<Rightarrow> bool \<Rightarrow> nat \<Rightarrow> nat \<Rightarrow> byte list \<Rightarrow> (nat \<times> byte list) option res" where
  "pton4_loop [] saw_digit octets tp tmp = Inl Undef"
| "pton4_loop (ch # src) saw_digit octets tp tmp =
     (if ch = 0 then Inr (Some (octets, tmp))
      else case digit10 ch of
        Some d \<Rightarrow>
          rbind (rd tmp tp) (\<lambda>cur.
            let new = unat cur * 10 + d in
            if saw_digit \<and> cur = 0 then Inr None
            else if new > 255 then Inr None
            else if saw_digit then pton4_loop src True octets tp (tmp[tp := of_nat new])
            else if octets + 1 > 4 then Inr None
            else pton4_loop src True (octets + 1) tp (tmp[tp := of_nat new]))
      | None \<Rightarrow>
          if ch = 0x2e \<and> saw_digit
          then if octets = 4 then Inr None
               else rbind (wr tmp (tp + 1) 0) (\<lambda>tmp. pton4_loop src False octets (tp + 1) tmp)
          else Inr None)"

definition inet_pton4 :: "byte list \<Rightarrow> byte list option res" where
  "inet_pton4 src =
     rbind (pton4_loop src False 0 0 [0, 0, 0, 0]) (\<lambda>r.
     Inr (case r of None \<Rightarrow> None | Some (octets, tmp) \<Rightarrow> if octets < 4 then None else Some tmp))"

definition put2 :: "byte list \<Rightarrow> nat \<Rightarrow> u32 \<Rightarrow> byte list res" where
  "put2 tmp tp val =
     rbind (wr tmp tp (ucast (drop_bit 8 val) AND 0xff)) (\<lambda>tmp. wr tmp (tp + 1) (ucast val AND 0xff))"

fun put_bytes :: "byte list \<Rightarrow> nat \<Rightarrow> byte list \<Rightarrow> byte list res" where
  "put_bytes tmp tp [] = Inr tmp"
| "put_bytes tmp tp (b # bs) = rbind (wr tmp tp b) (\<lambda>tmp. put_bytes tmp (tp + 1) bs)"

fun pton6_loop :: "byte list \<Rightarrow> byte list \<Rightarrow> nat \<Rightarrow> u32 \<Rightarrow> nat \<Rightarrow> nat option \<Rightarrow> byte list \<Rightarrow>
    (nat \<times> u32 \<times> nat \<times> nat option \<times> byte list) option res" where
  "pton6_loop [] curtok seen val tp colonp tmp = Inl Undef"
| "pton6_loop (ch # src) curtok seen val tp colonp tmp =
     (if ch = 0 then Inr (Some (seen, val, tp, colonp, tmp))
      else case xdigit ch of
        Some d \<Rightarrow>
          let val = push_bit 4 val OR of_nat d in
          if seen + 1 > 4 then Inr None else pton6_loop src curtok (seen + 1) val tp colonp tmp
      | None \<Rightarrow>
          if ch = 0x3a then
            (if seen = 0
             then if colonp \<noteq> None then Inr None else pton6_loop src src seen val tp (Some tp) tmp
             else rbind (rd src 0) (\<lambda>c.
               if c = 0 then Inr None
               else if tp + 2 > 16 then Inr None
               else rbind (put2 tmp tp val) (\<lambda>tmp. pton6_loop src src 0 0 (tp + 2) colonp tmp)))
          else if ch = 0x2e \<and> tp + 4 \<le> 16 then
            rbind (inet_pton4 curtok) (\<lambda>r.
              case r of None \<Rightarrow> Inr None
              | Some bs \<Rightarrow> rbind (put_bytes tmp tp bs) (\<lambda>tmp. Inr (Some (0, val, tp + 4, colonp, tmp))))
          else Inr None)"

declare pton6_loop.simps(2) [simp del]

definition pton6_shift :: "byte list \<Rightarrow> nat \<Rightarrow> nat \<Rightarrow> byte list" where
  \<comment> \<open>\<open>for (i = 1; i <= n; i++) endp[-i] = colonp[n-i], colonp[n-i] = 0\<close>\<close>
  "pton6_shift tmp colonp n =
     foldl (\<lambda>tmp i. tmp[16 - i := tmp ! (colonp + n - i), colonp + n - i := 0]) tmp [1..<Suc n]"

text \<open>What \<open>inet_pton6\<close> does after its loop.\<close>

definition pton6_finish :: "(nat \<times> u32 \<times> nat \<times> nat option \<times> byte list) option \<Rightarrow> byte list option res" where
  "pton6_finish r =
     (case r of None \<Rightarrow> Inr None
      | Some (seen, val, tp, colonp, tmp) \<Rightarrow>
          if seen \<noteq> 0 \<and> tp + 2 > 16 then Inr None
          else rbind (if seen \<noteq> 0 then put2 tmp tp val else Inr tmp) (\<lambda>tmp.
            let tp = (if seen \<noteq> 0 then tp + 2 else tp) in
            case colonp of
              Some cp \<Rightarrow> if tp = 16 then Inr None else Inr (Some (pton6_shift tmp cp (tp - cp)))
            | None \<Rightarrow> if tp \<noteq> 16 then Inr None else Inr (Some tmp)))"

definition inet_pton6 :: "byte list \<Rightarrow> byte list option res" where
  "inet_pton6 src0 =
     rbind (rd src0 0) (\<lambda>c0.
     rbind (if c0 = 0x3a then rbind (rd src0 1) (\<lambda>c1. Inr (if c1 \<noteq> 0x3a then None else Some (tl src0)))
            else Inr (Some src0)) (\<lambda>start.
     case start of None \<Rightarrow> Inr None
     | Some src \<Rightarrow> rbind (pton6_loop src src 0 0 0 None (replicate 16 0)) pton6_finish))"

definition AF_INET :: int where "AF_INET = 2"
definition AF_INET6 :: int where "AF_INET6 = 28"

definition inet_pton :: "int \<Rightarrow> byte list \<Rightarrow> (int \<times> byte list option) res" where
  \<comment> \<open>the result and what is stored at \<open>dst\<close>\<close>
  "inet_pton af src =
     (let ret = (\<lambda>r. Inr (case r of None \<Rightarrow> (0, None) | Some bs \<Rightarrow> (1, Some bs))) in
      if af = AF_INET then rbind (inet_pton4 src) ret
      else if af = AF_INET6 then rbind (inet_pton6 src) ret
      else Inr (- 1, None))"

section \<open>inet\_ntop\<close>

definition inet_ntop4 :: "byte list \<Rightarrow> nat \<Rightarrow> nat \<Rightarrow> byte list option res" where
  \<comment> \<open>the address at offset \<open>i\<close> of \<open>src\<close>\<close>
  "inet_ntop4 src i sz =
     rbind (fmt_dotted src i) (\<lambda>s. Inr (if length s \<ge> sz then None else Some (s @ [0])))"

definition ntop6_words :: "byte list \<Rightarrow> u32 list" where
  "ntop6_words src =
     foldl (\<lambda>ws i. ws[i div 2 := ws ! (i div 2) OR push_bit ((1 - i mod 2) * 8) (ucast (src ! i))])
       (replicate 8 0) [0..<16]"

record zero_run =
  base :: int
  len :: int

definition ntop6_best_step :: "u32 list \<Rightarrow> zero_run \<times> zero_run \<Rightarrow> nat \<Rightarrow> zero_run \<times> zero_run" where
  "ntop6_best_step ws bc i =
     (let (best, cur) = bc in
      if ws ! i = 0
      then if base cur = - 1 then (best, \<lparr>base = int i, len = 1\<rparr>) else (best, cur\<lparr>len := len cur + 1\<rparr>)
      else if base cur \<noteq> - 1
      then (if base best = - 1 \<or> len cur > len best then cur else best, cur\<lparr>base := - 1\<rparr>)
      else (best, cur))"

definition ntop6_best :: "u32 list \<Rightarrow> zero_run" where
  "ntop6_best ws =
     (let none = \<lparr>base = - 1, len = 0\<rparr>;
          (best, cur) = foldl (ntop6_best_step ws) (none, none) [0..<8];
          best = (if base cur \<noteq> - 1 then if base best = - 1 \<or> len cur > len best then cur else best else best)
      in if base best \<noteq> - 1 \<and> len best < 2 then best\<lparr>base := - 1\<rparr> else best)"

text \<open>The loop that formats the words from number \<open>i\<close> on; \<open>n\<close> of them are left and \<open>out\<close> is the
  text so far. The array \<open>tmp\<close> has 46 bytes.\<close>

fun ntop6_loop :: "byte list \<Rightarrow> u32 list \<Rightarrow> zero_run \<Rightarrow> nat \<Rightarrow> nat \<Rightarrow> byte list \<Rightarrow> byte list option res" where
  "ntop6_loop src ws best 0 i out = Inr (Some out)"
| "ntop6_loop src ws best (Suc n) i out =
     (if base best \<noteq> - 1 \<and> int i \<ge> base best \<and> int i < base best + len best
      then ntop6_loop src ws best n (Suc i) (if int i = base best then out @ [0x3a] else out)
      else let out = (if i \<noteq> 0 then out @ [0x3a] else out) in
           if i = 6 \<and> base best = 0 \<and>
              (len best = 6 \<or> (len best = 7 \<and> ws ! 7 \<noteq> 0x0001) \<or> (len best = 5 \<and> ws ! 5 = 0xffff))
           then rbind (inet_ntop4 src 12 (46 - length out)) (\<lambda>r.
                  case r of None \<Rightarrow> Inr None | Some s \<Rightarrow> Inr (Some (out @ takeWhile (\<lambda>b. b \<noteq> 0) s)))
           else ntop6_loop src ws best n (Suc i) (out @ fmt_base 16 (unat (ws ! i))))"

declare ntop6_loop.simps(2) [simp del]

definition inet_ntop6 :: "byte list \<Rightarrow> nat \<Rightarrow> byte list option res" where
  "inet_ntop6 src sz =
     (if length src < 16 then Inl Undef
      else let ws = ntop6_words src; best = ntop6_best ws in
      rbind (ntop6_loop src ws best 8 0 []) (\<lambda>r.
      case r of None \<Rightarrow> Inr None
      | Some out \<Rightarrow>
          let out = (if base best \<noteq> - 1 \<and> base best + len best = 8 then out @ [0x3a] else out) @ [0] in
          if length out > 46 then Inl Undef
          else if length out > sz then Inr None else Inr (Some out)))"

definition inet_ntop :: "int \<Rightarrow> byte list \<Rightarrow> nat \<Rightarrow> byte list option res" where
  "inet_ntop af src sz =
     (if af = AF_INET then inet_ntop4 src 0 sz
      else if af = AF_INET6 then inet_ntop6 src sz
      else Inr None)"

section \<open>inet\_aton and inet\_ntoa\<close>

definition inet_ntoa :: "byte list \<Rightarrow> byte list res" where
  \<comment> \<open>the static buffer has 16 bytes\<close>
  "inet_ntoa ucp = rbind (fmt_dotted ucp 0) (\<lambda>s. if length s + 1 > 16 then Inl Undef else Inr (s @ [0]))"

definition inet_ntoa_r :: "byte list \<Rightarrow> nat \<Rightarrow> byte list res" where
  \<comment> \<open>into a buffer of \<open>cap\<close> bytes\<close>
  "inet_ntoa_r ucp cap = rbind (fmt_dotted ucp 0) (\<lambda>s. if length s + 1 > cap then Inl Undef else Inr (s @ [0]))"

text \<open>The loop over the parts; at most four are read, so \<open>4 - n\<close> bounds it. The parts read so far
  are \<open>parts\<close>, and \<open>val\<close> is the last of them.\<close>

function aton_loop :: "byte list \<Rightarrow> u64 list \<Rightarrow> (u64 list \<times> u32) option res" where
  "aton_loop c parts =
     rbind (strtoul c 0) (\<lambda>(l, endp).
       if l = ULONG_MAX \<or> (l = 0 \<and> endp = 0) then Inr None
       else let val = (ucast l :: u32) in
       if endp = 0 then Inr None
       else let parts' = parts @ [ucast val] in
       rbind (rd c endp) (\<lambda>ch.
         if ch = 0x2e then (if length parts \<ge> 3 then Inr None else aton_loop (drop (endp + 1) c) parts')
         else if ch = 0 \<or> isspace ch then Inr (Some (parts', val))
         else Inr None))"
  by pat_completeness auto
termination by (relation "measure (\<lambda>(c, parts). 4 - length parts)") auto

declare aton_loop.simps [simp del]

definition aton_value :: "u64 list \<Rightarrow> u32 \<Rightarrow> u32 option" where
  "aton_value parts val =
     (let p = (\<lambda>i. parts ! i); n = length parts - 1; sh = (\<lambda>i k. ucast (push_bit k (p i)) :: u32) in
      if n = 0 then Some val
      else if n = 1 then if val > 0xffffff \<or> p 0 > 0xff then None else Some (val OR sh 0 24)
      else if n = 2 then if val > 0xffff \<or> p 0 > 0xff \<or> p 1 > 0xff then None else Some (val OR (sh 0 24 OR sh 1 16))
      else if val > 0xff \<or> p 0 > 0xff \<or> p 1 > 0xff \<or> p 2 > 0xff then None
      else Some (val OR (sh 0 24 OR sh 1 16 OR sh 2 8)))"

definition inet_aton :: "byte list \<Rightarrow> u32 option res" where
  \<comment> \<open>the address in host order; \<open>htonl\<close> stores it most significant byte first\<close>
  "inet_aton cp = rbind (aton_loop cp []) (\<lambda>r. Inr (case r of None \<Rightarrow> None | Some (parts, val) \<Rightarrow> aton_value parts val))"

section \<open>Digits read back\<close>

fun bdigits :: "nat \<Rightarrow> nat \<Rightarrow> nat \<Rightarrow> nat list" where
  \<comment> \<open>at most \<open>k + 1\<close> digits\<close>
  "bdigits b 0 n = [n]"
| "bdigits b (Suc k) n = (if n < b then [n] else bdigits b k (n div b) @ [n mod b])"

lemma fmt_base_bdigits: "2 \<le> b \<Longrightarrow> n < b ^ Suc k \<Longrightarrow> fmt_base b n = map digit_char (bdigits b k n)"
proof (induction b k n rule: bdigits.induct)
  case (1 b n)
  then show ?case by (subst fmt_base.simps) simp
next
  case (2 b k n)
  have "n div b < b ^ Suc k" using 2(2,3) by (simp add: less_mult_imp_div_less mult.commute)
  then show ?case using 2 by (subst fmt_base.simps) simp
qed

lemma bdigits_bound: "2 \<le> b \<Longrightarrow> n < b ^ Suc k \<Longrightarrow> list_all (\<lambda>d. d < b) (bdigits b k n) \<and> length (bdigits b k n) \<le> Suc k"
proof (induction b k n rule: bdigits.induct)
  case (2 b k n)
  have "n div b < b ^ Suc k" using 2(2,3) by (simp add: less_mult_imp_div_less mult.commute)
  then show ?case using 2 by auto
qed simp

lemma bdigits_value: "foldl (\<lambda>v d. v * b + d) 0 (bdigits b k n) = n"
  by (induction b k n rule: bdigits.induct) simp_all

lemma bdigits_ne [simp]: "bdigits b k n \<noteq> []"
  by (cases k) auto

lemma digit_char_props:
  assumes "d < 16"
  shows "xdigit (digit_char d) = Some d" "digit_char d \<noteq> 0" "digit_char d \<noteq> 0x3a" "digit_char d \<noteq> 0x2e"
proof -
  have "d \<in> set [0..<16]" using assms by simp
  moreover have "list_all (\<lambda>d. xdigit (digit_char d) = Some d \<and> digit_char d \<noteq> 0 \<and> digit_char d \<noteq> 0x3a \<and> digit_char d \<noteq> 0x2e) [0..<16]"
    by code_simp
  ultimately show "xdigit (digit_char d) = Some d" "digit_char d \<noteq> 0" "digit_char d \<noteq> 0x3a" "digit_char d \<noteq> 0x2e"
    unfolding list_all_iff by blast+
qed

lemma digit10_char: "d < 10 \<Longrightarrow> digit10 (digit_char d) = Some d"
proof -
  assume "d < 10"
  then have "d \<in> set [0..<10]" by simp
  moreover have "list_all (\<lambda>d. digit10 (digit_char d) = Some d) [0..<10]" by code_simp
  ultimately show ?thesis unfolding list_all_iff by blast
qed

text \<open>A decimal octet, from the first digit to the character behind it.\<close>

lemma foldl_decimal_mono: "x \<le> foldl (\<lambda>v d. v * 10 + d) x ds" for x :: nat
proof (induction ds arbitrary: x)
  case (Cons d ds)
  have "x \<le> x * 10 + d" by simp
  then show ?case using Cons[of "x * 10 + d"] by simp
qed simp

lemma pton4_octet_more:
  assumes "list_all (\<lambda>d. d < 10) ds" and "tp < length tmp" and "0 < v" and "foldl (\<lambda>v d. v * 10 + d) v ds < 256"
  shows "pton4_loop (map digit_char ds @ rest) True k tp (tmp[tp := of_nat v]) =
    pton4_loop rest True k tp (tmp[tp := of_nat (foldl (\<lambda>v d. v * 10 + d) v ds)])"
  using assms
proof (induction ds arbitrary: v)
  case (Cons d ds)
  have d: "d < 10" using Cons.prems by simp
  then have c: "digit10 (digit_char d) = Some d" "digit_char d \<noteq> 0" by (simp_all add: digit10_char digit_char_props)
  have v: "v * 10 + d < 256" using foldl_decimal_mono[of "v * 10 + d" ds] Cons.prems(4) by simp
  then have u: "unat (of_nat v :: byte) = v" by (simp add: unat_of_nat_small)
  then have nz: "(of_nat v :: byte) \<noteq> 0" using Cons.prems(3) by (metis unsigned_0 less_irrefl)
  show ?case using Cons.IH[of "v * 10 + d"] Cons.prems c u nz v by (simp add: Let_def)
qed simp

lemma pton4_octet:
  assumes "n < 256" and "tp < length tmp" and "tmp ! tp = 0" and "k < 4"
  shows "pton4_loop (fmt_base 10 n @ rest) False k tp tmp = pton4_loop rest True (Suc k) tp (tmp[tp := of_nat n])"
proof -
  have n: "n < 10 ^ Suc 2" using assms(1) by simp
  obtain d ds where e: "bdigits 10 2 n = d # ds" by (cases "bdigits 10 2 n") auto
  have b: "d < 10" "list_all (\<lambda>d. d < 10) ds" using bdigits_bound[OF _ n] e by simp_all
  have val: "foldl (\<lambda>v d. v * 10 + d) d ds = n" using bdigits_value[of 10 2 n] e by simp
  have z: "ds = []" if "d = 0" using that e by (auto simp: numeral_2_eq_2 split: if_splits)
  have f: "fmt_base 10 n @ rest = digit_char d # (map digit_char ds @ rest)" using fmt_base_bdigits[OF _ n] e by simp
  have c: "digit10 (digit_char d) = Some d" "digit_char d \<noteq> 0" using b(1) by (simp_all add: digit10_char digit_char_props)
  have "pton4_loop (fmt_base 10 n @ rest) False k tp tmp =
      pton4_loop (map digit_char ds @ rest) True (Suc k) tp (tmp[tp := of_nat d])"
    unfolding f using c assms(2-4) b(1) by (simp add: Let_def)
  also have "\<dots> = pton4_loop rest True (Suc k) tp (tmp[tp := of_nat n])"
  proof (cases "d = 0")
    case True
    then show ?thesis using z val by simp
  next
    case False
    then show ?thesis using pton4_octet_more[OF b(2) assms(2), of d rest "Suc k"] val assms(1) by simp
  qed
  finally show ?thesis .
qed

lemma digit10_dot: "digit10 0x2e = None"
  by code_simp

lemma pton4_dot:
  "Suc tp < length tmp \<Longrightarrow> k < 4 \<Longrightarrow> pton4_loop (0x2e # rest) True k tp tmp = pton4_loop rest False k (Suc tp) (tmp[Suc tp := 0])"
  by (simp add: digit10_dot)

definition dotted :: "byte \<Rightarrow> byte \<Rightarrow> byte \<Rightarrow> byte \<Rightarrow> byte list" where
  "dotted a b c d = fmt_base 10 (unat a) @ [0x2e] @ fmt_base 10 (unat b) @ [0x2e] @ fmt_base 10 (unat c) @ [0x2e] @ fmt_base 10 (unat d)"

lemma inet_pton4_dotted: "inet_pton4 (dotted a b c d @ 0 # rest) = Inr (Some [a, b, c, d])"
proof -
  have u: "unat x < 256" for x :: byte using unsigned_less[of x] by simp
  have "pton4_loop (dotted a b c d @ 0 # rest) False 0 0 [0, 0, 0, 0] = Inr (Some (4, [a, b, c, d]))"
    unfolding dotted_def append_assoc append_Cons append_Nil
    by (simp only: pton4_octet[OF u] pton4_dot length_list_update list_update_code nth_Cons_0 nth_Cons_Suc list.size
        numeral_3_eq_3 numeral_2_eq_2 One_nat_def zero_less_Suc Suc_less_eq add_Suc_right add_0_right zero_less_numeral)
      (simp add: pton4_octet[OF u] pton4_dot)
  then show ?thesis by (simp add: inet_pton4_def)
qed

section \<open>Groups of hexadecimal digits\<close>

definition grp :: "u32 \<Rightarrow> byte list" where
  "grp w = fmt_base 16 (unat w)"

definition bytes2 :: "u32 \<Rightarrow> byte list" where
  "bytes2 w = [ucast (drop_bit 8 w) AND 0xff, ucast w AND 0xff]"

lemma bytes2_length [simp]: "length (bytes2 w) = 2"
  by (simp add: bytes2_def)

text \<open>The array \<open>tmp\<close> when \<open>out\<close> has been stored.\<close>

definition tmp16 :: "byte list \<Rightarrow> byte list" where
  "tmp16 out = out @ replicate (16 - length out) 0"

lemma shift_or:
  assumes "d < 2 ^ k"
  shows "push_bit k (of_nat v :: u32) OR of_nat d = of_nat (v * 2 ^ k + d)"
proof -
  have "push_bit k (of_nat v :: u32) AND of_nat d = 0"
  proof (rule bit_eqI)
    fix n
    have "\<not> bit d n" if "k \<le> n"
    proof -
      have "(2 :: nat) ^ k \<le> 2 ^ n" using that by (rule power_increasing) simp
      with assms have "d < 2 ^ n" by (rule less_le_trans)
      then show ?thesis by (simp add: bit_iff_odd)
    qed
    then show "bit (push_bit k (of_nat v :: u32) AND of_nat d) n = bit (0 :: u32) n"
      by (auto simp: bit_and_iff bit_push_bit_iff bit_of_nat_iff)
  qed
  then have "push_bit k (of_nat v :: u32) OR of_nat d = push_bit k (of_nat v) + of_nat d"
    by (rule disjunctive_add_eq_or[symmetric])
  then show ?thesis by (simp add: push_bit_eq_mult)
qed

lemma pton6_digits:
  assumes "list_all (\<lambda>d. d < 16) ds" and "seen + length ds \<le> 4" and "v < 16 ^ seen"
  shows "pton6_loop (map digit_char ds @ rest) curtok seen (of_nat v) tp colonp tmp =
    pton6_loop rest curtok (seen + length ds) (of_nat (foldl (\<lambda>v d. v * 16 + d) v ds)) tp colonp tmp"
  using assms
proof (induction ds arbitrary: seen v)
  case (Cons d ds)
  have d: "d < 16" using Cons.prems by simp
  have "v * 16 + d < 16 ^ Suc seen" using Cons.prems(3) d by simp
  then show ?case using Cons.IH[of "Suc seen" "v * 16 + d"] Cons.prems d shift_or[of d 4 v]
    by (simp add: pton6_loop.simps(2) digit_char_props Let_def)
qed simp

lemma grp_props:
  assumes "unat w < 65536"
  shows "grp w \<noteq> []" "length (grp w) \<le> 4" "hd (grp w) \<noteq> 0" "hd (grp w) \<noteq> 0x3a"
    and "pton6_loop (grp w @ rest) curtok 0 0 tp colonp tmp = pton6_loop rest curtok (length (grp w)) w tp colonp tmp"
proof -
  have n: "unat w < 16 ^ Suc 3" using assms by simp
  let ?ds = "bdigits 16 3 (unat w)"
  have g: "grp w = map digit_char ?ds" unfolding grp_def by (rule fmt_base_bdigits[OF _ n]) simp
  have b: "list_all (\<lambda>d. d < 16) ?ds" "length ?ds \<le> 4" using bdigits_bound[OF _ n] by simp_all
  show "grp w \<noteq> []" "length (grp w) \<le> 4" using b by (simp_all add: g)
  obtain d ds where e: "?ds = d # ds" by (cases ?ds) auto
  then have "d < 16" using b(1) by simp
  then show "hd (grp w) \<noteq> 0" "hd (grp w) \<noteq> 0x3a" by (simp_all add: g e digit_char_props)
  have "of_nat (foldl (\<lambda>v d. v * 16 + d) 0 ?ds) = w" by (simp add: bdigits_value)
  then show "pton6_loop (grp w @ rest) curtok 0 0 tp colonp tmp = pton6_loop rest curtok (length (grp w)) w tp colonp tmp"
    using pton6_digits[OF b(1), of 0 0 rest curtok tp colonp tmp] b(2) by (simp add: g)
qed

lemma put2_tmp16:
  assumes "length out + 2 \<le> 16"
  shows "put2 (tmp16 out) (length out) w = Inr (tmp16 (out @ bytes2 w))"
proof -
  define k where "k = 14 - length out"
  have k: "16 - length out = Suc (Suc k)" using assms by (simp add: k_def)
  then have "16 - length (out @ bytes2 w) = k" by (simp add: bytes2_def)
  then show ?thesis by (simp add: put2_def tmp16_def k bytes2_def wr_def list_update_append nth_append)
qed

lemma xdigit_colon: "xdigit 0x3a = None" "xdigit 0x2e = None"
  by code_simp+

lemma pton6_group:
  assumes "unat w < 65536" and "length out + 2 \<le> 16" and "c \<noteq> 0"
  shows "pton6_loop (grp w @ 0x3a # c # rest) curtok 0 0 (length out) colonp (tmp16 out) =
    pton6_loop (c # rest) (c # rest) 0 0 (length (out @ bytes2 w)) colonp (tmp16 (out @ bytes2 w))"
  using grp_props(1)[OF assms(1)] assms(2,3)
  by (subst grp_props(5)[OF assms(1)], subst pton6_loop.simps(2))
    (simp add: xdigit_colon put2_tmp16)

definition pre :: "u32 list \<Rightarrow> byte list" where
  "pre ws = concat (map (\<lambda>w. grp w @ [0x3a]) ws)"

definition small :: "u32 list \<Rightarrow> bool" where
  "small ws \<longleftrightarrow> list_all (\<lambda>w. unat w < 65536) ws"

lemma pton6_pre:
  assumes "small ws" and "length out + 2 * length ws \<le> 16" and "c \<noteq> 0" and "ws = [] \<Longrightarrow> curtok = c # rest"
  shows "pton6_loop (pre ws @ c # rest) curtok 0 0 (length out) colonp (tmp16 out) =
    pton6_loop (c # rest) (c # rest) 0 0 (length out + 2 * length ws) colonp (tmp16 (out @ concat (map bytes2 ws)))"
  using assms
proof (induction ws arbitrary: out curtok)
  case (Cons w ws)
  have w: "unat w < 65536" "small ws" using Cons.prems(1) by (simp_all add: small_def)
  obtain e es where e: "pre ws @ c # rest = e # es" "e \<noteq> 0"
  proof (cases ws)
    case Nil
    then show ?thesis using that Cons.prems(3) by (simp add: pre_def)
  next
    case (Cons w2 ws2)
    then have "unat w2 < 65536" using w(2) by (simp add: small_def)
    note g = grp_props(1,3)[OF this]
    then obtain x xs where "grp w2 = x # xs" "x \<noteq> 0" by (cases "grp w2") auto
    then show ?thesis using that Cons by (simp add: pre_def)
  qed
  have "pton6_loop (pre (w # ws) @ c # rest) curtok 0 0 (length out) colonp (tmp16 out) =
      pton6_loop (e # es) (e # es) 0 0 (length (out @ bytes2 w)) colonp (tmp16 (out @ bytes2 w))"
    using pton6_group[OF w(1) _ e(2), of out es curtok colonp] Cons.prems(2) e(1) by (simp add: pre_def)
  also have "\<dots> = pton6_loop (c # rest) (c # rest) 0 0 (length (out @ bytes2 w) + 2 * length ws) colonp
      (tmp16 ((out @ bytes2 w) @ concat (map bytes2 ws)))"
    unfolding e(1)[symmetric] by (rule Cons.IH) (use Cons.prems w e(1) in \<open>auto simp: pre_def\<close>)
  finally show ?case by simp
qed (simp add: pre_def)

section \<open>The end of an address\<close>

text \<open>What follows the zero run, or the whole address: groups with colons between them, or groups
  and a dotted quad.\<close>

definition tail_ok :: "byte list \<Rightarrow> byte list \<Rightarrow> bool" where
  "tail_ok txt bs \<longleftrightarrow>
     (txt = [] \<and> bs = []) \<or>
     (\<exists>ws w. small (ws @ [w]) \<and> txt = pre ws @ grp w \<and> bs = concat (map bytes2 (ws @ [w]))) \<or>
     (\<exists>ws a b c d. small ws \<and> txt = pre ws @ dotted a b c d \<and> bs = concat (map bytes2 ws) @ [a, b, c, d])"

definition pton6_result :: "byte list \<Rightarrow> nat option \<Rightarrow> byte list option res" where
  "pton6_result out colonp =
     (case colonp of
        Some cp \<Rightarrow> if length out = 16 then Inr None else Inr (Some (pton6_shift (tmp16 out) cp (length out - cp)))
      | None \<Rightarrow> if length out \<noteq> 16 then Inr None else Inr (Some (tmp16 out)))"

lemma concat_bytes2_length [simp]: "length (concat (map bytes2 ws)) = 2 * length ws"
  by (induction ws) simp_all

lemma put_bytes_tmp16:
  "length out + length bs \<le> 16 \<Longrightarrow> put_bytes (tmp16 out) (length out) bs = Inr (tmp16 (out @ bs))"
proof (induction bs arbitrary: out)
  case (Cons b bs)
  define k where "k = 15 - length out"
  have k: "16 - length out = Suc k" "16 - length (out @ [b]) = k" using Cons.prems by (simp_all add: k_def)
  have "wr (tmp16 out) (length out) b = Inr (tmp16 (out @ [b]))" by (simp add: tmp16_def wr_def k del: length_append) (simp add: list_update_append k)
  then show ?case using Cons.IH[of "out @ [b]"] Cons.prems by simp
qed simp

lemma unat_byte: "unat (a :: byte) < 256"
  using unsigned_less[of a, where 'a = nat] by simp

lemma dotted_hd: "\<exists>d ds. dotted a b c e = digit_char d # ds \<and> d < 10"
proof -
  have n: "unat a < 10 ^ Suc 2" using unat_byte[of a] by simp
  obtain d ds where e: "bdigits 10 2 (unat a) = d # ds" by (cases "bdigits 10 2 (unat a)") auto
  have "d < 10" using bdigits_bound[OF _ n] e by simp
  then show ?thesis using fmt_base_bdigits[OF _ n] e by (auto simp: dotted_def)
qed

lemma pton6_dotted:
  assumes "length out + 4 \<le> 16"
  shows "\<exists>val. pton6_loop (dotted a b c d @ [0]) (dotted a b c d @ [0]) 0 0 (length out) colonp (tmp16 out) =
     Inr (Some (0, val, length (out @ [a, b, c, d]), colonp, tmp16 (out @ [a, b, c, d])))"
proof -
  have n: "unat a < 10 ^ Suc 2" using unat_byte[of a] by simp
  let ?ds = "bdigits 10 2 (unat a)"
  obtain rest where r: "dotted a b c d @ [0] = map digit_char ?ds @ 0x2e # rest"
    using fmt_base_bdigits[OF _ n] by (simp add: dotted_def)
  have b: "list_all (\<lambda>d. d < 10) ?ds" "length ?ds \<le> 3" using bdigits_bound[OF _ n] by simp_all
  have b16: "list_all (\<lambda>d. d < 16) ?ds" using b(1) by (auto simp: list_all_iff)
  let ?v = "of_nat (foldl (\<lambda>v d. v * 16 + d) 0 ?ds) :: u32"
  have "pton6_loop (dotted a b c d @ [0]) (dotted a b c d @ [0]) 0 0 (length out) colonp (tmp16 out) =
      pton6_loop (0x2e # rest) (dotted a b c d @ [0]) (length ?ds) ?v (length out) colonp (tmp16 out)"
    using pton6_digits[OF b16, of 0 0 "0x2e # rest"] b(2) unfolding r by simp
  also have "\<dots> = Inr (Some (0, ?v, length (out @ [a, b, c, d]), colonp, tmp16 (out @ [a, b, c, d])))"
    using assms put_bytes_tmp16[of out "[a, b, c, d]"]
    by (subst pton6_loop.simps(2)) (simp add: xdigit_colon inet_pton4_dotted)
  finally show ?thesis by blast
qed

lemma pton6_tail:
  assumes "tail_ok txt bs" and "length out + length bs \<le> 16"
  shows "rbind (pton6_loop (txt @ [0]) (txt @ [0]) 0 0 (length out) colonp (tmp16 out)) pton6_finish =
    pton6_result (out @ bs) colonp"
proof -
  consider "txt = []" "bs = []"
    | ws w where "small (ws @ [w])" "txt = pre ws @ grp w" "bs = concat (map bytes2 (ws @ [w]))"
    | ws a b c d where "small ws" "txt = pre ws @ dotted a b c d" "bs = concat (map bytes2 ws) @ [a, b, c, d]"
    using assms(1) unfolding tail_ok_def by blast
  then show ?thesis
  proof cases
    case 1
    then show ?thesis by (simp add: pton6_loop.simps(2) pton6_finish_def pton6_result_def split: option.splits)
  next
    case 2
    have w: "unat w < 65536" "small ws" using 2(1) by (simp_all add: small_def)
    obtain x xs where g: "grp w = x # xs" "x \<noteq> 0" using grp_props(1,3)[OF w(1)] by (cases "grp w") auto
    let ?out = "out @ concat (map bytes2 ws)"
    have l: "length ?out + 2 \<le> 16" using assms(2) 2(3) by simp
    have "pton6_loop (txt @ [0]) (txt @ [0]) 0 0 (length out) colonp (tmp16 out) =
        pton6_loop (grp w @ [0]) (grp w @ [0]) 0 0 (length ?out) colonp (tmp16 ?out)"
      using pton6_pre[OF w(2) _ g(2), of out "txt @ [0]" "xs @ [0]" colonp] assms(2) 2 g(1) by (simp add: pre_def)
    also have "\<dots> = Inr (Some (length (grp w), w, length ?out, colonp, tmp16 ?out))"
      by (simp add: grp_props(5)[OF w(1)] pton6_loop.simps(2))
    finally show ?thesis using put2_tmp16[OF l, of w] l grp_props(1)[OF w(1)] 2(3)
      by (simp add: pton6_finish_def pton6_result_def Let_def split: option.splits)
  next
    case 3
    obtain e es where e: "dotted a b c d = digit_char e # es" "e < 10" using dotted_hd by blast
    let ?out = "out @ concat (map bytes2 ws)"
    have l: "length ?out + 4 \<le> 16" using assms(2) 3(3) by simp
    have "pton6_loop (txt @ [0]) (txt @ [0]) 0 0 (length out) colonp (tmp16 out) =
        pton6_loop (dotted a b c d @ [0]) (dotted a b c d @ [0]) 0 0 (length ?out) colonp (tmp16 ?out)"
      using pton6_pre[OF 3(1), of out "digit_char e" "txt @ [0]" "es @ [0]" colonp] assms(2) 3 e
      by (simp add: pre_def digit_char_props)
    then show ?thesis using pton6_dotted[OF l, of a b c d colonp] 3(3)
      by (auto simp: pton6_finish_def pton6_result_def split: option.splits)
  qed
qed

text \<open>Moving the bytes behind the \<open>::\<close> to the end.\<close>

lemma pton6_shift_steps:
  assumes "length A + length B + z = 16" and "0 < z" and "i \<le> length B"
  shows "foldl (\<lambda>tmp i. tmp[16 - i := tmp ! (length A + length B - i), length A + length B - i := 0])
      (A @ B @ replicate z 0) [1..<Suc i] =
    A @ take (length B - i) B @ replicate z 0 @ drop (length B - i) B"
  using assms(3)
proof (induction i)
  case (Suc i)
  define m where "m = length B - Suc i"
  have m: "length B - i = Suc m" "length B - Suc i = m" "m < length B" using Suc.prems by (simp_all add: m_def)
  let ?C = "drop (Suc m) B"
  have tk: "take (Suc m) B = take m B @ [B ! m]" "drop m B = B ! m # ?C" using m(3) by (simp_all add: take_Suc_conv_app_nth Cons_nth_drop_Suc)
  obtain y where y: "z = Suc y" using assms(2) by (cases z) auto
  have i16: "16 - Suc i = length A + m + Suc y" "length A + length B - Suc i = length A + m"
    using assms(1) y m Suc.prems by linarith+
  have st: "A @ take (Suc m) B @ replicate z 0 @ ?C = (A @ take m B) @ B ! m # replicate y 0 @ 0 # ?C"
    by (simp add: tk(1) y replicate_append_same)
  have len: "length (A @ take m B) = length A + m" using m(3) by simp
  have nth: "((A @ take m B) @ B ! m # replicate y 0 @ 0 # ?C) ! (length A + m) = B ! m"
    unfolding len[symmetric] by (rule nth_append_length)
  have up: "((A @ take m B) @ B ! m # replicate y 0 @ 0 # ?C)[length A + m + Suc y := B ! m, length A + m := 0] =
      (A @ take m B) @ 0 # replicate y 0 @ B ! m # ?C"
    using len by (simp add: list_update_append)
  have "foldl (\<lambda>tmp i. tmp[16 - i := tmp ! (length A + length B - i), length A + length B - i := 0])
      (A @ B @ replicate z 0) [1..<Suc (Suc i)] =
    (A @ take (Suc m) B @ replicate z 0 @ ?C)
      [16 - Suc i := (A @ take (Suc m) B @ replicate z 0 @ ?C) ! (length A + length B - Suc i), length A + length B - Suc i := 0]"
    using Suc.IH Suc.prems m(1) by (subst upt_Suc_append) simp_all
  also have "\<dots> = (A @ take m B) @ 0 # replicate y 0 @ B ! m # ?C" unfolding i16 st nth up ..
  finally show ?case by (simp add: m(2) tk(2) y)
qed simp

lemma pton6_shift_spec:
  assumes "length A + length B < 16"
  shows "pton6_shift (tmp16 (A @ B)) (length A) (length B) = A @ replicate (16 - length A - length B) 0 @ B"
  using pton6_shift_steps[of A B "16 - length A - length B" "length B"] assms
  by (simp add: pton6_shift_def tmp16_def)

section \<open>The longest run of zeros\<close>

definition is_run :: "u32 list \<Rightarrow> zero_run \<Rightarrow> nat \<Rightarrow> nat \<Rightarrow> bool" where
  "is_run ws r B n \<longleftrightarrow> base r = int B \<and> len r = int n \<and> 1 \<le> n \<and> (\<forall>j. B \<le> j \<and> j < B + n \<longrightarrow> ws ! j = 0)"

definition best_inv :: "u32 list \<Rightarrow> nat \<Rightarrow> zero_run \<times> zero_run \<Rightarrow> bool" where
  "best_inv ws i bc \<longleftrightarrow>
     (base (fst bc) = - 1 \<or> (\<exists>B n. is_run ws (fst bc) B n \<and> B + n \<le> i)) \<and>
     (base (snd bc) = - 1 \<or> (\<exists>B n. is_run ws (snd bc) B n \<and> B + n = i))"

lemma best_inv_step:
  assumes "best_inv ws i bc"
  shows "best_inv ws (Suc i) (ntop6_best_step ws bc i)"
proof -
  obtain best cur where bc: "bc = (best, cur)" by (cases bc)
  have b: "base best = - 1 \<or> (\<exists>B n. is_run ws best B n \<and> B + n \<le> Suc i)"
    using assms by (auto simp: best_inv_def bc intro: le_SucI)
  show ?thesis
  proof (cases "base cur = - 1")
    case True
    have "\<exists>B n. is_run ws \<lparr>base = int i, len = 1\<rparr> B n \<and> B + n = Suc i" if "ws ! i = 0"
      using that unfolding is_run_def by (intro exI[of _ i] exI[of _ 1]) (auto simp: le_less_Suc_eq)
    then show ?thesis using b True unfolding best_inv_def ntop6_best_step_def bc
      by (cases "ws ! i = 0") auto
  next
    case False
    then obtain B n where c: "is_run ws cur B n" "B + n = i" using assms by (auto simp: best_inv_def bc)
    have "is_run ws (cur\<lparr>len := len cur + 1\<rparr>) B (Suc n)" if "ws ! i = 0"
      using c that by (auto simp: is_run_def less_Suc_eq)
    moreover have "B + Suc n = Suc i" "B + n \<le> Suc i" using c(2) by simp_all
    ultimately show ?thesis using b c(1) False unfolding best_inv_def ntop6_best_step_def bc Let_def prod.case
      by (smt (verit) fst_conv snd_conv zero_run.select_convs(1) zero_run.surjective zero_run.update_convs(1))
  qed
qed

lemma best_inv_fold: "best_inv ws i (foldl (ntop6_best_step ws) (\<lparr>base = - 1, len = 0\<rparr>, \<lparr>base = - 1, len = 0\<rparr>) [0..<i])"
proof (induction i)
  case 0
  then show ?case by (simp add: best_inv_def)
next
  case (Suc i)
  then show ?case using best_inv_step by simp
qed

lemma ntop6_best_cases:
  obtains "base (ntop6_best ws) = - 1"
  | B n where "is_run ws (ntop6_best ws) B n" "2 \<le> n" "B + n \<le> 8"
proof -
  obtain best cur where f: "foldl (ntop6_best_step ws) (\<lparr>base = - 1, len = 0\<rparr>, \<lparr>base = - 1, len = 0\<rparr>) [0..<8] = (best, cur)"
    by (metis surj_pair)
  define b where "b = (if base cur \<noteq> - 1 then if base best = - 1 \<or> len cur > len best then cur else best else best)"
  have "base b = - 1 \<or> (\<exists>B n. is_run ws b B n \<and> B + n \<le> 8)"
    using best_inv_fold[of ws 8] unfolding f best_inv_def b_def by (auto split: if_splits; metis order_refl)
  moreover have e: "ntop6_best ws = (if base b \<noteq> - 1 \<and> len b < 2 then b\<lparr>base := - 1\<rparr> else b)"
    unfolding ntop6_best_def Let_def f b_def by simp
  ultimately show thesis using that by (cases "base b \<noteq> - 1 \<and> len b < 2") (auto simp: is_run_def)
qed

section \<open>The text of an address\<close>

definition piece :: "u32 list \<Rightarrow> nat \<Rightarrow> byte list" where
  "piece ws j = (if j \<noteq> 0 then [0x3a] else []) @ grp (ws ! j)"

definition in_run :: "zero_run \<Rightarrow> nat \<Rightarrow> bool" where
  "in_run best i \<longleftrightarrow> base best \<noteq> - 1 \<and> int i \<ge> base best \<and> int i < base best + len best"

definition as_v4 :: "u32 list \<Rightarrow> zero_run \<Rightarrow> nat \<Rightarrow> bool" where
  "as_v4 ws best i \<longleftrightarrow> i = 6 \<and> base best = 0 \<and>
     (len best = 6 \<or> (len best = 7 \<and> ws ! 7 \<noteq> 0x0001) \<or> (len best = 5 \<and> ws ! 5 = 0xffff))"

lemma ntop6_loop_Suc:
  "ntop6_loop src ws best (Suc n) i out =
     (if in_run best i
      then ntop6_loop src ws best n (Suc i) (if int i = base best then out @ [0x3a] else out)
      else if as_v4 ws best i
      then rbind (inet_ntop4 src 12 (46 - length (if i \<noteq> 0 then out @ [0x3a] else out))) (\<lambda>r.
             case r of None \<Rightarrow> Inr None
             | Some s \<Rightarrow> Inr (Some ((if i \<noteq> 0 then out @ [0x3a] else out) @ takeWhile (\<lambda>b. b \<noteq> 0) s)))
      else ntop6_loop src ws best n (Suc i) (out @ piece ws i))"
  unfolding ntop6_loop.simps(2)[folded in_run_def as_v4_def] piece_def grp_def Let_def
  by (cases "i = 0") simp_all

lemma ntop6_plain:
  assumes "\<And>j. i \<le> j \<Longrightarrow> j < i + n \<Longrightarrow> \<not> in_run best j \<and> \<not> as_v4 ws best j"
  shows "ntop6_loop src ws best (n + m) i out = ntop6_loop src ws best m (i + n) (out @ concat (map (piece ws) [i..<i + n]))"
  using assms
proof (induction n arbitrary: i out)
  case (Suc n)
  have h: "\<not> in_run best i" "\<not> as_v4 ws best i" using Suc.prems[of i] by simp_all
  have "ntop6_loop src ws best (Suc n + m) i out = ntop6_loop src ws best (n + m) (Suc i) (out @ piece ws i)"
    using h by (simp only: add_Suc, subst ntop6_loop_Suc) simp
  also have "\<dots> = ntop6_loop src ws best m (Suc i + n) ((out @ piece ws i) @ concat (map (piece ws) [Suc i..<Suc i + n]))"
    by (rule Suc.IH) (use Suc.prems in simp)
  also have "[i..<i + Suc n] = i # [Suc i..<Suc i + n]" by (simp add: upt_conv_Cons)
  then have "(out @ piece ws i) @ concat (map (piece ws) [Suc i..<Suc i + n]) = out @ concat (map (piece ws) [i..<i + Suc n])"
    by simp
  finally show ?case by simp
qed simp

lemma ntop6_run_rest:
  assumes "base best = int B" and "len best = int n" and "k < n"
  shows "ntop6_loop src ws best (k + m) (B + n - k) out = ntop6_loop src ws best m (B + n) out"
  using assms(3)
proof (induction k)
  case (Suc k)
  have "Suc (B + n - Suc k) = B + n - k" using Suc.prems by simp
  moreover have "\<not> int (B + n - Suc k) = int B" using Suc.prems by simp
  moreover have "in_run best (B + n - Suc k)" using Suc.prems assms(1,2) by (simp add: in_run_def)
  ultimately show ?case using Suc assms(1) by (simp only: add_Suc, subst ntop6_loop_Suc) simp
qed simp

lemma ntop6_run:
  assumes "base best = int B" and "len best = int n" and "1 \<le> n"
  shows "ntop6_loop src ws best (n + m) B out = ntop6_loop src ws best m (B + n) (out @ [0x3a])"
proof -
  obtain k where k: "n = Suc k" using assms(3) by (cases n) auto
  have "in_run best B" using assms by (simp add: in_run_def)
  then have "ntop6_loop src ws best (Suc (k + m)) B out = ntop6_loop src ws best (k + m) (Suc B) (out @ [0x3a])"
    unfolding ntop6_loop_Suc[of src ws best "k + m"] by (simp add: assms(1))
  also have "Suc B = B + n - k" using k by simp
  also have "ntop6_loop src ws best (k + m) (B + n - k) (out @ [0x3a]) = ntop6_loop src ws best m (B + n) (out @ [0x3a])"
    by (rule ntop6_run_rest[OF assms(1,2)]) (simp add: k)
  also have "Suc (k + m) = n + m" by (simp add: k)
  finally show ?thesis .
qed

lemma pieces_pre:
  "1 \<le> k \<Longrightarrow> k \<le> length ws \<Longrightarrow> concat (map (piece ws) [0..<k]) @ [0x3a] = pre (take k ws)"
proof (induction k)
  case (Suc k)
  show ?case
  proof (cases "k = 0")
    case True
    then show ?thesis using Suc.prems by (cases ws) (simp_all add: piece_def pre_def)
  next
    case False
    then have "concat (map (piece ws) [0..<k]) @ [0x3a] = pre (take k ws)" using Suc by simp
    then have "concat (map (piece ws) [0..<Suc k]) @ [0x3a] = pre (take k ws) @ grp (ws ! k) @ [0x3a]"
      using False by (simp add: piece_def)
    then show ?thesis using Suc.prems by (simp add: pre_def take_Suc_conv_app_nth)
  qed
qed simp

lemma pieces_drop:
  assumes "0 < k" and "k \<le> length ws"
  shows "concat (map (piece ws) [k..<length ws]) = concat (map (\<lambda>w. 0x3a # grp w) (drop k ws))"
proof -
  have "map (piece ws) [k..<length ws] = map (\<lambda>w. 0x3a # grp w) (drop k ws)"
    by (rule nth_equalityI) (use assms in \<open>simp_all add: piece_def\<close>)
  then show ?thesis by simp
qed

lemma colon_pre: "concat (map (\<lambda>w. 0x3a # grp w) (ws @ [w])) = 0x3a # pre ws @ grp w"
  by (induction ws) (simp_all add: pre_def)

section \<open>Round trips\<close>

lemma and_ff: "x AND 0xff = x" for x :: byte
proof -
  have "(0xff :: byte) = - 1" by simp
  then show ?thesis by (simp only: and.right_neutral)
qed

lemma byte_bit_beyond: "8 \<le> n \<Longrightarrow> \<not> bit (b :: byte) n"
  using bit_imp_le_length[of b n] by auto

lemma word_bytes: "bytes2 (push_bit 8 (ucast (a :: byte)) OR ucast (b :: byte)) = [a, b]"
  unfolding bytes2_def and_ff by (auto intro!: bit_eqI simp: bit_simps byte_bit_beyond)

lemma word_small: "unat (push_bit 8 (ucast (a :: byte)) OR ucast (b :: byte) :: u32) < 65536"
proof -
  have "push_bit 8 (ucast a) OR ucast b = (of_nat (unat a * 2 ^ 8 + unat b) :: u32)"
    using shift_or[of "unat b" 8 "unat a"] unat_byte[of b] by simp
  moreover have lt: "unat a * 2 ^ 8 + unat b < 65536" using unat_byte[of a] unat_byte[of b] by simp
  then have "unat (of_nat (unat a * 2 ^ 8 + unat b) :: u32) = unat a * 2 ^ 8 + unat b" by (intro unat_of_nat_small) simp
  ultimately show ?thesis using lt by (simp only:)
qed

lemma map_upt_nth: "k < n \<Longrightarrow> map f [0..<n] ! k = f k"
  by simp

lemma ntop6_words_steps:
  assumes "i \<le> 16"
  shows "foldl (\<lambda>ws i. ws[i div 2 := ws ! (i div 2) OR push_bit ((1 - i mod 2) * 8) (ucast (src ! i))])
      (replicate 8 (0 :: u32)) [0..<i] =
    map (\<lambda>j. (if 2 * j < i then push_bit 8 (ucast (src ! (2 * j))) else 0) OR
             (if 2 * j + 1 < i then ucast (src ! (2 * j + 1)) else 0)) [0..<8]"
  using assms
proof (induction i)
  case 0
  show ?case by (rule nth_equalityI) simp_all
next
  case (Suc i)
  let ?f = "\<lambda>i j. (if 2 * j < i then push_bit 8 (ucast (src ! (2 * j))) else 0) OR (if 2 * j + 1 < i then ucast (src ! (2 * j + 1)) else 0) :: u32"
  let ?v = "?f i (i div 2) OR push_bit ((1 - i mod 2) * 8) (ucast (src ! i))"
  have lt: "i div 2 < 8" using Suc.prems by simp
  have v: "?v = ?f (Suc i) (i div 2)"
  proof (cases "even i")
    case True
    then have "2 * (i div 2) = i" "i mod 2 = 0" by auto
    then show ?thesis by simp
  next
    case False
    then have "2 * (i div 2) + 1 = i" "i mod 2 = 1" by (auto simp: odd_iff_mod_2_eq_one)
    then show ?thesis by simp
  qed
  have o: "?f i j = ?f (Suc i) j" if "j \<noteq> i div 2" for j
  proof -
    have "2 * j < i \<longleftrightarrow> 2 * j < Suc i" "2 * j + 1 < i \<longleftrightarrow> 2 * j + 1 < Suc i" using that by linarith+
    then show ?thesis by (simp only:)
  qed
  have "(map (?f i) [0..<8])[i div 2 := ?v] = map (?f (Suc i)) [0..<8]"
    by (rule nth_equalityI) (use v o in \<open>auto simp: nth_list_update simp del: One_nat_def\<close>)
  moreover have "(map (?f i) [0..<8]) ! (i div 2) = ?f i (i div 2)" using lt by (rule map_upt_nth)
  moreover have "foldl (\<lambda>ws i. ws[i div 2 := ws ! (i div 2) OR push_bit ((1 - i mod 2) * 8) (ucast (src ! i))])
      (replicate 8 (0 :: u32)) [0..<i] = map (?f i) [0..<8]" using Suc.prems by (intro Suc.IH) simp
  ultimately show ?case by (simp only: upt_Suc_append foldl_append foldl.simps le0)
qed

lemma ntop6_words_spec:
  assumes "length src = 16"
  shows "length (ntop6_words src) = 8" "small (ntop6_words src)" "concat (map bytes2 (ntop6_words src)) = src"
proof -
  have w: "ntop6_words src = map (\<lambda>j. push_bit 8 (ucast (src ! (2 * j))) OR ucast (src ! (2 * j + 1))) [0..<8]"
    unfolding ntop6_words_def by (subst ntop6_words_steps) auto
  show "length (ntop6_words src) = 8" "small (ntop6_words src)" using w word_small by (simp_all add: small_def list_all_iff)
  have "concat (map (\<lambda>j. [src ! (2 * j), src ! (2 * j + 1)]) [0..<n]) = map ((!) src) [0..<2 * n]" for n
    by (induction n) simp_all
  from this[of 8] have "concat (map bytes2 (ntop6_words src)) = map ((!) src) [0..<16]"
    unfolding w by (simp add: word_bytes comp_def del: upt_Suc)
  also have "\<dots> = src" using assms by (metis map_nth)
  finally show "concat (map bytes2 (ntop6_words src)) = src" .
qed

lemma fmt_dotted_spec: "i + 4 \<le> length src \<Longrightarrow>
    fmt_dotted src i = Inr (dotted (src ! i) (src ! (i + 1)) (src ! (i + 2)) (src ! (i + 3)))"
  by (simp add: fmt_dotted_def dotted_def)

lemma fmt_octet: "list_all (\<lambda>c. c \<noteq> 0) (fmt_base 10 (unat (a :: byte))) \<and> length (fmt_base 10 (unat a)) \<le> 3"
proof -
  have n: "unat a < 10 ^ Suc 2" using unat_byte[of a] by simp
  show ?thesis using fmt_base_bdigits[OF _ n] bdigits_bound[OF _ n] by (auto simp: list_all_iff digit_char_props)
qed

lemma dotted_props: "list_all (\<lambda>c. c \<noteq> 0) (dotted a b c d)" "length (dotted a b c d) \<le> 15"
  using fmt_octet[of a] fmt_octet[of b] fmt_octet[of c] fmt_octet[of d] by (simp_all add: dotted_def)

lemma takeWhile_dotted: "takeWhile (\<lambda>x. x \<noteq> 0) (dotted a b c d @ [0]) = dotted a b c d"
  using dotted_props(1)[of a b c d] by (subst takeWhile_append2) (auto simp: list_all_iff)

text \<open>Reading back an address with a zero run: \<open>P\<close> are the words before the run, \<open>txt\<close> and \<open>bs\<close> what
  follows it.\<close>

lemma pton6_run_text:
  assumes "small P" and "tail_ok txt bs" and "2 * length P + length bs < 16"
  shows "inet_pton6 ((if P = [] then [0x3a] else pre P) @ 0x3a # txt @ [0]) =
    Inr (Some (concat (map bytes2 P) @ replicate (16 - 2 * length P - length bs) 0 @ bs))"
proof -
  let ?src = "pre P @ 0x3a # txt @ [0]" and ?out = "concat (map bytes2 P)"
  have start: "inet_pton6 ((if P = [] then [0x3a] else pre P) @ 0x3a # txt @ [0]) =
      rbind (pton6_loop ?src ?src 0 0 0 None (replicate 16 0)) pton6_finish"
  proof (cases P)
    case Nil
    then show ?thesis by (simp add: inet_pton6_def pre_def)
  next
    case (Cons w ws)
    then have "unat w < 65536" using assms(1) by (simp add: small_def)
    note g = grp_props(1,4)[OF this]
    then obtain x xs where "grp w = x # xs" "x \<noteq> 0x3a" by (cases "grp w") auto
    then show ?thesis using Cons by (simp add: inet_pton6_def pre_def)
  qed
  have z: "replicate 16 0 = tmp16 []" by (simp add: tmp16_def)
  have "pton6_loop ?src ?src 0 0 0 None (replicate 16 0) =
      pton6_loop (0x3a # txt @ [0]) (0x3a # txt @ [0]) 0 0 (length ?out) None (tmp16 ?out)"
    using pton6_pre[OF assms(1), of "[]" "0x3a" ?src "txt @ [0]" None] assms(3) unfolding z by (simp add: pre_def)
  also have "\<dots> = pton6_loop (txt @ [0]) (txt @ [0]) 0 0 (length ?out) (Some (length ?out)) (tmp16 ?out)"
    by (subst pton6_loop.simps(2)) (simp add: xdigit_colon)
  finally show ?thesis using pton6_tail[OF assms(2), of ?out "Some (length ?out)"] assms(3)
      pton6_shift_spec[of ?out bs]
    by (simp add: start pton6_result_def)
qed

lemma pton6_full_text:
  assumes "tail_ok txt bs" and "length bs = 16" and "txt \<noteq> []" and "hd txt \<noteq> 0x3a"
  shows "inet_pton6 (txt @ [0]) = Inr (Some bs)"
proof -
  have z: "replicate 16 0 = tmp16 []" by (simp add: tmp16_def)
  have "inet_pton6 (txt @ [0]) = rbind (pton6_loop (txt @ [0]) (txt @ [0]) 0 0 0 None (tmp16 [])) pton6_finish"
    using assms(3,4) by (cases "txt") (simp_all add: inet_pton6_def z[symmetric])
  then show ?thesis using pton6_tail[OF assms(1), of "[]" None] assms(2) by (simp add: pton6_result_def tmp16_def)
qed

lemma pre_length: "small ws \<Longrightarrow> length (pre ws) \<le> 5 * length ws"
proof (induction ws)
  case (Cons w ws)
  then show ?case using grp_props(2)[of w] by (simp add: pre_def small_def)
qed (simp add: pre_def)

lemma drop_bytes2: "drop (2 * k) (concat (map bytes2 ws)) = concat (map bytes2 (drop k ws))"
proof (induction ws arbitrary: k)
  case (Cons w ws)
  show ?case using Cons[of "k - 1"] by (cases k) (simp_all add: bytes2_def)
qed simp

lemma take_bytes2: "take (2 * k) (concat (map bytes2 ws)) = concat (map bytes2 (take k ws))"
proof (induction ws arbitrary: k)
  case (Cons w ws)
  show ?case using Cons[of "k - 1"] by (cases k) (simp_all add: bytes2_def)
qed simp

text \<open>An address without a run of two zero words.\<close>

lemma ntop6_text_full:
  assumes "length src = 16" and "base (ntop6_best (ntop6_words src)) = - 1"
  shows "\<exists>txt. ntop6_loop src (ntop6_words src) (ntop6_best (ntop6_words src)) 8 0 [] = Inr (Some txt) \<and>
     tail_ok txt src \<and> txt \<noteq> [] \<and> hd txt \<noteq> 0x3a \<and> length txt \<le> 44"
proof -
  let ?W = "ntop6_words src" and ?b = "ntop6_best (ntop6_words src)"
  note w = ntop6_words_spec[OF assms(1)]
  have sm: "small (take 7 ?W)" "unat (?W ! 7) < 65536" "unat (?W ! 0) < 65536"
    using w(1,2) by (auto simp: small_def list_all_length)
  have W: "?W = take 7 ?W @ [?W ! 7]" using w(1) take_Suc_conv_app_nth[of 7 ?W] by simp
  let ?t = "concat (map (piece ?W) [0..<8])"
  have "ntop6_loop src ?W ?b (8 + 0) 0 [] = ntop6_loop src ?W ?b 0 (0 + 8) ([] @ concat (map (piece ?W) [0..<0 + 8]))"
    by (rule ntop6_plain) (simp add: in_run_def as_v4_def assms(2))
  then have l: "ntop6_loop src ?W ?b 8 0 [] = Inr (Some ?t)" by (simp only: add_0_right add_0 append_Nil ntop6_loop.simps(1))
  have "[0..<8] = [0..<7] @ [7 :: nat]" by (simp add: upt_rec)
  then have "?t = (concat (map (piece ?W) [0..<7]) @ [0x3a]) @ grp (?W ! 7)" by (simp add: piece_def)
  then have t: "?t = pre (take 7 ?W) @ grp (?W ! 7)" using pieces_pre[of 7 ?W] w(1) by simp
  have "tail_ok ?t src" unfolding tail_ok_def using w(2,3) t W by metis
  moreover have "?t = grp (?W ! 0) @ concat (map (piece ?W) [1..<8])" by (simp add: upt_conv_Cons piece_def)
  then have "?t \<noteq> []" "hd ?t \<noteq> 0x3a" using grp_props(1,4)[OF sm(3)] by (simp_all add: hd_append)
  moreover have "length ?t \<le> 44" unfolding t using pre_length[OF sm(1)] grp_props(2)[OF sm(2)] w(1) by simp
  ultimately show ?thesis using l by blast
qed

text \<open>An address with such a run.\<close>

lemma ntop6_v4:
  assumes "as_v4 ws best 6" and "\<not> in_run best 6" and "length src = 16" and "length out < 30"
  shows "ntop6_loop src ws best 2 6 out =
    Inr (Some (out @ 0x3a # dotted (src ! 12) (src ! 13) (src ! 14) (src ! 15)))"
proof -
  have "ntop6_loop src ws best (Suc 1) 6 out =
      Inr (Some (out @ 0x3a # dotted (src ! 12) (src ! 13) (src ! 14) (src ! 15)))"
    using assms fmt_dotted_spec[of 12 src] dotted_props(2)[of "src ! 12" "src ! 13" "src ! 14" "src ! 15"]
    by (subst ntop6_loop_Suc) (simp add: inet_ntop4_def takeWhile_dotted)
  then show ?thesis by (simp add: numeral_2_eq_2)
qed

lemma ntop6_head:
  assumes "is_run W best B n" and "B + n + r = 8" and "length W = 8"
  shows "ntop6_loop src W best 8 0 [] =
    ntop6_loop src W best r (B + n) (if take B W = [] then [0x3a] else pre (take B W))"
proof -
  have b: "base best = int B" "len best = int n" "1 \<le> n" using assms(1) by (simp_all add: is_run_def)
  have "ntop6_loop src W best (B + (n + r)) 0 [] =
      ntop6_loop src W best (n + r) (0 + B) ([] @ concat (map (piece W) [0..<0 + B]))"
    by (rule ntop6_plain) (simp add: in_run_def as_v4_def b)
  also have "\<dots> = ntop6_loop src W best r (B + n) (concat (map (piece W) [0..<B]) @ [0x3a])"
    using ntop6_run[OF b, of src W r "concat (map (piece W) [0..<B])"] by simp
  also have "concat (map (piece W) [0..<B]) @ [0x3a] = (if take B W = [] then [0x3a] else pre (take B W))"
    using pieces_pre[of B W] assms(2,3) by (cases "B = 0") auto
  finally show ?thesis using assms(2) by (simp add: add.assoc)
qed

lemma bytes_nth: "length src = 16 \<Longrightarrow> drop 12 src = [src ! 12, src ! 13, src ! 14, src ! 15]"
  by (simp add: Cons_nth_drop_Suc[symmetric] numeral_eq_Suc)

lemma ntop6_text_run:
  assumes "length src = 16" and "W = ntop6_words src" and "is_run W best B n" and "B + n \<le> 8"
  shows "\<exists>rest txt. ntop6_loop src W best 8 0 [] = Inr (Some ((if take B W = [] then [0x3a] else pre (take B W)) @ rest)) \<and>
     rest @ (if B + n = 8 then [0x3a] else []) = 0x3a # txt \<and> tail_ok txt (drop (2 * (B + n)) src) \<and>
     (length txt \<le> 5 * (8 - (B + n)) \<or> B = 0 \<and> length txt \<le> 20)"
proof -
  let ?H = "if take B W = [] then [0x3a] else pre (take B W)"
  note w = ntop6_words_spec[OF assms(1), folded assms(2)]
  have b: "base best = int B" "len best = int n" using assms(3) by (simp_all add: is_run_def)
  obtain r where r: "B + n + r = 8" using assms(4) le_Suc_ex by metis
  note head = ntop6_head[OF assms(3) r w(1), of src]
  consider (v4) "as_v4 W best 6" "B + n \<le> 6" | (plain) "\<not> as_v4 W best 6 \<or> 6 < B + n" by linarith
  then show ?thesis
  proof cases
    case v4
    let ?d = "dotted (src ! 12) (src ! 13) (src ! 14) (src ! 15)"
    have B: "B = 0" and ni: "\<not> in_run best 6" using v4 b by (auto simp: as_v4_def in_run_def)
    have n: "n = 6 \<or> n = 5" using v4 b B by (auto simp: as_v4_def)
    have len: "length ?d \<le> 15" by (rule dotted_props)
    from n show ?thesis
    proof
      assume n6: "n = 6"
      have "ntop6_loop src W best 8 0 [] = Inr (Some ([0x3a] @ 0x3a # ?d))"
        using head ntop6_v4[OF v4(1) ni assms(1)] r B n6 by simp
      moreover have "tail_ok ?d (drop 12 src)"
        unfolding tail_ok_def bytes_nth[OF assms(1)] by (rule disjI2, rule disjI2, rule exI[of _ "[]"]) (auto simp: small_def pre_def)
      ultimately show ?thesis using B n6 len by auto
    next
      assume n5: "n = 5"
      have w5: "unat (W ! 5) < 65536" using w(1,2) by (auto simp: small_def list_all_length)
      have "ntop6_loop src W best (1 + 2) 5 [0x3a] = ntop6_loop src W best 2 (5 + 1) ([0x3a] @ concat (map (piece W) [5..<5 + 1]))"
        by (rule ntop6_plain) (auto simp: in_run_def as_v4_def b B n5)
      also have "\<dots> = Inr (Some ([0x3a] @ 0x3a # pre [W ! 5] @ ?d))"
        using ntop6_v4[OF v4(1) ni assms(1), of "0x3a # piece W 5"] grp_props(2)[OF w5] by (simp add: piece_def pre_def)
      finally have "ntop6_loop src W best 8 0 [] = Inr (Some ([0x3a] @ 0x3a # pre [W ! 5] @ ?d))"
        using head r B n5 by (simp add: numeral_3_eq_3)
      moreover have "tail_ok (pre [W ! 5] @ ?d) (drop 10 src)"
      proof -
        have "drop 10 src = concat (map bytes2 (drop 5 W))" using drop_bytes2[of 5 W] w(3) by simp
        also have "drop 5 W = W ! 5 # drop 6 W" using w(1) Cons_nth_drop_Suc[of 5 W] by simp
        also have "concat (map bytes2 (W ! 5 # drop 6 W)) = bytes2 (W ! 5) @ drop 12 src" using drop_bytes2[of 6 W] w(3) by simp
        finally show ?thesis using w5 unfolding tail_ok_def bytes_nth[OF assms(1)]
          by (intro disjI2 exI[of _ "[W ! 5]"]) (auto simp: small_def)
      qed
      ultimately show ?thesis using B n5 len grp_props(2)[OF w5] by (auto simp: pre_def)
    qed
  next
    case plain
    let ?p = "concat (map (piece W) [B + n..<8])"
    have "ntop6_loop src W best (r + 0) (B + n) ?H = ntop6_loop src W best 0 (B + n + r) (?H @ concat (map (piece W) [B + n..<B + n + r]))"
      by (rule ntop6_plain) (use plain in \<open>auto simp: in_run_def as_v4_def b\<close>)
    then have l: "ntop6_loop src W best 8 0 [] = Inr (Some (?H @ ?p))" by (simp add: head r)
    show ?thesis
    proof (cases "r = 0")
      case True
      then show ?thesis using l r assms(1) by (auto simp: tail_ok_def)
    next
      case False
      then have ne: "drop (B + n) W \<noteq> []" "0 < B + n" using r w(1) assms(3) by (auto simp: is_run_def)
      then obtain q v where q: "drop (B + n) W = q @ [v]" by (metis rev_exhaust)
      then have lq: "length q + 1 = r" using r w(1) by (metis add_diff_cancel_left' length_append_singleton length_drop Suc_eq_plus1)
      have sm: "small (q @ [v])" unfolding q[symmetric] using w(2) by (auto simp: small_def list_all_iff dest: in_set_dropD)
      have p: "?p = 0x3a # pre q @ grp v" using pieces_drop[OF ne(2), of W] r w(1) unfolding q colon_pre by simp
      have "tail_ok (pre q @ grp v) (drop (2 * (B + n)) src)"
        unfolding tail_ok_def using sm q drop_bytes2[of "B + n" W] w(3) by auto
      moreover have "length (pre q @ grp v) \<le> 5 * r"
        using pre_length[of q] grp_props(2)[of v] sm lq by (auto simp: small_def)
      moreover have "8 - (B + n) = r" "B + n \<noteq> 8" using r False by linarith+
      ultimately show ?thesis using l p by (intro exI[of _ ?p] exI[of _ "pre q @ grp v"]) auto
    qed
  qed
qed

text \<open>The bytes of the run are zeros, so the address is its words before the run, the zeros, and
  the words behind it.\<close>

lemma run_bytes:
  assumes "length src = 16" and "W = ntop6_words src" and "is_run W best B n" and "B + n \<le> 8"
  shows "concat (map bytes2 (take B W)) @ replicate (2 * n) 0 @ drop (2 * (B + n)) src = src"
proof -
  note w = ntop6_words_spec[OF assms(1), folded assms(2)]
  have "take n (drop B W) = replicate n 0"
    by (rule nth_equalityI) (use w(1) assms(3,4) in \<open>auto simp: is_run_def\<close>)
  moreover have "concat (map bytes2 (replicate k 0)) = replicate (2 * k) 0" for k
    by (induction k) (simp_all add: bytes2_def)
  ultimately have z: "concat (map bytes2 (take n (drop B W))) = replicate (2 * n) 0" by simp
  have "W = take B W @ take n (drop B W) @ drop (B + n) W"
    by (metis append_take_drop_id drop_drop add.commute)
  then have "src = concat (map bytes2 (take B W)) @ concat (map bytes2 (take n (drop B W))) @ concat (map bytes2 (drop (B + n) W))"
    using w(3) by (metis concat_append map_append)
  then show ?thesis using drop_bytes2[of "B + n" W] w(3) z by simp
qed

lemma ntop6_pton6:
  assumes "length src = 16" and "46 \<le> sz"
  shows "\<exists>t. inet_ntop6 src sz = Inr (Some t) \<and> inet_pton6 t = Inr (Some src)"
proof -
  let ?W = "ntop6_words src" and ?b = "ntop6_best (ntop6_words src)"
  note w = ntop6_words_spec[OF assms(1)]
  show ?thesis
  proof (rule ntop6_best_cases[of ?W])
    assume none: "base ?b = - 1"
    then obtain t where "ntop6_loop src ?W ?b 8 0 [] = Inr (Some t)" "length t \<le> 44"
        and t: "tail_ok t src" "t \<noteq> []" "hd t \<noteq> 0x3a" using ntop6_text_full[OF assms(1)] by blast
    then have "inet_ntop6 src sz = Inr (Some (t @ [0]))" using none assms by (simp add: inet_ntop6_def Let_def)
    then show ?thesis using pton6_full_text[OF t(1) assms(1) t(2,3)] by blast
  next
    fix B n
    assume run: "is_run ?W ?b B n" "2 \<le> n" "B + n \<le> 8"
    let ?H = "if take B ?W = [] then [0x3a] else pre (take B ?W)"
    obtain rest t where l: "ntop6_loop src ?W ?b 8 0 [] = Inr (Some (?H @ rest))"
        and e: "rest @ (if B + n = 8 then [0x3a] else []) = 0x3a # t"
        and t: "tail_ok t (drop (2 * (B + n)) src)" "length t \<le> 5 * (8 - (B + n)) \<or> B = 0 \<and> length t \<le> 20"
      using ntop6_text_run[OF assms(1) refl run(1,3)] by blast
    have b: "base ?b = int B" "len ?b = int n" using run(1) by (simp_all add: is_run_def)
    have sm: "small (take B ?W)" using w(2) by (auto simp: small_def list_all_iff dest: in_set_takeD)
    have lB: "length (take B ?W) = B" using w(1) run(3) by simp
    have H: "length ?H \<le> max 1 (5 * B)" using pre_length[OF sm] lB by auto
    have short: "length (?H @ 0x3a # t) \<le> 45" using H t(2) run(2,3) by (auto simp: max_def split: if_splits)
    have "inet_ntop6 src sz = Inr (Some (?H @ (rest @ (if B + n = 8 then [0x3a] else [])) @ [0]))"
    proof -
      let ?o = "(?H @ rest) @ (if B + n = 8 then [0x3a] else [])"
      have "length (?o @ [0]) \<le> 46" using short e by simp
      moreover have "(base ?b \<noteq> - 1 \<and> base ?b + len ?b = 8) = (B + n = 8)" using b by auto
      ultimately show ?thesis using assms l unfolding inet_ntop6_def Let_def by (cases "B + n = 8") auto
    qed
    then have "inet_ntop6 src sz = Inr (Some (?H @ 0x3a # t @ [0]))" by (simp add: e)
    moreover have "16 - 2 * length (take B ?W) - length (drop (2 * (B + n)) src) = 2 * n"
      using lB run(3) assms(1) by simp
    then have "inet_pton6 (?H @ 0x3a # t @ [0]) = Inr (Some src)"
      using pton6_run_text[OF sm t(1)] lB run assms(1) run_bytes[OF assms(1) refl run(1,3)] by simp
    ultimately show ?thesis by blast
  qed
qed

text \<open>
  Property C33. Every Internet address survives being printed and read back: for a buffer of
  \<open>INET6_ADDRSTRLEN\<close> (46) bytes, \<open>inet_ntop\<close> succeeds on every 16-byte IPv6 address, and on every
  4-byte IPv4 address, without ever leaving its local arrays, and \<open>inet_pton\<close> on that text returns
  1 and stores exactly the address again: whether the text has no \<open>::\<close>, a \<open>::\<close> at its start, in
  the middle or at its end, or ends in a dotted quad.
\<close>

theorem inet_roundtrip:
  assumes "length a6 = 16" and "length a4 = 4" and "46 \<le> sz"
  shows "(\<exists>t. inet_ntop AF_INET6 a6 sz = Inr (Some t) \<and> inet_pton AF_INET6 t = Inr (1, Some a6)) \<and>
    (\<exists>t. inet_ntop AF_INET a4 sz = Inr (Some t) \<and> inet_pton AF_INET t = Inr (1, Some a4))"
proof -
  have six: "\<exists>t. inet_ntop AF_INET6 a6 sz = Inr (Some t) \<and> inet_pton AF_INET6 t = Inr (1, Some a6)"
    using ntop6_pton6[OF assms(1,3)] by (auto simp: inet_ntop_def inet_pton_def AF_INET_def AF_INET6_def)
  obtain a b c d where a4: "a4 = [a, b, c, d]" using assms(2) by (auto simp: numeral_eq_Suc length_Suc_conv)
  have "inet_ntop AF_INET a4 sz = Inr (Some (dotted a b c d @ [0]))"
    using fmt_dotted_spec[of 0 a4] dotted_props(2)[of a b c d] assms(3) by (simp add: inet_ntop_def inet_ntop4_def a4)
  moreover have "inet_pton AF_INET (dotted a b c d @ [0]) = Inr (1, Some a4)"
    by (simp add: inet_pton_def inet_pton4_dotted a4)
  ultimately show ?thesis using six by blast
qed

definition loopback6 :: "byte list" where
  "loopback6 = replicate 15 0 @ [1]"

theorem inet_roundtrip_witness:
  "length loopback6 = 16 \<and> length [127, 0, 0, 1 :: byte] = 4 \<and>
   (\<exists>t. inet_ntop AF_INET6 loopback6 46 = Inr (Some t) \<and> inet_pton AF_INET6 t = Inr (1, Some loopback6)) \<and>
   inet_ntop AF_INET6 loopback6 46 = Inr (Some [0x3a, 0x3a, 0x31, 0])"
proof -
  have l: "length loopback6 = 16" "length [127, 0, 0, 1 :: byte] = 4" by (simp_all add: loopback6_def)
  have "inet_ntop AF_INET6 loopback6 46 = Inr (Some [0x3a, 0x3a, 0x31, 0])" by code_simp
  then show ?thesis using l inet_roundtrip[OF l, of 46] by simp
qed

text \<open>
  \<open>inet_aton\<close> does not see an overflow of 32 bits: a part is read as a 64-bit
  \<open>unsigned long\<close> and cut to 32 bits, so the text 4294967297 is accepted as the address 0.0.0.1,
  although the comment at the part count says that \<open>strtoul\<close> has checked for overflow. The text
  18446744073709551615, for which \<open>strtoul\<close> returns \<open>ULONG_MAX\<close>, is refused.
\<close>

theorem inet_aton_truncates:
  "inet_aton [0x34, 0x32, 0x39, 0x34, 0x39, 0x36, 0x37, 0x32, 0x39, 0x37, 0] = Inr (Some 1) \<and>
   inet_aton [0x31, 0x38, 0x34, 0x34, 0x36, 0x37, 0x34, 0x34, 0x30, 0x37, 0x33, 0x37, 0x30, 0x39,
     0x35, 0x35, 0x31, 0x36, 0x31, 0x35, 0] = Inr None"
  by code_simp

end
