(* ===== verification/Sbuf.thy ===== *)
theory Sbuf
  imports Strto
begin

text \<open>
  \<open>src/3rd/freebsd/kern/subr_sbuf.c\<close>: string buffers of the network stack, in the kernel build
  with \<open>INVARIANTS\<close>, so that a violated \<open>KASSERT\<close> is \<open>Abort\<close>.

  An \<open>sbuf\<close> owns or borrows an array of bytes; it may grow, or hand its content to a drain
  function when it is full. Drain functions, the allocator and the copies from user space are
  code outside this file: they are the fields of an environment. The world \<open>'w\<close> is what drain
  functions change. Positions and sizes (\<open>ssize_t\<close>) are integers; they stay below \<open>2 ^ 31\<close>,
  since every size is computed as an \<open>int\<close>. A loop that does not end is \<open>None\<close>.
\<close>

unbundle bit_operations_syntax

section \<open>State\<close>

definition SBUF_AUTOEXTEND :: u32 where "SBUF_AUTOEXTEND = 0x00000001"
definition SBUF_INCLUDENUL :: u32 where "SBUF_INCLUDENUL = 0x00000002"
definition SBUF_USRFLAGMSK :: u32 where "SBUF_USRFLAGMSK = 0x0000ffff"
definition SBUF_DYNAMIC :: u32 where "SBUF_DYNAMIC = 0x00010000"
definition SBUF_FINISHED :: u32 where "SBUF_FINISHED = 0x00020000"
definition SBUF_DYNSTRUCT :: u32 where "SBUF_DYNSTRUCT = 0x00080000"
definition SBUF_INSECTION :: u32 where "SBUF_INSECTION = 0x00100000"

definition ENOMEM :: int where "ENOMEM = 12"
definition ENAMETOOLONG :: int where "ENAMETOOLONG = 63"
definition INT_MAX :: int where "INT_MAX = 0x7fffffff"

text \<open>The pointers to the drain function and to its argument are numbers, 0 for \<open>NULL\<close>.\<close>

record sbuf =
  s_buf :: "byte list option"
  s_drain_func :: nat
  s_drain_arg :: nat
  s_error :: int
  s_size :: int
  s_len :: int
  s_flags :: u32
  s_sect_len :: int

record 'w sbuf_env =
  drain_call :: "nat \<Rightarrow> nat \<Rightarrow> byte list \<Rightarrow> 'w \<Rightarrow> int \<times> 'w"
  sb_malloc :: "int \<Rightarrow> bool"

definition sbuf_zero :: sbuf where
  "sbuf_zero = \<lparr>s_buf = None, s_drain_func = 0, s_drain_arg = 0, s_error = 0, s_size = 0, s_len = 0,
     s_flags = 0, s_sect_len = 0\<rparr>"

definition has_flag :: "sbuf \<Rightarrow> u32 \<Rightarrow> bool" where
  "has_flag s f \<longleftrightarrow> s_flags s AND f \<noteq> 0"

definition SBUF_SETFLAG :: "u32 \<Rightarrow> sbuf \<Rightarrow> sbuf" where
  "SBUF_SETFLAG f s = s\<lparr>s_flags := s_flags s OR f\<rparr>"

definition SBUF_CLEARFLAG :: "u32 \<Rightarrow> sbuf \<Rightarrow> sbuf" where
  "SBUF_CLEARFLAG f s = s\<lparr>s_flags := s_flags s AND NOT f\<rparr>"

definition SBUF_FREESPACE :: "sbuf \<Rightarrow> int" where
  "SBUF_FREESPACE s = s_size s - (s_len s + 1)"

definition assert_sbuf_integrity :: "sbuf \<Rightarrow> byte list res" where
  \<comment> \<open>the array, when the checks pass\<close>
  "assert_sbuf_integrity s =
     (case s_buf s of
        None \<Rightarrow> Inl Abort
      | Some b \<Rightarrow>
          if has_flag s SBUF_FINISHED \<and> has_flag s SBUF_INCLUDENUL
          then if s_len s \<le> s_size s then Inr b else Inl Abort
          else if s_len s < s_size s then Inr b else Inl Abort)"

definition assert_sbuf_state :: "sbuf \<Rightarrow> bool \<Rightarrow> unit res" where
  "assert_sbuf_state s finished = (if has_flag s SBUF_FINISHED = finished then Inr () else Inl Abort)"

definition kassert :: "bool \<Rightarrow> unit res" where
  "kassert b = (if b then Inr () else Inl Abort)"

section \<open>Growing\<close>

text \<open>Conversion to a 32-bit \<open>int\<close>.\<close>

definition i32 :: "int \<Rightarrow> int" where
  "i32 x = (x + 2 ^ 31) mod 2 ^ 32 - 2 ^ 31"

function extend_loop :: "int \<Rightarrow> int \<Rightarrow> int" where
  \<comment> \<open>\<open>newsize\<close> starts at 16 and is never 0\<close>
  "extend_loop newsize sz = (if 0 < newsize \<and> newsize < sz then extend_loop (newsize * 2) sz else newsize)"
  by pat_completeness auto
termination by (relation "measure (\<lambda>(n, sz). nat (sz - n))") auto

declare extend_loop.simps [simp del]

definition sbuf_extendsize :: "int \<Rightarrow> int res" where
  "sbuf_extendsize sz =
     rbind (if sz < 4096 then Inr (extend_loop 16 sz)
            else if sz + 4095 > INT_MAX then Inl Undef
            else Inr ((sz + 4095) div 4096 * 4096)) (\<lambda>newsize.
     rbind (kassert (newsize \<ge> sz)) (\<lambda>_. Inr newsize))"

definition sbuf_extend :: "'w sbuf_env \<Rightarrow> int \<Rightarrow> sbuf \<Rightarrow> (int \<times> sbuf) res" where
  "sbuf_extend E addlen s =
     (if \<not> has_flag s SBUF_AUTOEXTEND then Inr (- 1, s)
      else rbind (sbuf_extendsize (i32 (s_size s + addlen))) (\<lambda>newsize.
        if \<not> sb_malloc E newsize then Inr (- 1, s)
        else case s_buf s of
          None \<Rightarrow> Inl Undef
        | Some b \<Rightarrow>
            if s_size s < 0 \<or> s_size s > int (length b) \<or> s_size s > newsize then Inl Undef
            else let s' = (if has_flag s SBUF_DYNAMIC then s else SBUF_SETFLAG SBUF_DYNAMIC s) in
                 Inr (0, s'\<lparr>s_buf := Some (take (nat (s_size s)) b @ replicate (nat (newsize - s_size s)) 0),
                             s_size := newsize\<rparr>)))"

section \<open>Creation\<close>

definition sbuf_newbuf :: "'w sbuf_env \<Rightarrow> byte list option \<Rightarrow> int \<Rightarrow> u32 \<Rightarrow> sbuf option res" where
  "sbuf_newbuf E buf len flags =
     (let s = sbuf_zero\<lparr>s_flags := flags, s_size := len, s_buf := buf\<rparr> in
      rbind (kassert (flags AND SBUF_AUTOEXTEND \<noteq> 0 \<or> s_size s \<ge> 2)) (\<lambda>_.
      if s_buf s \<noteq> None then Inr (Some s)
      else rbind (if flags AND SBUF_AUTOEXTEND \<noteq> 0 then sbuf_extendsize (s_size s) else Inr (s_size s)) (\<lambda>sz.
        if \<not> sb_malloc E sz then Inr None
        else Inr (Some (SBUF_SETFLAG SBUF_DYNAMIC (s\<lparr>s_size := sz, s_buf := Some (replicate (nat sz) 0)\<rparr>))))))"

definition sbuf_new :: "'w sbuf_env \<Rightarrow> bool \<Rightarrow> byte list option \<Rightarrow> int \<Rightarrow> u32 \<Rightarrow> sbuf option res" where
  \<comment> \<open>\<open>given\<close>: the structure is the caller's, not one to allocate (56 bytes)\<close>
  "sbuf_new E given buf len flags =
     rbind (kassert (len \<ge> 0)) (\<lambda>_.
     rbind (kassert (flags AND NOT SBUF_USRFLAGMSK = 0)) (\<lambda>_.
     let flags = flags AND SBUF_USRFLAGMSK in
     if given then sbuf_newbuf E buf len flags
     else if \<not> sb_malloc E 56 then Inr None
     else rbind (sbuf_newbuf E buf len flags) (\<lambda>r.
       Inr (case r of None \<Rightarrow> None | Some s \<Rightarrow> Some (SBUF_SETFLAG SBUF_DYNSTRUCT s)))))"

definition sbuf_delete :: "sbuf \<Rightarrow> sbuf res" where
  "sbuf_delete s = rbind (assert_sbuf_integrity s) (\<lambda>_. Inr sbuf_zero)"

definition sbuf_uionew :: "'w sbuf_env \<Rightarrow> bool \<Rightarrow> int \<Rightarrow> (nat \<Rightarrow> int \<times> byte list) \<Rightarrow> (sbuf option \<times> int) res" where
  \<comment> \<open>\<open>uiomove\<close> gives its error and the bytes it stores; the result is the \<open>sbuf\<close> and \<open>*error\<close>\<close>
  "sbuf_uionew E given uio_resid uiomove =
     rbind (sbuf_new E given None (i32 (uio_resid + 1)) 0) (\<lambda>r.
     case r of
       None \<Rightarrow> Inr (None, ENOMEM)
     | Some s \<Rightarrow>
         let (error, bs) = uiomove (nat uio_resid); b = the (s_buf s) in
         if length bs > length b then Inl Undef
         else let s = s\<lparr>s_buf := Some (bs @ drop (length bs) b)\<rparr> in
         if error \<noteq> 0 then rbind (sbuf_delete s) (\<lambda>_. Inr (None, error))
         else let s = s\<lparr>s_len := s_size s - 1\<rparr>;
                  s = (if has_flag s SBUF_INSECTION then s\<lparr>s_sect_len := s_size s - 1\<rparr> else s)
              in Inr (Some s, 0))"

definition sbuf_get_flags :: "sbuf \<Rightarrow> u32" where
  "sbuf_get_flags s = s_flags s AND SBUF_USRFLAGMSK"

definition sbuf_clear_flags :: "u32 \<Rightarrow> sbuf \<Rightarrow> sbuf" where
  "sbuf_clear_flags flags s = s\<lparr>s_flags := s_flags s AND NOT (flags AND SBUF_USRFLAGMSK)\<rparr>"

definition sbuf_set_flags :: "u32 \<Rightarrow> sbuf \<Rightarrow> sbuf" where
  "sbuf_set_flags flags s = s\<lparr>s_flags := s_flags s OR (flags AND SBUF_USRFLAGMSK)\<rparr>"

definition sbuf_clear :: "sbuf \<Rightarrow> sbuf res" where
  "sbuf_clear s =
     rbind (assert_sbuf_integrity s) (\<lambda>_.
     Inr ((SBUF_CLEARFLAG SBUF_FINISHED s)\<lparr>s_error := 0, s_len := 0, s_sect_len := 0\<rparr>))"

definition sbuf_setpos :: "int \<Rightarrow> sbuf \<Rightarrow> (int \<times> sbuf) res" where
  "sbuf_setpos pos s =
     rbind (assert_sbuf_integrity s) (\<lambda>_.
     rbind (assert_sbuf_state s False) (\<lambda>_.
     rbind (kassert (pos \<ge> 0 \<and> pos < s_size s \<and> \<not> has_flag s SBUF_INSECTION)) (\<lambda>_.
     if pos < 0 \<or> pos > s_len s then Inr (- 1, s) else Inr (0, s\<lparr>s_len := pos\<rparr>))))"

definition sbuf_set_drain :: "nat \<Rightarrow> nat \<Rightarrow> sbuf \<Rightarrow> sbuf res" where
  "sbuf_set_drain func ctx s =
     rbind (assert_sbuf_state s False) (\<lambda>_.
     rbind (assert_sbuf_integrity s) (\<lambda>_.
     rbind (kassert (func = s_drain_func s \<or> s_len s = 0)) (\<lambda>_.
     Inr (s\<lparr>s_drain_func := func, s_drain_arg := ctx\<rparr>))))"

section \<open>Draining and appending\<close>

definition sbuf_drain :: "'w sbuf_env \<Rightarrow> sbuf \<Rightarrow> 'w \<Rightarrow> (int \<times> sbuf \<times> 'w) res" where
  "sbuf_drain E s w =
     rbind (kassert (s_len s > 0)) (\<lambda>_.
     rbind (kassert (s_error s = 0)) (\<lambda>_.
     case s_buf s of
       None \<Rightarrow> Inl Undef
     | Some b \<Rightarrow>
         if s_len s > int (length b) then Inl Undef
         else let (len, w) = drain_call E (s_drain_func s) (s_drain_arg s) (take (nat (s_len s)) b) w in
         if len < 0 then Inr (- len, s\<lparr>s_error := - len\<rparr>, w)
         else rbind (kassert (len > 0 \<and> len \<le> s_len s)) (\<lambda>_.
           let s = s\<lparr>s_len := s_len s - len\<rparr>; m = nat (s_len s) in
           if s_len s = 0 then Inr (0, s, w)
           else Inr (0, s\<lparr>s_buf := Some (take m (drop (nat len) b) @ drop m b)\<rparr>, w))))"

text \<open>The block that makes room in a full buffer, and the copy of as many bytes as fit.\<close>

definition put_room :: "'w sbuf_env \<Rightarrow> nat \<Rightarrow> sbuf \<Rightarrow> 'w \<Rightarrow> (sbuf \<times> 'w) res" where
  "put_room E len s w =
     (if SBUF_FREESPACE s \<le> 0
      then if s_drain_func s \<noteq> 0
           then rbind (sbuf_drain E s w) (\<lambda>(r, s, w). Inr (s, w))
           else rbind (sbuf_extend E (min (int len) INT_MAX) s) (\<lambda>(r, s).
                  Inr (if r < 0 then s\<lparr>s_error := ENOMEM\<rparr> else s, w))
      else Inr (s, w))"

definition put_chunk :: "byte list \<Rightarrow> sbuf \<Rightarrow> (sbuf \<times> byte list) res" where
  "put_chunk data s =
     (let n = (if 0 \<le> SBUF_FREESPACE s \<and> nat (SBUF_FREESPACE s) \<le> length data
               then nat (SBUF_FREESPACE s) else length data) in
      case s_buf s of
        None \<Rightarrow> Inl Undef
      | Some b \<Rightarrow>
          if s_len s < 0 \<or> nat (s_len s) + n > length b then Inl Undef
          else let b = take (nat (s_len s)) b @ take n data @ drop (nat (s_len s) + n) b;
                   s = s\<lparr>s_buf := Some b, s_len := s_len s + int n\<rparr>;
                   s = (if has_flag s SBUF_INSECTION then s\<lparr>s_sect_len := s_sect_len s + int n\<rparr> else s)
               in Inr (s, drop n data))"

partial_function (option) put_loop :: "'w sbuf_env \<Rightarrow> byte list \<Rightarrow> sbuf \<Rightarrow> 'w \<Rightarrow> (sbuf \<times> 'w) res option" where
  "put_loop E data s w =
     (if data = [] then Some (Inr (s, w))
      else case put_room E (length data) s w of
        Inl e \<Rightarrow> Some (Inl e)
      | Inr (s', w') \<Rightarrow>
          if SBUF_FREESPACE s \<le> 0 \<and> s_error s' \<noteq> 0 then Some (Inr (s', w'))
          else case put_chunk data s' of
            Inl e \<Rightarrow> Some (Inl e)
          | Inr (s'', rest) \<Rightarrow> put_loop E rest s'' w')"

declare put_loop.simps [code]

definition sbuf_put_bytes :: "'w sbuf_env \<Rightarrow> byte list \<Rightarrow> sbuf \<Rightarrow> 'w \<Rightarrow> (sbuf \<times> 'w) res option" where
  "sbuf_put_bytes E data s w =
     (case rbind (assert_sbuf_integrity s) (\<lambda>_. assert_sbuf_state s False) of
        Inl e \<Rightarrow> Some (Inl e)
      | Inr _ \<Rightarrow> if s_error s \<noteq> 0 then Some (Inr (s, w)) else put_loop E data s w)"

text \<open>Sequencing of operations that may fail or not return, and the result \<open>s_error != 0 ? -1 : 0\<close>.\<close>

definition pbind :: "'a res option \<Rightarrow> ('a \<Rightarrow> 'b res option) \<Rightarrow> 'b res option" where
  "pbind m f = Option.bind m (\<lambda>r. case r of Inl e \<Rightarrow> Some (Inl e) | Inr x \<Rightarrow> f x)"

definition ret_status :: "sbuf \<times> 'w \<Rightarrow> (int \<times> sbuf \<times> 'w) res option" where
  "ret_status sw = Some (Inr (if s_error (fst sw) \<noteq> 0 then - 1 else 0, sw))"

definition sbuf_put_byte :: "'w sbuf_env \<Rightarrow> byte \<Rightarrow> sbuf \<Rightarrow> 'w \<Rightarrow> (sbuf \<times> 'w) res option" where
  "sbuf_put_byte E c s w = sbuf_put_bytes E [c] s w"

definition sbuf_bcat :: "'w sbuf_env \<Rightarrow> byte list \<Rightarrow> sbuf \<Rightarrow> 'w \<Rightarrow> (int \<times> sbuf \<times> 'w) res option" where
  \<comment> \<open>the \<open>len\<close> bytes at \<open>buf\<close> are the list\<close>
  "sbuf_bcat E buf s w = pbind (sbuf_put_bytes E buf s w) ret_status"

definition sbuf_bcpy :: "'w sbuf_env \<Rightarrow> byte list \<Rightarrow> sbuf \<Rightarrow> 'w \<Rightarrow> (int \<times> sbuf \<times> 'w) res option" where
  "sbuf_bcpy E buf s w =
     pbind (Some (rbind (assert_sbuf_integrity s) (\<lambda>_. rbind (assert_sbuf_state s False) (\<lambda>_. sbuf_clear s)))) (\<lambda>s.
     sbuf_bcat E buf s w)"

text \<open>The string up to its NUL; without one, \<open>strlen\<close> leaves the object.\<close>

definition cstr :: "byte list \<Rightarrow> byte list res" where
  "cstr str = (if 0 \<in> set str then Inr (takeWhile (\<lambda>c. c \<noteq> 0) str) else Inl Undef)"

definition sbuf_cat :: "'w sbuf_env \<Rightarrow> byte list \<Rightarrow> sbuf \<Rightarrow> 'w \<Rightarrow> (int \<times> sbuf \<times> 'w) res option" where
  "sbuf_cat E str s w = pbind (Some (cstr str)) (\<lambda>bs. pbind (sbuf_put_bytes E bs s w) ret_status)"

definition sbuf_cpy :: "'w sbuf_env \<Rightarrow> byte list \<Rightarrow> sbuf \<Rightarrow> 'w \<Rightarrow> (int \<times> sbuf \<times> 'w) res option" where
  "sbuf_cpy E str s w =
     pbind (Some (rbind (assert_sbuf_integrity s) (\<lambda>_. rbind (assert_sbuf_state s False) (\<lambda>_. sbuf_clear s)))) (\<lambda>s.
     sbuf_cat E str s w)"

definition sbuf_putc :: "'w sbuf_env \<Rightarrow> byte \<Rightarrow> sbuf \<Rightarrow> 'w \<Rightarrow> (int \<times> sbuf \<times> 'w) res option" where
  "sbuf_putc E c s w = pbind (sbuf_put_byte E c s w) ret_status"

definition sbuf_putc_func :: "'w sbuf_env \<Rightarrow> byte \<Rightarrow> sbuf \<times> 'w \<Rightarrow> (sbuf \<times> 'w) res option" where
  "sbuf_putc_func E c sw = (if c \<noteq> 0 then sbuf_put_byte E c (fst sw) (snd sw) else Some (Inr sw))"

text \<open>\<open>kvprintf\<close> calls the function for every character it produces; these are \<open>out\<close>.\<close>

fun kv_calls :: "'w sbuf_env \<Rightarrow> byte list \<Rightarrow> sbuf \<times> 'w \<Rightarrow> (sbuf \<times> 'w) res option" where
  "kv_calls E [] sw = Some (Inr sw)"
| "kv_calls E (c # out) sw = pbind (sbuf_putc_func E c sw) (kv_calls E out)"

definition sbuf_vprintf :: "'w sbuf_env \<Rightarrow> byte list \<Rightarrow> sbuf \<Rightarrow> 'w \<Rightarrow> (int \<times> sbuf \<times> 'w) res option" where
  "sbuf_vprintf E out s w =
     pbind (Some (rbind (assert_sbuf_integrity s) (\<lambda>_. assert_sbuf_state s False))) (\<lambda>_.
     pbind (kv_calls E out (s, w)) ret_status)"

definition sbuf_printf :: "'w sbuf_env \<Rightarrow> byte list \<Rightarrow> sbuf \<Rightarrow> 'w \<Rightarrow> (int \<times> sbuf \<times> 'w) res option" where
  "sbuf_printf E out s w = sbuf_vprintf E out s w"

section \<open>Copies from user space\<close>

definition sbuf_bcopyin :: "'w sbuf_env \<Rightarrow> (nat \<Rightarrow> byte list option) \<Rightarrow> nat \<Rightarrow> sbuf \<Rightarrow> (int \<times> sbuf) res" where
  \<comment> \<open>\<open>copyin n\<close>: the \<open>n\<close> bytes at \<open>uaddr\<close>, or none after a fault\<close>
  "sbuf_bcopyin E copyin len s =
     rbind (assert_sbuf_integrity s) (\<lambda>_.
     rbind (assert_sbuf_state s False) (\<lambda>_.
     rbind (kassert (s_drain_func s = 0)) (\<lambda>_.
     if s_error s \<noteq> 0 then Inr (- 1, s)
     else if len = 0 then Inr (0, s)
     else rbind (if len > szt (SBUF_FREESPACE s)
                 then rbind (sbuf_extend E (i32 (int len - SBUF_FREESPACE s)) s) (\<lambda>(r, s).
                        Inr (if szt (SBUF_FREESPACE s) < len then szt (SBUF_FREESPACE s) else len, s))
                 else Inr (len, s)) (\<lambda>(len, s).
       case copyin len of
         None \<Rightarrow> Inr (- 1, s)
       | Some bs \<Rightarrow>
           case s_buf s of None \<Rightarrow> Inl Undef
           | Some b \<Rightarrow>
               if s_len s < 0 \<or> nat (s_len s) + length bs > length b then Inl Undef
               else Inr (0, s\<lparr>s_buf := Some (take (nat (s_len s)) b @ bs @ drop (nat (s_len s) + length bs) b),
                              s_len := s_len s + int len\<rparr>)))))"

definition sbuf_copyin :: "'w sbuf_env \<Rightarrow> (nat \<Rightarrow> int \<times> byte list) \<Rightarrow> nat \<Rightarrow> sbuf \<Rightarrow> (int \<times> sbuf) res" where
  \<comment> \<open>\<open>copyinstr n\<close>: its result and the bytes it stored, the NUL included; \<open>done\<close> is their number\<close>
  "sbuf_copyin E copyinstr len s =
     rbind (assert_sbuf_integrity s) (\<lambda>_.
     rbind (assert_sbuf_state s False) (\<lambda>_.
     rbind (kassert (s_drain_func s = 0)) (\<lambda>_.
     if s_error s \<noteq> 0 then Inr (- 1, s)
     else let len = (if len = 0 then szt (SBUF_FREESPACE s) else len) in
     rbind (if len > szt (SBUF_FREESPACE s)
            then rbind (sbuf_extend E (i32 (int len)) s) (\<lambda>(r, s).
                   Inr (if szt (SBUF_FREESPACE s) < len then szt (SBUF_FREESPACE s) else len, s))
            else Inr (len, s)) (\<lambda>(len, s).
       let (r, bs) = copyinstr (len + 1) in
       case s_buf s of None \<Rightarrow> Inl Undef
       | Some b \<Rightarrow>
           if s_len s < 0 \<or> nat (s_len s) + length bs > length b then Inl Undef
           else let s = s\<lparr>s_buf := Some (take (nat (s_len s)) b @ bs @ drop (nat (s_len s) + length bs) b)\<rparr>;
                    n = int (length bs) - 1 in
           if r = ENAMETOOLONG \<or> r = 0
           then let s = (if r = ENAMETOOLONG then s\<lparr>s_error := ENOMEM\<rparr> else s);
                    s = s\<lparr>s_len := s_len s + n\<rparr>;
                    s = (if has_flag s SBUF_INSECTION then s\<lparr>s_sect_len := s_sect_len s + n\<rparr> else s)
                in Inr (int (length bs), s)
           else Inr (- 1, s)))))"

section \<open>Trimming, finishing and sections\<close>

function trim_loop :: "sbuf \<Rightarrow> sbuf res" where
  "trim_loop s =
     (if s_len s > 0
      then case s_buf s of None \<Rightarrow> Inl Undef
           | Some b \<Rightarrow> rbind (rd b (nat (s_len s - 1))) (\<lambda>c.
               if isspace c
               then trim_loop (if has_flag s SBUF_INSECTION then s\<lparr>s_len := s_len s - 1, s_sect_len := s_sect_len s - 1\<rparr>
                               else s\<lparr>s_len := s_len s - 1\<rparr>)
               else Inr s)
      else Inr s)"
  by pat_completeness auto
termination by (relation "measure (\<lambda>s. nat (s_len s))") auto

declare trim_loop.simps [simp del]

definition sbuf_trim :: "sbuf \<Rightarrow> (int \<times> sbuf) res" where
  "sbuf_trim s =
     rbind (assert_sbuf_integrity s) (\<lambda>_.
     rbind (assert_sbuf_state s False) (\<lambda>_.
     rbind (kassert (s_drain_func s = 0)) (\<lambda>_.
     if s_error s \<noteq> 0 then Inr (- 1, s) else rbind (trim_loop s) (\<lambda>s. Inr (0, s)))))"

definition sbuf_error :: "sbuf \<Rightarrow> int" where
  "sbuf_error s = s_error s"

lemma sbuf_drain_progress:
  "sbuf_drain E s w = Inr (r, s', w') \<Longrightarrow> r = 0 \<Longrightarrow> nat (s_len s') < nat (s_len s)"
  by (auto simp: sbuf_drain_def kassert_def rbind_def Let_def split: if_splits option.splits prod.splits)

function finish_drain :: "'w sbuf_env \<Rightarrow> sbuf \<Rightarrow> 'w \<Rightarrow> (sbuf \<times> 'w) res" where
  "finish_drain E s w =
     (if s_len s > 0 \<and> s_error s = 0
      then case sbuf_drain E s w of Inl e \<Rightarrow> Inl e
           | Inr (r, s', w') \<Rightarrow> finish_drain E (s'\<lparr>s_error := r\<rparr>) w'
      else Inr (s, w))"
  by pat_completeness auto
termination
proof (relation "measure (\<lambda>(E, s, w). if s_error s = 0 then nat (s_len s) else 0)")
  fix E :: "'w sbuf_env" and s s' :: sbuf and w w' :: 'w and p q and r :: int
  assume "0 < s_len s \<and> s_error s = 0" "sbuf_drain E s w = Inr p" "(r, q) = p" "(s', w') = q"
  then show "((E, s'\<lparr>s_error := r\<rparr>, w'), (E, s, w)) \<in> measure (\<lambda>(E, s, w). if s_error s = 0 then nat (s_len s) else 0)"
    using sbuf_drain_progress[of E s w r s' w'] by auto
qed simp

declare finish_drain.simps [simp del]

definition sbuf_finish :: "'w sbuf_env \<Rightarrow> sbuf \<Rightarrow> 'w \<Rightarrow> (int \<times> sbuf \<times> 'w) res" where
  "sbuf_finish E s w =
     rbind (assert_sbuf_integrity s) (\<lambda>b.
     rbind (assert_sbuf_state s False) (\<lambda>_.
     rbind (if s_len s < 0 then Inl Undef else wr b (nat (s_len s)) 0) (\<lambda>b.
     let s = s\<lparr>s_buf := Some b\<rparr>;
         s = (if has_flag s SBUF_INCLUDENUL then s\<lparr>s_len := s_len s + 1\<rparr> else s) in
     rbind (if s_drain_func s \<noteq> 0 then finish_drain E s w else Inr (s, w)) (\<lambda>(s, w).
     Inr (s_error s, SBUF_SETFLAG SBUF_FINISHED s, w)))))"

definition sbuf_data :: "sbuf \<Rightarrow> byte list res" where
  "sbuf_data s =
     rbind (assert_sbuf_integrity s) (\<lambda>b.
     rbind (assert_sbuf_state s True) (\<lambda>_.
     rbind (kassert (s_drain_func s = 0)) (\<lambda>_. Inr b)))"

definition sbuf_len :: "sbuf \<Rightarrow> int res" where
  "sbuf_len s =
     rbind (assert_sbuf_integrity s) (\<lambda>_.
     rbind (kassert (s_drain_func s = 0)) (\<lambda>_.
     if s_error s \<noteq> 0 then Inr (- 1)
     else if has_flag s SBUF_INCLUDENUL \<and> \<not> has_flag s SBUF_FINISHED then Inr (s_len s + 1)
     else Inr (s_len s)))"

definition sbuf_done :: "sbuf \<Rightarrow> bool" where
  "sbuf_done s = has_flag s SBUF_FINISHED"

definition sbuf_start_section :: "bool \<Rightarrow> sbuf \<Rightarrow> (int option \<times> sbuf) res" where
  \<comment> \<open>whether \<open>old_lenp\<close> is given, and what is stored there\<close>
  "sbuf_start_section have_old s =
     rbind (assert_sbuf_integrity s) (\<lambda>_.
     rbind (assert_sbuf_state s False) (\<lambda>_.
     if \<not> has_flag s SBUF_INSECTION
     then rbind (kassert (s_sect_len s = 0)) (\<lambda>_.
            Inr (if have_old then Some (- 1) else None, SBUF_SETFLAG SBUF_INSECTION s))
     else rbind (kassert have_old) (\<lambda>_. Inr (Some (s_sect_len s), s\<lparr>s_sect_len := 0\<rparr>))))"

fun pad_loop :: "'w sbuf_env \<Rightarrow> byte \<Rightarrow> nat \<Rightarrow> sbuf \<times> 'w \<Rightarrow> (sbuf \<times> 'w) res option" where
  "pad_loop E c 0 sw = Some (Inr sw)"
| "pad_loop E c (Suc n) sw =
     (if s_error (fst sw) = 0
      then pbind (sbuf_put_byte E c (fst sw) (snd sw)) (pad_loop E c n) else Some (Inr sw))"

text \<open>\<open>roundup(x, y)\<close> for an \<open>ssize_t\<close> and a \<open>size_t\<close>: the sum is unsigned.\<close>

definition roundup :: "int \<Rightarrow> nat \<Rightarrow> nat" where
  "roundup x y = szt (x + (int y - 1)) div y * y"

definition sbuf_end_section :: "'w sbuf_env \<Rightarrow> int \<Rightarrow> nat \<Rightarrow> byte \<Rightarrow> sbuf \<Rightarrow> 'w \<Rightarrow> (int \<times> sbuf \<times> 'w) res option" where
  "sbuf_end_section E old_len pad c s w =
     pbind (Some (rbind (assert_sbuf_integrity s) (\<lambda>_. rbind (assert_sbuf_state s False) (\<lambda>_.
       kassert (has_flag s SBUF_INSECTION))))) (\<lambda>_.
     pbind (if pad > 1 then pad_loop E c (nat (i64 (int (roundup (s_sect_len s) pad) - s_sect_len s))) (s, w)
            else Some (Inr (s, w))) (\<lambda>(s, w).
     let len = s_sect_len s;
         s = (if old_len = - 1 then SBUF_CLEARFLAG SBUF_INSECTION (s\<lparr>s_sect_len := 0\<rparr>)
              else s\<lparr>s_sect_len := s_sect_len s + old_len\<rparr>)
     in Some (Inr (if s_error s \<noteq> 0 then - 1 else len, s, w))))"

section \<open>The invariant and the content\<close>

text \<open>An \<open>sbuf\<close> that is open for appending: its string and the NUL behind it lie in its array.\<close>

definition sbuf_open :: "sbuf \<Rightarrow> bool" where
  "sbuf_open s \<longleftrightarrow>
     (case s_buf s of None \<Rightarrow> False | Some b \<Rightarrow> s_size s \<le> int (length b)) \<and>
     0 \<le> s_len s \<and> s_len s < s_size s \<and> s_size s \<le> INT_MAX \<and> \<not> has_flag s SBUF_FINISHED"

definition content :: "sbuf \<Rightarrow> byte list" where
  "content s = (case s_buf s of None \<Rightarrow> [] | Some b \<Rightarrow> take (nat (s_len s)) b)"

text \<open>What is promised of a drain function: it takes between one and all of the bytes and adds
  them to the output \<open>log w\<close>, or fails with an error and leaves the output as it is.\<close>

definition drain_ok :: "'w sbuf_env \<Rightarrow> ('w \<Rightarrow> byte list) \<Rightarrow> bool" where
  "drain_ok E log \<longleftrightarrow>
     (\<forall>f a bs w. bs \<noteq> [] \<longrightarrow> (case drain_call E f a bs w of (n, w') \<Rightarrow>
        n \<noteq> 0 \<and> n \<le> int (length bs) \<and> log w' = log w @ (if n > 0 then take (nat n) bs else [])))"

lemma drain_okD:
  assumes "drain_ok E log" and "bs \<noteq> []" and "drain_call E f a bs w = (n, w')"
  shows "n \<noteq> 0" "n \<le> int (length bs)" "log w' = log w @ (if n > 0 then take (nat n) bs else [])"
proof -
  have "case drain_call E f a bs w of (n, w') \<Rightarrow>
      n \<noteq> 0 \<and> n \<le> int (length bs) \<and> log w' = log w @ (if n > 0 then take (nat n) bs else [])"
    using assms(1)[unfolded drain_ok_def, rule_format, OF assms(2)] .
  then show "n \<noteq> 0" "n \<le> int (length bs)" "log w' = log w @ (if n > 0 then take (nat n) bs else [])"
    unfolding assms(3) by simp_all
qed

text \<open>What appending keeps of an \<open>sbuf\<close> besides its content.\<close>

definition same_kind :: "sbuf \<Rightarrow> sbuf \<Rightarrow> bool" where
  "same_kind s s' \<longleftrightarrow> s_drain_func s' = s_drain_func s \<and> s_drain_arg s' = s_drain_arg s \<and>
     s_flags s' AND NOT SBUF_DYNAMIC = s_flags s AND NOT SBUF_DYNAMIC"

lemma same_kind_refl [simp]: "same_kind s s"
  by (simp add: same_kind_def)

lemma same_kind_trans: "same_kind s t \<Longrightarrow> same_kind t u \<Longrightarrow> same_kind s u"
  by (simp add: same_kind_def)

lemma same_kind_flag:
  assumes "same_kind s s'" and "f AND SBUF_DYNAMIC = 0"
  shows "has_flag s' f = has_flag s f"
proof -
  have "f AND NOT SBUF_DYNAMIC = f"
  proof (rule bit_eqI)
    fix n
    have "\<not> bit (f AND SBUF_DYNAMIC) n" using assms(2) by simp
    then show "bit (f AND NOT SBUF_DYNAMIC) n = bit f n" by (auto simp: bit_simps dest: bit_imp_le_length)
  qed
  then have "x AND f = (x AND NOT SBUF_DYNAMIC) AND f" for x :: u32
    using and.assoc[of x "NOT SBUF_DYNAMIC" f] and.commute[of "NOT SBUF_DYNAMIC" f] by simp
  from this[of "s_flags s'"] this[of "s_flags s"] have "s_flags s' AND f = s_flags s AND f"
    using assms(1) unfolding same_kind_def by argo
  then show ?thesis by (simp add: has_flag_def)
qed

lemma flag_distinct [simp]:
  "SBUF_FINISHED AND SBUF_DYNAMIC = 0" "SBUF_AUTOEXTEND AND SBUF_DYNAMIC = 0"
  "SBUF_INSECTION AND SBUF_DYNAMIC = 0" "SBUF_INCLUDENUL AND SBUF_DYNAMIC = 0"
  by code_simp+

lemma same_kind_dynamic: "same_kind s (if has_flag s SBUF_DYNAMIC then s else SBUF_SETFLAG SBUF_DYNAMIC s)"
  by (auto simp: same_kind_def SBUF_SETFLAG_def bit.conj_disj_distrib2)

section \<open>Growing\<close>

lemma extend_loop_ge:
  assumes "0 < n" and "n \<le> 4096" and "sz < 4096" and "\<exists>k. n = 2 ^ k"
  shows "sz \<le> extend_loop n sz" "extend_loop n sz \<le> 4096"
proof -
  have "sz \<le> extend_loop n sz \<and> extend_loop n sz \<le> 4096"
    using assms
  proof (induction n sz rule: extend_loop.induct)
    case (1 n sz)
    show ?case
    proof (cases "n < sz")
      case True
      obtain k where k: "n = 2 ^ k" using "1.prems" by blast
      have "n < 2 ^ 12" using True "1.prems" by simp
      then have "k < 12" unfolding k by (subst (asm) power_strict_increasing_iff) simp_all
      then have "(2 :: int) ^ Suc k \<le> 2 ^ 12" by (intro power_increasing) simp_all
      then have "n * 2 \<le> 4096" by (simp add: k)
      moreover have "\<exists>j. n * 2 = 2 ^ j" using k by (intro exI[of _ "Suc k"]) simp
      ultimately show ?thesis using 1 True by (subst (1 2) extend_loop.simps) simp
    next
      case False
      then show ?thesis using "1.prems" by (subst (1 2) extend_loop.simps) simp
    qed
  qed
  then show "sz \<le> extend_loop n sz" "extend_loop n sz \<le> 4096" by simp_all
qed

lemma sbuf_extendsize_spec:
  assumes "sz + 4095 \<le> INT_MAX" and "1 \<le> sz"
  obtains n where "sbuf_extendsize sz = Inr n" "sz \<le> n" "n \<le> INT_MAX" "n \<le> sz + 4095"
proof (cases "sz < 4096")
  case True
  have "\<exists>k. (16 :: int) = 2 ^ k" by (rule exI[of _ 4]) simp
  from extend_loop_ge[OF _ _ True this] show ?thesis
    using that[of "extend_loop 16 sz"] True assms(2) by (simp add: sbuf_extendsize_def kassert_def INT_MAX_def)
next
  case False
  let ?n = "(sz + 4095) div 4096 * 4096"
  have "sz \<le> ?n" "?n \<le> sz + 4095" by linarith+
  then show ?thesis using that[of ?n] False assms(1) by (simp add: sbuf_extendsize_def kassert_def)
qed

lemma i32_small: "- (2 ^ 31) \<le> x \<Longrightarrow> x \<le> INT_MAX \<Longrightarrow> i32 x = x"
  by (simp add: i32_def INT_MAX_def)

lemma sbuf_extend_spec:
  assumes "sbuf_open s" and "0 < n" and "s_size s + n + 4095 \<le> INT_MAX"
  shows "sbuf_extend E n s = Inr (- 1, s) \<and> \<not> (has_flag s SBUF_AUTOEXTEND \<and> (\<forall>k. sb_malloc E k)) \<or>
    (\<exists>s'. sbuf_extend E n s = Inr (0, s') \<and> sbuf_open s' \<and> content s' = content s \<and> same_kind s s' \<and>
      has_flag s SBUF_AUTOEXTEND \<and>
      s_len s' = s_len s \<and> s_size s + n \<le> s_size s' \<and> s_size s' \<le> s_size s + n + 4095 \<and> s_error s' = s_error s \<and> s_sect_len s' = s_sect_len s)"
proof (cases "has_flag s SBUF_AUTOEXTEND")
  case True
  obtain b where b: "s_buf s = Some b" "s_size s \<le> int (length b)" "0 \<le> s_len s" "s_len s < s_size s" "\<not> has_flag s SBUF_FINISHED"
    using assms(1) by (auto simp: sbuf_open_def split: option.splits)
  have "i32 (s_size s + n) = s_size s + n" using b assms by (intro i32_small) simp_all
  moreover obtain m where m: "sbuf_extendsize (s_size s + n) = Inr m" "s_size s + n \<le> m" "m \<le> INT_MAX" "m \<le> s_size s + n + 4095"
  proof (rule sbuf_extendsize_spec[OF assms(3)])
    show "1 \<le> s_size s + n" using b(3,4) assms(2) by linarith
  qed blast
  ultimately have e: "sbuf_extendsize (i32 (s_size s + n)) = Inr m" by simp
  show ?thesis
  proof (cases "sb_malloc E m")
    case False
    then show ?thesis using True e by (auto simp: sbuf_extend_def)
  next
    case alloc: True
    let ?d = "if has_flag s SBUF_DYNAMIC then s else SBUF_SETFLAG SBUF_DYNAMIC s"
    let ?s = "?d\<lparr>s_buf := Some (take (nat (s_size s)) b @ replicate (nat (m - s_size s)) 0), s_size := m\<rparr>"
    have r: "sbuf_extend E n s = Inr (0, ?s)" using True e alloc b m(2) assms(2) by (simp add: sbuf_extend_def)
    have k: "same_kind s ?s" using same_kind_dynamic[of s] by (simp add: same_kind_def)
    have d: "s_len ?d = s_len s" "s_error ?d = s_error s" "s_sect_len ?d = s_sect_len s" by (simp_all add: SBUF_SETFLAG_def)
    have "nat (s_len s) \<le> nat (s_size s)" using b by simp
    then have "content ?s = content s" using b d by (simp add: content_def min_absorb1)
    moreover have "\<not> has_flag ?s SBUF_FINISHED" using same_kind_flag[OF k, of SBUF_FINISHED] b(5) by simp
    then have "sbuf_open ?s" using b d m assms(2) by (simp add: sbuf_open_def)
    ultimately show ?thesis using True r k d m(2,4) by (intro disjI2 exI[of _ ?s]) simp
  qed
qed (simp add: sbuf_extend_def)

section \<open>Draining\<close>

lemma sbuf_drain_spec:
  assumes "drain_ok E log" and "s_buf s = Some b" and "0 < s_len s" and "s_len s \<le> int (length b)" and "s_error s = 0"
  obtains r l b' w' where
    "sbuf_drain E s w = Inr (r, s\<lparr>s_buf := Some b', s_len := l, s_error := r\<rparr>, w')"
    "length b' = length b" "0 \<le> l" "l \<le> s_len s" "r = 0 \<Longrightarrow> l < s_len s"
    "log w' @ take (nat l) b' = log w @ take (nat (s_len s)) b"
proof -
  let ?c = "take (nat (s_len s)) b"
  obtain n w' where d: "drain_call E (s_drain_func s) (s_drain_arg s) ?c w = (n, w')" by fastforce
  have "?c \<noteq> []" using assms(3,4) by auto
  note n = drain_okD[OF assms(1) this d]
  have lc: "length ?c = nat (s_len s)" using assms(4) by simp
  show thesis
  proof (cases "n < 0")
    case True
    have "s\<lparr>s_error := - n\<rparr> = s\<lparr>s_buf := Some b, s_len := s_len s, s_error := - n\<rparr>" using assms(2) by simp
    then have "sbuf_drain E s w = Inr (- n, s\<lparr>s_buf := Some b, s_len := s_len s, s_error := - n\<rparr>, w')"
      using assms d True by (simp add: sbuf_drain_def kassert_def)
    then show ?thesis by (rule that) (use True n(3) assms(3) in auto)
  next
    case False
    then have pos: "0 < n" "n \<le> s_len s" using n(1,2) lc assms(3) by auto
    define m where "m = nat (s_len s - n)"
    have m: "nat (s_len s) = nat n + m" "nat n + m \<le> length b" using pos assms(4) by (auto simp: m_def)
    let ?b = "if s_len s - n = 0 then b else take m (drop (nat n) b) @ drop m b"
    have "sbuf_drain E s w = Inr (0, s\<lparr>s_buf := Some ?b, s_len := s_len s - n, s_error := 0\<rparr>, w')"
    proof (cases "s_len s - n = 0")
      case True
      have "s\<lparr>s_len := 0\<rparr> = s\<lparr>s_buf := Some b, s_len := 0, s_error := 0\<rparr>" using assms(2,5) by simp
      then show ?thesis using assms d pos True by (simp add: sbuf_drain_def kassert_def Let_def)
    next
      case nz: False
      have "s\<lparr>s_len := s_len s - n, s_buf := Some ?b\<rparr> = s\<lparr>s_buf := Some ?b, s_len := s_len s - n, s_error := 0\<rparr>"
        using assms(5) by simp
      then show ?thesis using assms d pos nz by (simp add: sbuf_drain_def kassert_def Let_def m_def)
    qed
    moreover have "length ?b = length b" using m(2) by simp
    moreover have "take m ?b = take m (drop (nat n) b)" using m(2) by (auto simp: m_def)
    then have "log w' @ take (nat (s_len s - n)) ?b = log w @ ?c"
      using n(3) pos m unfolding m_def[symmetric] by (simp add: take_add min_def)
    ultimately show ?thesis using that pos by simp
  qed
qed

lemma finish_drain_spec:
  assumes "drain_ok E log"
  shows "s_buf s = Some b \<Longrightarrow> 0 \<le> s_len s \<Longrightarrow> s_len s \<le> int (length b) \<Longrightarrow>
    \<exists>l b' e w'. finish_drain E s w = Inr (s\<lparr>s_buf := Some b', s_len := l, s_error := e\<rparr>, w') \<and>
      length b' = length b \<and> 0 \<le> l \<and> l \<le> s_len s \<and> (e = 0 \<longrightarrow> l = 0) \<and>
      log w' @ take (nat l) b' = log w @ take (nat (s_len s)) b"
proof (induction "if s_error s = 0 then nat (s_len s) else 0" arbitrary: s b w rule: less_induct)
  case less
  show ?case
  proof (cases "s_len s > 0 \<and> s_error s = 0")
    case False
    have "s = s\<lparr>s_buf := Some b, s_len := s_len s, s_error := s_error s\<rparr>" using less.prems by simp
    moreover have "finish_drain E s w = Inr (s, w)" unfolding finish_drain.simps[of E s w] if_not_P[OF False] ..
    moreover have "s_error s = 0 \<longrightarrow> s_len s = 0" using False less.prems by auto
    ultimately show ?thesis using less.prems by (metis order_refl)
  next
    case True
    obtain r l b1 w1 where d: "sbuf_drain E s w = Inr (r, s\<lparr>s_buf := Some b1, s_len := l, s_error := r\<rparr>, w1)"
        "length b1 = length b" "0 \<le> l" "l \<le> s_len s" "r = 0 \<Longrightarrow> l < s_len s"
        "log w1 @ take (nat l) b1 = log w @ take (nat (s_len s)) b"
      using sbuf_drain_spec[OF assms less.prems(1) _ less.prems(3), of w] True by blast
    let ?s = "s\<lparr>s_buf := Some b1, s_len := l, s_error := r\<rparr>"
    have step: "finish_drain E s w = finish_drain E ?s w1" using True d(1) by (subst finish_drain.simps) simp
    have "(if s_error ?s = 0 then nat (s_len ?s) else 0) < (if s_error s = 0 then nat (s_len s) else 0)"
      using True d(3,5) by simp
    from less.hyps[OF this, of b1 w1] obtain l2 b2 e w2 where
      "finish_drain E ?s w1 = Inr (?s\<lparr>s_buf := Some b2, s_len := l2, s_error := e\<rparr>, w2)"
      "length b2 = length b1" "0 \<le> l2" "l2 \<le> l" "e = 0 \<longrightarrow> l2 = 0" "log w2 @ take (nat l2) b2 = log w1 @ take (nat l) b1"
      using d less.prems by auto
    then show ?thesis using step d by (intro exI[of _ l2] exI[of _ b2] exI[of _ e] exI[of _ w2]) simp
  qed
qed

section \<open>Appending\<close>

definition room_ok :: "sbuf \<Rightarrow> nat \<Rightarrow> bool" where
  "room_ok s n \<longleftrightarrow> s_drain_func s \<noteq> 0 \<and> 2 \<le> s_size s \<or> s_drain_func s = 0 \<and> int n \<le> SBUF_FREESPACE s \<or>
     s_drain_func s = 0 \<and> s_size s + int n + 4095 \<le> INT_MAX"

lemma put_chunk_spec:
  assumes "sbuf_open s" and "n = min (length data) (nat (SBUF_FREESPACE s))"
  obtains s' where "put_chunk data s = Inr (s', drop n data)" "sbuf_open s'" "same_kind s s'"
    "content s' = content s @ take n data" "s_error s' = s_error s" "s_size s' = s_size s"
    "s_len s' = s_len s + int n" "s_sect_len s' = s_sect_len s + (if has_flag s SBUF_INSECTION then int n else 0)"
proof -
  obtain b where b: "s_buf s = Some b" "s_size s \<le> int (length b)" "0 \<le> s_len s" "s_len s < s_size s"
      "s_size s \<le> INT_MAX" "\<not> has_flag s SBUF_FINISHED"
    using assms(1) by (auto simp: sbuf_open_def split: option.splits)
  have n: "(if 0 \<le> SBUF_FREESPACE s \<and> nat (SBUF_FREESPACE s) \<le> length data then nat (SBUF_FREESPACE s) else length data) = n"
    using b assms(2) by (auto simp: SBUF_FREESPACE_def)
  have nb: "int n \<le> SBUF_FREESPACE s" "n \<le> length data" using b assms(2) by (auto simp: SBUF_FREESPACE_def)
  then have fit: "nat (s_len s) + n \<le> length b" using b by (auto simp: SBUF_FREESPACE_def)
  let ?b = "take (nat (s_len s)) b @ take n data @ drop (nat (s_len s) + n) b"
  let ?s0 = "s\<lparr>s_buf := Some ?b, s_len := s_len s + int n\<rparr>"
  let ?s = "if has_flag s SBUF_INSECTION then ?s0\<lparr>s_sect_len := s_sect_len s + int n\<rparr> else ?s0"
  have fl: "has_flag ?s0 f = has_flag s f" "has_flag ?s f = has_flag s f" for f by (simp_all add: has_flag_def)
  have guard: "\<not> (s_len s < 0 \<or> nat (s_len s) + n > length b)" using b(3) fit by simp
  have "put_chunk data s = Inr (?s, drop n data)"
    unfolding put_chunk_def n Let_def b(1) option.case if_not_P[OF guard] by (simp add: has_flag_def)
  moreover have "content ?s = content s @ take n data"
  proof -
    have "nat (s_len s + int n) = nat (s_len s) + n" using b(3) by simp
    moreover have "length (take (nat (s_len s)) b) = nat (s_len s)" "length (take n data) = n" using fit nb by auto
    ultimately show ?thesis using b(1) by (simp add: content_def)
  qed
  moreover have "sbuf_open ?s"
    using b fit nb unfolding sbuf_open_def fl by (auto simp: SBUF_FREESPACE_def)
  ultimately show thesis using that by (simp add: same_kind_def)
qed

text \<open>Making room keeps output and content together the same; without an error there is room
  afterwards.\<close>

lemma put_room_spec:
  assumes "s_drain_func s \<noteq> 0 \<Longrightarrow> drain_ok E log" and "sbuf_open s" and "s_error s = 0" and "room_ok s n" and "0 < n"
  obtains s' w' where "put_room E n s w = Inr (s', w')" "sbuf_open s'" "same_kind s s'"
    "log w' @ content s' = log w @ content s" "s_sect_len s' = s_sect_len s"
    "s_error s' = 0 \<Longrightarrow> 0 < SBUF_FREESPACE s' \<and> room_ok s' n \<and>
       (s_drain_func s = 0 \<longrightarrow> SBUF_FREESPACE s \<le> 0 \<longrightarrow> int n \<le> SBUF_FREESPACE s' \<and> has_flag s SBUF_AUTOEXTEND)"
    "s_drain_func s \<noteq> 0 \<Longrightarrow> s_size s' = s_size s" "s_size s' \<le> s_size s + int n + 4095"
    "s_drain_func s = 0 \<Longrightarrow> w' = w \<and> (s_error s' = 0 \<or> s_error s' = ENOMEM) \<and> content s' = content s \<and>
       (has_flag s SBUF_AUTOEXTEND \<and> (\<forall>k. sb_malloc E k) \<longrightarrow> s_error s' = 0)"
    "0 < SBUF_FREESPACE s \<Longrightarrow> s' = s"
proof (cases "0 < SBUF_FREESPACE s")
  case True
  then have "put_room E n s w = Inr (s, w)" by (simp add: put_room_def)
  then show ?thesis using that[of s w] True assms by simp
next
  case False
  obtain b where b: "s_buf s = Some b" "s_size s \<le> int (length b)" "0 \<le> s_len s" "s_len s < s_size s"
      "s_size s \<le> INT_MAX" "\<not> has_flag s SBUF_FINISHED"
    using assms(2) by (auto simp: sbuf_open_def split: option.splits)
  have full: "s_len s = s_size s - 1" using False b by (simp add: SBUF_FREESPACE_def)
  show ?thesis
  proof (cases "s_drain_func s = 0")
    case True
    have sz: "s_size s + int n + 4095 \<le> INT_MAX" using assms(4,5) True False by (simp add: room_ok_def)
    then have mn: "min (int n) INT_MAX = int n" using b by simp
    from sbuf_extend_spec[OF assms(2) _ sz, of E] assms(5)
    consider "sbuf_extend E (int n) s = Inr (- 1, s)" "\<not> (has_flag s SBUF_AUTOEXTEND \<and> (\<forall>k. sb_malloc E k))"
      | s' where "sbuf_extend E (int n) s = Inr (0, s')" "sbuf_open s'" "content s' = content s" "same_kind s s'"
        "has_flag s SBUF_AUTOEXTEND"
        "s_len s' = s_len s" "s_size s + int n \<le> s_size s'" "s_size s' \<le> s_size s + int n + 4095" "s_error s' = s_error s" "s_sect_len s' = s_sect_len s" by auto
    then show ?thesis
    proof cases
      case 1
      let ?s = "s\<lparr>s_error := ENOMEM\<rparr>"
      have "put_room E n s w = Inr (?s, w)" using 1 False True mn by (simp add: put_room_def)
      moreover have "sbuf_open ?s" "content ?s = content s" "same_kind s ?s"
        using assms(2) b(1) by (simp_all add: sbuf_open_def content_def same_kind_def has_flag_def)
      ultimately show ?thesis using that[of ?s w] 1(2) False by (simp add: ENOMEM_def)
    next
      case (2 s')
      have "put_room E n s w = Inr (s', w)" using 2 False True mn by (simp add: put_room_def)
      moreover have "int n \<le> SBUF_FREESPACE s'" using 2 full by (simp add: SBUF_FREESPACE_def)
      moreover have "s_drain_func s' = 0" using 2(4) True by (simp add: same_kind_def)
      ultimately show ?thesis using that[of s' w] 2 assms(3,5) False True by (simp add: room_ok_def)
    qed
  next
    case dr: False
    then have sz: "2 \<le> s_size s" using assms(4) by (simp add: room_ok_def)
    then have pos: "0 < s_len s" "s_len s \<le> int (length b)" using full b by simp_all
    obtain r l b' w' where d: "sbuf_drain E s w = Inr (r, s\<lparr>s_buf := Some b', s_len := l, s_error := r\<rparr>, w')"
        "length b' = length b" "0 \<le> l" "l \<le> s_len s" "r = 0 \<Longrightarrow> l < s_len s"
        "log w' @ take (nat l) b' = log w @ take (nat (s_len s)) b"
      using sbuf_drain_spec[OF assms(1)[OF dr] b(1) pos assms(3), of w] by blast
    let ?s = "s\<lparr>s_buf := Some b', s_len := l, s_error := r\<rparr>"
    have "put_room E n s w = Inr (?s, w')" using d(1) False dr by (simp add: put_room_def)
    moreover have "sbuf_open ?s" using b d by (simp add: sbuf_open_def has_flag_def)
    moreover have "log w' @ content ?s = log w @ content s" using d(6) b(1) by (simp add: content_def)
    moreover have "r = 0 \<Longrightarrow> l + 1 < s_size s" using d(5) full by simp
    ultimately show ?thesis using that[of ?s w'] dr sz False
      by (simp add: same_kind_def room_ok_def SBUF_FREESPACE_def)
  qed
qed

text \<open>The outcome of appending \<open>data\<close>: the first \<open>k\<close> bytes are in the output or the content, all of
  them unless an error is set.\<close>

definition appended :: "'w sbuf_env \<Rightarrow> ('w \<Rightarrow> byte list) \<Rightarrow> byte list \<Rightarrow> sbuf \<Rightarrow> 'w \<Rightarrow> sbuf \<Rightarrow> 'w \<Rightarrow> nat \<Rightarrow> bool" where
  "appended E log data s w s' w' k \<longleftrightarrow>
     sbuf_open s' \<and> same_kind s s' \<and> k \<le> length data \<and>
     log w' @ content s' = log w @ content s @ take k data \<and>
     (s_error s' = 0 \<longrightarrow> k = length data) \<and>
     s_sect_len s' = s_sect_len s + (if has_flag s SBUF_INSECTION then int k else 0) \<and>
     (s_drain_func s = 0 \<longrightarrow> w' = w \<and> content s' = content s @ take k data \<and> (s_error s' = 0 \<or> s_error s' = ENOMEM)) \<and>
     (s_drain_func s = 0 \<longrightarrow> has_flag s SBUF_AUTOEXTEND \<longrightarrow> (\<forall>n. sb_malloc E n) \<longrightarrow> s_error s' = 0) \<and>
     (s_drain_func s = 0 \<longrightarrow> \<not> has_flag s SBUF_AUTOEXTEND \<longrightarrow> k = min (length data) (nat (SBUF_FREESPACE s))) \<and>
     (int (length data) \<le> SBUF_FREESPACE s \<longrightarrow> s_size s' = s_size s) \<and>
     s_size s' \<le> s_size s + int (length data) + 4095"

lemma appended_step:
  assumes "sbuf_open s" and "0 < SBUF_FREESPACE s" and "same_kind s0 s" and "s_sect_len s = s_sect_len s0"
    and "log w @ content s = log w0 @ content s0"
    and "s_drain_func s0 = 0 \<Longrightarrow> w = w0 \<and> content s = content s0"
    and "SBUF_FREESPACE s0 \<le> 0 \<Longrightarrow> s_drain_func s0 = 0 \<Longrightarrow> has_flag s0 SBUF_AUTOEXTEND"
    and "0 < SBUF_FREESPACE s0 \<Longrightarrow> s = s0"
    and sz: "data \<noteq> []" "SBUF_FREESPACE s0 \<le> 0 \<Longrightarrow> int (length data) \<le> SBUF_FREESPACE s \<or> s_size s = s_size s0"
      "s_size s \<le> s_size s0 + int (length data) + 4095"
    and "n = min (length data) (nat (SBUF_FREESPACE s))"
    and "sbuf_open s1" and "same_kind s s1" and "content s1 = content s @ take n data" and "s_size s1 = s_size s"
    and "s_len s1 = s_len s + int n" and "s_sect_len s1 = s_sect_len s + (if has_flag s SBUF_INSECTION then int n else 0)"
    and "appended E log (drop n data) s1 w s2 w2 k"
  shows "appended E log data s0 w0 s2 w2 (n + k)"
proof -
  note assms = assms(1-8) assms(12-)
  have a: "sbuf_open s2" "same_kind s1 s2" "k \<le> length (drop n data)"
    "log w2 @ content s2 = log w @ content s1 @ take k (drop n data)" "s_error s2 = 0 \<longrightarrow> k = length (drop n data)"
    "s_sect_len s2 = s_sect_len s1 + (if has_flag s1 SBUF_INSECTION then int k else 0)"
    "s_drain_func s1 = 0 \<longrightarrow> w2 = w \<and> content s2 = content s1 @ take k (drop n data) \<and> (s_error s2 = 0 \<or> s_error s2 = ENOMEM)"
    "s_drain_func s1 = 0 \<longrightarrow> has_flag s1 SBUF_AUTOEXTEND \<longrightarrow> (\<forall>n. sb_malloc E n) \<longrightarrow> s_error s2 = 0"
    "s_drain_func s1 = 0 \<longrightarrow> \<not> has_flag s1 SBUF_AUTOEXTEND \<longrightarrow> k = min (length (drop n data)) (nat (SBUF_FREESPACE s1))"
    "int (length (drop n data)) \<le> SBUF_FREESPACE s1 \<longrightarrow> s_size s2 = s_size s1"
    "s_size s2 \<le> s_size s1 + int (length (drop n data)) + 4095"
    using assms(16) unfolding appended_def by blast+
  note k01 = same_kind_trans[OF assms(3) assms(11)]
  have fl: "has_flag s1 f = has_flag s0 f" "has_flag s f = has_flag s0 f" if "f AND SBUF_DYNAMIC = 0" for f
    using same_kind_flag[OF k01 that] same_kind_flag[OF assms(3) that] by simp_all
  have df: "s_drain_func s1 = s_drain_func s0" using k01 by (simp add: same_kind_def)
  have tk: "take (n + k) data = take n data @ take k (drop n data)" by (rule take_add)
  have nk: "n \<le> length data" using assms(9) by simp
  have "n + k = min (length data) (nat (SBUF_FREESPACE s0))"
    if h: "s_drain_func s0 = 0" "\<not> has_flag s0 SBUF_AUTOEXTEND"
  proof -
    have "0 < SBUF_FREESPACE s0" using assms(7) h by (meson not_le)
    then have s: "s = s0" by (rule assms(8))
    have "k = min (length data - n) (nat (SBUF_FREESPACE s0 - int n))"
      using a(9) h df fl(1)[of SBUF_AUTOEXTEND] assms(13,14) s by (simp add: SBUF_FREESPACE_def algebra_simps)
    then show ?thesis using assms(2,9) s by (auto simp: min_def split: if_splits)
  qed
  moreover have "s_sect_len s2 = s_sect_len s0 + (if has_flag s0 SBUF_INSECTION then int (n + k) else 0)"
    using a(6) assms(4,15) fl[of SBUF_INSECTION] by simp
  moreover have "log w2 @ content s2 = log w0 @ content s0 @ take (n + k) data"
  proof -
    have "log w @ content s1 = (log w @ content s) @ take n data" by (simp add: assms(12))
    then have "log w @ content s1 = (log w0 @ content s0) @ take n data" by (simp only: assms(5))
    then show ?thesis using a(4) tk by (metis append.assoc)
  qed
  moreover have fit: "s_size s2 = s_size s" if "int (length data) \<le> SBUF_FREESPACE s"
    using that a(10) assms(13,14) nk by (simp add: SBUF_FREESPACE_def)
  moreover have "s_size s2 = s_size s0" if h: "int (length data) \<le> SBUF_FREESPACE s0"
  proof -
    have "0 < SBUF_FREESPACE s0" using h sz(1) by (cases data) auto
    then show ?thesis using assms(8) fit h by simp
  qed
  moreover have "s_size s2 \<le> s_size s0 + int (length data) + 4095"
  proof (cases "0 < SBUF_FREESPACE s0")
    case True
    then show ?thesis using assms(8,13) a(11) nk by simp
  next
    case False
    then show ?thesis using sz(2,3) fit a(11) assms(13) nk by auto
  qed
  ultimately show ?thesis
    unfolding appended_def using a same_kind_trans[OF k01 a(2)] nk df fl(1)[of SBUF_AUTOEXTEND] assms(6,12) tk
    by auto
qed

lemma appended_nil: "sbuf_open s \<Longrightarrow> s_error s = 0 \<Longrightarrow> appended E log [] s w s w 0"
  by (simp add: appended_def)

lemma put_loop_appends:
  assumes "s_drain_func s \<noteq> 0 \<Longrightarrow> drain_ok E log" and "sbuf_open s" and "s_error s = 0" and "room_ok s (length data)"
  shows "\<exists>s' w' k. put_loop E data s w = Some (Inr (s', w')) \<and> appended E log data s w s' w' k"
  using assms
proof (induction "length data" arbitrary: data s w rule: less_induct)
  case less
  show ?case
  proof (cases "data = []")
    case True
    then have "put_loop E data s w = Some (Inr (s, w))" by (subst put_loop.simps) simp
    then show ?thesis using appended_nil[OF less.prems(2,3), of E log w] True by blast
  next
    case False
    then have pos: "0 < length data" by simp
    obtain s1 w1 where r: "put_room E (length data) s w = Inr (s1, w1)" "sbuf_open s1" "same_kind s s1"
        "log w1 @ content s1 = log w @ content s" "s_sect_len s1 = s_sect_len s"
        and r0: "s_error s1 = 0 \<Longrightarrow> 0 < SBUF_FREESPACE s1 \<and> room_ok s1 (length data) \<and>
          (s_drain_func s = 0 \<longrightarrow> SBUF_FREESPACE s \<le> 0 \<longrightarrow> int (length data) \<le> SBUF_FREESPACE s1 \<and> has_flag s SBUF_AUTOEXTEND)"
        and rs: "s_drain_func s \<noteq> 0 \<Longrightarrow> s_size s1 = s_size s" "s_size s1 \<le> s_size s + int (length data) + 4095"
        and rd: "s_drain_func s = 0 \<Longrightarrow> w1 = w \<and> (s_error s1 = 0 \<or> s_error s1 = ENOMEM) \<and> content s1 = content s \<and>
          (has_flag s SBUF_AUTOEXTEND \<and> (\<forall>k. sb_malloc E k) \<longrightarrow> s_error s1 = 0)"
        and re: "0 < SBUF_FREESPACE s \<Longrightarrow> s1 = s"
      using put_room_spec[OF less.prems pos, of w] by blast
    show ?thesis
    proof (cases "SBUF_FREESPACE s \<le> 0 \<and> s_error s1 \<noteq> 0")
      case True
      then have "put_loop E data s w = Some (Inr (s1, w1))" using False r(1) by (subst put_loop.simps) simp
      moreover have "appended E log data s w s1 w1 0"
      proof -
        have "\<not> int (length data) \<le> SBUF_FREESPACE s" using True pos by linarith
        then show ?thesis unfolding appended_def using r True rd rs(2) by auto
      qed
      ultimately show ?thesis by blast
    next
      case ok: False
      then have e0: "s_error s1 = 0" using re less.prems(3) by (cases "0 < SBUF_FREESPACE s") auto
      note fr = r0[OF e0]
      define n where "n = min (length data) (nat (SBUF_FREESPACE s1))"
      obtain s2 where c: "put_chunk data s1 = Inr (s2, drop n data)" "sbuf_open s2" "same_kind s1 s2"
          "content s2 = content s1 @ take n data" "s_error s2 = s_error s1" "s_size s2 = s_size s1"
          "s_len s2 = s_len s1 + int n" "s_sect_len s2 = s_sect_len s1 + (if has_flag s1 SBUF_INSECTION then int n else 0)"
        using put_chunk_spec[OF r(2) n_def] by blast
      have n: "0 < n" "n \<le> length data" using fr pos by (auto simp: n_def)
      have df: "s_drain_func s2 \<noteq> 0 \<Longrightarrow> drain_ok E log"
        using less.prems(1) same_kind_trans[OF r(3) c(3)] by (simp add: same_kind_def)
      have "room_ok s2 (length (drop n data))"
        using fr c(3,6,7) n by (auto simp: room_ok_def SBUF_FREESPACE_def same_kind_def)
      then obtain s3 w3 k where l: "put_loop E (drop n data) s2 w1 = Some (Inr (s3, w3))" "appended E log (drop n data) s2 w1 s3 w3 k"
        using less.hyps[of "drop n data" s2 w1] n pos c(2,5) e0 df by auto
      have "put_loop E data s w = Some (Inr (s3, w3))" using False e0 r(1) c(1) l(1) by (subst put_loop.simps) simp
      moreover have "appended E log data s w s3 w3 (n + k)"
        by (rule appended_step[OF r(2) _ r(3) r(5) r(4) _ _ _ False _ rs(2) n_def c(2,3,4,6,7,8) l(2)]) (use fr rd re rs(1) in auto)
      ultimately show ?thesis by blast
    qed
  qed
qed

lemma sbuf_put_bytes_appends:
  assumes "s_drain_func s \<noteq> 0 \<Longrightarrow> drain_ok E log" and "sbuf_open s" and "s_error s = 0" and "room_ok s (length data)"
  shows "\<exists>s' w' k. sbuf_put_bytes E data s w = Some (Inr (s', w')) \<and> appended E log data s w s' w' k"
proof -
  have "rbind (assert_sbuf_integrity s) (\<lambda>_. assert_sbuf_state s False) = Inr ()"
    using assms(2) by (auto simp: sbuf_open_def assert_sbuf_integrity_def assert_sbuf_state_def split: option.splits)
  then show ?thesis using put_loop_appends[OF assms, of w] assms(3) by (simp add: sbuf_put_bytes_def)
qed

section \<open>From creation to the finished string\<close>

text \<open>Appending the pieces \<open>ds\<close> one after the other with \<open>sbuf_bcat\<close>, as long as they succeed.\<close>

fun bcat_all :: "'w sbuf_env \<Rightarrow> byte list list \<Rightarrow> sbuf \<Rightarrow> 'w \<Rightarrow> (sbuf \<times> 'w) res option" where
  "bcat_all E [] s w = Some (Inr (s, w))"
| "bcat_all E (d # ds) s w =
     pbind (sbuf_bcat E d s w) (\<lambda>(r, s, w). if r = 0 then bcat_all E ds s w else Some (Inl (Throw ''error'')))"

lemma sbuf_bcat_auto:
  assumes "sbuf_open s" and "s_error s = 0" and "s_drain_func s = 0" and "has_flag s SBUF_AUTOEXTEND"
    and "\<forall>n. sb_malloc E n" and "s_size s + int (length d) + 4095 \<le> INT_MAX"
  shows "\<exists>s'. sbuf_bcat E d s w = Some (Inr (0, s', w)) \<and> sbuf_open s' \<and> s_error s' = 0 \<and> same_kind s s' \<and>
    content s' = content s @ d \<and> s_size s' \<le> s_size s + int (length d) + 4095"
proof -
  have d: "s_drain_func s \<noteq> 0 \<Longrightarrow> drain_ok E (\<lambda>_. [])" and r: "room_ok s (length d)"
    using assms(3,6) by (simp_all add: room_ok_def)
  obtain s' w' k where p: "sbuf_put_bytes E d s w = Some (Inr (s', w'))" "appended E (\<lambda>_. []) d s w s' w' k"
    using sbuf_put_bytes_appends[OF d assms(1,2) r] by blast
  then have a: "s_error s' = 0" "w' = w" "k = length d" "content s' = content s @ take k d" "sbuf_open s'" "same_kind s s'"
      "s_size s' \<le> s_size s + int (length d) + 4095"
    using assms(3-5) by (auto simp: appended_def)
  then show ?thesis using p(1) by (simp add: sbuf_bcat_def pbind_def ret_status_def)
qed

lemma bcat_all_auto:
  assumes "sbuf_open s" and "s_error s = 0" and "s_drain_func s = 0" and "has_flag s SBUF_AUTOEXTEND"
    and "\<forall>n. sb_malloc E n" and "s_size s + (\<Sum>d\<leftarrow>ds. int (length d) + 4095) \<le> INT_MAX"
  shows "\<exists>s'. bcat_all E ds s w = Some (Inr (s', w)) \<and> sbuf_open s' \<and> s_error s' = 0 \<and> same_kind s s' \<and>
    content s' = content s @ concat ds"
  using assms(1-4,6)
proof (induction ds arbitrary: s)
  case (Cons d ds)
  have nn: "0 \<le> (\<Sum>d\<leftarrow>ds. int (length d) + 4095)" by (rule sum_list_nonneg) auto
  then obtain s1 where 1: "sbuf_bcat E d s w = Some (Inr (0, s1, w))" "sbuf_open s1" "s_error s1 = 0" "same_kind s s1"
      "content s1 = content s @ d" "s_size s1 \<le> s_size s + int (length d) + 4095"
    using sbuf_bcat_auto[OF Cons.prems(1-4) assms(5), of d w] Cons.prems(5) by auto
  have "s_drain_func s1 = 0" "has_flag s1 SBUF_AUTOEXTEND"
    using 1(4) Cons.prems(3,4) same_kind_flag[OF 1(4), of SBUF_AUTOEXTEND] by (simp_all add: same_kind_def)
  then obtain s' where "bcat_all E ds s1 w = Some (Inr (s', w))" "sbuf_open s'" "s_error s' = 0" "same_kind s1 s'"
      "content s' = content s1 @ concat ds"
    using Cons.IH[OF 1(2,3)] 1(6) Cons.prems(5) by auto
  then show ?case using 1 same_kind_trans[OF 1(4)] by (auto simp: pbind_def)
qed simp

lemma finish_data:
  assumes "sbuf_open s" and "s_error s = 0" and "s_drain_func s = 0"
  shows "\<exists>s' b rest. sbuf_finish E s w = Inr (0, s', w) \<and> sbuf_data s' = Inr b \<and> b = content s @ 0 # rest \<and>
    sbuf_done s' \<and> sbuf_len s' = Inr (int (length (content s)) + (if has_flag s SBUF_INCLUDENUL then 1 else 0))"
proof -
  obtain b where b: "s_buf s = Some b" "s_size s \<le> int (length b)" "0 \<le> s_len s" "s_len s < s_size s" "\<not> has_flag s SBUF_FINISHED"
    using assms(1) by (auto simp: sbuf_open_def split: option.splits)
  define m where "m = nat (s_len s)"
  have m: "m < length b" "s_len s = int m" using b by (auto simp: m_def)
  let ?b = "b[m := 0]"
  let ?s = "(if has_flag s SBUF_INCLUDENUL then s\<lparr>s_buf := Some ?b, s_len := int m + 1\<rparr> else s\<lparr>s_buf := Some ?b\<rparr>)"
  have fl: "has_flag (SBUF_SETFLAG SBUF_FINISHED ?s) SBUF_FINISHED"
      "has_flag (SBUF_SETFLAG SBUF_FINISHED ?s) SBUF_INCLUDENUL = has_flag s SBUF_INCLUDENUL"
    by (simp_all add: has_flag_def SBUF_SETFLAG_def SBUF_FINISHED_def SBUF_INCLUDENUL_def bit.conj_disj_distrib2)
  have int: "assert_sbuf_integrity s = Inr b" "assert_sbuf_state s False = Inr ()"
    using b by (simp_all add: assert_sbuf_integrity_def assert_sbuf_state_def)
  have fin: "sbuf_finish E s w = Inr (0, SBUF_SETFLAG SBUF_FINISHED ?s, w)"
    using int b m assms(2,3) by (simp add: sbuf_finish_def has_flag_def)
  have int': "assert_sbuf_integrity (SBUF_SETFLAG SBUF_FINISHED ?s) = Inr ?b"
    using b m fl unfolding assert_sbuf_integrity_def by (auto simp: SBUF_SETFLAG_def)
  have data: "sbuf_data (SBUF_SETFLAG SBUF_FINISHED ?s) = Inr ?b"
    using int' fl(1) assms(3) by (simp add: sbuf_data_def assert_sbuf_state_def kassert_def) (simp add: SBUF_SETFLAG_def)
  have len: "sbuf_len (SBUF_SETFLAG SBUF_FINISHED ?s) = Inr (int m + (if has_flag s SBUF_INCLUDENUL then 1 else 0))"
    using int' fl assms(2,3) m by (auto simp: sbuf_len_def kassert_def SBUF_SETFLAG_def)
  have "?b = content s @ 0 # drop (Suc m) b" using b(1) m by (simp add: content_def upd_conv_take_nth_drop)
  moreover have "length (content s) = m" using b(1) m by (simp add: content_def)
  ultimately show ?thesis using fin data len fl(1)
    by (intro exI[of _ "SBUF_SETFLAG SBUF_FINISHED ?s"] exI[of _ ?b] exI[of _ "drop (Suc m) b"]) (simp add: sbuf_done_def)
qed

section \<open>Properties\<close>


text \<open>An output that takes at most four bytes at a time, and an \<open>sbuf\<close> of eight bytes with it.\<close>

definition example_sink :: "byte list sbuf_env" where
  "example_sink = \<lparr>drain_call = (\<lambda>f a bs w. (int (length (take 4 bs)), w @ take 4 bs)), sb_malloc = (\<lambda>n. True)\<rparr>"

definition example_sbuf :: sbuf where
  "example_sbuf = sbuf_zero\<lparr>s_buf := Some (replicate 8 0), s_size := 8, s_drain_func := 1\<rparr>"

lemma example_sink_ok: "drain_ok example_sink (\<lambda>w. w)"
  by (simp add: drain_ok_def example_sink_def min_def)


text \<open>
  A whole life of an automatically extended \<open>sbuf\<close>: after \<open>sbuf_new_auto\<close>, any
  sequence of pieces appended with \<open>sbuf_bcat\<close> (each returns 0) and \<open>sbuf_finish\<close>, the data are
  exactly the concatenation of the pieces with a NUL behind them, and \<open>sbuf_len\<close> is its
  length, whenever the allocator grants memory and the sizes, each rounded up to pages, stay
  within an \<open>int\<close>.
\<close>

theorem sbuf_session:
  assumes "\<forall>n. sb_malloc E n" and "16 + (\<Sum>d\<leftarrow>ds. int (length d) + 4095) \<le> INT_MAX"
  shows "\<exists>s0 s1 s2 b rest. sbuf_new E False None 0 SBUF_AUTOEXTEND = Inr (Some s0) \<and>
     bcat_all E ds s0 w = Some (Inr (s1, w)) \<and> sbuf_finish E s1 w = Inr (0, s2, w) \<and>
     sbuf_data s2 = Inr b \<and> b = concat ds @ 0 # rest \<and> sbuf_len s2 = Inr (int (length (concat ds)))"
proof -
  let ?s = "sbuf_zero\<lparr>s_flags := SBUF_AUTOEXTEND OR SBUF_DYNAMIC OR SBUF_DYNSTRUCT, s_size := 16, s_buf := Some (replicate 16 0)\<rparr>"
  have x: "sbuf_extendsize 0 = Inr 16" by code_simp
  have f: "SBUF_AUTOEXTEND AND NOT SBUF_USRFLAGMSK = 0" "SBUF_AUTOEXTEND AND SBUF_USRFLAGMSK = SBUF_AUTOEXTEND"
      "SBUF_AUTOEXTEND AND SBUF_AUTOEXTEND \<noteq> 0" by code_simp+
  have new: "sbuf_new E False None 0 SBUF_AUTOEXTEND = Inr (Some ?s)"
    using assms(1) x f by (simp add: sbuf_new_def sbuf_newbuf_def kassert_def SBUF_SETFLAG_def sbuf_zero_def or.assoc)
  have o: "sbuf_open ?s" "s_error ?s = 0" "s_drain_func ?s = 0" "has_flag ?s SBUF_AUTOEXTEND" "content ?s = []"
      "\<not> has_flag ?s SBUF_INCLUDENUL" "s_size ?s = 16" by code_simp+
  obtain s1 where s1: "bcat_all E ds ?s w = Some (Inr (s1, w))" "sbuf_open s1" "s_error s1 = 0" "same_kind ?s s1"
      "content s1 = concat ds"
    using bcat_all_auto[OF o(1-4) assms(1), of ds w] assms(2) o(5,7) by auto
  have k: "s_drain_func s1 = 0" "\<not> has_flag s1 SBUF_INCLUDENUL"
    using s1(4) same_kind_flag[OF s1(4), of SBUF_INCLUDENUL] o(3,6) by (simp_all add: same_kind_def)
  show ?thesis using finish_data[OF s1(2,3) k(1), of E w] new s1 k(2) by force
qed

definition example_alloc :: "unit sbuf_env" where
  "example_alloc = \<lparr>drain_call = (\<lambda>f a bs w. (int (length bs), w)), sb_malloc = (\<lambda>n. True)\<rparr>"

theorem sbuf_session_witness:
  "\<exists>s0 s1 s2 b rest. sbuf_new example_alloc False None 0 SBUF_AUTOEXTEND = Inr (Some s0) \<and>
     bcat_all example_alloc [[0x61], [0x62, 0x63]] s0 () = Some (Inr (s1, ())) \<and> sbuf_finish example_alloc s1 () = Inr (0, s2, ()) \<and>
     sbuf_data s2 = Inr b \<and> b = concat [[0x61], [0x62, 0x63]] @ 0 # rest \<and>
     sbuf_len s2 = Inr (int (length (concat [[0x61], [0x62, 0x63 :: byte]])))"
proof -
  have "\<forall>n. sb_malloc example_alloc n" by (simp add: example_alloc_def)
  moreover have "16 + (\<Sum>d\<leftarrow>[[0x61], [0x62, 0x63 :: byte]]. int (length d) + 4095) \<le> INT_MAX" by (simp add: INT_MAX_def)
  ultimately show ?thesis by (rule sbuf_session)
qed

end
