(* ===== verification/Epoll_Session.thy ===== *)
theory Epoll_Session
  imports Ringbuffer
begin

text \<open>
  \<open>src/src/epoll/net/tcp_session.hh\<close>: a TCP session on epoll, edge-triggered, so that every event
  reads until the socket has nothing more.

  \<open>read(2)\<close> is a parameter on a kernel state; it gives the result, \<open>errno\<close> and the bytes it stores.
  Handlers are names; whether one is available and what it does are parameters on the world.
  The recursion of \<open>read_all\<close> may not end for every kernel, which is \<open>None\<close>.
\<close>

record ('h, 'k, 'w) epoll_env =
  ep_read :: "'k \<Rightarrow> nat \<Rightarrow> 'k \<times> int \<times> int \<times> byte list"
  ep_available :: "'h \<Rightarrow> 'w \<Rightarrow> bool"
  ep_handle :: "'h \<Rightarrow> ringbuffer \<Rightarrow> 'w \<Rightarrow> ringbuffer \<times> 'w"

record ('h, 'k, 'w) epoll_session =
  read_buf :: ringbuffer
  ep_handlers :: "(nat \<times> 'h) list"
  ep_kernel :: 'k
  ep_world :: 'w
  ep_registered :: bool
  ep_open :: bool

section \<open>Operations\<close>

partial_function (option) read_all ::
  "('h, 'k, 'w) epoll_env \<Rightarrow> 'k \<Rightarrow> ringbuffer \<Rightarrow> (bool \<times> 'k \<times> ringbuffer) res option" where
  "read_all E k rb =
     (case ep_read E k (rb_free_size rb) of (k', r, errno, bs) \<Rightarrow>
      case rb_store rb (rb_write_head rb) bs of
        Inl f \<Rightarrow> Some (Inl f)
      | Inr rb1 \<Rightarrow>
          if szt r = szt (- 1) \<and> errno = EAGAIN then Some (Inr (True, k', rb1))
          else if szt r = 0 then Some (Inr (False, k', rb1))
          else case rb_commit (szt r) rb1 of
            Inl f \<Rightarrow> Some (Inl f)
          | Inr rb2 \<Rightarrow> read_all E k' rb2)"

fun notify_read :: "('h, 'k, 'w) epoll_env \<Rightarrow> (nat \<times> 'h) list \<Rightarrow> ringbuffer \<Rightarrow> 'w \<Rightarrow> (nat \<times> 'h) list \<times> ringbuffer \<times> 'w" where
  "notify_read E [] rb w = ([], rb, w)"
| "notify_read E ((need, h) # hs) rb w =
     (if \<not> ep_available E h w then notify_read E hs rb w
      else if rb_empty rb then ((need, h) # hs, rb, w)
      else if rb_len rb < need then ((need, h) # hs, rb, w)
      else let (rb', w') = ep_handle E h rb w in (hs, rb', w'))"

definition notify_close :: "(nat \<times> 'h) list \<Rightarrow> (nat \<times> 'h) list res" where
  \<comment> \<open>the loop runs while the queue is empty and takes its front; it does nothing to a queue with
     handlers\<close>
  "notify_close hs = (if hs = [] then Inl Undef else Inr hs)"

definition session_close :: "('h, 'k, 'w) epoll_session \<Rightarrow> ('h, 'k, 'w) epoll_session" where
  "session_close s = s\<lparr>ep_registered := False, ep_open := False\<rparr>"

definition on_read_event :: "('h, 'k, 'w) epoll_env \<Rightarrow> ('h, 'k, 'w) epoll_session \<Rightarrow> ('h, 'k, 'w) epoll_session res option" where
  "on_read_event E s =
     Option.bind (read_all E (ep_kernel s) (read_buf s)) (\<lambda>r.
     Some (rbind r (\<lambda>(ok, k, rb).
       let s = s\<lparr>ep_kernel := k, read_buf := rb\<rparr> in
       if ok then let (hs, rb, w) = notify_read E (ep_handlers s) rb (ep_world s) in
                  Inr (s\<lparr>ep_handlers := hs, read_buf := rb, ep_world := w\<rparr>)
       else rbind (notify_close (ep_handlers s)) (\<lambda>hs. Inr (session_close (s\<lparr>ep_handlers := hs\<rparr>))))))"

definition on_epoll_event :: "('h, 'k, 'w) epoll_env \<Rightarrow> bool \<Rightarrow> ('h, 'k, 'w) epoll_session \<Rightarrow> ('h, 'k, 'w) epoll_session res option" where
  \<comment> \<open>\<open>on_send_event\<close> is empty\<close>
  "on_epoll_event E epollin s = (if epollin then on_read_event E s else Some (Inr s))"

definition epoll_start :: "('h, 'k, 'w) epoll_session \<Rightarrow> ('h, 'k, 'w) epoll_session" where
  "epoll_start s = s\<lparr>ep_registered := True\<rparr>"

section \<open>A socket\<close>

text \<open>What a non-blocking socket with the bytes \<open>pend k\<close> received promises of \<open>read\<close>: at least one and
  not more than asked for and there, \<open>EAGAIN\<close> when nothing is there, and 0 when nothing is
  asked for.\<close>

definition sock_ok :: "('h, 'k, 'w) epoll_env \<Rightarrow> ('k \<Rightarrow> byte list) \<Rightarrow> bool" where
  "sock_ok E pend \<longleftrightarrow> (\<forall>k n. case ep_read E k n of (k', r, errno, bs) \<Rightarrow>
     if n = 0 then r = 0 \<and> bs = [] \<and> pend k' = pend k
     else if pend k = [] then r = - 1 \<and> errno = EAGAIN \<and> bs = [] \<and> pend k' = []
     else r = int (length bs) \<and> bs \<noteq> [] \<and> length bs \<le> n \<and> pend k = bs @ pend k')"

lemma sock_okD:
  assumes "sock_ok E pend" and "ep_read E k n = (k', r, errno, bs)"
  shows "n = 0 \<Longrightarrow> r = 0 \<and> bs = [] \<and> pend k' = pend k"
    and "n \<noteq> 0 \<Longrightarrow> pend k = [] \<Longrightarrow> r = - 1 \<and> errno = EAGAIN \<and> bs = [] \<and> pend k' = []"
    and "n \<noteq> 0 \<Longrightarrow> pend k \<noteq> [] \<Longrightarrow> r = int (length bs) \<and> bs \<noteq> [] \<and> length bs \<le> n \<and> pend k = bs @ pend k'"
  using assms(1)[unfolded sock_ok_def, THEN spec[where x = k], THEN spec[where x = n]] unfolding assms(2)
  by (simp_all split: if_splits)

lemma free_size_bound: "rb_inv rb \<Longrightarrow> rb_free_size rb < 2 ^ 31"
  by (auto simp: rb_free_size_inv rb_inv_def)

lemma read_all_spec:
  assumes "sock_ok E pend"
  shows "rb_inv rb \<Longrightarrow> \<exists>k' rb'. read_all E k rb = Some (Inr (length (pend k) < rb_free_size rb, k', rb')) \<and> rb_inv rb' \<and>
     rb_contents rb' @ pend k' = rb_contents rb @ pend k \<and> (length (pend k) < rb_free_size rb \<longrightarrow> pend k' = [])"
proof (induction "length (pend k)" arbitrary: k rb rule: less_induct)
  case less
  let ?n = "rb_free_size rb"
  obtain k1 r errno bs where rd: "ep_read E k ?n = (k1, r, errno, bs)" by (metis prod_cases4)
  note d = sock_okD[OF assms rd]
  show ?case
  proof (cases "?n = 0")
    case True
    then have "read_all E k rb = Some (Inr (False, k1, rb))" using rd d(1) by (subst read_all.simps) (simp add: szt_def)
    then show ?thesis using True d(1) less.prems by auto
  next
    case nz: False
    show ?thesis
    proof (cases "pend k = []")
      case True
      then have "read_all E k rb = Some (Inr (True, k1, rb))" using rd d(2)[OF nz] by (subst read_all.simps) simp
      then show ?thesis using True nz d(2)[OF nz True] less.prems by auto
    next
      case False
      note b = d(3)[OF nz False]
      obtain rb2 where a: "rb_append bs rb = Inr rb2" "rb_inv rb2" "rb_contents rb2 = rb_contents rb @ bs"
          "rb_capacity rb2 = rb_capacity rb"
        using rb_append_spec[OF less.prems] b by blast
      then obtain rb1 where s: "rb_store rb (rb_write_head rb) bs = Inr rb1" "rb_commit (length bs) rb1 = Inr rb2"
        by (auto simp: rb_append_def rbind_eq_Inr_iff)
      have len: "length bs < 2 ^ 31" using b free_size_bound[OF less.prems] by linarith
      then have r: "szt r = length bs" using b by (simp add: szt_def)
      have "szt (- 1) = 2 ^ 64 - 1" by (simp add: szt_def)
      then have "\<not> (szt r = szt (- 1))" using r len by simp
      then have step: "read_all E k rb = read_all E k1 rb2"
        using rd s r b by (subst read_all.simps) simp
      have free: "rb_free_size rb2 = ?n - length bs"
        using a(2-4) less.prems by (simp add: rb_free_size_inv del: rb_contents_length)
      have pk: "pend k = bs @ pend k1" using b by blast
      then have "length (pend k1) < length (pend k)" using b by simp
      from less.hyps[OF this a(2)] obtain k' rb' where
        ih: "read_all E k1 rb2 = Some (Inr (length (pend k1) < rb_free_size rb2, k', rb'))" "rb_inv rb'"
          "rb_contents rb' @ pend k' = rb_contents rb2 @ pend k1" "length (pend k1) < rb_free_size rb2 \<longrightarrow> pend k' = []"
        by blast
      have eq: "(length (pend k1) < rb_free_size rb2) = (length (pend k) < ?n)" using pk free b by auto
      show ?thesis using ih a(3) pk unfolding step eq by (intro exI[of _ k'] exI[of _ rb']) simp
    qed
  qed
qed

section \<open>Properties\<close>


definition example_socket :: "(nat, byte list, nat list) epoll_env" where
  "example_socket = \<lparr>
     ep_read = (\<lambda>k n. if n = 0 then (k, 0, 0, []) else if k = [] then (k, - 1, EAGAIN, [])
                      else (drop n k, int (length (take n k)), 0, take n k)),
     ep_available = (\<lambda>h w. True), ep_handle = (\<lambda>h rb w. (rb, w @ [h]))\<rparr>"

definition example_session :: "(nat, byte list, nat list) epoll_session" where
  "example_session = \<lparr>
     read_buf = \<lparr>rb_buffer = [0, 0, 0, 0], rb_capacity = 4, rb_head = 0, rb_tail = 0, rb_size = 0\<rparr>,
     ep_handlers = [(1, 7)], ep_kernel = [1, 2, 3, 4], ep_world = [], ep_registered = True, ep_open = True\<rparr>"


end
