(* ===== verification/Resp.thy ===== *)
theory Resp
  imports Inet
begin

text \<open>
  \<open>src/app/redis_agent/resped/resp_decoder.hh\<close>: the decoder of the Redis protocol.

  The buffer is the list of bytes at \<open>ptr\<close>; a read behind it is \<open>Undef\<close>. The decoder is given the
  number \<open>sz\<close> of bytes it may use. Every function returns the state, the result (unchanged
  unless complete) and the offset it has reached. \<open>std::strtol\<close> is the conversion of \<open>Strto\<close>.
  \<open>alloc\<close> says whether \<open>new\<close> grants an array of so many pointers; a refusal is an exception, which
  \<open>decode\<close> turns into a decode error. Nested arrays are decoded by recursion; the fuel bounds
  its depth, and every nesting takes at least one byte, so the number of bytes is enough fuel.
\<close>

section \<open>Results\<close>

datatype decode_type =
    V_string | V_err_string | V_integer | V_bulk | V_bulk_null | V_bulk_empty | V_array | V_array_null | V_unknown

datatype decode_result =
  Decode_result (dr_typ: decode_type) (dr_bgn: nat) (dr_end: nat) (dr_children_len: nat) (dr_children: "decode_result list")

datatype decode_state = St_complete | St_incomplete | St_decode_error

type_synonym decoded = "(decode_state \<times> decode_result \<times> nat) res"

definition new_result :: decode_result where
  "new_result = Decode_result V_unknown 0 0 0 []"

definition ischar :: "byte \<Rightarrow> bool" where
  "ischar c \<longleftrightarrow> c \<le> 0x7f"

definition isctrl :: "byte \<Rightarrow> bool" where
  "isctrl c \<longleftrightarrow> c \<le> 0x1f \<or> c = 0x7f"

definition decide_decode_type :: "byte \<Rightarrow> decode_type" where
  "decide_decode_type c =
     (if c = 0x2b then V_string
      else if c = 0x2d then V_err_string
      else if c = 0x3a then V_integer
      else if c = 0x24 then V_bulk
      else if c = 0x2a then V_array
      else V_unknown)"

section \<open>Lines\<close>

text \<open>The loop that the string, integer and size decoders share, up to the test of the other
  characters: it ends behind the line feed.\<close>

function line_loop :: "(byte \<Rightarrow> bool) \<Rightarrow> byte list \<Rightarrow> nat \<Rightarrow> nat \<Rightarrow> nat \<Rightarrow> bool \<Rightarrow> (decode_state \<times> nat \<times> nat) res" where
  \<comment> \<open>the state, \<open>end\<close> and the offset\<close>
  "line_loop good ptr sz offset e cr_geted =
     (if offset < sz
      then rbind (rd ptr offset) (\<lambda>c.
        if c = 0x0d then line_loop good ptr sz (Suc offset) e True
        else if c = 0x0a then (if cr_geted then Inr (St_complete, e, Suc offset) else Inr (St_decode_error, e, offset))
        else if good c then line_loop good ptr sz (Suc offset) offset cr_geted
        else Inr (St_decode_error, e, offset))
      else Inr (St_incomplete, e, offset))"
  by pat_completeness auto
termination by (relation "measure (\<lambda>(good, ptr, sz, offset, e, cr). sz - offset)") auto

declare line_loop.simps [simp del]

definition decode_chunk_string :: "decode_result \<Rightarrow> bool \<Rightarrow> byte list \<Rightarrow> nat \<Rightarrow> nat \<Rightarrow> decoded" where
  "decode_chunk_string res is_err ptr offset sz =
     (let typ = (if is_err then V_err_string else V_string); bgn = offset in
      rbind (line_loop (\<lambda>c. ischar c \<and> \<not> isctrl c) ptr sz offset offset False) (\<lambda>(st, e, offset).
      Inr (st, if st = St_complete then Decode_result typ bgn e 0 [] else res, offset)))"

definition decode_chunk_integer :: "decode_result \<Rightarrow> byte list \<Rightarrow> nat \<Rightarrow> nat \<Rightarrow> decoded" where
  "decode_chunk_integer res ptr offset sz =
     (let bgn = offset in
      rbind (line_loop (\<lambda>c. isdigit c \<or> c = 0x2d) ptr sz offset offset False) (\<lambda>(st, e, offset).
      Inr (st, if st = St_complete then Decode_result V_integer bgn e 0 [] else res, offset)))"

definition decode_size :: "byte list \<Rightarrow> nat \<Rightarrow> nat \<Rightarrow> (decode_state \<times> int \<times> nat) res" where
  \<comment> \<open>\<open>bgn <= end\<close> always holds\<close>
  "decode_size ptr offset sz =
     (let bgn = offset in
      rbind (line_loop (\<lambda>c. isdigit c \<or> c = 0x2d) ptr sz offset offset False) (\<lambda>(st, e, offset).
      if st = St_complete then
        (if bgn \<le> e then rbind (strtol (drop bgn ptr) 10) (\<lambda>(v, _). Inr (St_complete, v, offset))
         else Inr (St_decode_error, 0, offset - 1))
      else Inr (st, 0, offset)))"

section \<open>Bulk strings\<close>

text \<open>\<open>if (ptr[offset] != '\r') ...; if (ptr[++offset] != '\n') ...\<close>: whether both are there, and
  the offset of the last byte looked at.\<close>

definition expect_crlf :: "byte list \<Rightarrow> nat \<Rightarrow> (bool \<times> nat) res" where
  "expect_crlf ptr offset =
     rbind (rd ptr offset) (\<lambda>c.
     if c \<noteq> 0x0d then Inr (False, offset)
     else rbind (rd ptr (offset + 1)) (\<lambda>c. Inr (c = 0x0a, offset + 1)))"

definition decode_chunk_bulk :: "decode_result \<Rightarrow> byte list \<Rightarrow> nat \<Rightarrow> nat \<Rightarrow> decoded" where
  "decode_chunk_bulk res ptr offset sz =
     rbind (decode_size ptr offset sz) (\<lambda>(st, bulk_size, offset).
     if st \<noteq> St_complete then Inr (st, res, offset)
     else if bulk_size \<le> 0 then
       (if offset + 2 \<ge> sz then Inr (St_incomplete, res, offset)
        else rbind (expect_crlf ptr offset) (\<lambda>(ok, offset).
          if ok then Inr (St_complete, Decode_result (if bulk_size < 0 then V_bulk_null else V_bulk_empty) 0 0 0 [], offset + 1)
          else Inr (St_decode_error, res, offset)))
     else if offset + nat bulk_size - 1 + 2 \<ge> sz then Inr (St_incomplete, res, offset)
     else rbind (expect_crlf ptr (offset + nat bulk_size)) (\<lambda>(ok, offset).
       if ok then Inr (St_complete, Decode_result V_bulk 0 0 0 [], offset + 1)
       else Inr (St_decode_error, res, offset)))"

section \<open>Arrays\<close>

text \<open>The decoder of a child, at an offset, is an argument.\<close>

function array_loop :: "(nat \<Rightarrow> decoded) \<Rightarrow> int \<Rightarrow> int \<Rightarrow> nat \<Rightarrow> nat \<Rightarrow> decode_result list \<Rightarrow>
    (decode_state \<times> nat \<times> decode_result list \<times> nat) res" where
  "array_loop child i array_size children_len offset children =
     (if i < array_size
      then rbind (child offset) (\<lambda>(st, r, offset).
        if st = St_complete
        then array_loop child (i + 1) array_size (children_len + 1) offset (children @ [r])
        else Inr (st, children_len, children, offset))
      else Inr (St_complete, children_len, children, offset))"
  by pat_completeness auto
termination by (relation "measure (\<lambda>(child, i, n, l, off, ch). nat (n - i))") auto

declare array_loop.simps [simp del]

definition decode_array :: "(int \<Rightarrow> bool) \<Rightarrow> (nat \<Rightarrow> decoded) \<Rightarrow> decode_result \<Rightarrow> byte list \<Rightarrow> nat \<Rightarrow> nat \<Rightarrow> decoded" where
  "decode_array alloc child res ptr offset sz =
     rbind (decode_size ptr offset sz) (\<lambda>(st, array_size, offset).
     if st \<noteq> St_complete then Inr (st, res, offset)
     else if array_size \<le> 0 then
       (if offset + 2 \<ge> sz then Inr (St_incomplete, res, offset)
        else rbind (expect_crlf ptr offset) (\<lambda>(ok, offset).
          if ok then Inr (St_complete, Decode_result (if array_size < 0 then V_array_null else V_array) 0 0 0 [], offset)
          else Inr (St_decode_error, res, offset)))
     else if \<not> alloc array_size then Inr (St_decode_error, res, offset)
     else rbind (array_loop child 0 array_size (nat array_size) offset []) (\<lambda>(st, children_len, children, offset).
       Inr (st, if st = St_complete then Decode_result V_array 0 0 children_len children else res, offset)))"

fun decode :: "(int \<Rightarrow> bool) \<Rightarrow> nat \<Rightarrow> decode_result \<Rightarrow> byte list \<Rightarrow> nat \<Rightarrow> nat \<Rightarrow> decoded" where
  "decode alloc 0 v ptr offset sz = Inl (Throw ''fuel'')"
| "decode alloc (Suc fuel) v ptr offset sz =
     rbind (rd ptr offset) (\<lambda>c.
     case decide_decode_type c of
       V_string \<Rightarrow> decode_chunk_string v False ptr (offset + 1) sz
     | V_err_string \<Rightarrow> decode_chunk_string v True ptr (offset + 1) sz
     | V_integer \<Rightarrow> decode_chunk_integer v ptr (offset + 1) sz
     | V_bulk \<Rightarrow> decode_chunk_bulk v ptr (offset + 1) sz
     | V_array \<Rightarrow> decode_array alloc (\<lambda>offset. decode alloc fuel new_result ptr offset sz) v ptr (offset + 1) sz
     | _ \<Rightarrow> Inr (St_decode_error, v, offset + 1))"

declare decode.simps(2) [simp del]

definition resp_decode :: "(int \<Rightarrow> bool) \<Rightarrow> byte list \<Rightarrow> nat \<Rightarrow> nat \<Rightarrow> decoded" where
  "resp_decode alloc ptr offset sz = decode alloc (Suc (length ptr)) new_result ptr offset sz"

section \<open>Replies on the wire\<close>

datatype reply =
    R_string "byte list" | R_error "byte list" | R_int "byte list" | R_bulk "byte list" | R_array "reply list"

abbreviation crlf :: "byte list" where "crlf \<equiv> [0x0d, 0x0a]"

fun wire :: "reply \<Rightarrow> byte list" where
  "wire (R_string bs) = 0x2b # bs @ crlf"
| "wire (R_error bs) = 0x2d # bs @ crlf"
| "wire (R_int bs) = 0x3a # bs @ crlf"
| "wire (R_bulk bs) = 0x24 # fmt_base 10 (length bs) @ crlf @ bs @ crlf"
| "wire (R_array vs) = 0x2a # fmt_base 10 (length vs) @ crlf @ concat (map wire vs)"

definition text_char :: "byte \<Rightarrow> bool" where
  "text_char c \<longleftrightarrow> c \<ge> 0x20 \<and> c \<le> 0x7e"

fun reply_ok :: "reply \<Rightarrow> bool" where
  "reply_ok (R_string bs) \<longleftrightarrow> list_all text_char bs"
| "reply_ok (R_error bs) \<longleftrightarrow> list_all text_char bs"
| "reply_ok (R_int bs) \<longleftrightarrow> list_all (\<lambda>c. isdigit c \<or> c = 0x2d) bs"
| "reply_ok (R_bulk bs) \<longleftrightarrow> bs \<noteq> [] \<and> length bs < 2 ^ 63"
| "reply_ok (R_array vs) \<longleftrightarrow> vs \<noteq> [] \<and> length vs < 2 ^ 63 \<and> list_all reply_ok vs"

text \<open>What the decoder makes of a reply that starts at an offset.\<close>

definition last_of :: "nat \<Rightarrow> byte list \<Rightarrow> nat" where
  \<comment> \<open>the offset of the last byte of a line, of the byte behind the type for an empty one\<close>
  "last_of off bs = (if bs = [] then off + 1 else off + length bs)"

fun shape :: "nat \<Rightarrow> reply \<Rightarrow> decode_result" and shapes :: "nat \<Rightarrow> reply list \<Rightarrow> decode_result list" where
  "shape off (R_string bs) = Decode_result V_string (off + 1) (last_of off bs) 0 []"
| "shape off (R_error bs) = Decode_result V_err_string (off + 1) (last_of off bs) 0 []"
| "shape off (R_int bs) = Decode_result V_integer (off + 1) (last_of off bs) 0 []"
| "shape off (R_bulk bs) = Decode_result V_bulk 0 0 0 []"
| "shape off (R_array vs) =
     Decode_result V_array 0 0 (2 * length vs) (shapes (off + 3 + length (fmt_base 10 (length vs))) vs)"
| "shapes off [] = []"
| "shapes off (v # vs) = shape off v # shapes (off + length (wire v)) vs"

section \<open>Lines\<close>

lemma rd_at: "rd (lead @ c # post) (length lead) = Inr c"
  by simp

lemma line_loop_crlf:
  assumes "length lead + 2 \<le> sz" and "sz \<le> length lead + 2 + length post"
  shows "line_loop good (lead @ crlf @ post) sz (length lead) e cr = Inr (St_complete, e, length lead + 2)"
proof -
  have "rd (lead @ crlf @ post) (length lead) = Inr 0x0d" using rd_at[of lead "0x0d" "0x0a # post"] by simp
  moreover have "rd (lead @ crlf @ post) (Suc (length lead)) = Inr 0x0a"
    using rd_at[of "lead @ [0x0d]" "0x0a" post] by simp
  ultimately show ?thesis using assms(1)
    by (subst line_loop.simps, simp only: rbind_Inr) (subst line_loop.simps, simp)
qed

lemma line_loop_line:
  assumes "list_all (\<lambda>c. good c \<and> c \<noteq> 0x0d \<and> c \<noteq> 0x0a) bs" and "length lead + length bs + 2 \<le> sz"
    and "sz \<le> length lead + length bs + 2 + length post"
  shows "line_loop good (lead @ bs @ crlf @ post) sz (length lead) e False =
    Inr (St_complete, if bs = [] then e else length lead + length bs - 1, length lead + length bs + 2)"
  using assms
proof (induction bs arbitrary: lead e)
  case Nil
  then show ?case using line_loop_crlf[of lead sz post good e False] by simp
next
  case (Cons c bs)
  have r: "rd (lead @ (c # bs) @ crlf @ post) (length lead) = Inr c" using rd_at[of lead c "bs @ crlf @ post"] by simp
  have lt: "length lead < sz" using Cons.prems(2) by simp
  have "line_loop good (lead @ (c # bs) @ crlf @ post) sz (length lead) e False =
      line_loop good (lead @ (c # bs) @ crlf @ post) sz (Suc (length lead)) (length lead) False"
    using Cons.prems(1) lt by (subst line_loop.simps) (simp only: r rbind_Inr, simp)
  also have "\<dots> = line_loop good ((lead @ [c]) @ bs @ crlf @ post) sz (length (lead @ [c])) (length lead) False" by simp
  also have "\<dots> = Inr (St_complete, if bs = [] then length lead else length (lead @ [c]) + length bs - 1, length (lead @ [c]) + length bs + 2)"
    by (rule Cons.IH) (use Cons.prems in simp_all)
  finally show ?case by (cases "bs = []") simp_all
qed

lemma text_char_good: "text_char c \<Longrightarrow> (ischar c \<and> \<not> isctrl c) \<and> c \<noteq> 0x0d \<and> c \<noteq> 0x0a"
  by (auto simp: text_char_def ischar_def isctrl_def word_le_nat_alt)

lemma int_char_good: "isdigit c \<or> c = 0x2d \<Longrightarrow> (isdigit c \<or> c = 0x2d) \<and> c \<noteq> 0x0d \<and> c \<noteq> 0x0a"
  by (auto simp: isdigit_def word_le_nat_alt)

section \<open>Sizes\<close>

lemma digit_char_decimal:
  assumes "d < 10"
  shows "dval (digit_char d) = d" "is_digit 10 (digit_char d)" "isdigit (digit_char d)"
proof -
  have "d \<in> set [0..<10]" using assms by simp
  moreover have "list_all (\<lambda>d. dval (digit_char d) = d \<and> is_digit 10 (digit_char d) \<and> isdigit (digit_char d)) [0..<10]"
    by code_simp
  ultimately show "dval (digit_char d) = d" "is_digit 10 (digit_char d)" "isdigit (digit_char d)"
    unfolding list_all_iff by blast+
qed

lemma fmt_decimal:
  "digits_val 10 0 (fmt_base 10 n) = n" "list_all (is_digit 10) (fmt_base 10 n)" "list_all isdigit (fmt_base 10 n)"
  "fmt_base 10 n \<noteq> []"
proof -
  have "n < 10 ^ n" by (rule less_exp[THEN less_le_trans]) (simp add: power_mono)
  then have n: "n < 10 ^ Suc n" by simp
  let ?ds = "bdigits 10 n n"
  have f: "fmt_base 10 n = map digit_char ?ds" by (rule fmt_base_bdigits[OF _ n]) simp
  have b: "list_all (\<lambda>d. d < 10) ?ds" using bdigits_bound[OF _ n] by simp
  have "digits_val 10 v (map digit_char ds) = foldl (\<lambda>v d. v * 10 + d) v ds" if "list_all (\<lambda>d. d < 10) ds" for v ds
    using that by (induction ds arbitrary: v) (simp_all add: digit_char_decimal)
  then show "digits_val 10 0 (fmt_base 10 n) = n" using b bdigits_value[of 10 n n] by (simp add: f)
  show "list_all (is_digit 10) (fmt_base 10 n)" "list_all isdigit (fmt_base 10 n)"
    using b by (auto simp: f list_all_iff digit_char_decimal)
  show "fmt_base 10 n \<noteq> []" by (simp add: f)
qed

lemma strtol_decimal:
  assumes "n < 2 ^ 63" and "\<not> is_digit 10 r"
  shows "strtol (fmt_base 10 n @ r # rest) 10 = Inr (int n, length (fmt_base 10 n))"
proof -
  have L: "(if neg_sign [] then - LONG_MIN else LONG_MAX) = of_nat (2 ^ 63 - 1)" "(2 :: nat) ^ 63 - 1 < 2 ^ 64"
    by (simp_all add: neg_sign_def LONG_MAX_def)
  note scan = strto_scan_spec[of "[]" "[]" 10 "fmt_base 10 n" r "\<lambda>neg. if neg then - LONG_MIN else LONG_MAX" "2 ^ 63 - 1" rest]
  have "\<exists>acc. strto_scan (\<lambda>neg. if neg then - LONG_MIN else LONG_MAX) (fmt_base 10 n @ r # rest) 10 =
      Inr (False, acc, if n \<le> 2 ^ 63 - 1 then 1 else - 1, length (fmt_base 10 n)) \<and> (n \<le> 2 ^ 63 - 1 \<longrightarrow> acc = of_nat n)"
    using scan fmt_decimal[of n] assms(2) L by (simp add: sign_ok_def neg_sign_def)
  then have "strto_scan (\<lambda>neg. if neg then - LONG_MIN else LONG_MAX) (fmt_base 10 n @ r # rest) 10 =
      Inr (False, of_nat n, 1, length (fmt_base 10 n))"
    using assms(1) by auto
  moreover have "sint (of_nat n :: u64) = int n" using sint_of_nat_small[where 'a = 64, of n] assms(1) by simp
  ultimately show ?thesis by (simp add: strtol_def strto_end_def)
qed

lemma decode_size_decimal:
  assumes "n < 2 ^ 63" and "length lead + length (fmt_base 10 n) + 2 \<le> sz"
    and "sz \<le> length lead + length (fmt_base 10 n) + 2 + length post"
  shows "decode_size (lead @ fmt_base 10 n @ crlf @ post) (length lead) sz =
    Inr (St_complete, int n, length lead + length (fmt_base 10 n) + 2)"
proof -
  have "list_all (\<lambda>c. (isdigit c \<or> c = 0x2d) \<and> c \<noteq> 0x0d \<and> c \<noteq> 0x0a) (fmt_base 10 n)"
    using fmt_decimal(3)[of n] int_char_good by (auto simp: list_all_iff)
  from line_loop_line[OF this assms(2,3), of "length lead"]
  have "line_loop (\<lambda>c. isdigit c \<or> c = 0x2d) (lead @ fmt_base 10 n @ crlf @ post) sz (length lead) (length lead) False =
      Inr (St_complete, length lead + length (fmt_base 10 n) - 1, length lead + length (fmt_base 10 n) + 2)"
    using fmt_decimal(4)[of n] by simp
  moreover have "length lead \<le> length lead + length (fmt_base 10 n) - 1" using fmt_decimal(4)[of n] by (cases "fmt_base 10 n") auto
  moreover have "\<not> is_digit 10 0x0d" by code_simp
  from strtol_decimal[OF assms(1) this, of "0x0a # post"]
  have "strtol (drop (length lead) (lead @ fmt_base 10 n @ crlf @ post)) 10 = Inr (int n, length (fmt_base 10 n))" by simp
  ultimately show ?thesis by (simp add: decode_size_def)
qed

section \<open>Whole replies\<close>

lemma expect_crlf_at: "expect_crlf (lead @ crlf @ post) (length lead) = Inr (True, length lead + 1)"
proof -
  have "rd (lead @ crlf @ post) (length lead) = Inr 0x0d" using rd_at[of lead "0x0d" "0x0a # post"] by simp
  moreover have "rd (lead @ crlf @ post) (length lead + 1) = Inr 0x0a" using rd_at[of "lead @ [0x0d]" "0x0a" post] by simp
  ultimately show ?thesis by (simp only: expect_crlf_def rbind_Inr) simp
qed

lemma decode_bulk_wire:
  assumes "bs \<noteq> []" and "length bs < 2 ^ 63" and "length lead + length (fmt_base 10 (length bs)) + length bs + 4 \<le> sz"
    and "sz \<le> length lead + length (fmt_base 10 (length bs)) + length bs + 4 + length post"
  shows "decode_chunk_bulk res (lead @ fmt_base 10 (length bs) @ crlf @ bs @ crlf @ post) (length lead) sz =
    Inr (St_complete, Decode_result V_bulk 0 0 0 [], length lead + length (fmt_base 10 (length bs)) + length bs + 4)"
proof -
  let ?f = "fmt_base 10 (length bs)"
  have d: "decode_size (lead @ ?f @ crlf @ bs @ crlf @ post) (length lead) sz = Inr (St_complete, int (length bs), length lead + length ?f + 2)"
    using decode_size_decimal[OF assms(2), of lead sz "bs @ crlf @ post"] assms(3,4) by simp
  have e: "expect_crlf (lead @ ?f @ crlf @ bs @ crlf @ post) (length lead + length ?f + 2 + length bs) =
      Inr (True, length lead + length ?f + 2 + length bs + 1)"
    using expect_crlf_at[of "lead @ ?f @ crlf @ bs" post] by (simp add: add.assoc)
  have pos: "0 < length bs" using assms(1) by simp
  then have "\<not> (length lead + length ?f + 2 + nat (int (length bs)) - 1 + 2 \<ge> sz)" using assms(3) by simp
  then show ?thesis unfolding decode_chunk_bulk_def d rbind_Inr prod.case using e pos by simp
qed

definition child_ok :: "(nat \<Rightarrow> decoded) \<Rightarrow> byte list \<Rightarrow> nat \<Rightarrow> reply \<Rightarrow> bool" where
  "child_ok child ptr sz v \<longleftrightarrow> (\<forall>lead post. ptr = lead @ wire v @ post \<longrightarrow> length lead + length (wire v) \<le> sz \<longrightarrow>
     child (length lead) = Inr (St_complete, shape (length lead) v, length lead + length (wire v)))"

lemma array_loop_wire:
  assumes "list_all (child_ok child ptr sz) vs" and "ptr = lead @ concat (map wire vs) @ post"
    and "length lead + length (concat (map wire vs)) \<le> sz"
  shows "array_loop child i (i + int (length vs)) l (length lead) ch =
    Inr (St_complete, l + length vs, ch @ shapes (length lead) vs, length lead + length (concat (map wire vs)))"
  using assms
proof (induction vs arbitrary: lead i l ch)
  case Nil
  then show ?case by (subst array_loop.simps) simp
next
  case (Cons v vs)
  have "ptr = lead @ wire v @ (concat (map wire vs) @ post)" "length lead + length (wire v) \<le> sz"
    using Cons.prems(2,3) by simp_all
  then have c: "child (length lead) = Inr (St_complete, shape (length lead) v, length lead + length (wire v))"
    using Cons.prems(1) unfolding list.pred_inject(2) child_ok_def by blast
  have "array_loop child i (i + int (length (v # vs))) l (length lead) ch =
      array_loop child (i + 1) (i + int (length (v # vs))) (l + 1) (length lead + length (wire v)) (ch @ [shape (length lead) v])"
    using c by (subst array_loop.simps) simp
  also have "\<dots> = array_loop child (i + 1) ((i + 1) + int (length vs)) (l + 1) (length (lead @ wire v)) (ch @ [shape (length lead) v])"
    by (simp add: algebra_simps)
  also have "\<dots> = Inr (St_complete, (l + 1) + length vs, (ch @ [shape (length lead) v]) @ shapes (length (lead @ wire v)) vs,
      length (lead @ wire v) + length (concat (map wire vs)))"
    by (rule Cons.IH) (use Cons.prems in simp_all)
  finally show ?case by simp
qed

lemma wire_length: "3 \<le> length (wire v)"
  by (cases v) simp_all

text \<open>One level of the decoder, for each type.\<close>

lemma decode_string_wire:
  assumes "list_all text_char bs" and "length lead + length bs + 2 \<le> sz" and "sz \<le> length lead + length bs + 2 + length post"
    and "lead \<noteq> []"
  shows "decode_chunk_string res is_err (lead @ bs @ crlf @ post) (length lead) sz =
    Inr (St_complete, Decode_result (if is_err then V_err_string else V_string) (length lead) (last_of (length lead - 1) bs) 0 [],
      length lead + length bs + 2)"
proof -
  have "list_all (\<lambda>c. (ischar c \<and> \<not> isctrl c) \<and> c \<noteq> 0x0d \<and> c \<noteq> 0x0a) bs"
    using assms(1) text_char_good by (auto simp: list_all_iff)
  from line_loop_line[OF this assms(2,3), of "length lead"] assms(4) show ?thesis
    by (cases lead) (simp_all add: decode_chunk_string_def last_of_def)
qed

lemma decode_integer_wire:
  assumes "list_all (\<lambda>c. isdigit c \<or> c = 0x2d) bs" and "length lead + length bs + 2 \<le> sz"
    and "sz \<le> length lead + length bs + 2 + length post" and "lead \<noteq> []"
  shows "decode_chunk_integer res (lead @ bs @ crlf @ post) (length lead) sz =
    Inr (St_complete, Decode_result V_integer (length lead) (last_of (length lead - 1) bs) 0 [], length lead + length bs + 2)"
proof -
  have "list_all (\<lambda>c. (isdigit c \<or> c = 0x2d) \<and> c \<noteq> 0x0d \<and> c \<noteq> 0x0a) bs"
    using assms(1) int_char_good by (auto simp: list_all_iff)
  from line_loop_line[OF this assms(2,3), of "length lead"] assms(4) show ?thesis
    by (cases lead) (simp_all add: decode_chunk_integer_def last_of_def)
qed

lemma decode_array_wire:
  assumes "\<And>n. alloc n" and "vs \<noteq> []" and "length vs < 2 ^ 63" and "list_all (child_ok child ptr sz) vs"
    and ptr: "ptr = lead @ fmt_base 10 (length vs) @ crlf @ concat (map wire vs) @ post" and "sz \<le> length ptr"
    and "length lead + length (fmt_base 10 (length vs)) + 2 + length (concat (map wire vs)) \<le> sz"
  shows "decode_array alloc child res ptr (length lead) sz =
    Inr (St_complete, Decode_result V_array 0 0 (2 * length vs) (shapes (length lead + length (fmt_base 10 (length vs)) + 2) vs),
      length lead + length (fmt_base 10 (length vs)) + 2 + length (concat (map wire vs)))"
proof -
  let ?f = "fmt_base 10 (length vs)" and ?w = "concat (map wire vs)"
  have d: "decode_size ptr (length lead) sz = Inr (St_complete, int (length vs), length lead + length ?f + 2)"
    using decode_size_decimal[OF assms(3), of lead sz "?w @ post"] assms(6,7) unfolding ptr by simp
  have p: "ptr = (lead @ ?f @ crlf) @ ?w @ post" using ptr by simp
  have l: "length (lead @ ?f @ crlf) = length lead + length ?f + 2" by simp
  have "array_loop child 0 (int (length vs)) (length vs) (length lead + length ?f + 2) [] =
      Inr (St_complete, length vs + length vs, shapes (length lead + length ?f + 2) vs, length lead + length ?f + 2 + length ?w)"
    using array_loop_wire[OF assms(4) p, of 0 "length vs" "[]"] assms(7) unfolding l by simp
  then show ?thesis unfolding decode_array_def d rbind_Inr prod.case using assms(1,2) by (simp add: mult_2)
qed

lemma decode_wire:
  assumes "\<And>n. alloc n"
  shows "reply_ok v \<Longrightarrow> length (wire v) \<le> fuel \<Longrightarrow> ptr = lead @ wire v @ post \<Longrightarrow> sz \<le> length ptr \<Longrightarrow>
    length lead + length (wire v) \<le> sz \<Longrightarrow>
    decode alloc fuel r ptr (length lead) sz = Inr (St_complete, shape (length lead) v, length lead + length (wire v))"
proof (induction v arbitrary: fuel r lead post)
  case (R_array vs)
  let ?f = "fmt_base 10 (length vs)" and ?w = "concat (map wire vs)"
  obtain f where f: "fuel = Suc f" using R_array.prems(2) by (cases fuel) auto
  have c: "rd ptr (length lead) = Inr 0x2a" using R_array.prems(3) rd_at[of lead "0x2a"] by simp
  let ?ch = "\<lambda>off. decode alloc f new_result ptr off sz"
  have "child_ok ?ch ptr sz v" if v: "v \<in> set vs" for v
  proof -
    have "length (wire v) \<le> length ?w" using v by (simp add: length_concat member_le_sum_list)
    then have "length (wire v) \<le> f" using R_array.prems(2) f by simp
    moreover have "reply_ok v" using v R_array.prems(1) by (simp add: list_all_iff)
    ultimately show ?thesis unfolding child_ok_def using R_array.IH[OF v] R_array.prems(4) by blast
  qed
  then have ok: "list_all (child_ok ?ch ptr sz) vs" by (simp add: list_all_iff)
  have p: "ptr = (lead @ [0x2a]) @ ?f @ crlf @ ?w @ post" using R_array.prems(3) by simp
  have "decode_array alloc ?ch r ptr (length (lead @ [0x2a])) sz =
      Inr (St_complete, Decode_result V_array 0 0 (2 * length vs) (shapes (length (lead @ [0x2a]) + length ?f + 2) vs),
        length (lead @ [0x2a]) + length ?f + 2 + length ?w)"
    by (rule decode_array_wire[OF assms _ _ ok p R_array.prems(4)]) (use R_array.prems(1,5) in simp_all)
  moreover have "length (lead @ [0x2a]) + length ?f + 2 = length lead + 3 + length ?f" by simp
  ultimately show ?case unfolding f decode.simps(2) c rbind_Inr by (simp add: decide_decode_type_def numeral_3_eq_3)
next
  case (R_bulk bs)
  have "rd ptr (length lead) = Inr 0x24" using R_bulk.prems(3) rd_at[of lead "0x24"] by simp
  then show ?case using decode_bulk_wire[of bs "lead @ [0x24]" sz post r] R_bulk.prems
    by (cases fuel) (simp_all add: decode.simps(2) decide_decode_type_def)
next
  case (R_string bs)
  have "rd ptr (length lead) = Inr 0x2b" using R_string.prems(3) rd_at[of lead "0x2b"] by simp
  then show ?case using decode_string_wire[of bs "lead @ [0x2b]" sz post r False] R_string.prems
    by (cases fuel) (simp_all add: decode.simps(2) decide_decode_type_def)
next
  case (R_error bs)
  have "rd ptr (length lead) = Inr 0x2d" using R_error.prems(3) rd_at[of lead "0x2d"] by simp
  then show ?case using decode_string_wire[of bs "lead @ [0x2d]" sz post r True] R_error.prems
    by (cases fuel) (simp_all add: decode.simps(2) decide_decode_type_def)
next
  case (R_int bs)
  have "rd ptr (length lead) = Inr 0x3a" using R_int.prems(3) rd_at[of lead "0x3a"] by simp
  then show ?case using decode_integer_wire[of bs "lead @ [0x3a]" sz post r] R_int.prems
    by (cases fuel) (simp_all add: decode.simps(2) decide_decode_type_def)
qed

section \<open>Properties\<close>

lemma strtol_minus_one: "strtol (0x2d # 0x31 # 0x0d # rest) 10 = Inr (- 1, 2)"
proof -
  have L: "(if neg_sign [0x2d] then - LONG_MIN else LONG_MAX) = of_nat (2 ^ 63)" "(2 :: nat) ^ 63 < 2 ^ 64"
    by (simp_all add: neg_sign_def LONG_MIN_def)
  have d: "digits_val 10 0 [0x31] = 1" "list_all (is_digit 10) [0x31]" "\<not> is_digit 10 0x0d" by code_simp+
  note scan = strto_scan_spec[of "[]" "[0x2d]" 10 "[0x31]" "0x0d" "\<lambda>neg. if neg then - LONG_MIN else LONG_MAX" "2 ^ 63" rest]
  have "strto_scan (\<lambda>neg. if neg then - LONG_MIN else LONG_MAX) (0x2d # 0x31 # 0x0d # rest) 10 = Inr (True, 1, 1, 2)"
    using scan d L by (simp add: sign_ok_def neg_sign_def del: digits_val_simps)
  then show ?thesis by (simp add: strtol_def strto_end_def)
qed

lemma resp_decode_at:
  assumes "\<And>n. alloc n" and "reply_ok v" and "ptr = lead @ wire v @ post" and "sz \<le> length ptr"
    and "length lead + length (wire v) \<le> sz"
  shows "resp_decode alloc ptr (length lead) sz = Inr (St_complete, shape (length lead) v, length lead + length (wire v))"
  unfolding resp_decode_def by (rule decode_wire[OF assms(1,2) _ assms(3-)]) (use assms(3) in simp)


definition example_reply :: reply where
  "example_reply = R_array [R_string [0x4f, 0x4b], R_array [R_bulk [0x61, 0x62, 0x63]], R_int [0x2d, 0x37]]"


text \<open>
  What the decoder makes of other input of the protocol. The null reply
  \<open>$-1\r\n\<close> is never recognised by itself: it is incomplete until three more bytes are there,
  and then a decode error unless these start with another \<open>\r\n\<close>. An array whose children have not arrived
  makes it read behind the bytes it was given (\<open>Undef\<close>). An empty string and a string of one
  character give the same result.
\<close>

theorem resp_decode_flaws:
  "resp_decode alloc ([0x24, 0x2d, 0x31, 0x0d, 0x0a] @ rest) 0 (5 + length rest) =
     Inr (if length rest \<le> 2 then (St_incomplete, new_result, 5)
          else if rest ! 0 \<noteq> 0x0d then (St_decode_error, new_result, 5)
          else if rest ! 1 \<noteq> 0x0a then (St_decode_error, new_result, 6)
          else (St_complete, Decode_result V_bulk_null 0 0 0 [], 7)) \<and>
   resp_decode (\<lambda>n. True) [0x2a, 0x31, 0x0d, 0x0a] 0 4 = Inl Undef \<and>
   shape 0 (R_string []) = shape 0 (R_string [c])"
proof (intro conjI)
  let ?p = "[0x24, 0x2d, 0x31, 0x0d, 0x0a] @ rest"
  have "line_loop (\<lambda>c. isdigit c \<or> c = 0x2d) ([0x24] @ [0x2d, 0x31] @ crlf @ rest) (5 + length rest) (length [0x24 :: byte]) 1 False =
      Inr (St_complete, 2, 5)"
    by (subst line_loop_line) (simp_all add: isdigit_def)
  then have l: "line_loop (\<lambda>c. isdigit c \<or> c = 0x2d) ?p (5 + length rest) 1 1 False = Inr (St_complete, 2, 5)" by simp
  have size: "decode_size ?p 1 (5 + length rest) = Inr (St_complete, - 1, 5)"
    unfolding decode_size_def l using strtol_minus_one[of "0x0a # rest"] by simp
  show "resp_decode alloc ?p 0 (5 + length rest) =
     Inr (if length rest \<le> 2 then (St_incomplete, new_result, 5)
          else if rest ! 0 \<noteq> 0x0d then (St_decode_error, new_result, 5)
          else if rest ! 1 \<noteq> 0x0a then (St_decode_error, new_result, 6)
          else (St_complete, Decode_result V_bulk_null 0 0 0 [], 7))"
  proof (cases "length rest \<le> 2")
    case True
    then show ?thesis using size
      by (simp add: resp_decode_def decode.simps(2) decide_decode_type_def decode_chunk_bulk_def)
  next
    case False
    then obtain a b r where r: "rest = a # b # r" by (metis Suc_le_length_iff numeral_2_eq_2 nat_le_linear)
    have "expect_crlf ?p 5 = Inr (if a \<noteq> 0x0d then (False, 5) else (b = 0x0a, 6))"
      by (simp add: expect_crlf_def r rd_def)
    then show ?thesis using size False
      by (simp add: resp_decode_def decode.simps(2) decide_decode_type_def decode_chunk_bulk_def) (simp add: r)
  qed
  show "resp_decode (\<lambda>n. True) [0x2a, 0x31, 0x0d, 0x0a] 0 4 = Inl Undef" by code_simp
  show "shape 0 (R_string []) = shape 0 (R_string [c])" by (simp add: last_of_def)
qed

section \<open>Arbitrary input\<close>

text \<open>The typing of results: leaves have no children and offsets inside the bytes given, the length
  recorded for an array is twice the number of its children.\<close>

fun result_ok :: "nat \<Rightarrow> decode_result \<Rightarrow> bool" where
  "result_ok sz (Decode_result typ b e n cs) =
     (case typ of
        V_unknown \<Rightarrow> False
      | V_array \<Rightarrow> b = 0 \<and> e = 0 \<and> n = 2 * length cs \<and> list_all (result_ok sz) cs
      | _ \<Rightarrow> n = 0 \<and> cs = [] \<and>
          (if typ \<in> {V_string, V_err_string, V_integer} then b \<le> e \<and> e < sz else b = 0 \<and> e = 0))"

definition nothrow :: "'a res \<Rightarrow> bool" where
  "nothrow m \<longleftrightarrow> (\<forall>e. m \<noteq> Inl (Throw e))"

lemma nothrow_simps [simp]: "nothrow (Inr x)" "nothrow (Inl Undef)" "nothrow (rd xs i)"
  by (simp_all add: nothrow_def rd_def)

lemma nothrow_rbind: "nothrow m \<Longrightarrow> (\<And>x. m = Inr x \<Longrightarrow> nothrow (f x)) \<Longrightarrow> nothrow (rbind m f)"
  by (cases m) (auto simp: nothrow_def)

lemma nothrow_skip_space: "nothrow (skip_space pos cs)"
  by (induction pos cs rule: skip_space.induct) simp_all

lemma nothrow_strto_loop: "nothrow (strto_loop bs cutoff cutlim acc any pos cs)"
  by (induction bs cutoff cutlim acc any pos cs rule: strto_loop.induct) (simp_all split: option.splits)

lemma nothrow_strto_prefix: "nothrow (strto_prefix bs pos cs)"
  by (auto simp: strto_prefix_def intro!: nothrow_rbind split: list.splits)

lemma nothrow_strtol: "nothrow (strtol cs bs)"
  unfolding strtol_def strto_scan_def
  by (auto intro!: nothrow_rbind nothrow_skip_space nothrow_strto_loop nothrow_strto_prefix simp: Let_def split: prod.splits)

text \<open>What holds of the outcome of every decoder that starts at \<open>offset\<close>.\<close>

definition decodes :: "nat \<Rightarrow> decode_result \<Rightarrow> nat \<Rightarrow> decoded \<Rightarrow> bool" where
  "decodes sz res offset d \<longleftrightarrow> nothrow d \<and>
     (\<forall>st r o'. d = Inr (st, r, o') \<longrightarrow>
        (if st = St_complete then result_ok sz r \<and> offset < o' \<and> o' \<le> sz else r = res))"

lemma decodesI:
  "nothrow m \<Longrightarrow> (\<And>x. m = Inr x \<Longrightarrow> decodes sz res offset (f x)) \<Longrightarrow> decodes sz res offset (rbind m f)"
  by (cases m) (auto simp: decodes_def nothrow_def)

lemma decodes_Inr:
  "decodes sz res offset (Inr (st, r, o')) \<longleftrightarrow> (if st = St_complete then result_ok sz r \<and> offset < o' \<and> o' \<le> sz else r = res)"
  by (auto simp: decodes_def)

lemma decodes_mono: "decodes sz res offset' d \<Longrightarrow> offset \<le> offset' \<Longrightarrow> decodes sz res offset d"
  by (auto simp: decodes_def split: if_splits)

lemma line_loop_ok:
  "nothrow (line_loop good ptr sz offset e cr) \<and>
   (line_loop good ptr sz offset e cr = Inr (St_complete, e', o') \<longrightarrow>
      offset < o' \<and> o' \<le> sz \<and> (e' = e \<or> offset \<le> e' \<and> e' < o'))"
proof (induction good ptr sz offset e cr rule: line_loop.induct)
  case (1 good ptr sz offset e cr)
  show ?case
  proof (cases "offset < sz \<and> offset < length ptr")
    case True
    then have r: "rd ptr offset = Inr (ptr ! offset)" by simp
    show ?thesis using 1[OF _ r] True
      by (subst (1 2) line_loop.simps) (auto simp: r)
  next
    case False
    then show ?thesis by (subst (1 2) line_loop.simps) auto
  qed
qed

lemma line_loop_nothrow: "nothrow (line_loop good ptr sz offset e cr)"
  using line_loop_ok by blast

lemma line_loop_complete:
  "line_loop good ptr sz offset e cr = Inr (St_complete, e', o') \<Longrightarrow>
     offset < o' \<and> o' \<le> sz \<and> (e' = e \<or> offset \<le> e' \<and> e' < o')"
  using line_loop_ok by blast

lemma line_decodes:
  assumes "typ \<in> {V_string, V_err_string, V_integer}"
  shows "decodes sz res offset (rbind (line_loop good ptr sz offset offset False) (\<lambda>(st, e, o').
      Inr (st, if st = St_complete then Decode_result typ offset e 0 [] else res, o')))"
proof (rule decodesI[OF line_loop_nothrow])
  fix x assume l: "line_loop good ptr sz offset offset False = Inr x"
  obtain st e o' where x: "x = (st, e, o')" by (cases x)
  show "decodes sz res offset (case x of (st, e, o') \<Rightarrow> Inr (st, if st = St_complete then Decode_result typ offset e 0 [] else res, o'))"
    using assms line_loop_complete[of good ptr sz offset offset False e o'] l by (auto simp: x decodes_Inr)
qed

lemma string_decodes: "decodes sz res offset (decode_chunk_string res is_err ptr offset sz)"
  unfolding decode_chunk_string_def Let_def by (rule line_decodes) simp

lemma integer_decodes: "decodes sz res offset (decode_chunk_integer res ptr offset sz)"
  unfolding decode_chunk_integer_def Let_def by (rule line_decodes) simp

lemma decode_size_nothrow: "nothrow (decode_size ptr offset sz)"
  unfolding decode_size_def Let_def
  by (auto intro!: nothrow_rbind line_loop_nothrow nothrow_strtol)

lemma decode_size_complete:
  "decode_size ptr offset sz = Inr (St_complete, v, o') \<Longrightarrow> offset < o' \<and> o' \<le> sz"
  by (auto simp: decode_size_def Let_def rbind_eq_Inr_iff dest!: line_loop_complete split: if_splits)

lemma expect_crlf_nothrow: "nothrow (expect_crlf ptr offset)"
  by (auto simp: expect_crlf_def intro!: nothrow_rbind)

lemma expect_crlf_True: "expect_crlf ptr offset = Inr (True, o') \<Longrightarrow> o' = offset + 1"
  by (auto simp: expect_crlf_def rbind_eq_Inr_iff split: if_splits)

lemma crlf_decodes:
  assumes "\<And>o'. o' = at + 1 \<Longrightarrow> result_ok sz r \<and> offset < g o' \<and> g o' \<le> sz"
  shows "decodes sz res offset (rbind (expect_crlf ptr at) (\<lambda>(ok, o').
      if ok then Inr (St_complete, r, g o') else Inr (St_decode_error, res, o')))"
  by (rule decodesI[OF expect_crlf_nothrow]) (use assms in \<open>auto simp: decodes_Inr dest!: expect_crlf_True\<close>)

lemma bulk_decodes: "decodes sz res offset (decode_chunk_bulk res ptr offset sz)"
  unfolding decode_chunk_bulk_def
proof (rule decodesI[OF decode_size_nothrow])
  fix x assume d: "decode_size ptr offset sz = Inr x"
  obtain st n o' where x: "x = (st, n, o')" by (cases x)
  show "decodes sz res offset (case x of (st, bulk_size, offset) \<Rightarrow>
     if st \<noteq> St_complete then Inr (st, res, offset)
     else if bulk_size \<le> 0 then
       (if offset + 2 \<ge> sz then Inr (St_incomplete, res, offset)
        else rbind (expect_crlf ptr offset) (\<lambda>(ok, offset).
          if ok then Inr (St_complete, Decode_result (if bulk_size < 0 then V_bulk_null else V_bulk_empty) 0 0 0 [], offset + 1)
          else Inr (St_decode_error, res, offset)))
     else if offset + nat bulk_size - 1 + 2 \<ge> sz then Inr (St_incomplete, res, offset)
     else rbind (expect_crlf ptr (offset + nat bulk_size)) (\<lambda>(ok, offset).
       if ok then Inr (St_complete, Decode_result V_bulk 0 0 0 [], offset + 1)
       else Inr (St_decode_error, res, offset)))"
    using decode_size_complete[of ptr offset sz n o'] d
    by (auto simp: x decodes_Inr intro!: crlf_decodes)
qed

text \<open>The children of an array, when every decoding from its first child on is as it should be.\<close>

definition children_ok :: "nat \<Rightarrow> nat \<Rightarrow> nat \<Rightarrow> nat \<Rightarrow> nat \<Rightarrow> (decode_state \<times> nat \<times> decode_result list \<times> nat) res \<Rightarrow> bool" where
  "children_ok sz k l c offset m \<longleftrightarrow> nothrow m \<and>
     (\<forall>l' cs o'. m = Inr (St_complete, l', cs, o') \<longrightarrow>
        list_all (result_ok sz) cs \<and> length cs = c + k \<and> l' = l + k \<and> offset \<le> o' \<and> (if k = 0 then o' = offset else o' \<le> sz))"

lemma array_loop_ok:
  assumes "\<And>off. offset \<le> off \<Longrightarrow> decodes sz new_result off (child off)" and "list_all (result_ok sz) children"
  shows "children_ok sz (nat (n - i)) l (length children) offset (array_loop child i n l offset children)"
  using assms
proof (induction "nat (n - i)" arbitrary: i l offset children)
  case 0
  then show ?case by (subst array_loop.simps) (simp add: children_ok_def)
next
  case (Suc k)
  have lt: "i < n" "k = nat (n - (i + 1))" using Suc(2) by simp_all
  have d: "decodes sz new_result offset (child offset)" using Suc(3) by simp
  have "children_ok sz (nat (n - i)) l (length children) offset (case x of (st, r, o') \<Rightarrow>
      if st = St_complete then array_loop child (i + 1) n (l + 1) o' (children @ [r]) else Inr (st, l, children, o'))"
    if "child offset = Inr x" for x
  proof -
    obtain st r o' where x: "x = (st, r, o')" by (cases x)
    show ?thesis
    proof (cases "st = St_complete")
      case True
      then have r: "result_ok sz r" "offset < o'" "o' \<le> sz" using d that x by (auto simp: decodes_def)
      have "children_ok sz (nat (n - (i + 1))) (l + 1) (length (children @ [r])) o' (array_loop child (i + 1) n (l + 1) o' (children @ [r]))"
        by (rule Suc(1)[OF lt(2)]) (use Suc(3,4) r in auto)
      then show ?thesis using True r unfolding x Suc(2)[symmetric] lt(2)[symmetric] children_ok_def
        by (cases "k = 0") fastforce+
    qed (simp add: x children_ok_def)
  qed
  then show ?case using d lt(1)
    by (subst array_loop.simps) (cases "child offset"; auto simp: decodes_def nothrow_def children_ok_def)
qed

lemma array_decodes:
  assumes "\<And>off. offset < off \<Longrightarrow> decodes sz new_result off (child off)"
  shows "decodes sz res offset (decode_array alloc child res ptr offset sz)"
  unfolding decode_array_def
proof (rule decodesI[OF decode_size_nothrow])
  fix x assume d: "decode_size ptr offset sz = Inr x"
  obtain st n o' where x: "x = (st, n, o')" by (cases x)
  have a: "decodes sz res offset (rbind (array_loop child 0 n (nat n) o' []) (\<lambda>(st, children_len, children, offset).
       Inr (st, if st = St_complete then Decode_result V_array 0 0 children_len children else res, offset)))"
    if "0 < n" "offset < o'"
  proof -
    have "children_ok sz (nat (n - 0)) (nat n) (length ([] :: decode_result list)) o' (array_loop child 0 n (nat n) o' [])"
      by (rule array_loop_ok) (use assms that in auto)
    then show ?thesis using that by (intro decodesI) (auto simp: children_ok_def decodes_Inr)
  qed
  show "decodes sz res offset (case x of (st, array_size, offset) \<Rightarrow>
     if st \<noteq> St_complete then Inr (st, res, offset)
     else if array_size \<le> 0 then
       (if offset + 2 \<ge> sz then Inr (St_incomplete, res, offset)
        else rbind (expect_crlf ptr offset) (\<lambda>(ok, offset).
          if ok then Inr (St_complete, Decode_result (if array_size < 0 then V_array_null else V_array) 0 0 0 [], offset)
          else Inr (St_decode_error, res, offset)))
     else if \<not> alloc array_size then Inr (St_decode_error, res, offset)
     else rbind (array_loop child 0 array_size (nat array_size) offset []) (\<lambda>(st, children_len, children, offset).
       Inr (st, if st = St_complete then Decode_result V_array 0 0 children_len children else res, offset)))"
    using decode_size_complete[of ptr offset sz n o'] d a
    by (auto simp: x decodes_Inr intro!: crlf_decodes)
qed

text \<open>Every nested decoding starts at least one byte further on, so the fuel lasts.\<close>

lemma decode_decodes:
  "0 < fuel \<Longrightarrow> length ptr < fuel + offset \<Longrightarrow> decodes sz res offset (decode alloc fuel res ptr offset sz)"
proof (induction fuel arbitrary: res offset)
  case 0
  then show ?case by simp
next
  case (Suc fuel)
  have c: "decodes sz new_result off (decode alloc fuel new_result ptr off sz)" if "Suc offset < off" "offset < length ptr" for off
    using Suc.IH[of off new_result] Suc.prems that by simp
  have s: "decodes sz res offset d" if "decodes sz res (Suc offset) d" for d
    using decodes_mono[OF that] by simp
  show ?case
  proof (cases "offset < length ptr")
    case True
    show ?thesis
      unfolding decode.simps(2)
      using s[OF array_decodes[OF c[OF _ True]]]
      by (intro decodesI[OF nothrow_simps(3)])
        (auto simp: decodes_Inr intro: s bulk_decodes string_decodes integer_decodes split: decode_type.split)
  next
    case False
    then show ?thesis by (simp add: decode.simps(2) decodes_def)
  qed
qed



end
