(* ===== verification/Redis_Session.thy ===== *)
theory Redis_Session
  imports Resp Ringbuffer
begin

text \<open>
  \<open>src/app/redis_agent/redis/redis_session.hh\<close>, \<open>src/app/redis_agent/agent/agent_session.hh\<close>
  and the parts of \<open>src/app/redis_agent/command\<close> they use: the connection to a Redis server and
  the connection of a client of the agent.

  Flows are names: a handler in the queue is the flow it triggers, and \<open>handled\<close> records the
  calls. \<open>wait_packet()\<close> continues at once when the receive buffer is not empty, on the same
  stack, so the reading procedure calls itself until the buffer is empty, an exception ends
  it, or for ever (\<open>None\<close>).
\<close>

section \<open>Replies and commands\<close>

record redis_reply =
  rp_len :: nat
  rp_buf :: "byte list"
  rp_result :: decode_result

record 'h redis_inner =
  waiting_replies :: "redis_reply list"
  waiting_handlers :: "'h list"
  handled :: "('h \<times> redis_reply) list"

text \<open>The bytes from the read head to the end of the doubled mapping.\<close>

definition rb_view :: "ringbuffer \<Rightarrow> byte list" where
  "rb_view rb = map (\<lambda>i. rb_buffer rb ! ((rb_head rb + i) mod rb_capacity rb)) [0..<2 * rb_capacity rb - rb_head rb]"

text \<open>The decoding that both sessions start with: the copy and the consumption of a complete reply.\<close>

definition take_reply :: "(int \<Rightarrow> bool) \<Rightarrow> ringbuffer \<Rightarrow> (decode_state \<times> redis_reply option \<times> ringbuffer) res" where
  "take_reply alloc rb =
     rbind (resp_decode alloc (rb_view rb) 0 (rb_len rb)) (\<lambda>(st, r, offset).
     if st = St_complete
     then rbind (rb_load rb (rb_read_head rb) (offset + 1)) (\<lambda>bs.
          rbind (rb_consume (offset + 1) rb) (\<lambda>rb.
          Inr (st, Some \<lparr>rp_len = offset + 1, rp_buf = bs, rp_result = r\<rparr>, rb)))
     else Inr (st, None, rb))"

text \<open>A complete reply goes to the first waiting handler, or to the queue.\<close>

definition deliver_reply :: "redis_reply \<Rightarrow> 'h redis_inner \<Rightarrow> 'h redis_inner" where
  "deliver_reply rpl s =
     (case waiting_handlers s of
        [] \<Rightarrow> s\<lparr>waiting_replies := waiting_replies s @ [rpl]\<rparr>
      | h # hs \<Rightarrow> s\<lparr>handled := handled s @ [(h, rpl)], waiting_handlers := hs\<rparr>)"

definition decode_and_update_reply :: "(int \<Rightarrow> bool) \<Rightarrow> ringbuffer \<Rightarrow> 'h redis_inner \<Rightarrow> (ringbuffer \<times> 'h redis_inner) res" where
  "decode_and_update_reply alloc rb s =
     rbind (take_reply alloc rb) (\<lambda>(st, rpl, rb).
     case st of
       St_complete \<Rightarrow>
         Inr (rb, deliver_reply (the rpl) s)
     | St_incomplete \<Rightarrow> Inr (rb, s)
     | St_decode_error \<Rightarrow> Inl (Throw ''redis client session decode error''))"

definition wait_reply :: "'h \<Rightarrow> 'h redis_inner \<Rightarrow> redis_reply option \<times> 'h redis_inner" where
  \<comment> \<open>the reply of an immediate flow, or a handler for the flow \<open>h\<close>\<close>
  "wait_reply h s =
     (case waiting_replies s of
        [] \<Rightarrow> (None, s\<lparr>waiting_handlers := waiting_handlers s @ [h]\<rparr>)
      | r # rs \<Rightarrow> (Some r, s\<lparr>waiting_replies := rs\<rparr>))"

text \<open>\<open>read_proc\<close>, from the moment its \<open>wait_packet\<close> has data: the result says whether it waits for
  more data or has ended with an exception.\<close>

partial_function (option) read_proc ::
  "(int \<Rightarrow> bool) \<Rightarrow> ringbuffer \<Rightarrow> 'h redis_inner \<Rightarrow> (bool \<times> ringbuffer \<times> 'h redis_inner) res option" where
  "read_proc alloc rb s =
     (if rb_empty rb then Some (Inr (True, rb, s))
      else case decode_and_update_reply alloc rb s of
        Inl f \<Rightarrow> (case f of Throw _ \<Rightarrow> Some (Inr (False, rb, s)) | _ \<Rightarrow> Some (Inl f))
      | Inr (rb', s') \<Rightarrow> read_proc alloc rb' s')"

section \<open>The session of a client\<close>

record 'h agent_inner =
  waiting_commands :: "redis_reply list"
  agent_handlers :: "'h list"
  agent_triggered :: "('h \<times> redis_reply) list"

definition decode_and_notify_command :: "(int \<Rightarrow> bool) \<Rightarrow> ringbuffer \<Rightarrow> 'h agent_inner \<Rightarrow> (ringbuffer \<times> 'h agent_inner) res" where
  \<comment> \<open>the body of the handler is commented out: calling it triggers nothing and the command is lost\<close>
  "decode_and_notify_command alloc rb s =
     rbind (take_reply alloc rb) (\<lambda>(st, cmd, rb).
     case st of
       St_complete \<Rightarrow>
         Inr (rb, if agent_handlers s = [] then s\<lparr>waiting_commands := waiting_commands s @ [the cmd]\<rparr>
                  else s\<lparr>agent_handlers := tl (agent_handlers s)\<rparr>)
     | St_incomplete \<Rightarrow> Inr (rb, s)
     | St_decode_error \<Rightarrow> Inl (Throw ''redis client session decode error''))"

definition wait_command :: "'h \<Rightarrow> 'h agent_inner \<Rightarrow> redis_reply option \<times> 'h agent_inner" where
  "wait_command h s =
     (case waiting_commands s of
        [] \<Rightarrow> (None, s\<lparr>agent_handlers := agent_handlers s @ [h]\<rparr>)
      | c # cs \<Rightarrow> (Some c, s\<lparr>waiting_commands := cs\<rparr>))"

section \<open>Segments of a command\<close>

text \<open>\<open>get_segment\<close>: a view of \<open>end + 1\<close> bytes from \<open>bgn\<close> on. The number of children that the decoder
  records is the bound of the test, but only \<open>children\<close> exist.\<close>

definition get_segment :: "decode_result \<Rightarrow> byte list \<Rightarrow> nat \<Rightarrow> byte list option res" where
  "get_segment segment_flag buf i =
     (if i < dr_children_len segment_flag
      then rbind (rd (dr_children segment_flag) i) (\<lambda>c.
           if dr_bgn c + (dr_end c + 1) \<le> length buf then Inr (Some (take (dr_end c + 1) (drop (dr_bgn c) buf)))
           else Inl Undef)
      else Inr None)"

datatype redis_cmd =
    Cmd_append | Cmd_decr | Cmd_decrby | Cmd_get | Cmd_getbit | Cmd_getrange | Cmd_getset | Cmd_incr | Cmd_incrby
  | Cmd_incrbyfloat | Cmd_set | Cmd_psetex | Cmd_setbit | Cmd_setex | Cmd_setnx | Cmd_setrange | Cmd_strlen

fun segments_of :: "redis_cmd \<Rightarrow> nat list" where
  \<comment> \<open>the segments that \<open>init\<close> assigns, in the order of the fields\<close>
  "segments_of Cmd_append = [1, 2]"
| "segments_of Cmd_decr = [1]"
| "segments_of Cmd_decrby = [1, 2]"
| "segments_of Cmd_get = [1]"
| "segments_of Cmd_getbit = [1, 2]"
| "segments_of Cmd_getrange = [1, 2, 3]"
| "segments_of Cmd_getset = [1, 2]"
| "segments_of Cmd_incr = [1]"
| "segments_of Cmd_incrby = [1, 2]"
| "segments_of Cmd_incrbyfloat = [1, 2]"
| "segments_of Cmd_set = [1, 2]"
| "segments_of Cmd_psetex = [1, 2, 3]"
| "segments_of Cmd_setbit = [1, 2, 3]"
| "segments_of Cmd_setex = [1, 2, 3]"
| "segments_of Cmd_setnx = [1, 2]"
| "segments_of Cmd_setrange = [1, 2, 3]"
| "segments_of Cmd_strlen = [1]"

fun get_segments :: "decode_result \<Rightarrow> byte list \<Rightarrow> nat list \<Rightarrow> byte list option list res" where
  "get_segments d buf [] = Inr []"
| "get_segments d buf (i # is) = rbind (get_segment d buf i) (\<lambda>x. rbind (get_segments d buf is) (\<lambda>xs. Inr (x # xs)))"

definition cmd_init :: "redis_cmd \<Rightarrow> decode_result \<Rightarrow> byte list \<Rightarrow> byte list option list res" where
  "cmd_init c d buf = get_segments d buf (segments_of c)"

text \<open>A \<open>GET\<close> whose key is missing: the array has one child and counts as two, so the initialisation
  reads behind the children.\<close>

lemma cmd_get_without_key: "cmd_init Cmd_get (shape 0 (R_array [R_bulk [0x47]])) (wire (R_array [R_bulk [0x47]])) = Inl Undef"
  by code_simp

section \<open>What the decoder sees\<close>

lemma rb_view_contents:
  assumes "rb_inv rb"
  obtains post where "rb_view rb = rb_contents rb @ post"
proof
  let ?f = "\<lambda>i. rb_buffer rb ! ((rb_head rb + i) mod rb_capacity rb)"
  have "nat (rb_size rb) \<le> 2 * rb_capacity rb - rb_head rb" using assms by (auto simp: rb_inv_def)
  then have "take (nat (rb_size rb)) (rb_view rb) = rb_contents rb"
    unfolding rb_view_def rb_contents_def by (rule take_map_upt)
  then show "rb_view rb = rb_contents rb @ drop (nat (rb_size rb)) (rb_view rb)" by (metis append_take_drop_id)
qed

lemma decode_front:
  assumes "rb_inv rb" and "\<forall>n. alloc n" and "reply_ok v" and "rb_contents rb = wire v @ rest"
  shows "resp_decode alloc (rb_view rb) 0 (rb_len rb) = Inr (St_complete, shape 0 v, length (wire v))"
proof -
  obtain post where "rb_view rb = rb_contents rb @ post" using rb_view_contents[OF assms(1)] .
  then have "rb_view rb = [] @ wire v @ (rest @ post)" by (simp add: assms(4))
  moreover have "rb_len rb = length (wire v @ rest)" using rb_len_contents[OF assms(1)] assms(4) by (simp only:)
  ultimately show ?thesis using resp_decode_at[of alloc v "rb_view rb" "[]" "rest @ post" "rb_len rb"] assms(2,3) by simp
qed

lemma line_loop_incomplete:
  assumes "list_all (\<lambda>c. good c \<and> c \<noteq> 0x0d \<and> c \<noteq> 0x0a) bs" and "sz = length lead + length bs"
  shows "\<exists>e'. line_loop good (lead @ bs @ post) sz (length lead) e False = Inr (St_incomplete, e', sz)"
  using assms
proof (induction bs arbitrary: lead e)
  case Nil
  then show ?case by (subst line_loop.simps) simp
next
  case (Cons c bs)
  have r: "rd (lead @ (c # bs) @ post) (length lead) = Inr c" using rd_at[of lead c "bs @ post"] by simp
  have "line_loop good (lead @ (c # bs) @ post) sz (length lead) e False =
      line_loop good (lead @ (c # bs) @ post) sz (Suc (length lead)) (length lead) False"
    using Cons.prems by (subst line_loop.simps) (simp only: r rbind_Inr, simp)
  then show ?case using Cons.IH[of "lead @ [c]" "length lead"] Cons.prems by simp
qed

lemma decode_partial_string:
  assumes "rb_inv rb" and "list_all text_char bs" and "rb_contents rb = 0x2b # bs"
  shows "\<exists>off. resp_decode alloc (rb_view rb) 0 (rb_len rb) = Inr (St_incomplete, new_result, off)"
proof -
  obtain post where v: "rb_view rb = [0x2b] @ bs @ post" using rb_view_contents[OF assms(1)] assms(3) by auto
  have sz: "rb_len rb = length [0x2b :: byte] + length bs" using rb_len_contents[OF assms(1)] assms(3) by simp
  have "list_all (\<lambda>c. (ischar c \<and> \<not> isctrl c) \<and> c \<noteq> 0x0d \<and> c \<noteq> 0x0a) bs"
    using assms(2) text_char_good by (auto simp: list_all_iff)
  from line_loop_incomplete[OF this sz, of post 1]
  obtain e where e: "line_loop (\<lambda>c. ischar c \<and> \<not> isctrl c) (rb_view rb) (rb_len rb) (length [0x2b :: byte]) 1 False =
      Inr (St_incomplete, e, rb_len rb)" unfolding v by blast
  have "rd (rb_view rb) 0 = Inr 0x2b" by (simp add: v)
  then show ?thesis using e
    by (simp add: resp_decode_def decode.simps(2) decide_decode_type_def decode_chunk_string_def)
qed

section \<open>Reading for ever\<close>

lemma read_proc_step:
  assumes "read_proc alloc rb s = Some y"
  shows "\<not> (decode_and_update_reply alloc rb s = Inr (rb, s) \<and> \<not> rb_empty rb)"
proof (rule read_proc.raw_induct[OF _ assms])
  fix f alloc and rb and s :: "'a redis_inner" and y
  assume ih: "\<And>alloc rb s y. f alloc rb s = Some y \<Longrightarrow> \<not> (decode_and_update_reply alloc rb s = Inr (rb, s) \<and> \<not> rb_empty rb)"
    and eq: "(if rb_empty rb then Some (Inr (True, rb, s))
      else case decode_and_update_reply alloc rb s of
        Inl e \<Rightarrow> (case e of Throw _ \<Rightarrow> Some (Inr (False, rb, s)) | _ \<Rightarrow> Some (Inl e))
      | Inr (rb', s') \<Rightarrow> f alloc rb' s') = Some y"
  show "\<not> (decode_and_update_reply alloc rb s = Inr (rb, s) \<and> \<not> rb_empty rb)"
  proof
    assume h: "decode_and_update_reply alloc rb s = Inr (rb, s) \<and> \<not> rb_empty rb"
    then have "f alloc rb s = Some y" using eq by simp
    then show False using ih h by blast
  qed
qed

lemma read_proc_stuck: "decode_and_update_reply alloc rb s = Inr (rb, s) \<Longrightarrow> \<not> rb_empty rb \<Longrightarrow> read_proc alloc rb s = None"
  using read_proc_step by (metis not_Some_eq)

section \<open>Properties\<close>


definition example_replies :: ringbuffer where
  "example_replies = \<lparr>rb_buffer = [0x2b, 0x4f, 0x4b, 0x0d, 0x0a, 0, 0, 0], rb_capacity = 8, rb_head = 0, rb_tail = 5, rb_size = 5\<rparr>"


end
