(* ===== verification/Net_Queues.thy ===== *)
theory Net_Queues
  imports Redis_Session
begin

text \<open>
  The queues on which flows wait for something that arrives: the connections of
  \<open>src/src/dpdk/net/tcp_listener.hh\<close>, the replies of a Redis session, and the messages of
  \<open>src/src/dpdk/channel/dpdk_channel.hh\<close>.

  The first two follow one contract, the locale \<open>rendezvous\<close>; the third does not keep it.
\<close>

section \<open>The contract\<close>

text \<open>An item that arrives goes to the first task that waits, or is kept; a task takes the first item
  kept, or waits. \<open>served\<close> records who got what.\<close>

datatype ('h, 'm) arrival = Arrive 'm | Wait 'h

fun arrivals :: "('h, 'm) arrival list \<Rightarrow> 'm list" where
  "arrivals [] = []"
| "arrivals (Arrive m # es) = m # arrivals es"
| "arrivals (Wait h # es) = arrivals es"

fun waits :: "('h, 'm) arrival list \<Rightarrow> 'h list" where
  "waits [] = []"
| "waits (Arrive m # es) = waits es"
| "waits (Wait h # es) = h # waits es"

locale rendezvous =
  fixes kept :: "'s \<Rightarrow> 'm list" and tasks :: "'s \<Rightarrow> 'h list" and served :: "'s \<Rightarrow> ('h \<times> 'm) list"
    and arrive :: "'m \<Rightarrow> 's \<Rightarrow> 's" and wait :: "'h \<Rightarrow> 's \<Rightarrow> 's"
  assumes arrive_kept: "tasks s = [] \<Longrightarrow> kept (arrive m s) = kept s @ [m] \<and> tasks (arrive m s) = [] \<and> served (arrive m s) = served s"
    and arrive_served: "tasks s = h # hs \<Longrightarrow>
      kept (arrive m s) = kept s \<and> tasks (arrive m s) = hs \<and> served (arrive m s) = served s @ [(h, m)]"
    and wait_queued: "kept s = [] \<Longrightarrow> kept (wait h s) = [] \<and> tasks (wait h s) = tasks s @ [h] \<and> served (wait h s) = served s"
    and wait_served: "kept s = m # ms \<Longrightarrow>
      kept (wait h s) = ms \<and> tasks (wait h s) = tasks s \<and> served (wait h s) = served s @ [(h, m)]"
begin

definition balanced :: "'s \<Rightarrow> bool" where
  "balanced s \<longleftrightarrow> kept s = [] \<or> tasks s = []"

definition items :: "'s \<Rightarrow> 'm list" where
  "items s = map snd (served s) @ kept s"

definition waiters :: "'s \<Rightarrow> 'h list" where
  "waiters s = map fst (served s) @ tasks s"

lemma arrive_step:
  assumes "balanced s"
  shows "balanced (arrive m s)" "items (arrive m s) = items s @ [m]" "waiters (arrive m s) = waiters s"
proof -
  show "balanced (arrive m s)" "items (arrive m s) = items s @ [m]" "waiters (arrive m s) = waiters s"
    using assms arrive_kept[of s m] arrive_served[of s _ _ m]
    by (cases "tasks s"; auto simp: balanced_def items_def waiters_def)+
qed

lemma wait_step:
  assumes "balanced s"
  shows "balanced (wait h s)" "items (wait h s) = items s" "waiters (wait h s) = waiters s @ [h]"
proof -
  show "balanced (wait h s)" "items (wait h s) = items s" "waiters (wait h s) = waiters s @ [h]"
    using assms wait_queued[of s h] wait_served[of s _ _ h]
    by (cases "kept s"; auto simp: balanced_def items_def waiters_def)+
qed

fun run :: "('h, 'm) arrival list \<Rightarrow> 's \<Rightarrow> 's" where
  "run [] s = s"
| "run (Arrive m # es) s = run es (arrive m s)"
| "run (Wait h # es) s = run es (wait h s)"

lemma run_fifo:
  assumes "balanced s"
  shows "balanced (run es s) \<and> items (run es s) = items s @ arrivals es \<and> waiters (run es s) = waiters s @ waits es"
  using assms by (induction es s rule: run.induct) (auto simp: arrive_step wait_step)

text \<open>From the empty state the task that waits as number \<open>i\<close> gets the item that arrives as number \<open>i\<close>.\<close>

lemma run_in_order:
  assumes "served s = []" and "kept s = []" and "tasks s = []"
  shows "map snd (served (run es s)) @ kept (run es s) = arrivals es"
    and "map fst (served (run es s)) @ tasks (run es s) = waits es"
    and "kept (run es s) = [] \<or> tasks (run es s) = []"
  using run_fifo[of s es] assms by (simp_all add: balanced_def items_def waiters_def)

end

section \<open>The listener\<close>

record ('h, 'c) listener =
  waiting_tasks :: "'h list"
  waiting_connections :: "'c list"
  accepted :: "('h \<times> 'c) list"

text \<open>A task runs while the connection it gets is still at the front of the list. \<open>nested f\<close> is the task
  that \<open>f\<close> schedules while it runs, if any; a task that goes through the task center first schedules
  nothing at that point.\<close>

partial_function (option) listener_schedule ::
  "('h \<Rightarrow> 'h option) \<Rightarrow> 'h \<Rightarrow> ('h, 'c) listener \<Rightarrow> ('h, 'c) listener res option" where
  "listener_schedule nested f s =
     (case waiting_connections s of
        [] \<Rightarrow> Some (Inr (s\<lparr>waiting_tasks := waiting_tasks s @ [f]\<rparr>))
      | c # cs \<Rightarrow>
          Option.bind
            (case nested f of
               None \<Rightarrow> Some (Inr (s\<lparr>accepted := accepted s @ [(f, c)]\<rparr>))
             | Some g \<Rightarrow> listener_schedule nested g (s\<lparr>accepted := accepted s @ [(f, c)]\<rparr>))
            (\<lambda>r. Some (rbind r (\<lambda>s. case waiting_connections s of
                                       [] \<Rightarrow> Inl Undef | _ # cs \<Rightarrow> Inr (s\<lparr>waiting_connections := cs\<rparr>)))))"

text \<open>One turn of the loop of the event callback: a connection is accepted.\<close>

definition on_accept :: "('h \<Rightarrow> 'h option) \<Rightarrow> 'c \<Rightarrow> ('h, 'c) listener \<Rightarrow> ('h, 'c) listener res option" where
  "on_accept nested c s =
     (case waiting_tasks s of
        [] \<Rightarrow> Some (Inr (s\<lparr>waiting_connections := waiting_connections s @ [c]\<rparr>))
      | t # ts \<Rightarrow>
          Option.bind
            (case nested t of
               None \<Rightarrow> Some (Inr (s\<lparr>accepted := accepted s @ [(t, c)]\<rparr>))
             | Some g \<Rightarrow> listener_schedule nested g (s\<lparr>accepted := accepted s @ [(t, c)]\<rparr>))
            (\<lambda>r. Some (rbind r (\<lambda>s. case waiting_tasks s of
                                       [] \<Rightarrow> Inl Undef | _ # ts \<Rightarrow> Inr (s\<lparr>waiting_tasks := ts\<rparr>)))))"

fun accept_loop :: "('h \<Rightarrow> 'h option) \<Rightarrow> 'c list \<Rightarrow> ('h, 'c) listener \<Rightarrow> ('h, 'c) listener res option" where
  \<comment> \<open>\<open>event.data\<close> connections\<close>
  "accept_loop nested [] s = Some (Inr s)"
| "accept_loop nested (c # cs) s =
     Option.bind (on_accept nested c s) (\<lambda>r. case r of Inl e \<Rightarrow> Some (Inl e) | Inr s \<Rightarrow> accept_loop nested cs s)"

text \<open>Without nested calls both operations are total.\<close>

definition l_wait :: "'h \<Rightarrow> ('h, 'c) listener \<Rightarrow> ('h, 'c) listener" where
  "l_wait f s = (case listener_schedule (\<lambda>_. None) f s of Some (Inr s') \<Rightarrow> s' | _ \<Rightarrow> s)"

definition l_arrive :: "'c \<Rightarrow> ('h, 'c) listener \<Rightarrow> ('h, 'c) listener" where
  "l_arrive c s = (case on_accept (\<lambda>_. None) c s of Some (Inr s') \<Rightarrow> s' | _ \<Rightarrow> s)"

lemma listener_schedule_total: "\<exists>s'. listener_schedule (\<lambda>_. None) f s = Some (Inr s')"
  by (cases "waiting_connections s"; subst listener_schedule.simps) auto

lemma on_accept_total: "\<exists>s'. on_accept (\<lambda>_. None) c s = Some (Inr s')"
  by (cases "waiting_tasks s") (auto simp: on_accept_def)

interpretation lq: rendezvous waiting_connections waiting_tasks accepted l_arrive l_wait
proof
  fix s :: "('h, 'c) listener" and m h hs ms
  show "waiting_tasks s = [] \<Longrightarrow> waiting_connections (l_arrive m s) = waiting_connections s @ [m] \<and>
      waiting_tasks (l_arrive m s) = [] \<and> accepted (l_arrive m s) = accepted s"
    by (simp add: l_arrive_def on_accept_def)
  show "waiting_tasks s = h # hs \<Longrightarrow> waiting_connections (l_arrive m s) = waiting_connections s \<and>
      waiting_tasks (l_arrive m s) = hs \<and> accepted (l_arrive m s) = accepted s @ [(h, m)]"
    by (simp add: l_arrive_def on_accept_def)
  show "waiting_connections s = [] \<Longrightarrow> waiting_connections (l_wait h s) = [] \<and>
      waiting_tasks (l_wait h s) = waiting_tasks s @ [h] \<and> accepted (l_wait h s) = accepted s"
    by (simp add: l_wait_def listener_schedule.simps)
  show "waiting_connections s = m # ms \<Longrightarrow> waiting_connections (l_wait h s) = ms \<and>
      waiting_tasks (l_wait h s) = waiting_tasks s \<and> accepted (l_wait h s) = accepted s @ [(h, m)]"
    by (simp add: l_wait_def listener_schedule.simps)
qed

text \<open>A sequence of accepted connections and waiting tasks.\<close>

fun listener_run :: "('h, 'c) arrival list \<Rightarrow> ('h, 'c) listener \<Rightarrow> ('h, 'c) listener res option" where
  "listener_run [] s = Some (Inr s)"
| "listener_run (e # es) s =
     Option.bind (case e of Arrive c \<Rightarrow> on_accept (\<lambda>_. None) c s | Wait f \<Rightarrow> listener_schedule (\<lambda>_. None) f s)
       (\<lambda>r. case r of Inl x \<Rightarrow> Some (Inl x) | Inr s \<Rightarrow> listener_run es s)"

lemma listener_run_total: "listener_run es s = Some (Inr (lq.run es s))"
proof (induction es arbitrary: s)
  case (Cons e es)
  have "(case e of Arrive c \<Rightarrow> on_accept (\<lambda>_. None) c s | Wait f \<Rightarrow> listener_schedule (\<lambda>_. None) f s) =
      Some (Inr (case e of Arrive c \<Rightarrow> l_arrive c s | Wait f \<Rightarrow> l_wait f s))"
  proof (cases e)
    case (Arrive c)
    then show ?thesis using on_accept_total[of c s] by (auto simp: l_arrive_def)
  next
    case (Wait f)
    then show ?thesis using listener_schedule_total[of f s] by (auto simp: l_wait_def)
  qed
  then show ?case using Cons by (cases e) simp_all
qed simp

text \<open>A task that schedules itself again while it runs, as an accept loop without the task center
  does, finds the connection still there and is called for ever.\<close>

lemma listener_schedule_step:
  assumes "listener_schedule nested f s = Some y"
  shows "\<not> (nested f = Some f \<and> waiting_connections s \<noteq> [])"
proof (rule listener_schedule.raw_induct[OF _ assms])
  fix sched nested f and s :: "('a, 'b) listener" and y
  assume ih: "\<And>nested f s y. sched nested f s = Some y \<Longrightarrow> \<not> (nested f = Some f \<and> waiting_connections s \<noteq> [])"
    and eq: "(case waiting_connections s of
        [] \<Rightarrow> Some (Inr (s\<lparr>waiting_tasks := waiting_tasks s @ [f]\<rparr>))
      | c # cs \<Rightarrow>
          Option.bind
            (case nested f of
               None \<Rightarrow> Some (Inr (s\<lparr>accepted := accepted s @ [(f, c)]\<rparr>))
             | Some g \<Rightarrow> sched nested g (s\<lparr>accepted := accepted s @ [(f, c)]\<rparr>))
            (\<lambda>r. Some (rbind r (\<lambda>s. case waiting_connections s of
                                       [] \<Rightarrow> Inl Undef | _ # cs \<Rightarrow> Inr (s\<lparr>waiting_connections := cs\<rparr>))))) = Some y"
  show "\<not> (nested f = Some f \<and> waiting_connections s \<noteq> [])"
  proof
    assume h: "nested f = Some f \<and> waiting_connections s \<noteq> []"
    then obtain c cs where c: "waiting_connections s = c # cs" by (cases "waiting_connections s") auto
    then obtain r where "sched nested f (s\<lparr>accepted := accepted s @ [(f, c)]\<rparr>) = Some r"
      using eq h by (auto simp: bind_eq_Some_conv)
    then show False using ih[of nested f "s\<lparr>accepted := accepted s @ [(f, c)]\<rparr>" r] h by simp
  qed
qed

section \<open>The replies of a Redis session\<close>

definition r_wait :: "'h \<Rightarrow> 'h redis_inner \<Rightarrow> 'h redis_inner" where
  \<comment> \<open>\<open>wait_reply\<close>, with the immediate flow recorded as served\<close>
  "r_wait h s = (case wait_reply h s of (None, s') \<Rightarrow> s' | (Some r, s') \<Rightarrow> s'\<lparr>handled := handled s' @ [(h, r)]\<rparr>)"

interpretation rq: rendezvous waiting_replies waiting_handlers handled deliver_reply r_wait
  by unfold_locales (simp_all add: deliver_reply_def r_wait_def wait_reply_def)

fun replies_run :: "('h, redis_reply) arrival list \<Rightarrow> 'h redis_inner \<Rightarrow> 'h redis_inner" where
  "replies_run [] s = s"
| "replies_run (e # es) s = replies_run es (case e of Arrive r \<Rightarrow> deliver_reply r s | Wait h \<Rightarrow> r_wait h s)"

lemma replies_run_eq: "replies_run es s = rq.run es s"
proof (induction es arbitrary: s)
  case (Cons e es)
  then show ?case by (cases e) simp_all
qed simp

section \<open>Messages between cores\<close>

text \<open>Messages lie in buffers, which are numbers; \<open>mem\<close> is their content. \<open>pool\<close> are the free buffers of
  the memory pool. \<open>rte_mempool_get\<close> gives a buffer of the pool, named by the caller of the model; the ring holds at
  most \<open>cap\<close> buffers.\<close>

record ('h, 'm) in_channel =
  ring :: "nat list"
  pool :: "nat list"
  mem :: "nat \<Rightarrow> 'm"
  heap_next :: nat \<comment> \<open>the next buffer that \<open>new\<close> gives\<close>
  waiting_msgs :: "nat list"
  channel_tasks :: "'h list"
  received :: "('h \<times> nat) list"

definition push_msg :: "nat \<Rightarrow> nat \<Rightarrow> 'm \<Rightarrow> ('h, 'm) in_channel \<Rightarrow> ('h, 'm) in_channel res" where
  \<comment> \<open>the result of \<open>rte_mempool_get\<close> is not tested: from an empty pool the pointer is undefined\<close>
  "push_msg cap b msg s =
     (if b \<notin> set (pool s) then Inl Undef
      else let s = s\<lparr>pool := remove1 b (pool s), mem := (mem s)(b := msg)\<rparr> in
           if length (ring s) \<ge> cap then Inl (Throw ''cant push msg to channel'')
           else Inr (s\<lparr>ring := ring s @ [b]\<rparr>))"

definition pull_msg :: "('h, 'm) in_channel \<Rightarrow> ('h, 'm) in_channel" where
  \<comment> \<open>the copy, not the buffer taken from the ring, goes to the pool\<close>
  "pull_msg s =
     (case ring s of
        [] \<Rightarrow> s
      | b # bs \<Rightarrow>
          let b1 = heap_next s;
              s = s\<lparr>ring := bs, heap_next := Suc b1, mem := (mem s)(b1 := mem s b), pool := b1 # pool s\<rparr> in
          case channel_tasks s of
            t # ts \<Rightarrow> s\<lparr>received := received s @ [(t, b1)], channel_tasks := ts\<rparr>
          | [] \<Rightarrow> s\<lparr>waiting_msgs := waiting_msgs s @ [b1]\<rparr>)"

definition wait_msg :: "'h \<Rightarrow> ('h, 'm) in_channel \<Rightarrow> (nat option \<times> ('h, 'm) in_channel) res" where
  \<comment> \<open>the message stays in \<open>waiting_msgs\<close>; a task is removed instead\<close>
  "wait_msg h s =
     (case waiting_msgs s of
        [] \<Rightarrow> Inr (None, s\<lparr>channel_tasks := channel_tasks s @ [h]\<rparr>)
      | b # _ \<Rightarrow> if channel_tasks s = [] then Inl Undef
                 else Inr (Some b, s\<lparr>channel_tasks := tl (channel_tasks s)\<rparr>))"

section \<open>Properties\<close>

text \<open>
  Property C17. Connections and Redis replies are handed out in order, whatever the order in which
  they arrive and are waited for: every sequence of arrivals and waits succeeds from the
  empty state, the task that waits as number \<open>i\<close> gets what arrives as number \<open>i\<close>, nothing is lost,
  and there is never both something kept and somebody waiting.
\<close>

theorem net_queues_in_order:
  fixes es :: "('h, 'c) arrival list" and fs :: "('g, redis_reply) arrival list"
  shows "(\<exists>s. listener_run es \<lparr>waiting_tasks = [], waiting_connections = [], accepted = []\<rparr> = Some (Inr s) \<and>
      map snd (accepted s) @ waiting_connections s = arrivals es \<and> map fst (accepted s) @ waiting_tasks s = waits es \<and>
      (waiting_connections s = [] \<or> waiting_tasks s = [])) \<and>
   (\<exists>s. replies_run fs \<lparr>waiting_replies = [], waiting_handlers = [], handled = []\<rparr> = s \<and>
      map snd (handled s) @ waiting_replies s = arrivals fs \<and> map fst (handled s) @ waiting_handlers s = waits fs \<and>
      (waiting_replies s = [] \<or> waiting_handlers s = []))"
proof -
  let ?l = "\<lparr>waiting_tasks = [], waiting_connections = [], accepted = []\<rparr> :: ('h, 'c) listener"
    and ?r = "\<lparr>waiting_replies = [], waiting_handlers = [], handled = []\<rparr> :: 'g redis_inner"
  show ?thesis unfolding listener_run_total replies_run_eq
    using lq.run_in_order[of ?l es] rq.run_in_order[of ?r fs] by simp
qed

text \<open>
  The channel between cores does not keep that contract. A message that has been
  pulled and waits to be read lies in a buffer that is free in the pool, so the next message
  may be stored over it; and a task that asks for a waiting message takes the front of an
  empty list. In the same way a task of the listener that schedules itself while it runs never
  returns when a connection waits.
\<close>

theorem channel_message_overwritten:
  assumes "ring s = b # bs" and "channel_tasks s = []" and "waiting_msgs s = []" and "length bs < cap"
    and "nested f = Some f" and "waiting_connections l = c # cs"
  shows "\<exists>b1 s2. waiting_msgs (pull_msg s) = [b1] \<and> mem (pull_msg s) b1 = mem s b \<and>
      push_msg cap b1 msg (pull_msg s) = Inr s2 \<and> waiting_msgs s2 = [b1] \<and> mem s2 b1 = msg \<and>
      wait_msg h s2 = Inl Undef \<and> listener_schedule nested f l = None"
proof -
  let ?b = "heap_next s"
  have p: "waiting_msgs (pull_msg s) = [?b]" "mem (pull_msg s) = (mem s)(?b := mem s b)" "?b \<in> set (pool (pull_msg s))"
      "ring (pull_msg s) = bs" "channel_tasks (pull_msg s) = []"
    using assms(1-3) by (simp_all add: pull_msg_def Let_def)
  let ?s2 = "(pull_msg s)\<lparr>pool := remove1 ?b (pool (pull_msg s)), mem := (mem (pull_msg s))(?b := msg), ring := bs @ [?b]\<rparr>"
  have "push_msg cap ?b msg (pull_msg s) = Inr ?s2" using p assms(4) by (simp add: push_msg_def)
  moreover have "wait_msg h ?s2 = Inl Undef" using p by (simp add: wait_msg_def)
  moreover have "listener_schedule nested f l = None"
    using listener_schedule_step[of nested f l] assms(5,6) by (cases "listener_schedule nested f l") auto
  ultimately show ?thesis using p by (intro exI[of _ ?b] exI[of _ ?s2]) simp
qed

definition example_channel :: "(nat, nat) in_channel" where
  "example_channel = \<lparr>ring = [0], pool = [1], mem = (\<lambda>b. 42), heap_next = 2, waiting_msgs = [], channel_tasks = [], received = []\<rparr>"

theorem channel_message_overwritten_witness:
  "\<exists>b1 s2. waiting_msgs (pull_msg example_channel) = [b1] \<and> push_msg 4 b1 7 (pull_msg example_channel) = Inr s2 \<and>
      waiting_msgs s2 = [b1] \<and> mem s2 b1 = 7 \<and>
      listener_schedule Some (0 :: nat) \<lparr>waiting_tasks = [], waiting_connections = [()], accepted = []\<rparr> = None"
proof -
  have e: "ring example_channel = 0 # []" "channel_tasks example_channel = []" "waiting_msgs example_channel = []"
      "length ([] :: nat list) < 4" by (simp_all add: example_channel_def)
  have l: "waiting_connections \<lparr>waiting_tasks = [], waiting_connections = [()], accepted = []\<rparr> = () # []" by simp
  have "Some (0 :: nat) = Some 0" by simp
  from channel_message_overwritten[where nested = Some and msg = 7, OF e this l] show ?thesis by blast
qed

end
