(* ===== verification/Consistent_Hash.thy ===== *)
theory Consistent_Hash
  imports Prelude
begin

text \<open>
  \<open>src/src/common/consistent_hashing.hh\<close> and its use in
  \<open>src/app/redis_agent/redis/redis_nodes.hh\<close>: the choice of a node by its key.

  A \<open>std::map\<close> is the list of its pairs in the order of the keys. The keys are \<open>size_t\<close> words. The
  end iterator is \<open>None\<close>. The hash function of \<open>consistent_hashing\<close> is an argument.
\<close>

section \<open>Ordered maps\<close>

type_synonym 'n omap = "(u64 \<times> 'n) list"

fun omap_insert :: "u64 \<Rightarrow> 'n \<Rightarrow> 'n omap \<Rightarrow> bool \<times> 'n omap" where
  \<comment> \<open>\<open>insert\<close> and \<open>emplace\<close>: whether the key was new; an old pair stays\<close>
  "omap_insert k n [] = (True, [(k, n)])"
| "omap_insert k n ((k', n') # m) =
     (if k < k' then (True, (k, n) # (k', n') # m)
      else if k = k' then (False, (k', n') # m)
      else let (new, m') = omap_insert k n m in (new, (k', n') # m'))"

definition lower_bound :: "u64 \<Rightarrow> 'n omap \<Rightarrow> (u64 \<times> 'n) option" where
  "lower_bound k m = List.find (\<lambda>p. k \<le> fst p) m"

definition omap_begin :: "'n omap \<Rightarrow> (u64 \<times> 'n) option" where
  "omap_begin m = (case m of [] \<Rightarrow> None | p # _ \<Rightarrow> Some p)"

definition omap_wf :: "'n omap \<Rightarrow> bool" where
  "omap_wf m \<longleftrightarrow> sorted_wrt (<) (map fst m)"

section \<open>consistent\_hash\<close>

definition ch_size :: "'n omap \<Rightarrow> nat" where "ch_size m = length m"

definition ch_empty :: "'n omap \<Rightarrow> bool" where "ch_empty m \<longleftrightarrow> m = []"

definition ch_emplace :: "('n \<Rightarrow> u64) \<Rightarrow> 'n \<Rightarrow> 'n omap \<Rightarrow> bool \<times> 'n omap" where
  "ch_emplace get_key node m = omap_insert (get_key node) node m"

definition ch_find :: "u64 \<Rightarrow> 'n omap \<Rightarrow> (u64 \<times> 'n) option" where
  "ch_find k m = lower_bound k m"

section \<open>consistent\_hashing\<close>

definition chg_insert :: "('n \<Rightarrow> u64) \<Rightarrow> 'n \<Rightarrow> 'n omap \<Rightarrow> bool \<times> 'n omap" where
  "chg_insert hasher node m = omap_insert (hasher node) node m"

definition chg_erase :: "u64 \<Rightarrow> 'n omap \<Rightarrow> 'n omap" where
  \<comment> \<open>the pair the iterator stands on\<close>
  "chg_erase k m = filter (\<lambda>p. fst p \<noteq> k) m"

definition chg_find :: "u64 \<Rightarrow> 'n omap \<Rightarrow> (u64 \<times> 'n) option" where
  "chg_find hash m =
     (if m = [] then None
      else case lower_bound hash m of None \<Rightarrow> omap_begin m | Some p \<Rightarrow> Some p)"

section \<open>The nodes of the agent\<close>

record 'd consistent_hash_node =
  redis_data :: 'd
  last_key :: u64

definition get_key :: "'d consistent_hash_node \<Rightarrow> u64" where
  "get_key n = last_key n"

definition find_redis_node_by_string :: "byte list \<Rightarrow> 'd consistent_hash_node omap \<Rightarrow> (u64 \<times> 'd consistent_hash_node) option" where
  "find_redis_node_by_string k redis_servers = ch_find 10 redis_servers"

definition find_redis_node_by_key :: "u64 \<Rightarrow> 'd consistent_hash_node omap \<Rightarrow> (u64 \<times> 'd consistent_hash_node) option" where
  "find_redis_node_by_key k redis_servers = ch_find k redis_servers"

section \<open>Laws of the map\<close>

lemma omap_wf_Cons: "omap_wf ((k, n) # m) \<longleftrightarrow> (\<forall>p \<in> set m. k < fst p) \<and> omap_wf m"
  by (auto simp: omap_wf_def)

lemma omap_insert_set:
  assumes "omap_wf m"
  shows "set (snd (omap_insert k n m)) = (if k \<in> fst ` set m then set m else insert (k, n) (set m)) \<and>
    fst (omap_insert k n m) = (k \<notin> fst ` set m)"
  using assms
proof (induction m)
  case (Cons p m)
  obtain k' n' where p: "p = (k', n')" by force
  have lt: "\<forall>q \<in> set m. k' < fst q" and wf: "omap_wf m" using Cons.prems by (simp_all add: p omap_wf_Cons)
  show ?case
  proof (cases "k' < k")
    case True
    obtain new m' where m': "omap_insert k n m = (new, m')" by force
    have "k \<noteq> k'" "\<not> k < k'" using True by auto
    then show ?thesis using Cons.IH[OF wf] m' by (simp add: p insert_commute)
  next
    case False
    then have "k \<notin> fst ` set m" using lt by force
    then show ?thesis using False by (cases "k = k'") (simp_all add: p)
  qed
qed simp

lemma omap_insert_wf: "omap_wf m \<Longrightarrow> omap_wf (snd (omap_insert k n m))"
proof (induction m)
  case (Cons p m)
  obtain k' n' where p: "p = (k', n')" by force
  have lt: "\<forall>q \<in> set m. k' < fst q" and wf: "omap_wf m" using Cons.prems by (simp_all add: p omap_wf_Cons)
  show ?case
  proof (cases "k' < k")
    case True
    obtain new m' where m': "omap_insert k n m = (new, m')" by force
    have "k \<noteq> k'" "\<not> k < k'" using True by auto
    moreover have "\<forall>q \<in> set m'. k' < fst q" using omap_insert_set[OF wf, of k n] lt True m' by (simp split: if_splits)
    ultimately show ?thesis using Cons.IH[OF wf] m' by (simp add: p omap_wf_Cons)
  next
    case False
    then show ?thesis using Cons.prems lt by (cases "k = k'") (auto simp: p omap_wf_Cons)
  qed
qed (simp add: omap_wf_def)

lemma lower_bound_None: "lower_bound k m = None \<longleftrightarrow> (\<forall>p \<in> set m. fst p < k)"
  by (auto simp: lower_bound_def find_None_iff not_le)

lemma lower_bound_Some:
  assumes "omap_wf m" and "lower_bound k m = Some p"
  shows "p \<in> set m" "k \<le> fst p" "q \<in> set m \<Longrightarrow> k \<le> fst q \<Longrightarrow> fst p \<le> fst q"
proof -
  obtain i where i: "i < length m" "k \<le> fst (m ! i)" "p = m ! i" "\<forall>j<i. \<not> k \<le> fst (m ! j)"
    using assms(2) unfolding lower_bound_def find_Some_iff by blast
  then show "p \<in> set m" "k \<le> fst p" by auto
  assume "q \<in> set m" "k \<le> fst q"
  then obtain j where j: "j < length m" "q = m ! j" by (auto simp: in_set_conv_nth)
  then have "i \<le> j" using i(4) \<open>k \<le> fst q\<close> by (meson not_le)
  moreover have "fst (m ! i) < fst (m ! j)" if "i < j"
    using assms(1) that j(1) i(1) by (auto simp: omap_wf_def sorted_wrt_iff_nth_less)
  ultimately show "fst p \<le> fst q" using i(3) j(2) by (cases "i = j") auto
qed

lemma omap_begin_least:
  assumes "omap_wf m" and "omap_begin m = Some p"
  shows "p \<in> set m" "q \<in> set m \<Longrightarrow> fst p \<le> fst q"
  using assms by (auto simp: omap_begin_def omap_wf_def split: list.splits)

section \<open>An interface: rings of nodes\<close>

text \<open>A ring is looked up through the least key from the hash upwards. Whether the search goes on at
  the start of the ring is what the two classes differ in.\<close>

locale ring =
  fixes wf :: "'m \<Rightarrow> bool" and entries :: "'m \<Rightarrow> (u64 \<times> 'n) set" and at_or_above :: "u64 \<Rightarrow> 'm \<Rightarrow> (u64 \<times> 'n) option"
    and least :: "'m \<Rightarrow> (u64 \<times> 'n) option"
  assumes above_None: "wf m \<Longrightarrow> at_or_above k m = None \<Longrightarrow> q \<in> entries m \<Longrightarrow> fst q < k"
    and above_Some: "wf m \<Longrightarrow> at_or_above k m = Some p \<Longrightarrow> p \<in> entries m \<and> k \<le> fst p \<and> (\<forall>q \<in> entries m. k \<le> fst q \<longrightarrow> fst p \<le> fst q)"
    and least_Some: "wf m \<Longrightarrow> least m = Some p \<Longrightarrow> p \<in> entries m \<and> (\<forall>q \<in> entries m. fst p \<le> fst q)"
    and least_None: "wf m \<Longrightarrow> least m = None \<Longrightarrow> entries m = {}"
begin

definition clockwise :: "u64 \<Rightarrow> 'm \<Rightarrow> (u64 \<times> 'n) option" where
  "clockwise k m = (case at_or_above k m of None \<Rightarrow> least m | Some p \<Rightarrow> Some p)"

lemma distance_above: "k \<le> a \<Longrightarrow> unat (a - k) = unat a - unat k" for a k :: u64
  by (rule unat_sub)

lemma distance_below: "a < k \<Longrightarrow> unat (a - k) = 2 ^ 64 + unat a - unat k" for a k :: u64
  by (simp add: unat_sub_if_size word_size word_less_nat_alt)

lemma clockwise_nearest:
  assumes "wf m" and "q \<in> entries m"
  shows "\<exists>p. clockwise k m = Some p \<and> p \<in> entries m \<and> fst p - k \<le> fst q - k"
proof (cases "at_or_above k m")
  case None
  then have lt: "fst x < k" if "x \<in> entries m" for x using above_None[OF assms(1)] that by blast
  obtain p where p: "least m = Some p" using least_None[OF assms(1)] assms(2) by (cases "least m") auto
  then have "p \<in> entries m" "fst p \<le> fst q" using least_Some[OF assms(1)] assms(2) by auto
  then have "fst p - k \<le> fst q - k"
    using distance_below[OF lt, of p] distance_below[OF lt, of q] assms(2) by (simp add: word_le_nat_alt)
  then show ?thesis using None p \<open>p \<in> entries m\<close> by (simp add: clockwise_def)
next
  case (Some p)
  note p = above_Some[OF assms(1) Some]
  have "fst p - k \<le> fst q - k"
  proof (cases "k \<le> fst q")
    case True
    then have "fst p \<le> fst q" using p assms(2) by blast
    then show ?thesis using distance_above[OF True] distance_above[of k "fst p"] p by (simp add: word_le_nat_alt)
  next
    case False
    then have "unat (fst q - k) = 2 ^ 64 + unat (fst q) - unat k" by (intro distance_below) simp
    moreover have "unat (fst p) < 2 ^ 64" using unsigned_less[of "fst p", where 'a = nat] by simp
    ultimately show ?thesis using distance_above[of k "fst p"] p by (simp add: word_le_nat_alt)
  qed
  then show ?thesis using Some p by (simp add: clockwise_def)
qed

end

interpretation omap: ring "omap_wf :: 'n omap \<Rightarrow> bool" set lower_bound omap_begin
proof
  fix m :: "'n omap" and k p q
  assume wf: "omap_wf m"
  show "lower_bound k m = None \<Longrightarrow> q \<in> set m \<Longrightarrow> fst q < k" by (simp add: lower_bound_None)
  show "lower_bound k m = Some p \<Longrightarrow> p \<in> set m \<and> k \<le> fst p \<and> (\<forall>q\<in>set m. k \<le> fst q \<longrightarrow> fst p \<le> fst q)"
    using lower_bound_Some[OF wf] by blast
  show "omap_begin m = Some p \<Longrightarrow> p \<in> set m \<and> (\<forall>q\<in>set m. fst p \<le> fst q)"
    using omap_begin_least[OF wf] by blast
  show "omap_begin m = None \<Longrightarrow> set m = {}" by (simp add: omap_begin_def split: list.splits)
qed

lemma chg_find_clockwise: "chg_find k m = omap.clockwise k m"
  by (auto simp: chg_find_def omap.clockwise_def omap_begin_def lower_bound_def split: option.splits)

section \<open>Properties\<close>

text \<open>
  Property C32. On every map built by \<open>insert\<close>, \<open>consistent_hashing::find\<close> returns the node that
  follows the hash clockwise on the ring of 64-bit keys: no other node is at a smaller
  unsigned distance \<open>key - hash\<close>. \<open>consistent_hash::find\<close>, which the agent uses, does not
  close the ring: it agrees with it up to the largest key and returns the end iterator above.
\<close>

theorem consistent_hashing_successor:
  assumes "omap_wf m" and "q \<in> set (snd (chg_insert hasher node m))"
  shows "\<exists>p. chg_find k (snd (chg_insert hasher node m)) = Some p \<and> p \<in> set (snd (chg_insert hasher node m)) \<and>
     fst p - k \<le> fst q - k \<and> omap_wf (snd (chg_insert hasher node m)) \<and>
     ch_find k (snd (chg_insert hasher node m)) = (if k \<le> fst p then Some p else None)"
proof -
  let ?m = "snd (chg_insert hasher node m)"
  have wf: "omap_wf ?m" using omap_insert_wf[OF assms(1)] by (simp add: chg_insert_def)
  obtain p where p: "chg_find k ?m = Some p" "p \<in> set ?m" "fst p - k \<le> fst q - k"
    using omap.clockwise_nearest[OF wf assms(2), of k] by (auto simp: chg_find_clockwise)
  have "ch_find k ?m = (if k \<le> fst p then Some p else None)"
  proof (cases "lower_bound k ?m")
    case None
    then show ?thesis using p(2) by (auto simp: ch_find_def lower_bound_None not_less[symmetric])
  next
    case (Some r)
    then have "r = p" using p(1) by (auto simp: chg_find_def split: if_splits)
    then show ?thesis using Some lower_bound_Some(2)[OF wf Some] by (simp add: ch_find_def)
  qed
  then show ?thesis using p wf by blast
qed

theorem consistent_hashing_successor_witness:
  "\<exists>p. chg_find 12 (snd (chg_insert (\<lambda>n. n) 100 [(1, 1), (10, 10)])) = Some p \<and>
     p \<in> set (snd (chg_insert (\<lambda>n. n) 100 [(1, 1), (10, 10)])) \<and> fst p - 12 \<le> fst (10, 10 :: u64) - (12 :: u64)"
proof -
  have "omap_wf [(1, 1), (10, 10 :: u64)]" by (simp add: omap_wf_def)
  moreover have "(10, 10) \<in> set (snd (chg_insert (\<lambda>n. n) 100 [(1, 1), (10, 10 :: u64)]))" by (simp add: chg_insert_def)
  ultimately show ?thesis using consistent_hashing_successor[of "[(1, 1), (10, 10)]" "(10, 10)" "\<lambda>n. n" 100 12] by blast
qed

end
