(* ===== verification/Tcp_Connector.thy ===== *)
theory Tcp_Connector
  imports Reactor Tcp_Session
begin

text \<open>
  \<open>src/src/dpdk/net/tcp_connector.hh\<close>: opening a connection with a timeout. The flow that
  \<open>connect\<close> returns is handed to two parties that may trigger it, the callback of the socket's
  write event and a timer. The connector is modelled over the flows of \<open>Reactor\<close> and the timers of
  \<open>Timer\<close>; the results of \<open>ff_socket\<close> and \<open>ff_connect\<close> are arguments, the calls of
  \<open>ff_kevent\<close> and \<open>ff_close\<close> are recorded. \<open>variant\<close> is the variant
  \<open>std::variant<int,tcp_session>\<close> as a value of a flow.
\<close>

section \<open>The connector\<close>

datatype conn_result = Timeout int | Connected int \<comment> \<open>the timeout, or a session on the descriptor\<close>

record connector =
  c_fd :: int
  c_waiting :: "flow_id option" \<comment> \<open>\<open>waiting_task\<close>; \<open>None\<close>: default-constructed functions\<close>
  c_kevents :: "(kfilter \<times> kflag) list"
  c_closed :: nat

definition new_connector :: "int \<Rightarrow> connector" where
  "new_connector fd = \<lparr>c_fd = fd, c_waiting = None, c_kevents = [], c_closed = 0\<rparr>"

definition connector_schedule :: "flow_id \<Rightarrow> connector \<Rightarrow> connector" where
  "connector_schedule f c = c\<lparr>c_waiting := Some f\<rparr>"

text \<open>The handler of \<open>connect\<close>: an exception is thrown on, to the caller of the callback; a session
  triggers the flow.\<close>

definition connect_handle ::
  "(conn_result \<Rightarrow> 'v) \<Rightarrow> flow_id \<Rightarrow> int flow_arg \<Rightarrow> ('v, 's) reactor \<Rightarrow> ('v, 's) reactor \<times> fault option" where
  "connect_handle variant f v st =
     (case forward_flow_monostate_exception True v of
        Inl e \<Rightarrow> (st, Some e)
      | Inr _ \<Rightarrow> (case v of Arg fd \<Rightarrow> (trigge f (Arg (variant (Connected fd))) st, None) | _ \<Rightarrow> (st, Some Undef)))"

definition connector_cb ::
  "(conn_result \<Rightarrow> 'v) \<Rightarrow> bool \<Rightarrow> connector \<Rightarrow> ('v, 's) reactor \<Rightarrow> connector \<times> ('v, 's) reactor \<times> fault option" where
  \<comment> \<open>\<open>eof\<close>: \<open>event.flags & EV_EOF\<close>\<close>
  "connector_cb variant eof c st =
     (let c = c\<lparr>c_kevents := c_kevents c @ [(EVFILT_WRITE, EV_DELETE)]\<rparr>;
          c = (if eof then c\<lparr>c_closed := Suc (c_closed c)\<rparr> else c) in
      case c_waiting c of
        None \<Rightarrow> (c, st, Some (Throw ''bad_function_call''))
      | Some f \<Rightarrow>
          if \<not> called (flows st ! f)
          then (c, connect_handle variant f (if eof then Exception_ptr ''connect exception'' else Arg (c_fd c)) st)
          else (c, st, None))"

definition EINPROGRESS :: int where "EINPROGRESS = 115"

text \<open>\<open>connect\<close>: the connector and the flow builder it returns, which is submitted at the event \<open>k\<close>.
  At that point \<open>connect_submit\<close> stores the flow and adds the timer.\<close>

definition connect :: "nat \<Rightarrow> int \<Rightarrow> int \<Rightarrow> int \<Rightarrow> connector \<times> ('v, 's) outcome" where
  "connect k fd rtn errno =
     (let c = new_connector fd in
      if rtn < 0 \<and> errno \<noteq> EINPROGRESS
      then (c, Builder Immediate_runner (On_runner Immediate_runner) [\<lambda>_ w. (w, Raise ''connect exception'')])
      else (c\<lparr>c_kevents := [(EVFILT_WRITE, EV_ADD)]\<rparr>, Builder Immediate_runner (At_event k) []))"

definition connect_submit ::
  "u64 \<Rightarrow> int \<Rightarrow> flow_id \<Rightarrow> connector \<Rightarrow> (int \<times> flow_id) timer_obj list \<Rightarrow>
   connector \<times> (int \<times> flow_id) timer_obj list" where
  "connect_submit now timeout f c q =
     (connector_schedule f c, add_timer q (now, word_of_int timeout, (timeout, f)))"

definition connect_timeout :: "(conn_result \<Rightarrow> 'v) \<Rightarrow> int \<times> flow_id \<Rightarrow> ('v, 's) reactor \<Rightarrow> ('v, 's) reactor" where
  "connect_timeout variant cb st = (case cb of (timeout, f) \<Rightarrow> trigge f (Arg (variant (Timeout timeout))) st)"


section \<open>Who refers to a flow\<close>

text \<open>The flow \<open>f\<close> is owned by the connector: it has an action, and no queued operation and no other
  flow will trigger or activate it.\<close>

definition owned :: "flow_id \<Rightarrow> ('v, 's) reactor \<Rightarrow> bool" where
  "owned f st \<longleftrightarrow> f < length (flows st) \<and> act_func (flows st ! f) \<noteq> None \<and>
     list_all (\<lambda>op. op_id op = f \<longrightarrow> op = Run_act f) (todo st @ tasks st) \<and>
     list_all (\<lambda>fl. f \<notin> set (act_ids (act_func fl))) (flows st)"

text \<open>What every operation on other flows leaves alone.\<close>

definition keeps :: "flow_id \<Rightarrow> ('v, 's) reactor \<Rightarrow> ('v, 's) reactor \<Rightarrow> bool" where
  "keeps f st st' \<longleftrightarrow> owned f st' \<and> flows st' ! f = flows st ! f \<and> uses st' f = uses st f"

lemma keeps_trans: "keeps f st st1 \<Longrightarrow> keeps f st1 st2 \<Longrightarrow> keeps f st st2"
  by (simp add: keeps_def)

lemma list_all_update: "list_all P xs \<Longrightarrow> P y \<Longrightarrow> list_all P (xs[i := y])"
  unfolding list_all_iff using set_update_subset_insert[of xs i y] by blast

lemma owned_acts: "owned f st \<Longrightarrow> i < length (flows st) \<Longrightarrow> f \<notin> set (act_ids (act_func (flows st ! i)))"
  by (simp add: owned_def list_all_length)

lemma keeps_runner_schedule: "owned f st \<Longrightarrow> op_id op \<noteq> f \<Longrightarrow> keeps f st (runner_schedule r op st)"
  by (auto simp: keeps_def owned_def runner_schedule_uses runner_schedule_def schedule_def uses_def split: flow_runner.splits)

lemma keeps_flow_update:
  assumes "owned f st" and "i \<noteq> f" and "f \<notin> set (act_ids (act_func fl))"
  shows "keeps f st (st\<lparr>flows := (flows st)[i := fl]\<rparr>)"
  using assms list_all_update[of "\<lambda>fl. f \<notin> set (act_ids (act_func fl))" "flows st" fl i]
  by (simp add: keeps_def owned_def uses_def)

lemma keeps_trigge:
  assumes "owned f st" and "i \<noteq> f" and "i < length (flows st)"
  shows "keeps f st (trigge i a st)"
proof -
  have n: "f \<notin> set (act_ids (act_func (flows st ! i)))" using owned_acts[OF assms(1,3)] .
  have k: "keeps f st (st\<lparr>flows := (flows st)[i := fl]\<rparr>)" if "act_func fl = act_func (flows st ! i)" for fl
    using keeps_flow_update[OF assms(1,2)] n that by simp
  have "keeps f st (active_impl i (st\<lparr>flows := (flows st)[i := fl]\<rparr>))" if "act_func fl = act_func (flows st ! i)" for fl
    using keeps_trans[OF k[OF that] keeps_runner_schedule] k[OF that] assms(2) by (simp add: active_impl_def keeps_def)
  then show ?thesis using k assms(1) by (auto simp: trigge_def Let_def keeps_def)
qed

lemma keeps_alloc: "owned f st \<Longrightarrow> keeps f st (snd (alloc_flow r st)) \<and> fst (alloc_flow r st) = length (flows st)
    \<and> length (flows (snd (alloc_flow r st))) = Suc (length (flows st))"
  by (auto simp: alloc_flow_def keeps_def owned_def uses_def nth_append new_flow_def)

lemma keeps_then_flow:
  assumes "owned f st" and "i \<noteq> f" and "f \<notin> set (act_ids (Some (act (length (flows st)))))"
  shows "keeps f st (snd (then_flow r i act st)) \<and> fst (then_flow r i act st) = length (flows st) \<and>
    length (flows (snd (then_flow r i act st))) = Suc (length (flows st))"
proof -
  let ?fls = "(flows st)[i := (flows st ! i)\<lparr>act_func := Some (act (length (flows st))), runner := r\<rparr>]"
  have "keeps f st (st\<lparr>flows := ?fls\<rparr>)" using keeps_flow_update[OF assms(1,2)] assms(3) by simp
  then have "keeps f st (st\<lparr>flows := ?fls @ [new_flow r]\<rparr>)"
    by (auto simp: keeps_def owned_def uses_def nth_append new_flow_def)
  then show ?thesis by (simp add: then_flow_def Let_def)
qed

lemma keeps_then_all:
  assumes "owned f st" and "f < i"
  shows "keeps f st (snd (then_all r i fs st)) \<and> f < fst (then_all r i fs st)"
  using assms
proof (induction r i fs st rule: then_all.induct)
  case (1 r i st)
  then show ?case by (simp add: keeps_def)
next
  case (2 r i g fs st)
  obtain n st1 where t: "then_flow r i (User g) st = (n, st1)" by (cases "then_flow r i (User g) st")
  have "f < length (flows st)" using 2(2) by (simp add: owned_def)
  then have k: "keeps f st st1" "f < n" using keeps_then_flow[of f st i "User g" r] 2(2,3) t by auto
  then have "owned f st1" by (simp add: keeps_def)
  then show ?case using 2(1)[OF t[symmetric] refl] keeps_trans[OF k(1)] k(2) t by (auto simp: split_beta)
qed

lemma keeps_submit: "owned f st \<Longrightarrow> i \<noteq> f \<Longrightarrow> keeps f st (submit src i st)"
  by (auto simp: submit_def keeps_runner_schedule split: submit_at.splits) (simp add: keeps_def owned_def uses_def)

lemma keeps_submit_flow:
  assumes "owned f st"
  shows "keeps f st (submit_flow r src fs st)"
proof -
  obtain i st1 l st2 where e: "alloc_flow r st = (i, st1)" "then_all r i fs st1 = (l, st2)" by (metis surj_pair)
  have a: "keeps f st st1" "f < i" using keeps_alloc[OF assms, of r] assms e(1) by (auto simp: owned_def)
  then have b: "keeps f st1 st2" using keeps_then_all[of f st1 i r fs] e(2) by (simp add: keeps_def)
  then have "keeps f st2 (submit src i st2)" using a(2) by (intro keeps_submit) (auto simp: keeps_def)
  then show ?thesis using keeps_trans[OF a(1) keeps_trans[OF b]] e by (simp add: submit_flow_def)
qed


lemma keeps_todo:
  assumes "owned f st" and "list_all (\<lambda>op. op_id op \<noteq> f) ops"
  shows "keeps f st (st\<lparr>todo := ops @ todo st\<rparr>)"
proof -
  have "pend f ops = 0" using assms(2) by (induction ops) auto
  moreover have "list_all (\<lambda>op. op_id op = f \<longrightarrow> op = Run_act f) ops" using assms(2) by (simp add: list_all_iff)
  ultimately show ?thesis using assms(1) by (simp add: keeps_def owned_def uses_def)
qed

lemma keeps_builder:
  assumes "owned f st" and "n \<noteq> f"
  shows "keeps f st (let (h, st2) = alloc_flow r st; (l, st3) = then_all r h fs st2;
                         (e, st4) = then_flow r l (Forward n) st3 in submit src h st4)"
proof -
  obtain h st2 l st3 e st4 where b: "alloc_flow r st = (h, st2)" "then_all r h fs st2 = (l, st3)"
    "then_flow r l (Forward n) st3 = (e, st4)" by (metis surj_pair)
  have k2: "keeps f st st2" "f < h" using keeps_alloc[OF assms(1), of r] assms(1) b(1) by (auto simp: owned_def)
  then have k3: "keeps f st2 st3" "f < l" using keeps_then_all[of f st2 h r fs] b(2) by (auto simp: keeps_def)
  moreover have "f < length (flows st3)" using k3(1) by (simp add: keeps_def owned_def)
  ultimately have k4: "keeps f st3 st4" using keeps_then_flow[of f st3 l "Forward n" r] assms(2) b(3) by (simp add: keeps_def)
  then have "keeps f st4 (submit src h st4)" using k2(2) by (intro keeps_submit) (auto simp: keeps_def)
  then show ?thesis using keeps_trans[OF k2(1) keeps_trans[OF k3(1) keeps_trans[OF k4]]] b by simp
qed

lemma keeps_run_act:
  assumes "owned f st" and "todo st = Run_act i # rest" and "i < length (flows st)"
  shows "keeps f st (run_act i (st\<lparr>todo := rest\<rparr>))"
proof -
  define st1 where "st1 = st\<lparr>todo := rest, trace := trace st @ [i]\<rparr>"
  have k1: "keeps f st st1" using assms by (auto simp: keeps_def owned_def uses_def st1_def count_list_append)
  then have o1: "owned f st1" by (simp add: keeps_def)
  have n: "f \<notin> set (act_ids (act_func (flows st ! i)))" using owned_acts[OF assms(1,3)] .
  have s1: "st\<lparr>todo := rest, trace := trace st @ [i]\<rparr> = st1" "flows st1 = flows st" "todo st1 = rest" "Reactor.world st1 = Reactor.world st"
    by (simp_all add: st1_def)
  show ?thesis
  proof (cases "act_func (flows st ! i)")
    case None
    then show ?thesis using k1 by (simp add: run_act_def Let_def s1)
  next
    case (Some a)
    show ?thesis
    proof (cases a)
      case (Forward target m)
      have "keeps f st1 (st1\<lparr>todo := [Trigge target (fvalue (flows st ! i)), Active m Monostate] @ todo st1\<rparr>)"
        by (rule keeps_todo[OF o1]) (use n Some Forward in simp)
      then show ?thesis using keeps_trans[OF k1] Some Forward by (simp add: run_act_def Let_def s1)
    next
      case (User g m)
      obtain w out where o: "g (fvalue (flows st ! i)) (Reactor.world st) = (w, out)"
        by (cases "g (fvalue (flows st ! i)) (Reactor.world st)")
      define st2 where "st2 = st1\<lparr>Reactor.world := w\<rparr>"
      have k2: "keeps f st st2" using k1 by (auto simp: st2_def keeps_def owned_def uses_def)
      then have o2: "owned f st2" by (simp add: keeps_def)
      have m: "m \<noteq> f" using n Some User by simp
      have "keeps f st2 (st2\<lparr>todo := [Active m x] @ todo st2\<rparr>)" for x by (rule keeps_todo[OF o2]) (use m in simp)
      then show ?thesis using keeps_trans[OF k2] keeps_builder[OF o2 m] Some User o
        by (cases out) (simp_all add: run_act_def Let_def s1 st2_def)
    qed
  qed
qed

lemma keeps_flow_step:
  assumes "owned f st" and "ids_ok st"
  shows "keeps f st (flow_step st)"
proof (cases "todo st")
  case Nil
  then show ?thesis using assms(1) by (simp add: flow_step_def keeps_def)
next
  case (Cons op rest)
  have i: "op_id op < length (flows st)" using assms(2) Cons by (simp add: ids_ok_def)
  show ?thesis
  proof (cases "\<exists>i. op = Run_act i")
    case True
    then show ?thesis using keeps_run_act[OF assms(1)] Cons i by (auto simp: flow_step_def)
  next
    case False
    then have n: "op_id op \<noteq> f" using assms(1) Cons by (auto simp: owned_def)
    have k: "keeps f st (st\<lparr>todo := rest\<rparr>)" using assms(1) Cons False by (auto simp: keeps_def owned_def uses_def)
    then have "keeps f (st\<lparr>todo := rest\<rparr>) (trigge (op_id op) a (st\<lparr>todo := rest\<rparr>))" for a
      using keeps_trigge[of f "st\<lparr>todo := rest\<rparr>" "op_id op" a] n i by (simp add: keeps_def)
    then show ?thesis using keeps_trans[OF k] False Cons by (cases op) (auto simp: flow_step_def active_eq_trigge)
  qed
qed

section \<open>The outcome of connect\<close>

text \<open>The events of the connection, in any order and number, between arbitrary steps of the reactor.\<close>

datatype conn_event = Writable bool | Timer_due

inductive connect_run :: "(conn_result \<Rightarrow> 'v) \<Rightarrow> int \<Rightarrow> flow_id \<Rightarrow> connector \<Rightarrow> ('v, 's) reactor \<Rightarrow>
    conn_event list \<Rightarrow> connector \<Rightarrow> ('v, 's) reactor \<Rightarrow> bool"
  for variant timeout f c0 st0 where
  start: "connect_run variant timeout f c0 st0 [] c0 st0"
| writable: "connect_run variant timeout f c0 st0 evs c st \<Longrightarrow> connector_cb variant eof c st = (c', st', x) \<Longrightarrow>
    connect_run variant timeout f c0 st0 (evs @ [Writable eof]) c' st'"
| timer: "connect_run variant timeout f c0 st0 evs c st \<Longrightarrow>
    connect_run variant timeout f c0 st0 (evs @ [Timer_due]) c (connect_timeout variant (timeout, f) st)"
| new: "connect_run variant timeout f c0 st0 evs c st \<Longrightarrow> connect_run variant timeout f c0 st0 evs c (submit_flow r src fs st)"
| step: "connect_run variant timeout f c0 st0 evs c st \<Longrightarrow> connect_run variant timeout f c0 st0 evs c (flow_step st)"
| task: "connect_run variant timeout f c0 st0 evs c st \<Longrightarrow> todo st = [] \<Longrightarrow> tasks st = t # ts \<Longrightarrow>
    connect_run variant timeout f c0 st0 evs c (st\<lparr>todo := [t], tasks := ts\<rparr>)"

text \<open>The first event that is not an error decides.\<close>

fun connect_outcome :: "int \<Rightarrow> int \<Rightarrow> conn_event list \<Rightarrow> conn_result option" where
  "connect_outcome timeout fd [] = None"
| "connect_outcome timeout fd (Writable eof # evs) =
     (if eof then connect_outcome timeout fd evs else Some (Connected fd))"
| "connect_outcome timeout fd (Timer_due # evs) = Some (Timeout timeout)"

lemma connect_outcome_snoc:
  "connect_outcome timeout fd (evs @ [e]) =
     (case connect_outcome timeout fd evs of Some r \<Rightarrow> Some r | None \<Rightarrow> connect_outcome timeout fd [e])"
  by (induction timeout fd evs rule: connect_outcome.induct) auto

text \<open>The state of the flow after the events.\<close>

definition settled :: "(conn_result \<Rightarrow> 'v) \<Rightarrow> flow_id \<Rightarrow> conn_result option \<Rightarrow> ('v, 's) reactor \<Rightarrow> bool" where
  "settled variant f r st \<longleftrightarrow>
     (case r of None \<Rightarrow> \<not> called (flows st ! f) \<and> uses st f = 0
      | Some v \<Rightarrow> called (flows st ! f) \<and> fvalue (flows st ! f) = Arg (variant v) \<and> uses st f = 1)"

lemma keeps_settled: "keeps f st st' \<Longrightarrow> settled variant f r st' = settled variant f r st"
  by (auto simp: keeps_def settled_def split: option.splits)

lemma trigge_settled:
  assumes "owned f st" and "settled variant f r st"
  shows "settled variant f (case r of None \<Rightarrow> Some v | Some w \<Rightarrow> Some w) (trigge f (Arg (variant v)) st)"
    and "owned f (trigge f (Arg (variant v)) st)"
proof -
  let ?fl = "(flows st ! f)\<lparr>called := True, fvalue := Arg (variant v)\<rparr>"
  let ?st = "st\<lparr>flows := (flows st)[f := ?fl]\<rparr>"
  have l: "f < length (flows st)" and a: "act_func (flows st ! f) \<noteq> None" using assms(1) by (simp_all add: owned_def)
  have o: "owned f (runner_schedule rr (Run_act f) ?st)" for rr
    using assms(1) list_all_update[of "\<lambda>fl. f \<notin> set (act_ids (act_func fl))" "flows st" ?fl f] owned_acts[OF assms(1) l]
    by (auto simp: owned_def runner_schedule_def schedule_def split: flow_runner.splits)
  have u: "uses (runner_schedule rr (Run_act f) ?st) f = Suc (uses st f)" for rr
    by (simp add: runner_schedule_uses) (simp add: uses_def)
  have e: "trigge f (Arg (variant v)) st = (if called (flows st ! f) then st else runner_schedule (runner (flows st ! f)) (Run_act f) ?st)"
    using a l by (auto simp: trigge_def active_impl_def Let_def)
  show "owned f (trigge f (Arg (variant v)) st)" using assms(1) o by (simp add: e)
  show "settled variant f (case r of None \<Rightarrow> Some v | Some w \<Rightarrow> Some w) (trigge f (Arg (variant v)) st)"
    using assms(2) u l by (auto simp: e settled_def split: option.splits)
qed


definition conn_closes :: "conn_event list \<Rightarrow> nat" where
  "conn_closes evs = length (filter (\<lambda>e. e = Writable True) evs)"

definition conn_writables :: "conn_event list \<Rightarrow> nat" where
  "conn_writables evs = length (filter (\<lambda>e. e \<noteq> Timer_due) evs)"

text \<open>The invariant of a run.\<close>

definition conn_inv :: "(conn_result \<Rightarrow> 'v) \<Rightarrow> int \<Rightarrow> flow_id \<Rightarrow> connector \<Rightarrow> conn_event list \<Rightarrow> connector \<Rightarrow> ('v, 's) reactor \<Rightarrow> bool" where
  "conn_inv variant timeout f c0 evs c st \<longleftrightarrow>
     flow_inv st \<and> owned f st \<and> settled variant f (connect_outcome timeout (c_fd c0) evs) st \<and>
     c = c0\<lparr>c_kevents := c_kevents c0 @ replicate (conn_writables evs) (EVFILT_WRITE, EV_DELETE),
            c_closed := c_closed c0 + conn_closes evs\<rparr>"

lemma conn_inv_keeps:
  "conn_inv variant timeout f c0 evs c st \<Longrightarrow> flow_inv st' \<Longrightarrow> keeps f st st' \<Longrightarrow> conn_inv variant timeout f c0 evs c st'"
  using keeps_settled[of f st st' variant "connect_outcome timeout (c_fd c0) evs"] by (simp add: conn_inv_def keeps_def)

lemma flow_inv_ids: "flow_inv st \<Longrightarrow> ids_ok st"
  by (simp add: flow_inv_def)

lemma conn_inv_timer:
  assumes "conn_inv variant timeout f c0 evs c st"
  shows "conn_inv variant timeout f c0 (evs @ [Timer_due]) c (connect_timeout variant (timeout, f) st)"
proof -
  have o: "owned f st" "flow_inv st" using assms by (simp_all add: conn_inv_def)
  then have l: "f < length (flows st)" by (simp add: owned_def)
  show ?thesis
    using assms trigge_settled[OF o(1), of variant "connect_outcome timeout (c_fd c0) evs" "Timeout timeout"]
      trigge_inv(1)[OF o(2) l, of "Arg (variant (Timeout timeout))"]
    by (auto simp: conn_inv_def connect_timeout_def connect_outcome_snoc conn_writables_def conn_closes_def split: option.splits)
qed

lemma conn_inv_writable:
  assumes "conn_inv variant timeout f c0 evs c st" and "c_waiting c0 = Some f"
    and "connector_cb variant eof c st = (c', st', x)"
  shows "conn_inv variant timeout f c0 (evs @ [Writable eof]) c' st'"
proof -
  have o: "owned f st" "flow_inv st" and s: "settled variant f (connect_outcome timeout (c_fd c0) evs) st"
    using assms(1) by (simp_all add: conn_inv_def)
  then have l: "f < length (flows st)" by (simp add: owned_def)
  have c: "c_waiting c = Some f" "c_fd c = c_fd c0" using assms(1,2) by (simp_all add: conn_inv_def)
  have c': "c' = c0\<lparr>c_kevents := c_kevents c0 @ replicate (conn_writables (evs @ [Writable eof])) (EVFILT_WRITE, EV_DELETE),
            c_closed := c_closed c0 + conn_closes (evs @ [Writable eof])\<rparr>"
    using assms by (auto simp: connector_cb_def Let_def conn_inv_def conn_writables_def conn_closes_def replicate_append_same split: if_splits)
  have st': "st' = (if eof then st else trigge f (Arg (variant (Connected (c_fd c0)))) st)"
    using assms(3) c by (auto simp: connector_cb_def Let_def connect_handle_def forward_flow_monostate_exception_def
        trigge_def split: if_splits)
  show ?thesis
    using c' st' o s trigge_settled[OF o(1) s, of "Connected (c_fd c0)"] trigge_inv(1)[OF o(2) l]
    by (auto simp: conn_inv_def connect_outcome_snoc split: option.splits)
qed

lemma connect_run_inv:
  assumes "connect_run variant timeout f c0 st0 evs c st" and "conn_inv variant timeout f c0 [] c0 st0" and "c_waiting c0 = Some f"
  shows "conn_inv variant timeout f c0 evs c st"
  using assms
proof (induction rule: connect_run.induct)
  case (new evs c st r src fs)
  then have i: "conn_inv variant timeout f c0 evs c st" by simp
  then have "flow_inv st" "owned f st" by (simp_all add: conn_inv_def)
  then show ?case by (intro conn_inv_keeps[OF i] submit_flow_inv keeps_submit_flow)
next
  case (step evs c st)
  then have i: "conn_inv variant timeout f c0 evs c st" by simp
  then have "flow_inv st" "owned f st" by (simp_all add: conn_inv_def)
  then show ?case by (intro conn_inv_keeps[OF i] flow_step_inv keeps_flow_step flow_inv_ids)
next
  case (task evs c st t ts)
  then have i: "conn_inv variant timeout f c0 evs c st" by simp
  then have o: "flow_inv st" "owned f st" by (simp_all add: conn_inv_def)
  have "flow_inv (st\<lparr>todo := [t], tasks := ts\<rparr>)"
    using o(1) task(2,3) by (simp add: flow_inv_def ids_ok_def uses_def is_called_def)
  moreover have "keeps f st (st\<lparr>todo := [t], tasks := ts\<rparr>)"
    using o(2) task(2,3) by (auto simp: keeps_def owned_def uses_def)
  ultimately show ?case by (rule conn_inv_keeps[OF i])
qed (auto intro: conn_inv_timer conn_inv_writable)

text \<open>
  Property C22. The outcome of \<open>connect\<close>. Let the connection be under way and the flow \<open>f\<close> that
  was returned be referred to by nobody else. After any number of write events, errors and
  timeouts in any order, between arbitrary other steps of the reactor: the flow has been triggered
  exactly when there was a timeout or a write event without error, its argument is the outcome of
  the first of them, and its action is queued or has run exactly once. An error event closes the
  descriptor but does not reach the flow (the handler throws it to its caller), and a connection
  that opens after the timeout is neither handed out nor closed.
\<close>
theorem connect_first_wins:
  fixes st0 st :: "('v, 's) reactor"
  assumes "c0 = fst (connect_submit now timeout f (fst (connect k fd rtn errno :: connector \<times> ('v, 's) outcome)) q)"
    and "0 \<le> rtn \<or> errno = EINPROGRESS"
    and "flow_inv st0" and "owned f st0" and "\<not> called (flows st0 ! f)"
    and "connect_run variant timeout f c0 st0 evs c st"
  shows "(case connect_outcome timeout fd evs of
            None \<Rightarrow> \<not> called (flows st ! f) \<and> uses st f = 0
          | Some r \<Rightarrow> called (flows st ! f) \<and> fvalue (flows st ! f) = Arg (variant r) \<and> uses st f = 1) \<and>
         c_kevents c = (EVFILT_WRITE, EV_ADD) # replicate (conn_writables evs) (EVFILT_WRITE, EV_DELETE) \<and>
         c_closed c = conn_closes evs"
proof -
  have c0: "c0 = \<lparr>c_fd = fd, c_waiting = Some f, c_kevents = [(EVFILT_WRITE, EV_ADD)], c_closed = 0\<rparr>"
    using assms(1,2) by (auto simp: connect_submit_def connector_schedule_def connect_def new_connector_def Let_def)
  have "uses st0 f \<le> (if is_called st0 f then 1 else 0)" using assms(3) by (simp add: flow_inv_def)
  then have "uses st0 f = 0" using assms(5) by (simp add: is_called_def)
  then have "conn_inv variant timeout f c0 [] c0 st0"
    using assms(3-5) by (simp add: conn_inv_def settled_def conn_writables_def conn_closes_def)
  then show ?thesis using connect_run_inv[OF assms(6)] by (simp add: c0 conn_inv_def settled_def)
qed

definition example_flows :: "(conn_result, nat) reactor" where
  "example_flows = submit_flow Immediate_runner (At_event 0) [\<lambda>_ w. (Suc w, Void)] (empty_reactor 0)"

definition example_connector :: connector where
  "example_connector = fst (connect_submit 100 5 0 (fst (connect 0 7 (- 1) EINPROGRESS :: connector \<times> (conn_result, nat) outcome)) [])"

lemma example_connect_run:
  "connect_run id 5 0 example_connector example_flows [Timer_due, Writable False]
     (fst (connector_cb id False example_connector (connect_timeout id (5, 0) example_flows)))
     (flow_step (fst (snd (connector_cb id False example_connector (connect_timeout id (5, 0) example_flows)))))"
proof -
  have "connect_run id 5 0 example_connector example_flows ([] @ [Timer_due]) example_connector (connect_timeout id (5, 0) example_flows)"
    by (intro connect_run.timer connect_run.start)
  then have "connect_run id 5 0 example_connector example_flows (([] @ [Timer_due]) @ [Writable False])
     (fst (connector_cb id False example_connector (connect_timeout id (5, 0) example_flows)))
     (fst (snd (connector_cb id False example_connector (connect_timeout id (5, 0) example_flows))))"
    by (rule connect_run.writable[where x = "snd (snd (connector_cb id False example_connector (connect_timeout id (5, 0) example_flows)))"]) simp
  then show ?thesis using connect_run.step by fastforce
qed

lemma example_flows_eq:
  "example_flows = \<lparr>flows = [\<lparr>called = False, act_func = Some (User (\<lambda>_ w. (Suc w, Void)) 1), runner = Immediate_runner, fvalue = Monostate\<rparr>,
     new_flow Immediate_runner], todo = [], tasks = [], waiting = [(0, 0)], world = 0, trace = []\<rparr>"
  by (simp add: example_flows_def submit_flow_def alloc_flow_def then_flow_def empty_reactor_def submit_def new_flow_def)

lemma connect_first_wins_witness:
  "fvalue (flows (flow_step (fst (snd (connector_cb id False example_connector (connect_timeout id (5, 0) example_flows))))) ! 0)
     = Arg (Timeout 5) \<and>
   c_closed (fst (connector_cb id False example_connector (connect_timeout id (5, 0) example_flows))) = 0"
proof -
  have o: "owned 0 example_flows" by (simp add: example_flows_eq owned_def new_flow_def)
  have i: "flow_inv example_flows"
    unfolding example_flows_def by (rule submit_flow_inv) (simp add: empty_reactor_def flow_inv_def ids_ok_def uses_def)
  have n: "\<not> called (flows example_flows ! 0)" by (simp add: example_flows_eq)
  show ?thesis
    using connect_first_wins[OF example_connector_def _ i o n example_connect_run]
    by (simp add: conn_closes_def)
qed

end
