(* ===== verification/Agent.thy ===== *)
theory Agent
  imports Net_Queues Tcp_Connector Consistent_Hash
begin

text \<open>
  What joins the parts of the agent: the socket of the listener (\<open>src/src/dpdk/net/tcp_listener.hh\<close>),
  the connection to a Redis server and sending a command on it
  (\<open>src/app/redis_agent/redis/redis_session.hh\<close>), and the procedure that forwards the commands of a
  client (\<open>src/app/redis_agent/main.cc\<close>).
\<close>

section \<open>The socket of the listener\<close>

record listener_sock =
  l_socket_fd :: int
  l_kevents :: "(kfilter \<times> kflag) list"
  l_closed :: nat

definition tcp_listener :: "int \<Rightarrow> ('h, 'c) listener \<times> listener_sock" where
  "tcp_listener fd =
     (\<lparr>waiting_tasks = [], waiting_connections = [], accepted = []\<rparr>,
      \<lparr>l_socket_fd = fd, l_kevents = [(EVFILT_READ, EV_ADD)], l_closed = 0\<rparr>)"

text \<open>The callback: at the end of the socket it is closed (the change \<open>EV_DELETE\<close> is prepared but not
  given to \<open>ff_kevent\<close>), otherwise the \<open>event.data\<close> new connections are accepted.\<close>

definition listener_cb ::
  "('h \<Rightarrow> 'h option) \<Rightarrow> bool \<Rightarrow> 'c list \<Rightarrow> ('h, 'c) listener \<times> listener_sock \<Rightarrow> (('h, 'c) listener \<times> listener_sock) res option" where
  "listener_cb nested eof conns l =
     (case l of (s, k) \<Rightarrow>
        if eof then Some (Inr (s, k\<lparr>l_closed := Suc (l_closed k)\<rparr>))
        else Option.bind (accept_loop nested conns s) (\<lambda>r. Some (rbind r (\<lambda>s. Inr (s, k)))))"

lemma accept_loop_run: "accept_loop (\<lambda>_. None) conns s = listener_run (map Arrive conns) s"
  by (induction conns arbitrary: s) (simp_all split: Option.bind_splits sum.splits)

lemma listener_cb_accepts:
  "listener_cb (\<lambda>_. None) False conns (s, k) = Some (Inr (lq.run (map Arrive conns) s, k))"
  by (simp add: listener_cb_def accept_loop_run listener_run_total)

section \<open>Connecting to a server and sending it a command\<close>

definition connect_redis_act :: "conn_result flow_arg \<Rightarrow> (int \<times> 'h redis_inner) res" where
  "connect_redis_act a =
     rbind (forward_flow_monostate_exception True a) (\<lambda>_.
       case a of
         Arg (Timeout t) \<Rightarrow> Inl (Throw ''timeout'')
       | Arg (Connected fd) \<Rightarrow> Inr (fd, \<lparr>waiting_replies = [], waiting_handlers = [], handled = []\<rparr>)
       | _ \<Rightarrow> Inl Undef)"

text \<open>\<open>send_command\<close>: the packet is queued at the session; when it has been sent, the flow \<open>h\<close> waits for
  the reply.\<close>

definition send_command ::
  "byte list \<Rightarrow> nat \<Rightarrow> 'h \<Rightarrow> ('t, 'h, 'k, 's) tcp_data \<Rightarrow> ('t, 'h, 'k, 's) tcp_data" where
  "send_command cmd n h d = schedule_send (unsent (take n cmd)) h d"

definition send_command_sent ::
  "'h \<Rightarrow> unsent_data flow_arg \<Rightarrow> 'h redis_inner \<Rightarrow> (redis_reply option \<times> 'h redis_inner) res" where
  "send_command_sent h v s = rbind (forward_flow_monostate_exception True v) (\<lambda>_. Inr (wait_reply h s))"

section \<open>Forwarding the commands of a client\<close>

record command_context =
  ctx_cmd :: "redis_reply option"
  ctx_rpl :: "redis_reply option"

definition get_key_hash :: "redis_reply \<Rightarrow> u64" where
  "get_key_hash cmd = 1"

text \<open>The function that gets the command, after it has started to wait for the next one: the context
  it stores the command in, the server and the bytes to send. Following a null pointer is \<open>Undef\<close>.\<close>

definition forward_command ::
  "command_context option \<Rightarrow> 'd option consistent_hash_node omap \<Rightarrow> redis_reply flow_arg \<Rightarrow>
   (command_context \<times> 'd \<times> byte list) res" where
  "forward_command ctx servers v =
     rbind (forward_flow_monostate_exception True v) (\<lambda>_.
      case v of
        Arg cmd \<Rightarrow>
          (case ctx of
             None \<Rightarrow> Inl Undef
           | Some c \<Rightarrow>
               (case find_redis_node_by_key (get_key_hash cmd) servers of
                  None \<Rightarrow> Inl Undef
                | Some (_, node) \<Rightarrow>
                    (case redis_data node of
                       None \<Rightarrow> Inl Undef
                     | Some d \<Rightarrow> Inr (c\<lparr>ctx_cmd := Some cmd\<rparr>, d, take (rp_len cmd) (rp_buf cmd)))))
      | _ \<Rightarrow> Inl Undef)"

text \<open>The function that gets the reply: it is stored, and what is sent to the client is the empty string
  with length 1, the terminating zero.\<close>

definition forward_reply ::
  "command_context option \<Rightarrow> redis_reply flow_arg \<Rightarrow> (command_context \<times> byte list) res" where
  "forward_reply ctx v =
     rbind (forward_flow_monostate_exception True v) (\<lambda>_.
      case (v, ctx) of
        (Arg rpl, Some c) \<Rightarrow> Inr (c\<lparr>ctx_rpl := Some rpl\<rparr>, [0])
      | _ \<Rightarrow> Inl Undef)"

text \<open>\<open>redis_command_agent_proc\<close>, up to the sending of a command: a command at hand is an immediate flow, so that its function, and in it
  the procedure itself, runs at once; otherwise the flow \<open>h\<close> waits. The commands sent are collected.
  The context \<open>ctx\<close> is a local shared pointer that is never set.\<close>

function redis_command_agent_proc ::
  "command_context option \<Rightarrow> 'd option consistent_hash_node omap \<Rightarrow> 'h \<Rightarrow> 'h agent_inner \<Rightarrow>
   ('h agent_inner \<times> ('d \<times> byte list) list) res" where
  "redis_command_agent_proc ctx servers h s =
     (case wait_command h s of
        (None, s') \<Rightarrow> Inr (s', [])
      | (Some cmd, s') \<Rightarrow>
          rbind (redis_command_agent_proc ctx servers h s') (\<lambda>(s'', sent).
          rbind (forward_command ctx servers (Arg cmd)) (\<lambda>(c, d, bs). Inr (s'', (d, bs) # sent))))"
  by pat_completeness auto
termination
  by (relation "measure (\<lambda>(ctx, servers, h, s). length (waiting_commands s))")
    (auto simp: wait_command_def split: list.splits)

declare redis_command_agent_proc.simps [simp del]

text \<open>With the null context of the code no command reaches a server: the procedure waits, or fails at
  the first command. With a context and servers it would send every command once.\<close>

lemma agent_proc_null_context:
  "redis_command_agent_proc None servers h s =
     (if waiting_commands s = [] then Inr (s\<lparr>agent_handlers := agent_handlers s @ [h]\<rparr>, []) else Inl Undef)"
proof (induction "waiting_commands s" arbitrary: s)
  case Nil
  then show ?case by (subst redis_command_agent_proc.simps) (simp add: wait_command_def)
next
  case (Cons cmd cs)
  have "redis_command_agent_proc None servers h (s\<lparr>waiting_commands := cs\<rparr>) =
      (if cs = [] then Inr (s\<lparr>waiting_commands := cs, agent_handlers := agent_handlers s @ [h]\<rparr>, []) else Inl Undef)"
    using Cons(1)[of "s\<lparr>waiting_commands := cs\<rparr>"] by simp
  then show ?case using Cons(2)[symmetric]
    by (subst redis_command_agent_proc.simps) (auto simp: wait_command_def forward_command_def forward_flow_monostate_exception_def)
qed

end
