(* ===== verification/Engine.thy ===== *)
theory Engine
  imports Agent
begin

text \<open>
  What drives the programs: the start of the engine, which waits for the other cores, and its main loop
  (\<open>src/src/dpdk/engine.hh\<close>), the task center of the epoll build (\<open>src/src/epoll/global/global_task_center.hh\<close>),
  and the procedures that accept connections (\<open>wait_connect_proc\<close> of \<open>src/app/mqtt/main.cc\<close>, \<open>listen_proc\<close> of
  \<open>src/app/redis_agent/main.cc\<close>).
\<close>

unbundle bit_operations_syntax

section \<open>Waiting for the other cores\<close>

record ('r, 'p) glb_context =
  cpu_mask :: u64
  oter_rings :: "'r option list"
  oter_message_pool :: "'p option list"

text \<open>\<open>lookup i\<close> is what \<open>rte_ring_lookup\<close> and \<open>rte_mempool_lookup\<close> find for core \<open>i\<close>, in one round of the loop.
  The mask is made with the 32-bit constant \<open>1u\<close>; a shift by 32 or more is undefined.\<close>

definition wait_mask :: "u64 \<Rightarrow> nat \<Rightarrow> u64 res" where
  "wait_mask msk lcore_id =
     (if lcore_id < 32 then Inr (msk AND ucast (NOT (push_bit lcore_id (1 :: u32)))) else Inl Undef)"

definition core_step :: "(nat \<Rightarrow> 'r option \<times> 'p option) \<Rightarrow> u64 \<times> ('r, 'p) glb_context \<Rightarrow> nat \<Rightarrow> u64 \<times> ('r, 'p) glb_context" where
  "core_step lookup st i =
     (case st of (msk, p) \<Rightarrow>
        let c = msk AND push_bit i 1 in
        if c \<noteq> 0
        then let p = p\<lparr>oter_rings := (oter_rings p)[i := fst (lookup i)],
                       oter_message_pool := (oter_message_pool p)[i := snd (lookup i)]\<rparr> in
             (if fst (lookup i) \<noteq> None then (msk AND NOT c, p) else (msk, p))
        else (msk, p))"

definition core_pass :: "(nat \<Rightarrow> 'r option \<times> 'p option) \<Rightarrow> u64 \<times> ('r, 'p) glb_context \<Rightarrow> u64 \<times> ('r, 'p) glb_context" where
  "core_pass lookup st = foldl (core_step lookup) st [0..<64]"

fun wait_cores :: "(nat \<Rightarrow> nat \<Rightarrow> 'r option \<times> 'p option) \<Rightarrow> nat \<Rightarrow> nat \<Rightarrow> u64 \<times> ('r, 'p) glb_context \<Rightarrow> u64 \<times> ('r, 'p) glb_context" where
  \<comment> \<open>\<open>wait\<close> more rounds, one second each, from round \<open>r\<close> on\<close>
  "wait_cores lookup 0 r st = st"
| "wait_cores lookup (Suc wait) r st =
     (if fst st \<noteq> 0 then wait_cores lookup wait (r + 1) (core_pass (lookup r) st) else st)"

definition wait_others :: "(nat \<Rightarrow> nat \<Rightarrow> 'r option \<times> 'p option) \<Rightarrow> nat \<Rightarrow> ('r, 'p) glb_context \<Rightarrow> ('r, 'p) glb_context res" where
  "wait_others lookup lcore_id p =
     rbind (wait_mask (cpu_mask p) lcore_id) (\<lambda>msk.
     case wait_cores lookup 60 0 (msk, p) of (msk, p) \<Rightarrow>
       if msk \<noteq> 0 then Inl (Throw ''can not get message ring from other cpu'') else Inr p)"

lemma and_pow_0: "m AND 2 ^ i = 0 \<longleftrightarrow> \<not> (i < 64 \<and> bit m i)" for m :: u64
proof
  assume "m AND 2 ^ i = 0"
  then have "\<not> bit (m AND 2 ^ i) i" by simp
  then show "\<not> (i < 64 \<and> bit m i)" by (auto simp: bit_simps)
next
  assume "\<not> (i < 64 \<and> bit m i)"
  then show "m AND 2 ^ i = 0" by (intro bit_eqI) (auto simp: bit_simps)
qed

lemma core_step_spec:
  assumes "core_step lookup (msk, p) i = (msk', p')" and "i < 64"
  shows "bit msk' j \<longleftrightarrow> bit msk j \<and> \<not> (j = i \<and> fst (lookup i) \<noteq> None)"
    and "oter_rings p' = (if bit msk i then (oter_rings p)[i := fst (lookup i)] else oter_rings p)"
    and "oter_message_pool p' = (if bit msk i then (oter_message_pool p)[i := snd (lookup i)] else oter_message_pool p)"
    and "cpu_mask p' = cpu_mask p"
  using assms bit_imp_le_length[of msk j] by (auto simp: core_step_def Let_def and_pow_0 bit_simps split: if_splits)

text \<open>A pass over some cores.\<close>

lemma core_steps_spec:
  assumes "foldl (core_step lookup) (msk, p) cs = (msk', p')" and "\<forall>i\<in>set cs. i < 64" and "distinct cs"
    and "length (oter_rings p) = 128"
  shows "(\<forall>j. bit msk' j \<longleftrightarrow> bit msk j \<and> \<not> (j \<in> set cs \<and> fst (lookup j) \<noteq> None)) \<and>
    length (oter_rings p') = 128 \<and> cpu_mask p' = cpu_mask p \<and>
    (\<forall>j<128. oter_rings p' ! j = (if bit msk j \<and> j \<in> set cs then fst (lookup j) else oter_rings p ! j))"
  using assms
proof (induction cs arbitrary: msk p)
  case (Cons i cs)
  obtain msk1 p1 where c: "core_step lookup (msk, p) i = (msk1, p1)" by fastforce
  have i: "i < 64" "i \<notin> set cs" using Cons.prems by auto
  note st = core_step_spec[OF c i(1)]
  have "length (oter_rings p1) = 128" using st(2) Cons.prems(4) by simp
  then have "(\<forall>j. bit msk' j \<longleftrightarrow> bit msk1 j \<and> \<not> (j \<in> set cs \<and> fst (lookup j) \<noteq> None)) \<and>
      length (oter_rings p') = 128 \<and> cpu_mask p' = cpu_mask p1 \<and>
      (\<forall>j<128. oter_rings p' ! j = (if bit msk1 j \<and> j \<in> set cs then fst (lookup j) else oter_rings p1 ! j))"
    using Cons.IH[of msk1 p1] Cons.prems(1-3) c by simp
  then show ?case using st(1,2,4) i Cons.prems(4) by (auto simp: nth_list_update)
qed simp

lemma core_pass_spec:
  assumes "core_pass lookup (msk, p) = (msk', p')" and "length (oter_rings p) = 128"
  shows "bit msk' j \<longleftrightarrow> bit msk j \<and> fst (lookup j) = None" and "length (oter_rings p') = 128" and "cpu_mask p' = cpu_mask p"
    and "j < 128 \<Longrightarrow> oter_rings p' ! j = (if bit msk j then fst (lookup j) else oter_rings p ! j)"
proof -
  have c: "foldl (core_step lookup) (msk, p) [0..<64] = (msk', p')" using assms(1) by (simp only: core_pass_def)
  have "bit msk j \<Longrightarrow> j < 64" by (auto dest: bit_imp_le_length)
  then show "bit msk' j \<longleftrightarrow> bit msk j \<and> fst (lookup j) = None" and "length (oter_rings p') = 128" and "cpu_mask p' = cpu_mask p"
    and "j < 128 \<Longrightarrow> oter_rings p' ! j = (if bit msk j then fst (lookup j) else oter_rings p ! j)"
    using core_steps_spec[OF c _ _ assms(2)] by auto
qed

text \<open>The ring of a core that a later round finds first.\<close>

fun first_ring :: "(nat \<Rightarrow> nat \<Rightarrow> 'r option \<times> 'p option) \<Rightarrow> nat \<Rightarrow> nat \<Rightarrow> nat \<Rightarrow> 'r option" where
  "first_ring lookup 0 r i = None"
| "first_ring lookup (Suc n) r i = (case fst (lookup r i) of Some x \<Rightarrow> Some x | None \<Rightarrow> first_ring lookup n (r + 1) i)"

lemma wait_cores_spec:
  assumes "wait_cores lookup n r (msk, p) = (msk', p')" and "length (oter_rings p) = 128"
  shows "(\<forall>j. bit msk' j \<longleftrightarrow> bit msk j \<and> first_ring lookup n r j = None) \<and>
    (\<forall>j<128. \<not> bit msk j \<longrightarrow> oter_rings p' ! j = oter_rings p ! j) \<and>
    (\<forall>j<128. bit msk j \<and> first_ring lookup n r j \<noteq> None \<longrightarrow> oter_rings p' ! j = first_ring lookup n r j)"
  using assms
proof (induction n arbitrary: r msk p)
  case (Suc n)
  show ?case
  proof (cases "msk = 0")
    case True
    then show ?thesis using Suc.prems by auto
  next
    case False
    obtain msk1 p1 where c: "core_pass (lookup r) (msk, p) = (msk1, p1)" by fastforce
    note st = core_pass_spec[OF c Suc.prems(2)]
    have "wait_cores lookup n (r + 1) (msk1, p1) = (msk', p')" using Suc.prems(1) False c by simp
    from Suc.IH[OF this st(2)] show ?thesis using st(1,4) by (auto split: option.splits)
  qed
qed auto

text \<open>The cores that are waited for: those of the low 32 bits but for the own one.\<close>

definition waits_for :: "u64 \<Rightarrow> nat \<Rightarrow> nat \<Rightarrow> bool" where
  "waits_for msk lcore_id i \<longleftrightarrow> i < 32 \<and> i \<noteq> lcore_id \<and> bit msk i"

lemma wait_mask_spec: "wait_mask msk lcore_id = Inr m \<Longrightarrow> bit m i \<longleftrightarrow> waits_for msk lcore_id i"
  by (auto simp: wait_mask_def waits_for_def bit_simps split: if_splits dest: bit_imp_le_length)

lemma first_ring_None: "first_ring lookup n r i = None \<longleftrightarrow> (\<forall>k<n. fst (lookup (r + k) i) = None)"
proof (induction n arbitrary: r)
  case (Suc n)
  have "(\<forall>k<Suc n. fst (lookup (r + k) i) = None) \<longleftrightarrow> fst (lookup r i) = None \<and> (\<forall>k<n. fst (lookup (Suc r + k) i) = None)"
    by (auto simp: less_Suc_eq_0_disj)
  then show ?case using Suc[of "Suc r"] by (auto split: option.splits)
qed simp


section \<open>The main loop\<close>

text \<open>The handlers of the events, which may add timers and schedule tasks; an exception leaves the loop.\<close>

fun dispatch_events :: "('e \<Rightarrow> 's \<Rightarrow> 's res) \<Rightarrow> 'e list \<Rightarrow> 's \<Rightarrow> 's res" where
  "dispatch_events handler [] s = Inr s"
| "dispatch_events handler (e # es) s = rbind (handler e s) (\<lambda>s. dispatch_events handler es s)"

text \<open>The function that \<open>engine_run\<close> hands to \<open>ff_run\<close>: one turn of the loop. The state is the timers, the tasks
  and the world, \<open>now\<close> the reading of the clock, \<open>f\<close> the function of the program.\<close>

definition engine_turn ::
  "('c timer_obj list \<Rightarrow> nat) \<Rightarrow> ('c, 't list \<times> 'w) callback \<Rightarrow>
   ('t \<Rightarrow> 'c timer_obj list \<times> 'w \<Rightarrow> ('c timer_obj list \<times> 'w) \<times> 't list) \<Rightarrow>
   ('e \<Rightarrow> 'c timer_obj list \<times> 't list \<times> 'w \<Rightarrow> ('c timer_obj list \<times> 't list \<times> 'w) res) \<Rightarrow> ('w \<Rightarrow> 'w) \<Rightarrow> u64 \<Rightarrow>
   'e list \<Rightarrow> 'c timer_obj list \<times> 't list \<times> 'w \<Rightarrow> ('c timer_obj list \<times> 't list \<times> 'w) res option" where
  "engine_turn pick call exec handler f now events s =
     (case dispatch_events handler events s of
        Inl e \<Rightarrow> Some (Inl e)
      | Inr (q, ts, w) \<Rightarrow>
          Option.bind (handle_timeout pick call now q (ts, w)) (\<lambda>(q, (ts, w), _).
            case center_run exec ts (q, w) of (ts, (q, w)) \<Rightarrow> Some (Inr (q, ts, f w))))"

text \<open>The task center of the epoll build: the task is at the front of the list while it runs, and whatever it
  throws is caught.\<close>

definition epoll_center_schedule :: "'t list \<Rightarrow> 't \<Rightarrow> 't list" where
  "epoll_center_schedule ts f = ts @ [f]"

fun epoll_loop :: "('t \<Rightarrow> 's \<Rightarrow> (string option \<times> 's) \<times> 't list) \<Rightarrow> nat \<Rightarrow> 't list \<Rightarrow> 's \<Rightarrow> 't list \<times> 's" where
  "epoll_loop exec 0 ts s = (ts, s)"
| "epoll_loop exec (Suc n) [] s = ([], s)"
| "epoll_loop exec (Suc n) (t # ts) s =
     (case exec t s of ((thrown, s'), new) \<Rightarrow> epoll_loop exec n (tl (foldl epoll_center_schedule (t # ts) new)) s')"

definition epoll_center_run :: "('t \<Rightarrow> 's \<Rightarrow> (string option \<times> 's) \<times> 't list) \<Rightarrow> 't list \<Rightarrow> 's \<Rightarrow> 't list \<times> 's" where
  "epoll_center_run exec ts s =
     epoll_loop exec (nat (sint (of_nat (length ts) :: 32 word))) ts s"

definition epoll_center_empty :: "'t list \<Rightarrow> bool" where
  "epoll_center_empty ts \<longleftrightarrow> ts = []"

lemma foldl_epoll_schedule: "foldl epoll_center_schedule ts new = ts @ new"
  by (induction new arbitrary: ts) (simp_all add: epoll_center_schedule_def)

lemma epoll_loop_center:
  "epoll_loop exec n ts s = center_loop (\<lambda>t s. case exec t s of ((thrown, s), new) \<Rightarrow> (s, new)) n ts s"
  by (induction exec n ts s rule: epoll_loop.induct) (auto simp: foldl_schedule foldl_epoll_schedule split: prod.splits)

text \<open>Both task centers do the same.\<close>

lemma epoll_center_run_center:
  "epoll_center_run exec ts s = center_run (\<lambda>t s. case exec t s of ((thrown, s), new) \<Rightarrow> (s, new)) ts s"
  by (simp add: epoll_center_run_def center_run_def epoll_loop_center)


section \<open>Accepting connections\<close>

text \<open>
  A procedure that waits for a connection and, in a task of the task center, starts a session for it and waits
  again. The state is the listener, the tasks of the procedure that are queued, the connections for which
  a session has been started, and the world. A task is run by \<open>step\<close>: it gives the connections it starts,
  the next task of the chain and whether the procedure calls itself again.
\<close>

record ('k, 'c, 'w) accept_state =
  lst :: "(unit, 'c) listener"
  center :: "'k list"
  started :: "'c list"
  aworld :: 'w

record ('k, 'c, 'w) task_end =
  te_world :: 'w
  te_started :: "'c list"
  te_next :: "'k option"
  te_again :: bool

definition new_tasks :: "('c \<Rightarrow> 'k) \<Rightarrow> (unit, 'c) listener \<Rightarrow> (unit, 'c) listener \<Rightarrow> 'k list" where
  \<comment> \<open>the flow is triggered for the connections handed out, and runs on the task center\<close>
  "new_tasks first l l' = map (first \<circ> snd) (drop (length (accepted l)) (accepted l'))"

definition accept_wait :: "('c \<Rightarrow> 'k) \<Rightarrow> ('k, 'c, 'w) accept_state \<Rightarrow> ('k, 'c, 'w) accept_state" where
  "accept_wait first st =
     (let l = l_wait () (lst st) in st\<lparr>lst := l, center := center st @ new_tasks first (lst st) l\<rparr>)"

definition accept_conn :: "('c \<Rightarrow> 'k) \<Rightarrow> 'c \<Rightarrow> ('k, 'c, 'w) accept_state \<Rightarrow> ('k, 'c, 'w) accept_state" where
  "accept_conn first c st =
     (let l = l_arrive c (lst st) in st\<lparr>lst := l, center := center st @ new_tasks first (lst st) l\<rparr>)"

definition accept_task :: "('k \<Rightarrow> 'w \<Rightarrow> ('k, 'c, 'w) task_end) \<Rightarrow> ('c \<Rightarrow> 'k) \<Rightarrow> ('k, 'c, 'w) accept_state \<Rightarrow> ('k, 'c, 'w) accept_state" where
  "accept_task step first st =
     (case center st of
        [] \<Rightarrow> st
      | k # ks \<Rightarrow>
          (let r = step k (aworld st);
               st = st\<lparr>center := ks @ (case te_next r of Some k' \<Rightarrow> [k'] | None \<Rightarrow> []),
                       started := started st @ te_started r, aworld := te_world r\<rparr>
           in if te_again r then accept_wait first st else st))"

text \<open>\<open>wait_connect_proc\<close> of the MQTT server: the session is started and the procedure called again in one task.
  \<open>start\<close> tells whether the start of a session ended without an exception.\<close>

definition wait_connect_step :: "('c \<Rightarrow> 'w \<Rightarrow> bool \<times> 'w) \<Rightarrow> 'c \<Rightarrow> 'w \<Rightarrow> ('c, 'c, 'w) task_end" where
  "wait_connect_step start c w =
     (case start c w of (ok, w) \<Rightarrow> \<lparr>te_world = w, te_started = [c], te_next = None, te_again = ok\<rparr>)"

definition wait_connect_proc :: "('c, 'c, 'w) accept_state \<Rightarrow> ('c, 'c, 'w) accept_state" where
  "wait_connect_proc st = accept_wait id st"

text \<open>\<open>listen_proc\<close> of the Redis agent: three functions in a chain, each a task of its own. The last one gets
  whether the second one ended without an exception.\<close>

datatype 'c listen_task = Wrap 'c | Start_session 'c | Listen_again bool

fun listen_step :: "('c \<Rightarrow> 'w \<Rightarrow> bool \<times> 'w) \<Rightarrow> 'c listen_task \<Rightarrow> 'w \<Rightarrow> ('c listen_task, 'c, 'w) task_end" where
  "listen_step start (Wrap c) w = \<lparr>te_world = w, te_started = [], te_next = Some (Start_session c), te_again = False\<rparr>"
| "listen_step start (Start_session c) w =
     (case start c w of (ok, w) \<Rightarrow> \<lparr>te_world = w, te_started = [c], te_next = Some (Listen_again ok), te_again = False\<rparr>)"
| "listen_step start (Listen_again ok) w = \<lparr>te_world = w, te_started = [], te_next = None, te_again = ok\<rparr>"

definition listen_proc :: "('c listen_task, 'c, 'w) accept_state \<Rightarrow> ('c listen_task, 'c, 'w) accept_state" where
  "listen_proc st = accept_wait Wrap st"

text \<open>What may happen: a connection is accepted by the event callback, or the task center runs the next task.\<close>

datatype 'c accept_event = Conn 'c | Task

fun accept_run :: "('k \<Rightarrow> 'w \<Rightarrow> ('k, 'c, 'w) task_end) \<Rightarrow> ('c \<Rightarrow> 'k) \<Rightarrow> 'c accept_event list \<Rightarrow>
    ('k, 'c, 'w) accept_state \<Rightarrow> ('k, 'c, 'w) accept_state" where
  "accept_run step first [] st = st"
| "accept_run step first (Conn c # es) st = accept_run step first es (accept_conn first c st)"
| "accept_run step first (Task # es) st = accept_run step first es (accept_task step first st)"

fun conns :: "'c accept_event list \<Rightarrow> 'c list" where
  "conns [] = []"
| "conns (Conn c # es) = c # conns es"
| "conns (Task # es) = conns es"

definition accept_start :: "'w \<Rightarrow> ('k, 'c, 'w) accept_state" where
  "accept_start w = \<lparr>lst = \<lparr>waiting_tasks = [], waiting_connections = [], accepted = []\<rparr>, center = [], started = [], aworld = w\<rparr>"

text \<open>The contract of the chain of tasks: \<open>held k\<close> are the connections of which task \<open>k\<close> or one of those behind
  it starts a session, and every task comes closer to the end of the chain. \<open>fine k\<close>: nothing has failed before
  task \<open>k\<close>.\<close>

definition never_fails :: "('k \<Rightarrow> bool) \<Rightarrow> ('k \<Rightarrow> 'w \<Rightarrow> ('k, 'c, 'w) task_end) \<Rightarrow> bool" where
  "never_fails fine step \<longleftrightarrow>
     (\<forall>k w. fine k \<longrightarrow> (case te_next (step k w) of Some k' \<Rightarrow> fine k' | None \<Rightarrow> te_again (step k w)))"

locale accept_stages =
  fixes step :: "'k \<Rightarrow> 'w \<Rightarrow> ('k, 'c, 'w) task_end" and first :: "'c \<Rightarrow> 'k" and held :: "'k \<Rightarrow> 'c list"
    and rank :: "'k \<Rightarrow> nat" and fine :: "'k \<Rightarrow> bool"
  assumes held_first: "held (first c) = [c]"
    and fine_first: "fine (first c)"
    and step_held: "held k = te_started (step k w) @ (case te_next (step k w) of Some k' \<Rightarrow> held k' | None \<Rightarrow> [])"
    and step_token: "te_next (step k w) \<noteq> None \<Longrightarrow> \<not> te_again (step k w)"
    and step_rank: "te_next (step k w) = Some k' \<Longrightarrow> rank k' < rank k"
begin

definition acc_inv :: "'c list \<Rightarrow> ('k, 'c, 'w) accept_state \<Rightarrow> bool" where
  "acc_inv arr st \<longleftrightarrow>
     started st @ concat (map held (center st)) @ waiting_connections (lst st) = arr \<and>
     length (center st) + length (waiting_tasks (lst st)) \<le> 1 \<and>
     (waiting_connections (lst st) = [] \<or> waiting_tasks (lst st) = [])"

lemma accept_wait_inv:
  assumes "acc_inv arr st" and "center st = []" and "waiting_tasks (lst st) = []"
  shows "acc_inv arr (accept_wait first st)"
proof (cases "waiting_connections (lst st)")
  case Nil
  then show ?thesis using assms lq.wait_queued[OF Nil, of "()"] by (simp add: acc_inv_def accept_wait_def new_tasks_def Let_def)
next
  case (Cons c cs)
  then show ?thesis using assms lq.wait_served[OF Cons, of "()"]
    by (simp add: acc_inv_def accept_wait_def new_tasks_def Let_def held_first)
qed

lemma accept_conn_inv:
  assumes "acc_inv arr st"
  shows "acc_inv (arr @ [c]) (accept_conn first c st)"
proof (cases "waiting_tasks (lst st)")
  case Nil
  then show ?thesis using assms lq.arrive_kept[OF Nil, of c] by (auto simp: acc_inv_def accept_conn_def new_tasks_def Let_def)
next
  case (Cons t ts)
  then show ?thesis using assms lq.arrive_served[OF Cons, of c]
    by (auto simp: acc_inv_def accept_conn_def new_tasks_def Let_def held_first)
qed

lemma accept_task_inv:
  assumes "acc_inv arr st"
  shows "acc_inv arr (accept_task step first st)"
proof (cases "center st")
  case (Cons k ks)
  define r where "r = step k (aworld st)"
  define st1 where "st1 = st\<lparr>center := ks @ (case te_next r of Some k' \<Rightarrow> [k'] | None \<Rightarrow> []), started := started st @ te_started r, aworld := te_world r\<rparr>"
  have ks: "ks = []" "waiting_tasks (lst st) = []" using assms Cons by (auto simp: acc_inv_def)
  then have inv: "acc_inv arr st1" using assms Cons step_held[of k "aworld st", folded r_def]
    by (auto simp: acc_inv_def st1_def split: option.splits)
  have "te_again r \<Longrightarrow> center st1 = []" using step_token[of k "aworld st", folded r_def] ks
    by (cases "te_next r") (auto simp: st1_def)
  then have "te_again r \<Longrightarrow> acc_inv arr (accept_wait first st1)"
    using accept_wait_inv[OF inv] ks by (simp add: st1_def)
  then show ?thesis using inv Cons by (simp add: accept_task_def Let_def flip: r_def st1_def)
qed (use assms in \<open>simp add: accept_task_def\<close>)

lemma accept_run_inv: "acc_inv arr st \<Longrightarrow> acc_inv (arr @ conns es) (accept_run step first es st)"
proof (induction es arbitrary: arr st)
  case (Cons e es)
  then show ?case using Cons.IH[OF accept_conn_inv[OF Cons.prems]] Cons.IH[OF accept_task_inv[OF Cons.prems]] by (cases e) auto
qed simp

lemma accept_start_inv: "acc_inv [] (accept_wait first (accept_start w))"
  by (rule accept_wait_inv) (simp_all add: acc_inv_def accept_start_def)

text \<open>As long as no start fails, the procedure either waits at the listener or has a task.\<close>

definition alive :: "('k, 'c, 'w) accept_state \<Rightarrow> bool" where
  "alive st \<longleftrightarrow> (center st \<noteq> [] \<or> waiting_tasks (lst st) \<noteq> []) \<and> list_all fine (center st)"

lemma alive_wait: "list_all fine (center st) \<Longrightarrow> alive (accept_wait first st)"
  using lq.wait_queued[of "lst st" "()"] lq.wait_served[of "lst st" _ _ "()"]
  by (cases "waiting_connections (lst st)") (auto simp: alive_def accept_wait_def new_tasks_def Let_def fine_first)

lemma alive_conn: "alive st \<Longrightarrow> alive (accept_conn first c st)"
  using lq.arrive_kept[of "lst st" c] lq.arrive_served[of "lst st" _ _ c]
  by (cases "waiting_tasks (lst st)") (auto simp: alive_def accept_conn_def new_tasks_def Let_def fine_first)

lemma alive_task: "never_fails fine step \<Longrightarrow> alive st \<Longrightarrow> alive (accept_task step first st)"
proof (cases "center st")
  case (Cons k ks)
  assume "never_fails fine step" and al: "alive st"
  then have "case te_next (step k (aworld st)) of Some k' \<Rightarrow> fine k' | None \<Rightarrow> te_again (step k (aworld st))"
    using Cons by (auto simp: never_fails_def alive_def)
  then show ?thesis using Cons al alive_wait
    by (auto simp: accept_task_def Let_def alive_def split: if_splits option.splits)
qed (simp add: accept_task_def)

lemma alive_run: "never_fails fine step \<Longrightarrow> alive st \<Longrightarrow> alive (accept_run step first es st)"
proof (induction es arbitrary: st)
  case (Cons e es)
  then show ?case by (cases e) (auto intro: alive_conn alive_task)
qed simp

text \<open>What is left to do before all connections are served: connections that wait, and tasks of the chain.\<close>

definition todo_rank :: "('k, 'c, 'w) accept_state \<Rightarrow> nat \<times> nat" where
  "todo_rank st = (length (waiting_connections (lst st)), case center st of [] \<Rightarrow> 0 | k # ks \<Rightarrow> Suc (rank k))"

lemma task_rank:
  assumes "acc_inv arr st" and "center st \<noteq> []"
  shows "(todo_rank (accept_task step first st), todo_rank st) \<in> less_than <*lex*> less_than"
proof -
  obtain k ks where k: "center st = k # ks" using assms(2) by (cases "center st") auto
  have ks: "ks = []" using assms(1) k by (auto simp: acc_inv_def)
  define r where "r = step k (aworld st)"
  show ?thesis
  proof (cases "te_next r")
    case (Some k')
    then show ?thesis using k ks step_token[of k "aworld st", folded r_def] step_rank[of k "aworld st" k', folded r_def]
      by (auto simp: accept_task_def todo_rank_def Let_def simp flip: r_def)
  next
    case None
    show ?thesis
    proof (cases "waiting_connections (lst st)")
      case Nil
      then show ?thesis using k ks None lq.wait_queued[OF Nil, of "()"]
        by (auto simp: accept_task_def todo_rank_def accept_wait_def new_tasks_def Let_def simp flip: r_def)
    next
      case (Cons c cs)
      then show ?thesis using k ks None lq.wait_served[OF Cons, of "()"]
        by (auto simp: accept_task_def todo_rank_def accept_wait_def new_tasks_def Let_def simp flip: r_def)
    qed
  qed
qed

lemma drain:
  assumes "never_fails fine step" and "acc_inv arr st" and "alive st"
  shows "\<exists>n. started (accept_run step first (replicate n Task) st) = arr"
proof -
  have "wf (inv_image (less_than <*lex*> less_than) todo_rank)" by auto
  then show ?thesis using assms(2,3)
  proof (induction st rule: wf_induct_rule)
    case (less st)
    show ?case
    proof (cases "center st = []")
      case True
      then have "waiting_connections (lst st) = []" using less.prems by (auto simp: acc_inv_def alive_def)
      then have "started (accept_run step first (replicate 0 Task) st) = arr" using True less.prems by (simp add: acc_inv_def)
      then show ?thesis by blast
    next
      case False
      have "(accept_task step first st, st) \<in> inv_image (less_than <*lex*> less_than) todo_rank"
        using task_rank[OF less.prems(1) False] by simp
      from less.IH[OF this accept_task_inv[OF less.prems(1)] alive_task[OF assms(1) less.prems(2)]]
      obtain n where "started (accept_run step first (replicate n Task) (accept_task step first st)) = arr" by blast
      then have "started (accept_run step first (replicate (Suc n) Task) st) = arr" by simp
      then show ?thesis by blast
    qed
  qed
qed

lemma accept_prefix: "\<exists>rest. conns es = started (accept_run step first es (accept_wait first (accept_start w))) @ rest"
  using accept_run_inv[OF accept_start_inv, of es w] unfolding acc_inv_def by (metis append_Nil)

lemma accept_all:
  assumes "never_fails fine step"
  shows "\<exists>n. started (accept_run step first (replicate n Task) (accept_run step first es (accept_wait first (accept_start w)))) = conns es"
proof -
  have "acc_inv (conns es) (accept_run step first es (accept_wait first (accept_start w)))"
    using accept_run_inv[OF accept_start_inv, of es w] by simp
  moreover have "alive (accept_wait first (accept_start w))" by (rule alive_wait) (simp add: accept_start_def)
  ultimately show ?thesis using drain[OF assms] alive_run[OF assms] by blast
qed

end

interpretation wc: accept_stages "wait_connect_step start" id "\<lambda>c. [c]" "\<lambda>_. 0" "\<lambda>_. True" for start
  by unfold_locales (simp_all add: wait_connect_step_def split: prod.splits)

fun listen_held :: "'c listen_task \<Rightarrow> 'c list" where
  "listen_held (Wrap c) = [c]"
| "listen_held (Start_session c) = [c]"
| "listen_held (Listen_again ok) = []"

fun listen_rank :: "'c listen_task \<Rightarrow> nat" where
  "listen_rank (Wrap c) = 2"
| "listen_rank (Start_session c) = 1"
| "listen_rank (Listen_again ok) = 0"

interpretation lp: accept_stages "listen_step start" Wrap listen_held listen_rank "\<lambda>k. k \<noteq> Listen_again False" for start
proof
  fix c k w k'
  show "listen_held (Wrap c) = [c]" and "Wrap c \<noteq> Listen_again False" by simp_all
  show "listen_held k = te_started (listen_step start k w) @ (case te_next (listen_step start k w) of Some k' \<Rightarrow> listen_held k' | None \<Rightarrow> [])"
    by (cases k) (auto split: prod.splits)
  show "te_next (listen_step start k w) \<noteq> None \<Longrightarrow> \<not> te_again (listen_step start k w)" by (cases k) (auto split: prod.splits)
  show "te_next (listen_step start k w) = Some k' \<Longrightarrow> listen_rank k' < listen_rank k" by (cases k) (auto split: prod.splits)
qed

text \<open>After a start that failed, the procedure has no task and waits nowhere, and no session is started any more.\<close>

lemma accept_dead:
  assumes "center st = []" and "waiting_tasks (lst st) = []"
  shows "started (accept_run step first es st) = started st"
  using assms
proof (induction es arbitrary: st)
  case (Cons e es)
  show ?case
  proof (cases e)
    case (Conn c)
    have "center (accept_conn first c st) = []" "waiting_tasks (lst (accept_conn first c st)) = []" "started (accept_conn first c st) = started st"
      using Cons.prems lq.arrive_kept[OF Cons.prems(2), of c] by (simp_all add: accept_conn_def new_tasks_def Let_def)
    then show ?thesis using Cons.IH Conn by simp
  next
    case Task
    then show ?thesis using Cons by (simp add: accept_task_def)
  qed
qed simp


text \<open>A lookup in which the ring of core \<^term>\<open>i\<close> appears in round \<^term>\<open>i\<close>, for the witness.\<close>

definition demo_lookup :: "nat \<Rightarrow> nat \<Rightarrow> nat option \<times> unit option" where
  "demo_lookup r i = (if r < i then None else Some (i + 100 * r), None)"

definition demo_ctx :: "(nat, unit) glb_context" where
  "demo_ctx = \<lparr>cpu_mask = 0b1011, oter_rings = replicate 128 None, oter_message_pool = replicate 128 None\<rparr>"

text \<open>A handler that schedules a task, a timer that notes its number and a task that schedules another one.\<close>

definition demo_handler :: "nat \<Rightarrow> nat timer_obj list \<times> nat list \<times> nat list \<Rightarrow> (nat timer_obj list \<times> nat list \<times> nat list) res" where
  "demo_handler e = (\<lambda>(q, ts, w). Inr (q, ts @ [e], w))"

definition demo_call :: "(nat, nat list \<times> nat list) callback" where
  "demo_call c = (\<lambda>(ts, w). ((ts, w @ [c]), []))"

definition demo_exec :: "nat \<Rightarrow> nat timer_obj list \<times> nat list \<Rightarrow> (nat timer_obj list \<times> nat list) \<times> nat list" where
  "demo_exec t = (\<lambda>(q, w). ((q, w @ [t]), [t + 10]))"

text \<open>Sessions that start, and three connections with a task between them.\<close>

definition demo_session :: "nat \<Rightarrow> unit \<Rightarrow> bool \<times> unit" where
  "demo_session c w = (True, w)"

definition demo_arrivals :: "nat accept_event list" where
  "demo_arrivals = [Conn 3, Conn 5, Task, Conn 4]"


section \<open>Properties\<close>

text \<open>
  Property C23. At the start, a core waits at most 60 rounds for the rings of the other cores of the mask. It
  goes on if and only if each of them is found in some round, and then it has for each the ring that was
  found first and has touched no other. The 32-bit constant of the mask limits this to the cores below 32: the
  cores above them are not waited for.
\<close>
theorem wait_others_finds_rings:
  assumes "lcore_id < 32" and "length (oter_rings p) = 128"
  shows "if \<forall>i. waits_for (cpu_mask p) lcore_id i \<longrightarrow> (\<exists>r<60. fst (lookup r i) \<noteq> None)
    then \<exists>p'. wait_others lookup lcore_id p = Inr p' \<and>
      (\<forall>i<128. oter_rings p' ! i = (if waits_for (cpu_mask p) lcore_id i then first_ring lookup 60 0 i else oter_rings p ! i))
    else wait_others lookup lcore_id p = Inl (Throw ''can not get message ring from other cpu'')"
proof -
  obtain m where m: "wait_mask (cpu_mask p) lcore_id = Inr m" using assms(1) by (simp add: wait_mask_def)
  note bm = wait_mask_spec[OF m]
  obtain m' p' where w: "wait_cores lookup 60 0 (m, p) = (m', p')" by fastforce
  note sp = wait_cores_spec[OF w assms(2)]
  have zero: "m' = 0 \<longleftrightarrow> (\<forall>i. waits_for (cpu_mask p) lcore_id i \<longrightarrow> first_ring lookup 60 0 i \<noteq> None)"
  proof
    assume "\<forall>i. waits_for (cpu_mask p) lcore_id i \<longrightarrow> first_ring lookup 60 0 i \<noteq> None"
    then show "m' = 0" using sp bm by (intro bit_eqI) auto
  qed (use sp bm in auto)
  have "wait_others lookup lcore_id p = (if m' \<noteq> 0 then Inl (Throw ''can not get message ring from other cpu'') else Inr p')"
    using m w by (simp add: wait_others_def)
  then show ?thesis using zero sp bm first_ring_None[of lookup 60 0] by auto
qed

theorem wait_others_finds_rings_witness:
  "\<exists>p'. wait_others demo_lookup 1 demo_ctx = Inr p' \<and> oter_rings p' ! 3 = Some 303"
proof -
  have pre: "1 < (32 :: nat)" "length (oter_rings demo_ctx) = 128" by (simp_all add: demo_ctx_def)
  have "\<exists>r<60. fst (demo_lookup r i) \<noteq> None" if "waits_for (cpu_mask demo_ctx) 1 i" for i
    using that by (intro exI[of _ i]) (simp add: demo_lookup_def waits_for_def)
  then have all: "\<forall>i. waits_for (cpu_mask demo_ctx) 1 i \<longrightarrow> (\<exists>r<60. fst (demo_lookup r i) \<noteq> None)" by blast
  obtain p' where "wait_others demo_lookup 1 demo_ctx = Inr p'"
    "\<forall>i<128. oter_rings p' ! i = (if waits_for (cpu_mask demo_ctx) 1 i then first_ring demo_lookup 60 0 i else oter_rings demo_ctx ! i)"
    using wait_others_finds_rings[OF pre, of demo_lookup] unfolding if_P[OF all] by blast
  moreover have "waits_for (cpu_mask demo_ctx) 1 3" "first_ring demo_lookup 60 0 3 = Some 303"
    by (simp_all add: demo_ctx_def demo_lookup_def waits_for_def numeral_eq_Suc)
  ultimately show ?thesis by (intro exI[of _ p']) simp
qed



text \<open>
  Property C18. The procedures that accept connections, of the MQTT server and of the Redis agent: however accepted
  connections and runs of the task center interleave, sessions are started for the connections in their order,
  none twice and none left out; and if no start fails, sessions are started for all of them after finitely
  many tasks.
\<close>
theorem accept_serves_in_order:
  "(\<exists>rest. conns es = started (accept_run (wait_connect_step start) id es (wait_connect_proc (accept_start w))) @ rest) \<and>
   (\<exists>rest. conns es = started (accept_run (listen_step start) Wrap es (listen_proc (accept_start w))) @ rest) \<and>
   ((\<forall>c w. fst (start c w)) \<longrightarrow>
     (\<exists>n. started (accept_run (wait_connect_step start) id (replicate n Task)
        (accept_run (wait_connect_step start) id es (wait_connect_proc (accept_start w)))) = conns es) \<and>
     (\<exists>n. started (accept_run (listen_step start) Wrap (replicate n Task)
        (accept_run (listen_step start) Wrap es (listen_proc (accept_start w)))) = conns es))"
proof -
  have "never_fails (\<lambda>_. True) (wait_connect_step start)" if "\<forall>c w. fst (start c w)"
    using that by (auto simp: never_fails_def wait_connect_step_def split_beta)
  moreover have "never_fails (\<lambda>k. k \<noteq> Listen_again False) (listen_step start)" if ok: "\<forall>c w. fst (start c w)"
  proof -
    have "case te_next (listen_step start k w) of Some k' \<Rightarrow> k' \<noteq> Listen_again False | None \<Rightarrow> te_again (listen_step start k w)"
      if "k \<noteq> Listen_again False" for k w using ok that by (cases k) (auto simp: split_beta)
    then show ?thesis by (simp add: never_fails_def)
  qed
  ultimately show ?thesis
    using wc.accept_prefix[of es start w] lp.accept_prefix[of es start w] wc.accept_all[of start es w] lp.accept_all[of start es w]
    by (simp add: wait_connect_proc_def listen_proc_def)
qed

theorem accept_serves_in_order_witness:
  "(\<exists>n. started (accept_run (wait_connect_step demo_session) id (replicate n Task)
      (accept_run (wait_connect_step demo_session) id demo_arrivals (wait_connect_proc (accept_start ())))) = [3, 5, 4]) \<and>
   (\<exists>n. started (accept_run (listen_step demo_session) Wrap (replicate n Task)
      (accept_run (listen_step demo_session) Wrap demo_arrivals (listen_proc (accept_start ())))) = [3, 5, 4])"
proof -
  have "conns demo_arrivals = [3, 5, 4]" "\<forall>c w. fst (demo_session c w)" by (simp_all add: demo_arrivals_def demo_session_def)
  then show ?thesis using accept_serves_in_order[of demo_arrivals demo_session "()"] by simp
qed

end
