(* ===== verification/Echo.thy ===== *)
theory Echo
  imports Engine Tcp_Session
begin

text \<open>
  The echo server (\<open>src/app/echo/main.cc\<close>) on the TCP session of f-stack: \<open>echo_proc\<close> waits for a packet,
  sends it back and waits again; after a timeout it sends a notice.

  The session is that of \<open>Tcp_Session\<close> with its event handlers. Its callbacks trigger the flows of the echo
  procedure; what runs behind them is queued in the task center. A flow that waits for a packet is a number, the
  flow that sends a packet needs none, because one packet is sent at a time.
\<close>

section \<open>The procedure\<close>

datatype wait_result = Timed_out int | Data
datatype echo_task = On_packet wait_result | On_sent sent

record echo_world =
  flows :: nat \<comment> \<open>how many flows have waited for a packet\<close>
  triggered :: "nat list" \<comment> \<open>those that have been triggered\<close>
  tasks :: "echo_task list" \<comment> \<open>the task center\<close>
  timers :: "(nat \<times> int) list"

type_synonym 'k echo_session = "(nat, unit, 'k, echo_world) tcp_data"

definition trigger :: "nat \<Rightarrow> wait_result \<Rightarrow> echo_world \<Rightarrow> echo_world" where
  "trigger i r w =
     (if i \<in> set (triggered w) then w
      else w\<lparr>triggered := i # triggered w, tasks := tasks w @ [On_packet r]\<rparr>)"

definition echo_handlers ::
  "('k \<Rightarrow> byte list \<Rightarrow> 'k \<times> int \<times> int) \<Rightarrow> ('k \<Rightarrow> nat \<Rightarrow> 'k \<times> byte list \<times> int \<times> int) \<Rightarrow> (nat, unit, 'k, echo_world) env" where
  "echo_handlers fw fr =
     \<lparr>available = \<lambda>i w. i \<notin> set (triggered w), handle = \<lambda>i rb w. (rb, trigger i Data w, []),
      complete = \<lambda>_ r w. (w\<lparr>tasks := tasks w @ [On_sent r]\<rparr>, []), ff_write = fw, ff_read = fr\<rparr>"

definition echo_proc :: "int \<Rightarrow> 'k echo_session \<Rightarrow> 'k echo_session" where
  "echo_proc timeout d =
     (let i = flows (world d); d = d\<lparr>world := (world d)\<lparr>flows := i + 1\<rparr>\<rparr> in
      case tcp_wait_packet timeout 0 i d of (d, now, tm) \<Rightarrow>
        if now then d\<lparr>world := trigger i Data (world d)\<rparr>
        else case tm of
               None \<Rightarrow> d
             | Some ms \<Rightarrow> d\<lparr>world := (world d)\<lparr>timers := timers (world d) @ [(i, ms)]\<rparr>\<rparr>)"

text \<open>Ten bytes are sent, of which \<open>sprintf\<close> writes nine; the last one has not been initialised.\<close>

definition time_out_msg :: "byte \<Rightarrow> byte list" where
  "time_out_msg junk = [0x74, 0x69, 0x6D, 0x65, 0x20, 0x6F, 0x75, 0x74, 0, junk]"

fun on_packet :: "byte \<Rightarrow> wait_result \<Rightarrow> 'k echo_session \<Rightarrow> 'k echo_session res" where
  "on_packet junk (Timed_out ms) d = Inr (tcp_send_packet (time_out_msg junk) () d)"
| "on_packet junk Data d =
     (let l = rb_len (recv_buf d) in
      rbind (rb_load (recv_buf d) (rb_read_head (recv_buf d)) l) (\<lambda>sz.
      rbind (rb_consume l (recv_buf d)) (\<lambda>rb.
      Inr (tcp_send_packet sz () (d\<lparr>recv_buf := rb\<rparr>)))))"

fun on_sent :: "int \<Rightarrow> sent \<Rightarrow> 'k echo_session \<Rightarrow> 'k echo_session" where
  "on_sent timeout (Sent a) d = echo_proc timeout d"
| "on_sent timeout Send_error d = data_close d"

definition run_next :: "byte \<Rightarrow> int \<Rightarrow> 'k echo_session \<Rightarrow> 'k echo_session res" where
  "run_next junk timeout d =
     (case tasks (world d) of
        [] \<Rightarrow> Inr d
      | t # ts \<Rightarrow>
          let d = d\<lparr>world := (world d)\<lparr>tasks := ts\<rparr>\<rparr> in
          (case t of On_packet r \<Rightarrow> on_packet junk r d | On_sent r \<Rightarrow> Inr (on_sent timeout r d)))"

definition timer_fires :: "nat \<Rightarrow> 'k echo_session \<Rightarrow> 'k echo_session" where
  "timer_fires i d =
     (case map_of (timers (world d)) i of
        None \<Rightarrow> d
      | Some ms \<Rightarrow> d\<lparr>world := trigger i (Timed_out ms) ((world d)\<lparr>timers := filter (\<lambda>p. fst p \<noteq> i) (timers (world d))\<rparr>)\<rparr>)"

text \<open>What may happen next. The kernel reports events of a session only while it is open.\<close>

datatype echo_event = Readable | Writable | Eof | Timer nat | Run byte

fun echo_step :: "(nat, unit, 'k, echo_world) env \<Rightarrow> int \<Rightarrow> echo_event \<Rightarrow> 'k echo_session \<Rightarrow> 'k echo_session option res" where
  "echo_step E timeout Readable d = (if state d = 0 then Inr (Some d) else on_kevent E False EVFILT_READ d)"
| "echo_step E timeout Writable d = (if state d = 0 then Inr (Some d) else on_kevent E False EVFILT_WRITE d)"
| "echo_step E timeout Eof d = (if state d = 0 then Inr (Some d) else on_kevent E True EVFILT_READ d)"
| "echo_step E timeout (Timer i) d = Inr (Some (timer_fires i d))"
| "echo_step E timeout (Run junk) d = rbind (run_next junk timeout d) (\<lambda>d. Inr (Some d))"

fun echo_run :: "(nat, unit, 'k, echo_world) env \<Rightarrow> int \<Rightarrow> echo_event list \<Rightarrow> 'k echo_session \<Rightarrow> 'k echo_session option res" where
  "echo_run E timeout [] d = Inr (Some d)"
| "echo_run E timeout (e # es) d =
     rbind (echo_step E timeout e d) (\<lambda>r. case r of None \<Rightarrow> Inr None | Some d \<Rightarrow> echo_run E timeout es d)"

text \<open>A run in which the kernel reports data only while those received before have been taken.\<close>

fun polite :: "(nat, unit, 'k, echo_world) env \<Rightarrow> int \<Rightarrow> echo_event list \<Rightarrow> 'k echo_session \<Rightarrow> bool" where
  "polite E timeout [] d \<longleftrightarrow> True"
| "polite E timeout (e # es) d \<longleftrightarrow>
     (e = Readable \<longrightarrow> rb_empty (recv_buf d)) \<and>
     (case echo_step E timeout e d of Inr (Some d) \<Rightarrow> polite E timeout es d | _ \<Rightarrow> True)"


section \<open>What is sent\<close>

datatype message = Echo "byte list" | Notice byte

fun wire :: "message \<Rightarrow> byte list" where
  "wire (Echo bs) = bs"
| "wire (Notice b) = time_out_msg b"

fun taken :: "message \<Rightarrow> byte list" where
  "taken (Echo bs) = bs"
| "taken (Notice b) = []"

definition echoes :: "('k \<Rightarrow> byte list) \<Rightarrow> ('k \<Rightarrow> byte list) \<Rightarrow> message list \<Rightarrow> 'k echo_session \<Rightarrow> bool" where
  "echoes out inp ms d \<longleftrightarrow>
     out (kernel d) @ pending (waiting_send_tasks d) = concat (map wire ms) \<and>
     inp (kernel d) = concat (map taken ms) @ rb_contents (recv_buf d)"

text \<open>What the kernel promises: it delivers what it has received and takes a prefix of what it is given. \<open>inp\<close> is
  what has been delivered so far, \<open>out\<close> what has been taken.\<close>

definition kernel_ok ::
  "('k \<Rightarrow> byte list \<Rightarrow> 'k \<times> int \<times> int) \<Rightarrow> ('k \<Rightarrow> nat \<Rightarrow> 'k \<times> byte list \<times> int \<times> int) \<Rightarrow> ('k \<Rightarrow> byte list) \<Rightarrow> ('k \<Rightarrow> byte list) \<Rightarrow> bool" where
  "kernel_ok fw fr out inp \<longleftrightarrow>
     (\<forall>k bs k' n errno. fw k bs = (k', n, errno) \<longrightarrow>
        n \<le> int (length bs) \<and> (n > 0 \<or> errno = EAGAIN) \<and> out k' = out k @ take (nat n) bs \<and> inp k' = inp k) \<and>
     (\<forall>k m k' bs l errno. fr k m = (k', bs, l, errno) \<longrightarrow>
        length bs \<le> m \<and> (if bs = [] then l = 0 \<or> l = - 1 else l = int (length bs)) \<and> inp k' = inp k @ bs \<and> out k' = out k)"

lemma kernel_okD:
  assumes "kernel_ok fw fr out inp"
  shows "fw k bs = (k', n, errno) \<Longrightarrow> n \<le> int (length bs) \<and> (n > 0 \<or> errno = EAGAIN) \<and> out k' = out k @ take (nat n) bs \<and> inp k' = inp k"
    and "fr k m = (k', xs, l, e) \<Longrightarrow> length xs \<le> m \<and> (if xs = [] then l = 0 \<or> l = - 1 else l = int (length xs)) \<and>
      inp k' = inp k @ xs \<and> out k' = out k"
  using assms unfolding kernel_ok_def by blast+

section \<open>The phases of the procedure\<close>

text \<open>All flows but the last one have been triggered; the handlers and timers belong to flows.\<close>

definition flows_ok :: "'k echo_session \<Rightarrow> bool" where
  "flows_ok d \<longleftrightarrow>
     (\<forall>i. Suc i < flows (world d) \<longrightarrow> i \<in> set (triggered (world d))) \<and> (\<forall>i \<in> set (triggered (world d)). i < flows (world d)) \<and>
     (\<forall>(need, i) \<in> set (waiting_recv_tasks d). need = 0 \<and> i < flows (world d)) \<and> (\<forall>(i, ms) \<in> set (timers (world d)). i < flows (world d))"

definition all_triggered :: "'k echo_session \<Rightarrow> bool" where
  "all_triggered d \<longleftrightarrow> (\<forall>i < flows (world d). i \<in> set (triggered (world d)))"

definition waits :: "'k echo_session \<Rightarrow> bool" where
  \<comment> \<open>the last flow waits for data, of which there are none\<close>
  "waits d \<longleftrightarrow> (\<exists>i. flows (world d) = Suc i \<and> i \<notin> set (triggered (world d)) \<and> (0, i) \<in> set (waiting_recv_tasks d)) \<and>
     tasks (world d) = [] \<and> waiting_send_tasks d = [] \<and> rb_contents (recv_buf d) = []"

definition phase_ok :: "'k echo_session \<Rightarrow> bool" where
  "phase_ok d \<longleftrightarrow> waits d \<or>
     all_triggered d \<and>
       ((\<exists>r. tasks (world d) = [On_packet r] \<and> waiting_send_tasks d = [] \<and> (r = Data \<longrightarrow> rb_contents (recv_buf d) \<noteq> [])) \<or>
        (\<exists>a. tasks (world d) = [] \<and> waiting_send_tasks d = [(a, ())] \<and> unsent_ok a) \<or>
        (\<exists>a. tasks (world d) = [On_sent (Sent a)] \<and> waiting_send_tasks d = []))"

definition echo_inv :: "'k echo_session \<Rightarrow> bool" where
  "echo_inv d \<longleftrightarrow> rb_inv (recv_buf d) \<and> flows_ok d \<and> phase_ok d"

lemma echo_handlers_sel [simp]:
  "available (echo_handlers fw fr) i w \<longleftrightarrow> i \<notin> set (triggered w)" "handle (echo_handlers fw fr) i rb w = (rb, trigger i Data w, [])"
  "complete (echo_handlers fw fr) u r w = (w\<lparr>tasks := tasks w @ [On_sent r]\<rparr>, [])"
  "ff_write (echo_handlers fw fr) = fw" "ff_read (echo_handlers fw fr) = fr"
  by (simp_all add: echo_handlers_def)

lemma trigger_sel [simp]:
  "flows (trigger i r w) = flows w" "timers (trigger i r w) = timers w" "set (triggered (trigger i r w)) = insert i (set (triggered w))"
  by (auto simp: trigger_def)

lemma trigger_old: "i \<in> set (triggered w) \<Longrightarrow> trigger i r w = w"
  by (simp add: trigger_def)

lemma trigger_new: "i \<notin> set (triggered w) \<Longrightarrow> tasks (trigger i r w) = tasks w @ [On_packet r]"
  by (simp add: trigger_def)

text \<open>The loop over the handlers triggers their flows and takes nothing from the buffer.\<close>

lemma recv_loop_echo:
  assumes "\<not> rb_empty (recv_buf d)" and "\<forall>(need, i) \<in> set (waiting_recv_tasks d). need = 0"
  shows "recv_loop (echo_handlers fw fr) d =
    Some (d\<lparr>waiting_recv_tasks := [], world := foldl (\<lambda>w (need, i). trigger i Data w) (world d) (waiting_recv_tasks d)\<rparr>)"
  using assms
proof (induction "waiting_recv_tasks d" arbitrary: d)
  case Nil
  then show ?case by (subst recv_loop.simps) simp
next
  case (Cons h hs)
  obtain need i where "h = (need, i)" by (cases h)
  then have "waiting_recv_tasks d = (need, i) # hs" using Cons.hyps(2) by simp
  then have h: "waiting_recv_tasks d = (0, i) # hs" using Cons.prems(2) by simp
  let ?d = "d\<lparr>world := trigger i Data (world d), waiting_recv_tasks := hs\<rparr>"
  have "recv_loop (echo_handlers fw fr) d = recv_loop (echo_handlers fw fr) ?d"
    using Cons.prems(1) h by (subst recv_loop.simps) (simp add: trigger_old)
  also have "\<dots> = Some (?d\<lparr>waiting_recv_tasks := [], world := foldl (\<lambda>w (need, i). trigger i Data w) (world ?d) (waiting_recv_tasks ?d)\<rparr>)"
    using Cons.hyps(1)[of ?d] Cons.prems h by simp
  finally show ?case using h by simp
qed

lemma fold_trigger_old:
  "\<forall>(need, i) \<in> set hs. i \<in> set (triggered w) \<Longrightarrow> foldl (\<lambda>w (need, i). trigger i Data w) w hs = w"
  by (induction hs) (auto simp: trigger_old)

lemma fold_trigger:
  assumes "\<forall>(need, j) \<in> set hs. j \<in> set (triggered w) \<or> j = i" and "(n, i) \<in> set hs"
  shows "foldl (\<lambda>w (need, i). trigger i Data w) w hs = trigger i Data w"
  using assms
proof (induction hs)
  case (Cons h hs)
  obtain m j where h: "h = (m, j)" by (cases h)
  show ?case
  proof (cases "j = i")
    case True
    have "foldl (\<lambda>w (need, i). trigger i Data w) (trigger i Data w) hs = trigger i Data w"
      by (rule fold_trigger_old) (use Cons.prems(1) in auto)
    then show ?thesis using h True by simp
  next
    case False
    then have "trigger j Data w = w" using Cons.prems(1) h by (auto intro: trigger_old)
    then show ?thesis using Cons h False by auto
  qed
qed simp
text \<open>The events, one by one: the invariant is kept, and so is what has been sent and received, but for one more
  message of the packet task.\<close>

lemma echo_proc_step:
  assumes "rb_inv (recv_buf d)" and "flows_ok d" and "all_triggered d" and "tasks (world d) = []" and "waiting_send_tasks d = []"
  shows "echo_inv (echo_proc timeout d)" and "echoes out inp ms (echo_proc timeout d) \<longleftrightarrow> echoes out inp ms d"
proof -
  let ?i = "flows (world d)"
  have ni: "?i \<notin> set (triggered (world d))" using assms(2) by (auto simp: flows_ok_def)
  have all: "\<forall>i < ?i. i \<in> set (triggered (world d))" using assms(3) by (simp add: all_triggered_def)
  have em: "rb_empty (recv_buf d) \<longleftrightarrow> rb_contents (recv_buf d) = []" by (rule rb_empty_contents[OF assms(1)])
  show "echo_inv (echo_proc timeout d)"
  proof (cases "rb_empty (recv_buf d)")
    case True
    then have "waits (echo_proc timeout d)" "flows_ok (echo_proc timeout d)" using assms all ni em
      by (auto simp: echo_proc_def tcp_wait_packet_def Let_def waits_def schedule_recv_def flows_ok_def)
    moreover have "recv_buf (echo_proc timeout d) = recv_buf d"
      using True by (simp add: echo_proc_def tcp_wait_packet_def Let_def schedule_recv_def)
    ultimately show ?thesis using assms(1) by (simp add: echo_inv_def phase_ok_def)
  next
    case False
    then show ?thesis using assms all ni em
      by (auto simp: echo_proc_def tcp_wait_packet_def Let_def echo_inv_def phase_ok_def all_triggered_def flows_ok_def trigger_new less_Suc_eq)
  qed
  show "echoes out inp ms (echo_proc timeout d) \<longleftrightarrow> echoes out inp ms d"
    by (auto simp: echo_proc_def tcp_wait_packet_def Let_def echoes_def schedule_recv_def)
qed

lemma last_flow:
  assumes "flows_ok d" and "i < flows (world d)" and "i \<notin> set (triggered (world d))"
  shows "j < flows (world d) \<Longrightarrow> j = i \<or> j \<in> set (triggered (world d))"
proof -
  have "\<not> Suc i < flows (world d)" using assms by (auto simp: flows_ok_def)
  then have "flows (world d) = Suc i" using assms(2) by simp
  then show "j < flows (world d) \<Longrightarrow> j = i \<or> j \<in> set (triggered (world d))" using assms(1)
    unfolding flows_ok_def by (metis Suc_less_eq less_SucE)
qed

lemma timer_fires_step:
  assumes "echo_inv d"
  shows "echo_inv (timer_fires i d)" and "echoes out inp ms (timer_fires i d) \<longleftrightarrow> echoes out inp ms d"
proof -
  show "echoes out inp ms (timer_fires i d) \<longleftrightarrow> echoes out inp ms d"
    by (auto simp: timer_fires_def echoes_def split: option.splits)
  show "echo_inv (timer_fires i d)"
  proof (cases "map_of (timers (world d)) i")
    case (Some ms)
    then have i: "i < flows (world d)" using assms by (auto simp: echo_inv_def flows_ok_def dest: map_of_SomeD)
    let ?w = "(world d)\<lparr>timers := filter (\<lambda>p. fst p \<noteq> i) (timers (world d))\<rparr>"
    have d: "timer_fires i d = d\<lparr>world := trigger i (Timed_out ms) ?w\<rparr>" using Some by (simp add: timer_fires_def)
    have fl: "flows_ok (timer_fires i d)" using assms i unfolding d by (auto simp: echo_inv_def flows_ok_def)
    have "phase_ok (timer_fires i d)"
    proof (cases "i \<in> set (triggered (world d))")
      case True
      then show ?thesis using assms unfolding d by (simp add: trigger_old echo_inv_def phase_ok_def waits_def all_triggered_def)
    next
      case False
      then have "waits d" using assms i by (auto simp: echo_inv_def phase_ok_def all_triggered_def)
      moreover have "all_triggered (timer_fires i d)" unfolding d
        using last_flow[of d i] assms i False by (auto simp: all_triggered_def echo_inv_def)
      ultimately show ?thesis using False unfolding d by (simp add: phase_ok_def waits_def trigger_new)
    qed
    then show ?thesis using fl assms unfolding d by (simp add: echo_inv_def)
  qed (use assms in \<open>simp add: timer_fires_def\<close>)
qed

lemma data_close_step:
  "echo_inv (data_close d) \<longleftrightarrow> echo_inv d" "echoes out inp ms (data_close d) \<longleftrightarrow> echoes out inp ms d"
proof -
  have "waiting_recv_tasks (data_close d) = waiting_recv_tasks d" by (simp add: data_close_def)
  then show "echo_inv (data_close d) \<longleftrightarrow> echo_inv d" "echoes out inp ms (data_close d) \<longleftrightarrow> echoes out inp ms d"
    by (simp_all add: echo_inv_def flows_ok_def phase_ok_def waits_def all_triggered_def echoes_def)
qed
lemma readable_phase:
  assumes "echo_inv d" and "w = foldl (\<lambda>w (need, i). trigger i Data w) (world d) (waiting_recv_tasks d)"
    and "rb_inv rb" and "rb_contents rb \<noteq> []"
  shows "echo_inv (d\<lparr>kernel := k, recv_buf := rb, waiting_recv_tasks := [], world := w\<rparr>)"
proof (cases "all_triggered d")
  case True
  then have "w = world d" unfolding assms(2) using assms(1)
    by (intro fold_trigger_old) (auto simp: echo_inv_def flows_ok_def all_triggered_def)
  then show ?thesis using assms True
    by (auto simp: echo_inv_def flows_ok_def phase_ok_def waits_def all_triggered_def)
next
  case False
  then have "waits d" and fl: "flows_ok d" using assms(1) by (auto simp: echo_inv_def phase_ok_def)
  then obtain i where i: "flows (world d) = Suc i" "i \<notin> set (triggered (world d))" "(0, i) \<in> set (waiting_recv_tasks d)"
    "tasks (world d) = []" "waiting_send_tasks d = []" by (auto simp: waits_def)
  have old: "j = i \<or> j \<in> set (triggered (world d))" if "j < Suc i" for j using last_flow[OF fl, of i j] i that by simp
  have "w = trigger i Data (world d)" unfolding assms(2)
    by (rule fold_trigger[OF _ i(3)]) (use fl old i(1) in \<open>auto simp: flows_ok_def\<close>)
  then show ?thesis using i fl old assms(3,4)
    by (auto simp: echo_inv_def flows_ok_def phase_ok_def all_triggered_def trigger_new)
qed

text \<open>Data arrive in an empty buffer: they are all of its content, and a flow that waits for them is triggered.\<close>

lemma readable_step:
  assumes "kernel_ok fw fr out inp" and "echo_inv d" and "echoes out inp ms d" and "rb_empty (recv_buf d)"
  shows "\<exists>d'. on_recv_event (echo_handlers fw fr) d = Inr (Some d') \<and> echo_inv d' \<and> echoes out inp ms d'"
proof -
  have rb: "rb_inv (recv_buf d)" "rb_contents (recv_buf d) = []"
    using assms(2,4) by (auto simp: echo_inv_def rb_empty_contents)
  obtain k bs l e where r: "fr (kernel d) (rb_free_size (recv_buf d)) = (k, bs, l, e)" by (metis prod_cases4)
  note K = kernel_okD(2)[OF assms(1) r]
  define d1 where "d1 = d\<lparr>kernel := k\<rparr>"
  have d1: "echo_inv d1" using assms(2) by (simp add: d1_def echo_inv_def flows_ok_def phase_ok_def waits_def all_triggered_def)
  show ?thesis
  proof (cases "bs = []")
    case True
    then have "echoes out inp ms d1" using assms(3) K by (simp add: d1_def echoes_def)
    moreover have "on_recv_event (echo_handlers fw fr) d = Inr (Some (if l = - 1 \<and> e = EAGAIN then d1 else data_close d1))"
      using True r K by (auto simp: on_recv_event_def d1_def)
    ultimately show ?thesis using d1 by (auto simp: data_close_step)
  next
    case False
    obtain rb1 rb2 stale where c: "rb_store (recv_buf d) (rb_read_head (recv_buf d)) bs = Inr rb1" "rb_commit (length bs) rb1 = Inr rb2"
        "rb_inv rb2" "rb_contents rb2 = bs @ drop (length bs) (rb_contents (recv_buf d)) @ stale" "length stale = min (length bs) 0"
      using store_read_head[OF rb(1), of bs] K rb(2) by auto
    then have bs: "rb_contents rb2 = bs" using rb(2) by simp
    define w where "w = foldl (\<lambda>w (need, i). trigger i Data w) (world d) (waiting_recv_tasks d)"
    define d2 where "d2 = d1\<lparr>recv_buf := rb2, waiting_recv_tasks := [], world := w\<rparr>"
    have "\<forall>(need, i) \<in> set (waiting_recv_tasks d). need = 0" using assms(2) by (auto simp: echo_inv_def flows_ok_def)
    then have "recv_loop (echo_handlers fw fr) (d1\<lparr>recv_buf := rb2\<rparr>) = Some d2"
      using recv_loop_echo[of "d1\<lparr>recv_buf := rb2\<rparr>" fw fr] False bs rb_empty_contents[OF c(3)]
      by (simp add: d1_def d2_def w_def)
    then have "on_recv_event (echo_handlers fw fr) d = Inr (Some d2)" using r K False c(1,2)
      by (auto simp: on_recv_event_def d1_def)
    moreover have "echoes out inp ms d2" using assms(3) K bs rb(2) by (simp add: d2_def d1_def echoes_def)
    moreover have "echo_inv d2" using readable_phase[OF assms(2) w_def] c(3) False bs by (simp add: d2_def d1_def)
    ultimately show ?thesis by blast
  qed
qed
text \<open>The socket takes data: a prefix of the packet, or all of it, and then the next task is queued.\<close>

lemma send_loop_echo:
  assumes "kernel_ok fw fr out inp" and "echo_inv d" and "echoes out inp ms d"
  shows "\<exists>d'. send_loop (echo_handlers fw fr) d = Some d' \<and> echo_inv d' \<and> echoes out inp ms d'"
proof (cases "waiting_send_tasks d")
  case Nil
  then have "send_loop (echo_handlers fw fr) d = Some d" by (subst send_loop.simps) simp
  then show ?thesis using assms by blast
next
  case (Cons p ps)
  then obtain a where a: "waiting_send_tasks d = [(a, ())]" "unsent_ok a" "tasks (world d) = []" "all_triggered d"
    using assms(2) by (auto simp: echo_inv_def phase_ok_def waits_def)
  obtain k n e where w: "fw (kernel d) (u_head a) = (k, n, e)" by (metis prod_cases3)
  note K = kernel_okD(1)[OF assms(1) w]
  define a' where "a' = u_update (nat n) a"
  define d1 where "d1 = d\<lparr>kernel := k, waiting_send_tasks := [(a', ())]\<rparr>"
  have i0: "echo_inv (d\<lparr>kernel := k\<rparr>)" using assms(2) by (simp add: echo_inv_def flows_ok_def phase_ok_def waits_def all_triggered_def)
  have out: "out (kernel d) @ u_head a = concat (map wire ms)" "inp (kernel d) = concat (map taken ms) @ rb_contents (recv_buf d)"
    using assms(3) a(1) by (simp_all add: echoes_def pending_def)
  have "nat n \<le> length (u_head a)" using K by linarith
  note u = u_update_head[OF a(2) this, folded a'_def]
  consider "n \<le> 0" | "n > 0" "\<not> u_done a'" | "n > 0" "u_done a'" by linarith
  then show ?thesis
  proof cases
    case 1
    then have "send_loop (echo_handlers fw fr) d = Some (data_close (d\<lparr>kernel := k\<rparr>))"
      using a(1) w K by (subst send_loop.simps) simp
    moreover have "echoes out inp ms (d\<lparr>kernel := k\<rparr>)" using out K 1 a(1) by (simp add: echoes_def pending_def)
    ultimately show ?thesis using i0 by (auto simp: data_close_step)
  next
    case 2
    have "send_loop (echo_handlers fw fr) d = Some d1" using a(1) w 2 by (subst send_loop.simps) (simp add: d1_def a'_def)
    moreover have "echo_inv d1" using assms(2) a 2 u(3) K
      by (auto simp: d1_def echo_inv_def flows_ok_def phase_ok_def all_triggered_def)
    moreover have "echoes out inp ms d1" using out K u(1) by (simp add: d1_def echoes_def pending_def)
    ultimately show ?thesis by blast
  next
    case 3
    define d2 where "d2 = d1\<lparr>world := (world d)\<lparr>tasks := [On_sent (Sent a')]\<rparr>, waiting_send_tasks := []\<rparr>"
    have "complete_front (echo_handlers fw fr) () (Sent a') d1 = d2" using a(3) by (simp add: complete_front_def d2_def d1_def)
    moreover have "send_loop (echo_handlers fw fr) d2 = Some d2" by (subst send_loop.simps) (simp add: d2_def)
    ultimately have "send_loop (echo_handlers fw fr) d = Some d2"
      using a(1) w 3 by (subst send_loop.simps) (simp flip: a'_def d1_def)
    moreover have "echo_inv d2" using assms(2) a(4) by (auto simp: d2_def d1_def echo_inv_def flows_ok_def phase_ok_def all_triggered_def)
    moreover have "u_head a' = []" using 3 by (simp add: u_done_def u_head_def u_send_len_def)
    then have "echoes out inp ms d2" using out K u(1) by (simp add: d2_def d1_def echoes_def pending_def)
    ultimately show ?thesis by blast
  qed
qed
lemma enable_write_step:
  "echo_inv (enable_write_event b d) \<longleftrightarrow> echo_inv d" "echoes out inp ms (enable_write_event b d) \<longleftrightarrow> echoes out inp ms d"
proof -
  have "waiting_recv_tasks (enable_write_event b d) = waiting_recv_tasks d" by (simp add: enable_write_event_def)
  then show "echo_inv (enable_write_event b d) \<longleftrightarrow> echo_inv d" "echoes out inp ms (enable_write_event b d) \<longleftrightarrow> echoes out inp ms d"
    by (simp_all add: echo_inv_def flows_ok_def phase_ok_def waits_def all_triggered_def echoes_def)
qed

lemma on_packet_step:
  assumes "rb_inv (recv_buf d)" and "flows_ok d" and "all_triggered d" and "tasks (world d) = []" and "waiting_send_tasks d = []"
    and "r = Data \<longrightarrow> rb_contents (recv_buf d) \<noteq> []" and "echoes out inp ms d"
  shows "\<exists>d' m. on_packet junk r d = Inr d' \<and> echo_inv d' \<and> echoes out inp (ms @ [m]) d'"
proof -
  have send: "echo_inv (tcp_send_packet bs () (d\<lparr>recv_buf := rb\<rparr>))"
    if "bs \<noteq> []" "length bs < 2 ^ 63" "rb_inv rb" for bs rb
    using assms(2-5) that unfolding tcp_send_packet_def schedule_send_def enable_write_step
    by (auto simp: echo_inv_def flows_ok_def phase_ok_def all_triggered_def unsent_ok_def unsent_def)
  have log: "echoes out inp (ms @ [m]) (tcp_send_packet (wire m) () (d\<lparr>recv_buf := rb\<rparr>)) \<longleftrightarrow>
      rb_contents (recv_buf d) = taken m @ rb_contents rb" for m rb
    using assms(5,7) unfolding tcp_send_packet_def schedule_send_def enable_write_step
    by (simp add: echoes_def pending_def u_head_def u_send_len_def unsent_def)
  show ?thesis
  proof (cases r)
    case (Timed_out t)
    have "echo_inv (tcp_send_packet (time_out_msg junk) () d)" using send[of "time_out_msg junk" "recv_buf d"] assms(1) by (simp add: time_out_msg_def)
    moreover have "echoes out inp (ms @ [Notice junk]) (tcp_send_packet (time_out_msg junk) () d)"
      using log[of "Notice junk" "recv_buf d"] by simp
    ultimately show ?thesis using Timed_out by auto
  next
    case Data
    let ?bs = "rb_contents (recv_buf d)"
    obtain rb where rb: "rb_consume (length ?bs) (recv_buf d) = Inr rb" "rb_inv rb" "rb_contents rb = []"
      using rb_consume_spec[OF assms(1), of "length ?bs"] by auto
    have "on_packet junk r d = Inr (tcp_send_packet ?bs () (d\<lparr>recv_buf := rb\<rparr>))"
      using Data rb(1) rb_load_contents[OF assms(1), of "length ?bs"] by (simp add: rb_len_contents[OF assms(1)] Let_def del: rb_contents_length)
    moreover have "length ?bs < 2 ^ 63" using assms(1) rb_free_contents[OF assms(1)] by (simp add: rb_inv_def)
    ultimately show ?thesis using send[of ?bs rb] log[of "Echo ?bs" rb] rb assms(6) Data by auto
  qed
qed

lemma run_next_step:
  assumes "echo_inv d" and "echoes out inp ms d"
  shows "\<exists>d' ms'. run_next junk timeout d = Inr d' \<and> echo_inv d' \<and> echoes out inp (ms @ ms') d'"
proof (cases "tasks (world d)")
  case Nil
  then show ?thesis using assms by (intro exI[of _ d] exI[of _ "[]"]) (simp add: run_next_def)
next
  case (Cons t ts)
  define d1 where "d1 = d\<lparr>world := (world d)\<lparr>tasks := []\<rparr>\<rparr>"
  have ph: "ts = []" "waiting_send_tasks d = []" "all_triggered d"
      "(\<exists>r. t = On_packet r \<and> (r = Data \<longrightarrow> rb_contents (recv_buf d) \<noteq> [])) \<or> (\<exists>a. t = On_sent (Sent a))"
    using assms(1) Cons by (auto simp: echo_inv_def phase_ok_def waits_def)
  have d1: "rb_inv (recv_buf d1)" "flows_ok d1" "all_triggered d1" "tasks (world d1) = []" "waiting_send_tasks d1 = []" "echoes out inp ms d1"
    using assms ph by (simp_all add: d1_def echo_inv_def flows_ok_def all_triggered_def echoes_def)
  from ph(4) show ?thesis
  proof (elim disjE exE conjE)
    fix r assume r: "t = On_packet r" "r = Data \<longrightarrow> rb_contents (recv_buf d) \<noteq> []"
    then have "run_next junk timeout d = on_packet junk r d1" using Cons ph(1) by (simp add: run_next_def d1_def)
    then show ?thesis using on_packet_step[OF d1(1-5) _ d1(6), of r junk] r(2) by (auto simp: d1_def)
  next
    fix a assume "t = On_sent (Sent a)"
    then have "run_next junk timeout d = Inr (echo_proc timeout d1)" using Cons ph(1) by (simp add: run_next_def d1_def)
    then show ?thesis using echo_proc_step[OF d1(1-5)] d1(6) by (intro exI[of _ "echo_proc timeout d1"] exI[of _ "[]"]) simp
  qed
qed

lemma echo_step_ok:
  assumes "kernel_ok fw fr out inp" and "echo_inv d" and "echoes out inp ms d" and "e = Readable \<longrightarrow> rb_empty (recv_buf d)"
  shows "\<exists>d' ms'. echo_step (echo_handlers fw fr) timeout e d = Inr (Some d') \<and> echo_inv d' \<and> echoes out inp (ms @ ms') d'"
proof -
  have same: "echoes out inp ms d' \<Longrightarrow> \<exists>ms'. echoes out inp (ms @ ms') d'" for d' by (rule exI[of _ "[]"]) simp
  show ?thesis
  proof (cases e)
    case Readable
    then show ?thesis using readable_step[OF assms(1-3)] assms(2-4) by (auto simp: on_kevent_def intro: same)
  next
    case Writable
    then show ?thesis using send_loop_echo[OF assms(1-3)] assms(2,3)
      by (auto simp: on_kevent_def on_send_event_def enable_write_step intro: same)
  next
    case Eof
    then show ?thesis using assms(2,3) by (auto simp: on_kevent_def data_close_step intro: same)
  next
    case (Timer i)
    then show ?thesis using timer_fires_step[OF assms(2)] assms(3) by (auto intro: same)
  next
    case (Run junk)
    then show ?thesis using run_next_step[OF assms(2,3), of junk timeout] by auto
  qed
qed

lemma echo_run_ok:
  assumes "kernel_ok fw fr out inp"
  shows "echo_inv d \<Longrightarrow> echoes out inp ms d \<Longrightarrow> polite (echo_handlers fw fr) timeout es d \<Longrightarrow>
    \<exists>d' ms'. echo_run (echo_handlers fw fr) timeout es d = Inr (Some d') \<and> echo_inv d' \<and> echoes out inp (ms @ ms') d'"
proof (induction es arbitrary: d ms)
  case (Cons e es)
  obtain d1 ms1 where st: "echo_step (echo_handlers fw fr) timeout e d = Inr (Some d1)" "echo_inv d1" "echoes out inp (ms @ ms1) d1"
    using echo_step_ok[OF assms Cons.prems(1,2), of e timeout] Cons.prems(3) by auto
  then obtain d2 ms2 where "echo_run (echo_handlers fw fr) timeout es d1 = Inr (Some d2)" "echo_inv d2" "echoes out inp ((ms @ ms1) @ ms2) d2"
    using Cons.IH[OF st(2,3)] Cons.prems(3) by auto
  then show ?case using st(1) by (intro exI[of _ d2] exI[of _ "ms1 @ ms2"]) simp
qed (auto intro: exI[of _ "[]"])

section \<open>Everything is sent in the end\<close>

fun task_rank :: "echo_task \<Rightarrow> nat" where
  "task_rank (On_packet (Timed_out ms)) = 3"
| "task_rank (On_packet Data) = 0"
| "task_rank (On_sent r) = 1"

text \<open>How far the procedure is from waiting: whether bytes wait in the buffer, which function is next, and how many
  bytes the kernel has not taken yet.\<close>

definition echo_rank :: "'k echo_session \<Rightarrow> nat \<times> nat" where
  "echo_rank d =
     ((if rb_contents (recv_buf d) = [] then 0 else 4) +
      (case tasks (world d) of t # _ \<Rightarrow> task_rank t | [] \<Rightarrow> if waiting_send_tasks d = [] then 0 else 2),
      length (pending (waiting_send_tasks d)))"

abbreviation closer :: "((nat \<times> nat) \<times> nat \<times> nat) set" where
  "closer \<equiv> less_than <*lex*> less_than"

lemma lex_fst: "fst p < fst q \<Longrightarrow> (p, q) \<in> closer" for p q :: "nat \<times> nat"
  by (cases p; cases q) simp

lemma echo_proc_rank:
  assumes "rb_inv (recv_buf d)" and "flows (world d) \<notin> set (triggered (world d))" and "tasks (world d) = []" and "waiting_send_tasks d = []"
  shows "echo_rank (echo_proc timeout d) = (if rb_contents (recv_buf d) = [] then 0 else 4, 0)"
    and "kernel (echo_proc timeout d) = kernel d" and "state (echo_proc timeout d) = state d"
  using assms rb_empty_contents[OF assms(1)]
  by (auto simp: echo_proc_def tcp_wait_packet_def Let_def schedule_recv_def echo_rank_def trigger_new pending_def)

lemma send_packet_rank:
  assumes "tasks (world d) = []"
  shows "fst (echo_rank (tcp_send_packet bs () d)) = (if rb_contents (recv_buf d) = [] then 2 else 6)"
    and "kernel (tcp_send_packet bs () d) = kernel d" and "state (tcp_send_packet bs () d) = state d"
  using assms by (simp_all add: tcp_send_packet_def schedule_send_def echo_rank_def)

lemma run_next_rank:
  assumes "echo_inv d" and "tasks (world d) \<noteq> []"
  shows "\<exists>d'. run_next junk timeout d = Inr d' \<and> (echo_rank d', echo_rank d) \<in> closer \<and> kernel d' = kernel d \<and> state d' = state d"
proof -
  obtain t where t: "tasks (world d) = [t]" "waiting_send_tasks d = []" using assms by (auto simp: echo_inv_def phase_ok_def waits_def)
  define d1 where "d1 = d\<lparr>world := (world d)\<lparr>tasks := []\<rparr>\<rparr>"
  have rb: "rb_inv (recv_buf d)" using assms(1) by (simp add: echo_inv_def)
  have nf: "flows (world d1) \<notin> set (triggered (world d1))" using assms(1) by (auto simp: d1_def echo_inv_def flows_ok_def)
  have d1: "recv_buf d1 = recv_buf d" "tasks (world d1) = []" "waiting_send_tasks d1 = []" "kernel d1 = kernel d" "state d1 = state d"
    using t(2) by (simp_all add: d1_def)
  consider r where "t = On_packet (Timed_out r)" | "t = On_packet Data" "rb_contents (recv_buf d) \<noteq> []" | a where "t = On_sent (Sent a)"
    using assms(1) t
    by (cases t rule: echo_task.exhaust; cases "case t of On_packet r \<Rightarrow> r | On_sent _ \<Rightarrow> Data")
      (auto simp: echo_inv_def phase_ok_def waits_def)
  then show ?thesis
  proof cases
    case 1
    then show ?thesis using t d1 send_packet_rank[OF d1(2), of "time_out_msg junk"]
      by (auto simp: run_next_def lex_fst echo_rank_def[of d] simp flip: d1_def)
  next
    case 2
    let ?bs = "rb_contents (recv_buf d)"
    obtain rb' where rb': "rb_consume (length ?bs) (recv_buf d) = Inr rb'" "rb_contents rb' = []"
      using rb_consume_spec[OF rb, of "length ?bs"] by auto
    have "run_next junk timeout d = Inr (tcp_send_packet ?bs () (d1\<lparr>recv_buf := rb'\<rparr>))"
      using 2 t(1) rb'(1) rb_load_contents[OF rb, of "length ?bs"] d1(1)
      by (simp add: run_next_def rb_len_contents[OF rb] Let_def del: rb_contents_length flip: d1_def)
    then show ?thesis using 2 t d1 rb'(2) send_packet_rank[of "d1\<lparr>recv_buf := rb'\<rparr>" ?bs]
      by (auto simp: lex_fst echo_rank_def[of d])
  next
    case 3
    then show ?thesis using t d1 echo_proc_rank[of d1 timeout] rb nf
      by (auto simp: run_next_def echo_rank_def[of d] simp flip: d1_def)
  qed
qed
lemma send_loop_rank:
  assumes "kernel_ok fw fr out inp" and "\<forall>k bs. bs \<noteq> [] \<longrightarrow> 0 < fst (snd (fw k bs))" and "echo_inv d"
  shows "\<exists>d'. send_loop (echo_handlers fw fr) d = Some d' \<and> inp (kernel d') = inp (kernel d) \<and> state d' = state d \<and>
    (if waiting_send_tasks d = [] then d' = d else (echo_rank d', echo_rank d) \<in> closer)"
proof (cases "waiting_send_tasks d")
  case Nil
  then have "send_loop (echo_handlers fw fr) d = Some d" by (subst send_loop.simps) simp
  then show ?thesis using Nil by simp
next
  case (Cons p ps)
  then obtain a where a: "waiting_send_tasks d = [(a, ())]" "unsent_ok a" "tasks (world d) = []"
    using assms(3) by (auto simp: echo_inv_def phase_ok_def waits_def)
  obtain k n e where w: "fw (kernel d) (u_head a) = (k, n, e)" by (metis prod_cases3)
  have hd: "u_head a \<noteq> []" using a(2) u_head_length[OF a(2)] by (auto simp: unsent_ok_def)
  then have n: "0 < n" using assms(2) w by (metis fst_conv snd_conv)
  note K = kernel_okD(1)[OF assms(1) w]
  define a' where "a' = u_update (nat n) a"
  define d1 where "d1 = d\<lparr>kernel := k, waiting_send_tasks := [(a', ())]\<rparr>"
  have le: "nat n \<le> length (u_head a)" using K by linarith
  have "u_head a = take (nat n) (u_head a) @ u_head a'" using u_update_head(1)[OF a(2) le] by (simp add: a'_def)
  then have "length (u_head a) = nat n + length (u_head a')" using le by (metis length_append length_take min.absorb2)
  then have less: "length (u_head a') < length (u_head a)" using n by simp
  show ?thesis
  proof (cases "u_done a'")
    case False
    then have "send_loop (echo_handlers fw fr) d = Some d1" using a(1) w n by (subst send_loop.simps) (simp add: d1_def a'_def)
    then show ?thesis using a K less by (simp add: d1_def echo_rank_def pending_def)
  next
    case True
    define d2 where "d2 = d1\<lparr>world := (world d)\<lparr>tasks := [On_sent (Sent a')]\<rparr>, waiting_send_tasks := []\<rparr>"
    have "complete_front (echo_handlers fw fr) () (Sent a') d1 = d2" using a(3) by (simp add: complete_front_def d2_def d1_def)
    moreover have "send_loop (echo_handlers fw fr) d2 = Some d2" by (subst send_loop.simps) (simp add: d2_def)
    ultimately have "send_loop (echo_handlers fw fr) d = Some d2"
      using a(1) w n True by (subst send_loop.simps) (simp flip: a'_def d1_def)
    then show ?thesis using a K by (simp add: d2_def d1_def echo_rank_def)
  qed
qed

text \<open>A round: the task center runs a task, and the socket takes data.\<close>

definition rounds :: "nat \<Rightarrow> echo_event list" where
  "rounds n = concat (replicate n [Run 0, Writable])"

lemma round_rank:
  assumes "kernel_ok fw fr out inp" and "\<forall>k bs. bs \<noteq> [] \<longrightarrow> 0 < fst (snd (fw k bs))" and "echo_inv d" and "state d \<noteq> 0"
    and "\<not> waits d" and "echoes out inp ms d"
  shows "\<exists>d' ms'. echo_run (echo_handlers fw fr) timeout [Run 0, Writable] d = Inr (Some d') \<and> (echo_rank d', echo_rank d) \<in> closer \<and>
    inp (kernel d') = inp (kernel d) \<and> state d' \<noteq> 0 \<and> echo_inv d' \<and> echoes out inp (ms @ ms') d'"
proof -
  have tr: "trans closer" by (simp add: trans_lex_prod trans_less_than)
  obtain d1 ms' where r: "run_next 0 timeout d = Inr d1" "echo_inv d1" "echoes out inp (ms @ ms') d1"
    using run_next_step[OF assms(3,6), of 0 timeout] by blast
  have d1: "kernel d1 = kernel d \<and> state d1 = state d \<and> (if tasks (world d) = [] then d1 = d else (echo_rank d1, echo_rank d) \<in> closer)"
    using run_next_rank[OF assms(3), of 0 timeout] r(1) by (cases "tasks (world d) = []") (simp_all add: run_next_def)
  obtain d2 where d2: "send_loop (echo_handlers fw fr) d1 = Some d2" "inp (kernel d2) = inp (kernel d1)" "state d2 = state d1"
      "if waiting_send_tasks d1 = [] then d2 = d1 else (echo_rank d2, echo_rank d1) \<in> closer"
    using send_loop_rank[OF assms(1,2) r(2)] by blast
  have i2: "echo_inv d2" "echoes out inp (ms @ ms') d2" using send_loop_echo[OF assms(1) r(2,3)] d2(1) by auto
  let ?d = "enable_write_event (waiting_send_tasks d2 \<noteq> []) d2"
  have "tasks (world d) \<noteq> [] \<or> waiting_send_tasks d \<noteq> []" using assms(3,5) by (auto simp: echo_inv_def phase_ok_def)
  then have "(echo_rank d2, echo_rank d) \<in> closer" using d1 d2(4) transD[OF tr] by (auto split: if_splits)
  moreover have "echo_rank ?d = echo_rank d2" by (simp add: echo_rank_def)
  moreover have "echo_run (echo_handlers fw fr) timeout [Run 0, Writable] d = Inr (Some ?d)"
    using r(1) d1 d2(1) assms(4) by (simp add: on_kevent_def on_send_event_def)
  ultimately show ?thesis using d1 d2 i2 assms(4) by (intro exI[of _ ?d] exI[of _ ms']) (auto simp: enable_write_step)
qed
lemma echo_run_append:
  "echo_run E timeout (es @ es') d = rbind (echo_run E timeout es d) (\<lambda>r. case r of None \<Rightarrow> Inr None | Some d \<Rightarrow> echo_run E timeout es' d)"
proof (induction es arbitrary: d)
  case (Cons e es)
  then show ?case by (cases "echo_step E timeout e d") (auto split: option.splits)
qed simp

lemma rounds_drain:
  assumes "kernel_ok fw fr out inp" and "\<forall>k bs. bs \<noteq> [] \<longrightarrow> 0 < fst (snd (fw k bs))"
    and "echo_inv d" and "state d \<noteq> 0" and "echoes out inp ms d"
  shows "\<exists>n d' ms'. echo_run (echo_handlers fw fr) timeout (rounds n) d = Inr (Some d') \<and> waits d' \<and>
      inp (kernel d') = inp (kernel d) \<and> echoes out inp (ms @ ms') d'"
proof -
  have "wf (inv_image closer echo_rank)" by auto
  then show ?thesis using assms(3-5)
  proof (induction d arbitrary: ms rule: wf_induct_rule)
    case (less d)
    show ?case
    proof (cases "waits d")
      case True
      then show ?thesis using less.prems by (intro exI[of _ 0] exI[of _ d] exI[of _ "[]"]) (simp add: rounds_def)
    next
      case False
      obtain d1 ms1 where s: "echo_run (echo_handlers fw fr) timeout [Run 0, Writable] d = Inr (Some d1)" "(echo_rank d1, echo_rank d) \<in> closer"
          "inp (kernel d1) = inp (kernel d)" "state d1 \<noteq> 0" "echo_inv d1" "echoes out inp (ms @ ms1) d1"
        using round_rank[OF assms(1,2) less.prems(1,2) False less.prems(3), of timeout] by blast
      then obtain n d' ms' where "echo_run (echo_handlers fw fr) timeout (rounds n) d1 = Inr (Some d')" "waits d'"
          "inp (kernel d') = inp (kernel d1)" "echoes out inp ((ms @ ms1) @ ms') d'"
        using less.IH[of d1 "ms @ ms1"] by auto
      moreover have "rounds (Suc n) = [Run 0, Writable] @ rounds n" by (simp add: rounds_def)
      ultimately show ?thesis using s(1,3)
        by (intro exI[of _ "Suc n"] exI[of _ d'] exI[of _ "ms1 @ ms'"]) (simp only: echo_run_append, simp)
    qed
  qed
qed

text \<open>The start of the procedure for a connection that has been accepted.\<close>

definition new_session :: "ringbuffer \<Rightarrow> 'k \<Rightarrow> 'k echo_session" where
  "new_session rb k = data_start
     \<lparr>state = 0, waiting_recv_tasks = [], waiting_send_tasks = [], recv_buf = rb, kevents = [], ff_closed = 0, kernel = k,
      world = \<lparr>flows = 0, triggered = [], tasks = [], timers = []\<rparr>\<rparr>"

lemma echo_start_ok:
  assumes "rb_inv rb" and "rb_contents rb = []" and "out k = []" and "inp k = []"
  shows "echo_inv (echo_proc timeout (new_session rb k))" and "echoes out inp [] (echo_proc timeout (new_session rb k))"
proof -
  let ?d = "new_session rb k"
  have d: "rb_inv (recv_buf ?d)" "flows_ok ?d" "all_triggered ?d" "tasks (world ?d) = []" "waiting_send_tasks ?d = []"
    using assms(1) by (simp_all add: new_session_def data_start_def enable_write_event_def flows_ok_def all_triggered_def)
  have "echoes out inp [] ?d" using assms by (simp add: new_session_def data_start_def enable_write_event_def echoes_def pending_def)
  then show "echo_inv (echo_proc timeout ?d)" "echoes out inp [] (echo_proc timeout ?d)" using echo_proc_step[OF d] by simp_all
qed
lemma polite_no_read: "Readable \<notin> set es \<Longrightarrow> polite E timeout es d"
  by (induction es arbitrary: d) (auto split: sum.splits option.splits)


section \<open>Accepting connections\<close>

text \<open>\<open>wait_connect_proc\<close> of the echo server: the first function starts the echo procedure, the second waits again unless
  the first has thrown.\<close>

datatype 'c echo_accept = Echo_start 'c | Echo_again bool

fun echo_accept_step :: "('c \<Rightarrow> 'w \<Rightarrow> bool \<times> 'w) \<Rightarrow> 'c echo_accept \<Rightarrow> 'w \<Rightarrow> ('c echo_accept, 'c, 'w) task_end" where
  "echo_accept_step start (Echo_start c) w =
     (case start c w of (ok, w) \<Rightarrow> \<lparr>te_world = w, te_started = [c], te_next = Some (Echo_again ok), te_again = False\<rparr>)"
| "echo_accept_step start (Echo_again ok) w = \<lparr>te_world = w, te_started = [], te_next = None, te_again = ok\<rparr>"

definition echo_wait_connect_proc :: "('c echo_accept, 'c, 'w) accept_state \<Rightarrow> ('c echo_accept, 'c, 'w) accept_state" where
  "echo_wait_connect_proc st = accept_wait Echo_start st"

fun echo_held :: "'c echo_accept \<Rightarrow> 'c list" where
  "echo_held (Echo_start c) = [c]"
| "echo_held (Echo_again ok) = []"

fun accept_rank :: "'c echo_accept \<Rightarrow> nat" where
  "accept_rank (Echo_start c) = 1"
| "accept_rank (Echo_again ok) = 0"

interpretation ep: accept_stages "echo_accept_step start" Echo_start echo_held accept_rank "\<lambda>k. k \<noteq> Echo_again False" for start
proof
  fix c k w k'
  show "echo_held (Echo_start c) = [c]" and "Echo_start c \<noteq> Echo_again False" by simp_all
  show "echo_held k = te_started (echo_accept_step start k w) @ (case te_next (echo_accept_step start k w) of Some k' \<Rightarrow> echo_held k' | None \<Rightarrow> [])"
    by (cases k) (auto split: prod.splits)
  show "te_next (echo_accept_step start k w) \<noteq> None \<Longrightarrow> \<not> te_again (echo_accept_step start k w)" by (cases k) (auto split: prod.splits)
  show "te_next (echo_accept_step start k w) = Some k' \<Longrightarrow> accept_rank k' < accept_rank k" by (cases k) (auto split: prod.splits)
qed

text \<open>The echo server accepts its connections in order too, and all of them if no start fails.\<close>

lemma echo_accepts_in_order:
  "(\<exists>rest. conns es = started (accept_run (echo_accept_step start) Echo_start es (echo_wait_connect_proc (accept_start w))) @ rest) \<and>
   ((\<forall>c w. fst (start c w)) \<longrightarrow> (\<exists>n. started (accept_run (echo_accept_step start) Echo_start (replicate n Task)
      (accept_run (echo_accept_step start) Echo_start es (echo_wait_connect_proc (accept_start w)))) = conns es))"
proof -
  have "case te_next (echo_accept_step start k w) of Some k' \<Rightarrow> k' \<noteq> Echo_again False | None \<Rightarrow> te_again (echo_accept_step start k w)"
    if "\<forall>c w. fst (start c w)" "k \<noteq> Echo_again False" for k w using that by (cases k) (auto simp: split_beta)
  then show ?thesis using ep.accept_prefix[of es start w] ep.accept_all[of start es w]
    by (simp add: echo_wait_connect_proc_def never_fails_def)
qed


section \<open>Properties\<close>


definition demo_write :: "byte list \<times> byte list \<times> byte list \<Rightarrow> byte list \<Rightarrow> (byte list \<times> byte list \<times> byte list) \<times> int \<times> int" where
  \<comment> \<open>a kernel with bytes on the way, bytes delivered and bytes sent, which takes up to three bytes at a time\<close>
  "demo_write k bs = (case k of (way, i, sent) \<Rightarrow>
     if bs = [] then (k, - 1, EAGAIN) else ((way, i, sent @ take 3 bs), int (length (take 3 bs)), 0))"

definition demo_read :: "byte list \<times> byte list \<times> byte list \<Rightarrow> nat \<Rightarrow> (byte list \<times> byte list \<times> byte list) \<times> byte list \<times> int \<times> int" where
  "demo_read k m = (case k of (way, i, sent) \<Rightarrow>
     ((drop m way, i @ take m way, sent), take m way, if take m way = [] then - 1 else int (length (take m way)), EAGAIN))"

definition demo_rb :: ringbuffer where
  "demo_rb = \<lparr>rb_buffer = [0, 0, 0, 0, 0, 0, 0, 0], rb_capacity = 8, rb_head = 6, rb_tail = 6, rb_size = 0\<rparr>"

lemma demo_kernel_ok: "kernel_ok demo_write demo_read (\<lambda>(way, i, sent). sent) (\<lambda>(way, i, sent). i)"
  unfolding kernel_ok_def demo_write_def demo_read_def by (auto simp: min_def split: prod.splits if_splits)

lemma demo_rb_ok: "rb_inv demo_rb" "rb_contents demo_rb = []" "rb_empty demo_rb"
  by (simp_all add: demo_rb_def rb_inv_def rb_contents_def rb_empty_def)

lemma demo_polite: "polite E timeout [Readable, Run 0, Writable, Timer 0, Writable, Run 0] (echo_proc timeout (new_session demo_rb k))"
  by (auto simp: echo_proc_def tcp_wait_packet_def new_session_def data_start_def enable_write_event_def schedule_recv_def demo_rb_ok Let_def
      polite_no_read simp del: polite.simps(2) intro!: polite.simps(2)[THEN iffD2] split: sum.splits option.splits)


text \<open>
  Property C15. After any such run that leaves the session open, with a kernel that takes at least one byte
  whenever it is given some: finitely many rounds of the task center and of write events, without new data, bring
  the echo server back to waiting, and then all received bytes have been sent back, in order.
\<close>
theorem echo_drains:
  assumes "kernel_ok fw fr out inp" and "rb_inv rb" and "rb_contents rb = []" and "out k = []" and "inp k = []"
    and "polite (echo_handlers fw fr) timeout es (echo_proc timeout (new_session rb k))"
    and "\<forall>k bs. bs \<noteq> [] \<longrightarrow> 0 < fst (snd (fw k bs))"
    and "echo_run (echo_handlers fw fr) timeout es (echo_proc timeout (new_session rb k)) = Inr (Some d)" and "state d \<noteq> 0"
  shows "\<exists>n d' ms. echo_run (echo_handlers fw fr) timeout (es @ rounds n) (echo_proc timeout (new_session rb k)) = Inr (Some d') \<and>
    tasks (world d') = [] \<and> inp (kernel d') = inp (kernel d) \<and>
    out (kernel d') = concat (map wire ms) \<and> inp (kernel d') = concat (map taken ms)"
proof -
  obtain ms where d: "echo_inv d" "echoes out inp ms d"
    using echo_run_ok[OF assms(1) echo_start_ok[where out = out and inp = inp and k = k, OF assms(2-5)] assms(6)] assms(8) by auto
  obtain n d' ms' where r: "echo_run (echo_handlers fw fr) timeout (rounds n) d = Inr (Some d')" "waits d'"
      "inp (kernel d') = inp (kernel d)" "echoes out inp (ms @ ms') d'"
    using rounds_drain[OF assms(1,7) d(1) assms(9) d(2), of timeout] by blast
  then show ?thesis using assms(8)
    by (intro exI[of _ n] exI[of _ d'] exI[of _ "ms @ ms'"]) (simp add: echo_run_append echoes_def waits_def pending_def)
qed

lemma demo_progress: "\<forall>k bs. bs \<noteq> [] \<longrightarrow> 0 < fst (snd (demo_write k bs))"
  by (auto simp: demo_write_def split: prod.splits)

definition demo_received :: "(byte list \<times> byte list \<times> byte list) echo_session" where
  "demo_received = \<lparr>state = 1, waiting_recv_tasks = [], waiting_send_tasks = [],
     recv_buf = \<lparr>rb_buffer = [3, 4, 0, 0, 0, 0, 1, 2], rb_capacity = 8, rb_head = 6, rb_tail = 2, rb_size = 4\<rparr>,
     kevents = [(EVFILT_READ, EV_ADD), (EVFILT_WRITE, EV_ADD), (EVFILT_WRITE, EV_DISABLE)], ff_closed = 0, kernel = ([], [1, 2, 3, 4], []),
     world = \<lparr>flows = 1, triggered = [0], tasks = [On_packet Data], timers = [(0, 20000)]\<rparr>\<rparr>"

lemma demo_runs:
  "echo_run (echo_handlers demo_write demo_read) 20000 [Readable] (echo_proc 20000 (new_session demo_rb ([1, 2, 3, 4], [], []))) =
    Inr (Some demo_received)"
  by (simp add: echo_proc_def tcp_wait_packet_def new_session_def data_start_def enable_write_event_def schedule_recv_def Let_def
      recv_loop_echo on_kevent_def on_recv_event_def demo_read_def demo_rb_def rb_free_size_def rb_commit_def rb_empty_def rb_read_head_def
      trigger_def demo_received_def)

theorem echo_drains_witness:
  "\<exists>n d ms. echo_run (echo_handlers demo_write demo_read) 20000 ([Readable] @ rounds n)
      (echo_proc 20000 (new_session demo_rb ([1, 2, 3, 4], [], []))) = Inr (Some d) \<and>
    (case kernel d of (way, i, sent) \<Rightarrow> sent) = concat (map wire ms) \<and> concat (map taken ms) = [1, 2, 3, 4]"
proof -
  have k: "(case ([1, 2, 3, 4], [], []) of (way, i :: byte list, sent) \<Rightarrow> sent) = []" "(case ([1, 2, 3, 4], [], []) of (way, i, sent) \<Rightarrow> i) = []"
    by simp_all
  have p: "polite E timeout [Readable] (echo_proc timeout (new_session demo_rb k))" for E timeout k
    using demo_polite[of E timeout k] by (simp split: sum.splits option.splits)
  have st: "state demo_received \<noteq> 0" "(case kernel demo_received of (way, i, sent) \<Rightarrow> i) = [1, 2, 3, 4]" by (simp_all add: demo_received_def)
  from echo_drains[OF demo_kernel_ok demo_rb_ok(1,2) k p demo_progress demo_runs st(1)] st(2) show ?thesis by metis
qed

end
