(* ===== verification/Dn_Heap.thy ===== *)
theory Dn_Heap
  imports Prelude "HOL-Library.Multiset"
begin

text \<open>
  \<open>src/3rd/freebsd/netpfil/ipfw/dn_heap.c\<close> and \<open>dn_heap.h\<close>: the binary heap in which the traffic
  shaper of the network stack keeps its events, with extraction from the middle.

  Objects are numbers. \<open>slots\<close> is the memory at the offset \<open>heap_ofs\<close> of the objects, in which the heap
  stores their positions. Sizes and numbers of elements are naturals (below \<open>2 ^ 31\<close>). The array
  \<open>heap_p\<close> has \<open>heap_size\<close> entries; an access outside of it is \<open>Undef\<close>. \<open>malloc\<close> is a parameter: the
  array of a given length with its arbitrary content, or nothing.
\<close>

unbundle bit_operations_syntax

section \<open>The heap\<close>

record dn_heap_entry =
  de_key :: u64
  de_object :: nat

record dn_heap =
  heap_size :: nat
  elements :: nat
  heap_ofs :: int
  heap_p :: "dn_heap_entry list"
  slots :: "nat \<Rightarrow> int"

type_synonym heap_malloc = "nat \<Rightarrow> dn_heap_entry list option"

definition DN_KEY_LT :: "u64 \<Rightarrow> u64 \<Rightarrow> bool" where
  "DN_KEY_LT a b \<longleftrightarrow> sint (a - b) < 0"

definition DN_KEY_LEQ :: "u64 \<Rightarrow> u64 \<Rightarrow> bool" where
  "DN_KEY_LEQ a b \<longleftrightarrow> sint (a - b) \<le> 0"

definition HEAP_FATHER :: "nat \<Rightarrow> nat" where
  "HEAP_FATHER x = (x - 1) div 2"

definition HEAP_LEFT :: "nat \<Rightarrow> nat" where
  "HEAP_LEFT x = x + x + 1"

definition round_size :: "u32 \<Rightarrow> u32" where
  "round_size n =
     (let n = n OR drop_bit 1 n; n = n OR drop_bit 2 n; n = n OR drop_bit 4 n; n = n OR drop_bit 8 n
      in n OR drop_bit 16 n)"

definition heap_resize :: "heap_malloc \<Rightarrow> u32 \<Rightarrow> dn_heap \<Rightarrow> int \<times> dn_heap" where
  "heap_resize malloc new_size h =
     (if of_nat (heap_size h) \<ge> new_size then (0, h)
      else let new_size = round_size new_size in
        case malloc (unat new_size) of
          None \<Rightarrow> (1, h)
        | Some p \<Rightarrow>
            (let p = (if heap_size h > 0 then take (heap_size h) (heap_p h) @ drop (heap_size h) p else p)
             in (0, h\<lparr>heap_p := p, heap_size := unat new_size\<rparr>)))"

definition heap_init :: "heap_malloc \<Rightarrow> u32 \<Rightarrow> int \<Rightarrow> dn_heap \<Rightarrow> int \<times> dn_heap" where
  "heap_init malloc n ofs h =
     (case heap_resize malloc n h of
        (r, h) \<Rightarrow> if r \<noteq> 0 then (1, h) else (0, h\<lparr>elements := 0, heap_ofs := ofs\<rparr>))"

definition SET_OFFSET :: "nat \<Rightarrow> dn_heap \<Rightarrow> dn_heap res" where
  "SET_OFFSET i h =
     (if heap_ofs h > 0
      then rbind (rd (heap_p h) i) (\<lambda>e. Inr (h\<lparr>slots := (slots h)(de_object e := int i)\<rparr>))
      else Inr h)"

definition RESET_OFFSET :: "nat \<Rightarrow> dn_heap \<Rightarrow> dn_heap res" where
  "RESET_OFFSET i h =
     (if heap_ofs h > 0
      then rbind (rd (heap_p h) i) (\<lambda>e. Inr (h\<lparr>slots := (slots h)(de_object e := - 16)\<rparr>))
      else Inr h)"

text \<open>The loop of \<open>heap_insert\<close> and the assignment behind it.\<close>

lemma father_less [simp]: "0 < n \<Longrightarrow> HEAP_FATHER n < n"
  by (simp add: HEAP_FATHER_def)

function heap_up :: "nat \<Rightarrow> dn_heap \<Rightarrow> dn_heap res" where
  "heap_up son h =
     (if son > 0
      then let father = HEAP_FATHER son in
        rbind (rd (heap_p h) father) (\<lambda>f.
        rbind (rd (heap_p h) son) (\<lambda>s.
        if DN_KEY_LT (de_key f) (de_key s) then SET_OFFSET son h
        else rbind (SET_OFFSET son (h\<lparr>heap_p := (heap_p h)[son := f, father := s]\<rparr>)) (\<lambda>h. heap_up father h)))
      else SET_OFFSET son h)"
  by pat_completeness auto
termination by (relation "measure fst") (auto simp: HEAP_FATHER_def)

declare heap_up.simps [simp del]

text \<open>\<open>heap_insert\<close>: without an object (\<open>p == NULL\<close>) the key is the position to start from, converted to
  \<open>int\<close>.\<close>

definition heap_insert :: "heap_malloc \<Rightarrow> u64 \<Rightarrow> nat option \<Rightarrow> dn_heap \<Rightarrow> (int \<times> dn_heap) res" where
  "heap_insert malloc key1 obj h =
     (case obj of
        None \<Rightarrow>
          (let son = sint (ucast key1 :: u32) in
           if son < 0 then (if heap_ofs h > 0 then Inl Undef else Inr (0, h))
           else rbind (heap_up (nat son) h) (\<lambda>h. Inr (0, h)))
      | Some object \<Rightarrow>
          (let son = elements h;
               (r, h) = (if son = heap_size h then heap_resize malloc (of_nat (elements h + 16)) h else (0, h))
           in if r \<noteq> 0 then Inr (1, h)
              else rbind (wr (heap_p h) son \<lparr>de_key = key1, de_object = object\<rparr>) (\<lambda>p.
                   rbind (heap_up son (h\<lparr>heap_p := p, elements := elements h + 1\<rparr>)) (\<lambda>h. Inr (0, h)))))"

text \<open>The loop of \<open>heap_extract\<close>: the hole goes down to a leaf, whose position is returned.\<close>

definition min_child :: "nat \<Rightarrow> nat \<Rightarrow> dn_heap \<Rightarrow> nat res" where
  "min_child mx child h =
     (if child \<noteq> mx
      then rbind (rd (heap_p h) (child + 1)) (\<lambda>r.
           rbind (rd (heap_p h) child) (\<lambda>l.
           Inr (if DN_KEY_LT (de_key r) (de_key l) then child + 1 else child)))
      else Inr child)"

lemma min_child_ge: "min_child mx child h = Inr c \<Longrightarrow> child \<le> c"
  by (auto simp: min_child_def rbind_eq_Inr_iff split: if_splits)

function heap_down :: "nat \<Rightarrow> nat \<Rightarrow> dn_heap \<Rightarrow> (nat \<times> dn_heap) res" where
  "heap_down mx father h =
     (if HEAP_LEFT father \<le> mx
      then rbind (min_child mx (HEAP_LEFT father) h) (\<lambda>child.
        rbind (rd (heap_p h) child) (\<lambda>c.
        rbind (wr (heap_p h) father c) (\<lambda>p.
        rbind (SET_OFFSET father (h\<lparr>heap_p := p\<rparr>)) (\<lambda>h. heap_down mx child h))))
      else Inr (father, h))"
  by pat_completeness auto
termination
  by (relation "measure (\<lambda>(mx, father, h). Suc mx - father)") (auto simp: HEAP_LEFT_def dest!: min_child_ge)

declare heap_down.simps [simp del]

definition heap_extract :: "heap_malloc \<Rightarrow> nat option \<Rightarrow> dn_heap \<Rightarrow> dn_heap res" where
  "heap_extract malloc obj h =
     (if elements h = 0 then Inr h
      else let mx = elements h - 1 in
        rbind (case obj of
                 None \<Rightarrow> Inr 0
               | Some ob \<Rightarrow>
                   if heap_ofs h \<le> 0 then Inl Abort
                   else if slots h ob < 0 \<or> slots h ob \<ge> int (elements h) then Inl Abort
                   else Inr (nat (slots h ob))) (\<lambda>father.
        rbind (RESET_OFFSET father h) (\<lambda>h.
        rbind (heap_down mx father h) (\<lambda>(father, h).
        let h = h\<lparr>elements := elements h - 1\<rparr> in
        if father \<noteq> mx
        then rbind (rd (heap_p h) mx) (\<lambda>e.
             rbind (wr (heap_p h) father e) (\<lambda>p.
             rbind (heap_insert malloc (of_nat father) None (h\<lparr>heap_p := p\<rparr>)) (\<lambda>(r, h). Inr h)))
        else Inr h))))"

fun heapify_from :: "heap_malloc \<Rightarrow> nat \<Rightarrow> nat \<Rightarrow> dn_heap \<Rightarrow> dn_heap res" where
  \<comment> \<open>\<open>n\<close> more turns of the loop from \<open>i\<close> on\<close>
  "heapify_from malloc 0 i h = Inr h"
| "heapify_from malloc (Suc n) i h =
     rbind (heap_insert malloc (of_nat i) None h) (\<lambda>(r, h). heapify_from malloc n (Suc i) h)"

definition heapify :: "heap_malloc \<Rightarrow> dn_heap \<Rightarrow> dn_heap res" where
  "heapify malloc h = heapify_from malloc (elements h) 0 h"

definition HEAP_SCAN_DEL :: u32 where "HEAP_SCAN_DEL = 1"
definition HEAP_SCAN_END :: u32 where "HEAP_SCAN_END = 2"

text \<open>The loop of \<open>heap_scan\<close>; the callback gets the object and changes a world.\<close>

definition scan_del :: "nat \<Rightarrow> dn_heap \<Rightarrow> dn_heap res" where
  "scan_del i h =
     (let h = h\<lparr>elements := elements h - 1\<rparr> in
      rbind (rd (heap_p h) (elements h)) (\<lambda>l. rbind (wr (heap_p h) i l) (\<lambda>p. Inr (h\<lparr>heap_p := p\<rparr>))))"

lemma scan_del_elements: "scan_del i h = Inr h' \<Longrightarrow> elements h' = elements h - 1"
  by (auto simp: scan_del_def Let_def rbind_eq_Inr_iff)

function scan_loop :: "(nat \<Rightarrow> 's \<Rightarrow> u32 \<times> 's) \<Rightarrow> nat \<Rightarrow> int \<Rightarrow> dn_heap \<Rightarrow> 's \<Rightarrow> (int \<times> dn_heap \<times> 's) res" where
  "scan_loop fn i found h s =
     (if i < elements h
      then rbind (rd (heap_p h) i) (\<lambda>e.
        case fn (de_object e) s of (ret, s) \<Rightarrow>
        if ret AND HEAP_SCAN_DEL \<noteq> 0
        then rbind (scan_del i h) (\<lambda>h.
             if ret AND HEAP_SCAN_END \<noteq> 0 then Inr (found + 1, h, s) else scan_loop fn i (found + 1) h s)
        else if ret AND HEAP_SCAN_END \<noteq> 0 then Inr (found, h, s) else scan_loop fn (i + 1) found h s)
      else Inr (found, h, s))"
  by pat_completeness auto
termination
  by (relation "measure (\<lambda>(fn, i, found, h, s). elements h - i)") (auto dest: scan_del_elements)

declare scan_loop.simps [simp del]

definition heap_scan :: "heap_malloc \<Rightarrow> (nat \<Rightarrow> 's \<Rightarrow> u32 \<times> 's) \<Rightarrow> dn_heap \<Rightarrow> 's \<Rightarrow> (int \<times> dn_heap \<times> 's) res" where
  "heap_scan malloc fn h s =
     rbind (scan_loop fn 0 0 h s) (\<lambda>(found, h, s).
     if found \<noteq> 0 then rbind (heapify malloc h) (\<lambda>h. Inr (found, h, s)) else Inr (found, h, s))"

definition heap_free :: "dn_heap \<Rightarrow> dn_heap" where
  "heap_free h = h\<lparr>heap_size := 0, elements := 0, heap_ofs := 0, heap_p := []\<rparr>"


section \<open>Keys in a window\<close>

text \<open>The keys are times that wrap around. \<open>DN_KEY_LT\<close> is an order on keys less than \<open>2 ^ 63\<close> apart:
  that of their distances from a base.\<close>

definition in_window :: "u64 \<Rightarrow> u64 \<Rightarrow> bool" where
  "in_window base k \<longleftrightarrow> unat (k - base) < 2 ^ 63"

definition rank :: "u64 \<Rightarrow> u64 \<Rightarrow> nat" where
  "rank base k = unat (k - base)"

lemma sint_diff_window:
  fixes x y :: u64
  assumes "unat x < 2 ^ 63" and "unat y < 2 ^ 63"
  shows "sint (x - y) = int (unat x) - int (unat y)"
proof -
  have "x - y = word_of_int (int (unat x) - int (unat y))" by simp
  then have "sint (x - y) = signed_take_bit 63 (int (unat x) - int (unat y))"
    by (simp only: signed_of_int) simp
  also have "\<dots> = int (unat x) - int (unat y)"
  proof (rule signed_take_bit_int_eq_self)
    have "int (unat x) < 2 ^ 63" "int (unat y) < 2 ^ 63" using assms by (metis of_nat_less_iff of_nat_numeral of_nat_power)+
    then show "- (2 ^ 63) \<le> int (unat x) - int (unat y)" "int (unat x) - int (unat y) < 2 ^ 63" by linarith+
  qed
  finally show ?thesis .
qed

lemma key_lt_rank:
  assumes "in_window base a" and "in_window base b"
  shows "DN_KEY_LT a b \<longleftrightarrow> rank base a < rank base b"
  using sint_diff_window[of "a - base" "b - base"] assms
  by (simp add: DN_KEY_LT_def in_window_def rank_def) (simp add: word_less_nat_alt flip: word_less_def)

section \<open>The order along the paths\<close>

text \<open>On the ranks by position, below \<open>n\<close>: in order; in order except that the position \<open>son\<close> may be too
  small; and in order around a hole.\<close>

definition ord_heap :: "nat \<Rightarrow> (nat \<Rightarrow> nat) \<Rightarrow> bool" where
  "ord_heap n r \<longleftrightarrow> (\<forall>i. 0 < i \<and> i < n \<longrightarrow> r (HEAP_FATHER i) \<le> r i)"

definition ord_up :: "nat \<Rightarrow> nat \<Rightarrow> (nat \<Rightarrow> nat) \<Rightarrow> bool" where
  "ord_up n son r \<longleftrightarrow>
     (\<forall>i. 0 < i \<and> i < n \<and> i \<noteq> son \<longrightarrow> r (HEAP_FATHER i) \<le> r i) \<and>
     (\<forall>i. 0 < i \<and> i < n \<and> HEAP_FATHER i = son \<and> 0 < son \<longrightarrow> r (HEAP_FATHER son) \<le> r i)"

definition ord_hole :: "nat \<Rightarrow> nat \<Rightarrow> (nat \<Rightarrow> nat) \<Rightarrow> bool" where
  "ord_hole n hole r \<longleftrightarrow>
     (\<forall>i. 0 < i \<and> i < n \<and> i \<noteq> hole \<and> HEAP_FATHER i \<noteq> hole \<longrightarrow> r (HEAP_FATHER i) \<le> r i) \<and>
     (\<forall>i. 0 < i \<and> i < n \<and> HEAP_FATHER i = hole \<and> 0 < hole \<longrightarrow> r (HEAP_FATHER hole) \<le> r i)"

lemma ord_up_done: "ord_up n son r \<Longrightarrow> son = 0 \<or> r (HEAP_FATHER son) \<le> r son \<Longrightarrow> ord_heap n r"
  unfolding ord_up_def ord_heap_def by (metis not_gr_zero)

lemma ord_up_swap:
  assumes "ord_up n son r" and "0 < son" and "son < n" and "r son \<le> r (HEAP_FATHER son)"
  shows "ord_up n (HEAP_FATHER son) (r(son := r (HEAP_FATHER son), HEAP_FATHER son := r son))"
proof -
  let ?f = "HEAP_FATHER son" let ?r = "r(son := r ?f, ?f := r son)"
  have f: "?f < son" using assms(2) by simp
  have 1: "r (HEAP_FATHER i) \<le> r i" if "0 < i" "i < n" "i \<noteq> son" for i using assms(1) that by (simp add: ord_up_def)
  have 2: "r ?f \<le> r i" if "0 < i" "i < n" "HEAP_FATHER i = son" for i using assms(1,2) that by (simp add: ord_up_def)
  have "?r (HEAP_FATHER i) \<le> ?r i" if i: "0 < i" "i < n" "i \<noteq> ?f" for i
  proof -
    consider "i = son" | "i \<noteq> son" "HEAP_FATHER i = son" | "i \<noteq> son" "HEAP_FATHER i = ?f" | "i \<noteq> son" "HEAP_FATHER i \<noteq> son" "HEAP_FATHER i \<noteq> ?f"
      by blast
    then show ?thesis
    proof cases
      case 3
      then have "r ?f \<le> r i" using 1[OF i(1,2)] by simp
      then show ?thesis using 3 i assms(4) by simp
    qed (use 1 2 i f assms(4) in auto)
  qed
  moreover have "?r (HEAP_FATHER ?f) \<le> ?r i" if i: "0 < i" "i < n" "HEAP_FATHER i = ?f" "0 < ?f" for i
  proof -
    have ff: "HEAP_FATHER ?f < ?f" using i(4) by simp
    have up: "r (HEAP_FATHER ?f) \<le> r ?f" using 1[of ?f] i(4) f assms(3) by simp
    have "i \<noteq> ?f" using father_less[OF i(1)] i(3) by auto
    moreover have "r ?f \<le> r i" if "i \<noteq> son" using 1[OF i(1,2) that] i(3) by simp
    ultimately show ?thesis using up ff f by (auto simp: order_trans)
  qed
  ultimately show ?thesis by (simp add: ord_up_def)
qed

lemma ord_heap_hole: "ord_heap n r \<Longrightarrow> hole < n \<Longrightarrow> ord_hole n hole r"
proof -
  assume o: "ord_heap n r" and h: "hole < n"
  have "r (HEAP_FATHER hole) \<le> r i" if "0 < i" "i < n" "HEAP_FATHER i = hole" "0 < hole" for i
  proof -
    have "r (HEAP_FATHER hole) \<le> r hole" using o h that(4) by (simp add: ord_heap_def)
    also have "\<dots> \<le> r i" using o that by (auto simp: ord_heap_def)
    finally show ?thesis .
  qed
  then show ?thesis using o by (simp add: ord_hole_def ord_heap_def)
qed

lemma ord_hole_down:
  assumes "ord_hole n hole r" and "c < n" and "HEAP_FATHER c = hole" and "0 < c" and "hole < c"
    and "\<And>i. 0 < i \<Longrightarrow> i < n \<Longrightarrow> HEAP_FATHER i = hole \<Longrightarrow> r c \<le> r i"
  shows "ord_hole n c (r(hole := r c))"
proof -
  let ?r = "r(hole := r c)"
  have 1: "r (HEAP_FATHER i) \<le> r i" if "0 < i" "i < n" "i \<noteq> hole" "HEAP_FATHER i \<noteq> hole" for i
    using assms(1) that by (simp add: ord_hole_def)
  have 2: "r (HEAP_FATHER hole) \<le> r c" if "0 < hole" using assms(1-4) that by (simp add: ord_hole_def)
  have "?r (HEAP_FATHER i) \<le> ?r i" if i: "0 < i" "i < n" "i \<noteq> c" "HEAP_FATHER i \<noteq> c" for i
  proof (cases "i = hole")
    case True
    then show ?thesis using 2 i(1) father_less[OF i(1)] by simp
  next
    case False
    then show ?thesis using 1 assms(6) i by (cases "HEAP_FATHER i = hole") auto
  qed
  moreover have "?r (HEAP_FATHER c) \<le> ?r i" if i: "0 < i" "i < n" "HEAP_FATHER i = c" for i
  proof -
    have "i \<noteq> hole" using father_less[OF i(1)] i(3) assms(5) by simp
    then show ?thesis using 1[OF i(1,2)] i(3) assms(3,5) by simp
  qed
  ultimately show ?thesis by (simp add: ord_hole_def)
qed


section \<open>Bubbling up\<close>

definition ranks :: "u64 \<Rightarrow> dn_heap \<Rightarrow> nat \<Rightarrow> nat" where
  "ranks base h i = rank base (de_key (heap_p h ! i))"

definition obj_at :: "dn_heap \<Rightarrow> nat \<Rightarrow> nat" where
  "obj_at h i = de_object (heap_p h ! i)"

definition windows :: "u64 \<Rightarrow> nat \<Rightarrow> dn_heap \<Rightarrow> bool" where
  "windows base n h \<longleftrightarrow> (\<forall>i<n. in_window base (de_key (heap_p h ! i)))"

text \<open>The objects at the positions \<open>S\<close> are different and know their positions, if they have a place for
  them.\<close>

definition distinct_at :: "dn_heap \<Rightarrow> nat set \<Rightarrow> bool" where
  "distinct_at h S \<longleftrightarrow> heap_ofs h \<le> 0 \<or> inj_on (obj_at h) S"

definition idx_at :: "dn_heap \<Rightarrow> nat set \<Rightarrow> bool" where
  "idx_at h S \<longleftrightarrow> heap_ofs h \<le> 0 \<or> (\<forall>i\<in>S. slots h (obj_at h i) = int i)"

text \<open>What rearranging the first \<open>n\<close> entries leaves alone.\<close>

definition rearranged :: "nat \<Rightarrow> dn_heap \<Rightarrow> dn_heap \<Rightarrow> bool" where
  "rearranged n h h' \<longleftrightarrow>
     mset (take n (heap_p h')) = mset (take n (heap_p h)) \<and> drop n (heap_p h') = drop n (heap_p h) \<and>
     length (heap_p h') = length (heap_p h) \<and>
     heap_size h' = heap_size h \<and> elements h' = elements h \<and> heap_ofs h' = heap_ofs h \<and>
     (\<forall>ob. ob \<notin> de_object ` set (take n (heap_p h)) \<longrightarrow> slots h' ob = slots h ob)"

lemma rearranged_refl [simp]: "rearranged n h h"
  by (simp add: rearranged_def)

lemma rearranged_trans: "rearranged n h h1 \<Longrightarrow> rearranged n h1 h2 \<Longrightarrow> rearranged n h h2"
  unfolding rearranged_def by (metis set_mset_mset)

definition set_off :: "nat \<Rightarrow> dn_heap \<Rightarrow> dn_heap" where
  "set_off i h = (if heap_ofs h > 0 then h\<lparr>slots := (slots h)(obj_at h i := int i)\<rparr> else h)"

lemma SET_OFFSET_in [simp]: "i < length (heap_p h) \<Longrightarrow> SET_OFFSET i h = Inr (set_off i h)"
  by (simp add: SET_OFFSET_def set_off_def obj_at_def)

lemma set_off_simps [simp]:
  "heap_p (set_off i h) = heap_p h" "heap_size (set_off i h) = heap_size h" "elements (set_off i h) = elements h"
  "heap_ofs (set_off i h) = heap_ofs h" "obj_at (set_off i h) = obj_at h" "ranks base (set_off i h) = ranks base h"
  "windows base n (set_off i h) = windows base n h" "distinct_at (set_off i h) S = distinct_at h S"
  by (auto simp: set_off_def obj_at_def ranks_def windows_def distinct_at_def fun_eq_iff inj_on_def)

lemma slots_set_off: "slots (set_off i h) = (if heap_ofs h > 0 then (slots h)(obj_at h i := int i) else slots h)"
  by (simp add: set_off_def)

lemma set_off_idx:
  assumes "idx_at h (S - {i})" and "distinct_at h (insert i S)"
  shows "idx_at (set_off i h) (insert i S)"
proof (cases "heap_ofs h > 0")
  case True
  then have "obj_at h j \<noteq> obj_at h i" if "j \<in> S" "j \<noteq> i" for j
    using assms(2) that by (auto simp: distinct_at_def inj_on_def)
  then show ?thesis using assms(1) True by (auto simp: idx_at_def set_off_def obj_at_def)
qed (simp add: idx_at_def)

lemma set_off_rearranged: "i < n \<Longrightarrow> n \<le> length (heap_p h) \<Longrightarrow> rearranged n h (set_off i h)"
proof -
  assume a: "i < n" "n \<le> length (heap_p h)"
  then have "heap_p h ! i \<in> set (take n (heap_p h))" by (auto simp: in_set_conv_nth intro!: exI[of _ i])
  then have "obj_at h i \<in> de_object ` set (take n (heap_p h))" by (simp add: obj_at_def)
  then show ?thesis by (auto simp: rearranged_def set_off_def)
qed

definition swap_entries :: "nat \<Rightarrow> nat \<Rightarrow> dn_heap \<Rightarrow> dn_heap" where
  "swap_entries i j h = h\<lparr>heap_p := (heap_p h)[i := heap_p h ! j, j := heap_p h ! i]\<rparr>"

lemma swap_entries_simps [simp]:
  "length (heap_p (swap_entries i j h)) = length (heap_p h)" "heap_size (swap_entries i j h) = heap_size h"
  "elements (swap_entries i j h) = elements h" "heap_ofs (swap_entries i j h) = heap_ofs h"
  "slots (swap_entries i j h) = slots h"
  by (simp_all add: swap_entries_def)

lemma swap_entries_at:
  assumes "i < length (heap_p h)" and "j < length (heap_p h)"
  shows "ranks base (swap_entries i j h) = (ranks base h)(i := ranks base h j, j := ranks base h i)"
    and "obj_at (swap_entries i j h) = (obj_at h)(i := obj_at h j, j := obj_at h i)"
  using assms by (auto simp: ranks_def obj_at_def swap_entries_def fun_eq_iff nth_list_update)

lemma swap_entries_rearranged:
  assumes "i < n" and "j < n" and "n \<le> length (heap_p h)"
  shows "rearranged n h (swap_entries i j h)"
proof -
  have "take n (heap_p (swap_entries i j h)) = (take n (heap_p h))[i := take n (heap_p h) ! j, j := take n (heap_p h) ! i]"
    using assms by (simp add: swap_entries_def take_update_swap)
  moreover have "mset \<dots> = mset (take n (heap_p h))" by (rule mset_swap) (use assms in simp_all)
  ultimately show ?thesis using assms by (simp add: rearranged_def swap_entries_def)
qed

lemma windows_rearranged:
  assumes "rearranged n h h'" and "windows base n h" and "n \<le> length (heap_p h)"
  shows "windows base n h'"
proof -
  have w: "\<forall>e \<in> set (take n (heap_p h)). in_window base (de_key e)"
    using assms(2,3) by (auto simp: windows_def in_set_conv_nth)
  have "set (take n (heap_p h')) = set (take n (heap_p h))" using assms(1) by (metis rearranged_def set_mset_mset)
  moreover have "heap_p h' ! i \<in> set (take n (heap_p h'))" if "i < n" for i
    using that assms(1,3) by (auto simp: in_set_conv_nth rearranged_def intro!: exI[of _ i])
  ultimately show ?thesis using w by (auto simp: windows_def)
qed

text \<open>\<open>heap_up\<close> restores the order when only \<open>son\<close> may be too small.\<close>

lemma heap_up_ok:
  assumes "n \<le> length (heap_p h)" and "son < n" and "windows base n h" and "ord_up n son (ranks base h)"
    and "idx_at h ({..<n} - {son})" and "distinct_at h {..<n}"
  shows "\<exists>h'. heap_up son h = Inr h' \<and> rearranged n h h' \<and> ord_heap n (ranks base h') \<and>
    idx_at h' {..<n} \<and> distinct_at h' {..<n}"
  using assms
proof (induction son h rule: heap_up.induct)
  case (1 son h)
  let ?f = "HEAP_FATHER son"
  note P = "1.prems"
  have son: "son < length (heap_p h)" using P by simp
  have ins: "insert son {..<n} = {..<n}" using P by auto
  have fn: "?f < n" using P(2) father_less[of son] by (cases "son = 0") (auto simp: HEAP_FATHER_def)
  have lt: "DN_KEY_LT (de_key (heap_p h ! ?f)) (de_key (heap_p h ! son)) \<longleftrightarrow> ranks base h ?f < ranks base h son"
    unfolding ranks_def by (rule key_lt_rank) (use P(2,3) fn in \<open>auto simp: windows_def\<close>)
  have fin: "idx_at (set_off son h) {..<n}" using set_off_idx[of h "{..<n}" son] P by (simp add: ins)
  show ?case
  proof (cases "0 < son \<and> \<not> DN_KEY_LT (de_key (heap_p h ! ?f)) (de_key (heap_p h ! son))")
    case False
    have "son = 0 \<or> ranks base h ?f \<le> ranks base h son"
      using False lt by auto
    then have o: "ord_heap n (ranks base h)" using ord_up_done P by blast
    have "heap_up son h = Inr (set_off son h)" using False son fn P(1) by (subst heap_up.simps) (auto simp: Let_def)
    then show ?thesis using o fin P set_off_rearranged by auto
  next
    case True
    then have f: "?f < son" "?f < length (heap_p h)" using P(1) fn by auto
    let ?h = "set_off son (swap_entries son ?f h)"
    have le: "ranks base h son \<le> ranks base h ?f"
      using True lt by simp
    have r: "rearranged n h ?h"
      using swap_entries_rearranged[of son n ?f h] set_off_rearranged[of son n "swap_entries son ?f h"] P f
      by (auto intro: rearranged_trans)
    have o: "ord_up n ?f (ranks base ?h)"
      using ord_up_swap[of n son "ranks base h"] P True le by (simp add: swap_entries_at son f)
    have dd: "distinct_at ?h {..<n}"
      using P f by (auto simp: distinct_at_def inj_on_def swap_entries_at son)
    have "obj_at h i \<noteq> obj_at h ?f" if "i < n" "i \<noteq> ?f" "heap_ofs h > 0" for i
      using that P f by (auto simp: distinct_at_def inj_on_def)
    then have ii: "idx_at ?h ({..<n} - {?f})"
      using P f by (auto simp: idx_at_def swap_entries_at son slots_set_off)
    have e: "heap_up son h = heap_up ?f ?h"
      using True son f by (subst heap_up.simps) (simp add: Let_def swap_entries_def)
    have "\<exists>h'. heap_up ?f ?h = Inr h' \<and> rearranged n ?h h' \<and> ord_heap n (ranks base h') \<and> idx_at h' {..<n} \<and> distinct_at h' {..<n}"
      by (rule "1.IH"[OF _ refl rd_in[OF f(2)] rd_in[OF son]])
        (use True son f P o dd ii windows_rearranged[OF r] in \<open>auto simp: swap_entries_def\<close>)
    then show ?thesis using e r rearranged_trans by fastforce
  qed
qed


section \<open>The invariant and insertion\<close>

definition heap_inv :: "u64 \<Rightarrow> dn_heap \<Rightarrow> bool" where
  "heap_inv base h \<longleftrightarrow>
     length (heap_p h) = heap_size h \<and> elements h \<le> heap_size h \<and> heap_size h < 2 ^ 31 \<and>
     windows base (elements h) h \<and> ord_heap (elements h) (ranks base h) \<and>
     idx_at h {..<elements h} \<and> distinct_at h {..<elements h}"

definition contents :: "dn_heap \<Rightarrow> dn_heap_entry multiset" where
  "contents h = mset (take (elements h) (heap_p h))"

definition objects :: "dn_heap \<Rightarrow> nat set" where
  "objects h = de_object ` set (take (elements h) (heap_p h))"

definition malloc_ok :: "heap_malloc \<Rightarrow> bool" where
  "malloc_ok malloc \<longleftrightarrow> (\<forall>n p. malloc n = Some p \<longrightarrow> length p = n)"

lemma or_bounds:
  fixes a b :: u32
  shows "unat a \<le> unat (a OR b)" and "unat a < 2 ^ 31 \<Longrightarrow> unat b < 2 ^ 31 \<Longrightarrow> unat (a OR b) < 2 ^ 31"
proof -
  have "uint a \<le> uint (a OR b)" unfolding unsigned_or_eq by (rule or_greater_eq) simp
  then show "unat a \<le> unat (a OR b)" by (simp flip: word_le_def add: word_le_nat_alt)
  have nat: "unat x < 2 ^ 31 \<longleftrightarrow> uint x < 2 ^ 31" for x :: u32
    unfolding uint_nat by (metis of_nat_less_iff of_nat_numeral of_nat_power)
  assume "unat a < 2 ^ 31" "unat b < 2 ^ 31"
  then have "uint (a OR b) < 2 ^ 31" unfolding nat unsigned_or_eq by (intro OR_upper) simp_all
  then show "unat (a OR b) < 2 ^ 31" unfolding nat .
qed

lemma or_drop_bounds:
  fixes a :: u32
  assumes "unat n \<le> unat a \<and> unat a < 2 ^ 31"
  shows "unat n \<le> unat (a OR drop_bit k a) \<and> unat (a OR drop_bit k a) < 2 ^ 31"
proof -
  have "unat (drop_bit k a) \<le> unat a" by (simp add: unat_drop)
  then have "unat (drop_bit k a) < 2 ^ 31" using assms by linarith
  then show ?thesis using assms or_bounds[of a "drop_bit k a"] by linarith
qed

lemma round_size_bounds: "unat n < 2 ^ 31 \<Longrightarrow> unat n \<le> unat (round_size n) \<and> unat (round_size n) < 2 ^ 31"
  unfolding round_size_def Let_def by (intro or_drop_bounds) simp

lemma heap_resize_ok:
  fixes h :: dn_heap
  defines "n \<equiv> of_nat (elements h + 16) :: u32"
  assumes "heap_inv base h" and "malloc_ok malloc" and "elements h = heap_size h" and "elements h + 16 < 2 ^ 31"
  shows "malloc (unat (round_size n)) = None \<Longrightarrow> heap_resize malloc n h = (1, h)"
    and "malloc (unat (round_size n)) = Some p \<Longrightarrow>
      \<exists>h'. heap_resize malloc n h = (0, h') \<and> length (heap_p h') = heap_size h' \<and> heap_size h' < 2 ^ 31 \<and>
       elements h < heap_size h' \<and> elements h' = elements h \<and> heap_ofs h' = heap_ofs h \<and> slots h' = slots h \<and>
       take (elements h) (heap_p h') = take (elements h) (heap_p h)"
proof -
  have n: "unat n = elements h + 16" unfolding n_def by (rule unat_of_nat_small) (use assms(5) in simp)
  have o: "unat (of_nat (heap_size h) :: u32) = heap_size h" by (rule unat_of_nat_small) (use assms(2) in \<open>simp add: heap_inv_def\<close>)
  have lt: "\<not> of_nat (heap_size h) \<ge> n" unfolding word_le_nat_alt n o using assms(4) by simp
  have b: "elements h + 16 \<le> unat (round_size n)" "unat (round_size n) < 2 ^ 31"
    using round_size_bounds[of n] assms(5) by (simp_all only: n)
  have l: "length (heap_p h) = heap_size h" using assms(2) by (simp add: heap_inv_def)
  show "malloc (unat (round_size n)) = None \<Longrightarrow> heap_resize malloc n h = (1, h)"
    using lt by (simp add: heap_resize_def)
  assume "malloc (unat (round_size n)) = Some p"
  moreover from this have "length p = unat (round_size n)" using assms(3) by (simp add: malloc_ok_def)
  ultimately show "\<exists>h'. heap_resize malloc n h = (0, h') \<and> length (heap_p h') = heap_size h' \<and> heap_size h' < 2 ^ 31 \<and>
       elements h < heap_size h' \<and> elements h' = elements h \<and> heap_ofs h' = heap_ofs h \<and> slots h' = slots h \<and>
       take (elements h) (heap_p h') = take (elements h) (heap_p h)"
    using lt b l assms(4) by (auto simp: heap_resize_def Let_def)
qed

text \<open>An entry written behind the last one.\<close>

lemma append_entry:
  assumes "length (heap_p h) = heap_size h" and "heap_size h < 2 ^ 31" and "elements h < heap_size h"
    and "windows base (elements h) h" and "ord_heap (elements h) (ranks base h)"
    and "idx_at h {..<elements h}" and "distinct_at h {..<elements h}"
    and "in_window base (de_key e)" and "heap_ofs h > 0 \<Longrightarrow> de_object e \<notin> objects h"
  shows "\<exists>h'. heap_up (elements h) (h\<lparr>heap_p := (heap_p h)[elements h := e], elements := Suc (elements h)\<rparr>) = Inr h' \<and>
    heap_inv base h' \<and> contents h' = add_mset e (contents h) \<and> heap_ofs h' = heap_ofs h"
proof -
  let ?n = "elements h"
  let ?h = "h\<lparr>heap_p := (heap_p h)[?n := e], elements := Suc ?n\<rparr>"
  have l: "?n < length (heap_p h)" using assms(1,3) by simp
  have r: "ranks base ?h = (ranks base h)(?n := rank base (de_key e))" "obj_at ?h = (obj_at h)(?n := de_object e)"
    using l by (auto simp: ranks_def obj_at_def fun_eq_iff nth_list_update)
  have ob: "obj_at h i \<in> objects h" if "i < ?n" for i
    using that l by (auto simp: obj_at_def objects_def in_set_conv_nth intro!: imageI exI[of _ i])
  have "HEAP_FATHER i < ?n" if "i < ?n" for i using that by (auto simp: HEAP_FATHER_def)
  moreover have "HEAP_FATHER i \<noteq> ?n" if "i < Suc ?n" "0 < i" for i using father_less[OF that(2)] that(1) by simp
  ultimately have "ord_up (Suc ?n) ?n (ranks base ?h)"
    using assms(5) by (auto simp: ord_up_def ord_heap_def r less_Suc_eq)
  moreover have "windows base (Suc ?n) ?h" using assms(4,8) l by (auto simp: windows_def less_Suc_eq nth_list_update)
  moreover have "{..<Suc ?n} - {?n} = {..<?n}" by auto
  then have "idx_at ?h ({..<Suc ?n} - {?n})" using assms(6) by (auto simp: idx_at_def r)
  moreover have "distinct_at ?h {..<Suc ?n}"
    using assms(7,9) ob unfolding distinct_at_def r lessThan_Suc by (auto simp: inj_on_def) (metis ob)+
  ultimately obtain h' where h': "heap_up ?n ?h = Inr h'" "rearranged (Suc ?n) ?h h'" "ord_heap (Suc ?n) (ranks base h')"
    "idx_at h' {..<Suc ?n}" "distinct_at h' {..<Suc ?n}"
    using heap_up_ok[of "Suc ?n" ?h ?n base] l by auto
  have "windows base (Suc ?n) h'" by (rule windows_rearranged[OF h'(2)]) (use \<open>windows base (Suc ?n) ?h\<close> l in simp_all)
  moreover have "mset (take (Suc ?n) ((heap_p h)[?n := e])) = add_mset e (mset (take ?n (heap_p h)))"
    using l by (simp add: take_Suc_conv_app_nth)
  ultimately show ?thesis using h' assms(1-3) by (auto simp: heap_inv_def contents_def rearranged_def)
qed

lemma heap_insert_ok:
  assumes "heap_inv base h" and "malloc_ok malloc" and "elements h + 16 < 2 ^ 31" and "in_window base key1"
    and "heap_ofs h > 0 \<Longrightarrow> ob \<notin> objects h"
  shows "heap_insert malloc key1 (Some ob) h = Inr (1, h) \<and> elements h = heap_size h \<and>
           malloc (unat (round_size (of_nat (elements h + 16)))) = None \<or>
    (\<exists>h'. heap_insert malloc key1 (Some ob) h = Inr (0, h') \<and> heap_inv base h' \<and> heap_ofs h' = heap_ofs h \<and>
       contents h' = add_mset \<lparr>de_key = key1, de_object = ob\<rparr> (contents h))"
proof (cases "elements h = heap_size h \<and> malloc (unat (round_size (of_nat (elements h + 16)))) = None")
  case True
  then have "(if elements h = heap_size h then heap_resize malloc (of_nat (elements h + 16)) h else (0, h)) = (1, h)"
    using heap_resize_ok(1)[OF assms(1,2) _ assms(3)] by auto
  then show ?thesis using True by (simp only: heap_insert_def Let_def option.case) auto
next
  case False
  let ?e = "\<lparr>de_key = key1, de_object = ob\<rparr>"
  obtain h1 where h1: "(if elements h = heap_size h then heap_resize malloc (of_nat (elements h + 16)) h else (0, h)) = (0, h1)"
    and s: "length (heap_p h1) = heap_size h1" "heap_size h1 < 2 ^ 31" "elements h < heap_size h1" "elements h1 = elements h"
      "heap_ofs h1 = heap_ofs h" "slots h1 = slots h" "take (elements h) (heap_p h1) = take (elements h) (heap_p h)"
  proof (cases "elements h = heap_size h")
    case True
    then obtain p where "malloc (unat (round_size (of_nat (elements h + 16)))) = Some p" using False by auto
    from heap_resize_ok(2)[OF assms(1,2) True assms(3) this] show ?thesis using that True by auto
  next
    case False
    show ?thesis by (rule that[of h]) (use assms(1) False in \<open>simp_all add: heap_inv_def\<close>)
  qed
  have p: "heap_p h1 ! i = heap_p h ! i" if "i < elements h" for i using s(7) that by (metis nth_take)
  have r: "ranks base h1 i = ranks base h i" "obj_at h1 i = obj_at h i" if "i < elements h" for i
    using p[OF that] by (simp_all add: ranks_def obj_at_def)
  have f: "HEAP_FATHER i < elements h" if "i < elements h" for i using that by (auto simp: HEAP_FATHER_def)
  have "\<exists>h'. heap_up (elements h1) (h1\<lparr>heap_p := (heap_p h1)[elements h1 := ?e], elements := Suc (elements h1)\<rparr>) = Inr h' \<and>
    heap_inv base h' \<and> contents h' = add_mset ?e (contents h1) \<and> heap_ofs h' = heap_ofs h1"
    by (rule append_entry)
      (use assms s p r f in \<open>auto simp: heap_inv_def windows_def ord_heap_def idx_at_def distinct_at_def inj_on_def objects_def\<close>)
  then show ?thesis using h1 s by (auto simp: heap_insert_def Let_def contents_def)
qed

section \<open>Extraction\<close>

text \<open>A hole that moves takes nothing with it: the entries at the other positions stay the same, up to
  their order.\<close>

definition moved :: "nat \<Rightarrow> nat \<Rightarrow> dn_heap \<Rightarrow> nat \<Rightarrow> dn_heap \<Rightarrow> bool" where
  "moved n hole h hole' h' \<longleftrightarrow>
     mset (take n (heap_p h')) - {#heap_p h' ! hole'#} = mset (take n (heap_p h)) - {#heap_p h ! hole#} \<and>
     length (heap_p h') = length (heap_p h) \<and> heap_size h' = heap_size h \<and> elements h' = elements h \<and>
     heap_ofs h' = heap_ofs h \<and> obj_at h' ` ({..<n} - {hole'}) \<subseteq> obj_at h ` ({..<n} - {hole}) \<and>
     (\<forall>ob. ob \<notin> obj_at h ` ({..<n} - {hole}) \<longrightarrow> slots h' ob = slots h ob)"

definition hole_inv :: "u64 \<Rightarrow> nat \<Rightarrow> nat \<Rightarrow> dn_heap \<Rightarrow> bool" where
  "hole_inv base n hole h \<longleftrightarrow> n \<le> length (heap_p h) \<and> hole < n \<and> windows base n h \<and> ord_hole n hole (ranks base h) \<and>
     idx_at h ({..<n} - {hole}) \<and> distinct_at h ({..<n} - {hole})"

definition fill :: "nat \<Rightarrow> nat \<Rightarrow> dn_heap \<Rightarrow> dn_heap" where
  "fill i j h = set_off i (h\<lparr>heap_p := (heap_p h)[i := heap_p h ! j]\<rparr>)"

lemma fill_simps [simp]:
  "heap_p (fill i j h) = (heap_p h)[i := heap_p h ! j]" "heap_size (fill i j h) = heap_size h"
  "elements (fill i j h) = elements h" "heap_ofs (fill i j h) = heap_ofs h"
  by (simp_all add: fill_def)

lemma fill_at:
  assumes "i < length (heap_p h)"
  shows "ranks base (fill i j h) = (ranks base h)(i := ranks base h j)" "obj_at (fill i j h) = (obj_at h)(i := obj_at h j)"
    "slots (fill i j h) = (if heap_ofs h > 0 then (slots h)(obj_at h j := int i) else slots h)"
  using assms by (auto simp: ranks_def obj_at_def fill_def slots_set_off fun_eq_iff nth_list_update)

lemma HEAP_FATHER_iff: "0 < i \<Longrightarrow> HEAP_FATHER i = f \<longleftrightarrow> i = HEAP_LEFT f \<or> i = HEAP_LEFT f + 1"
  unfolding HEAP_FATHER_def HEAP_LEFT_def by presburger

lemma min_child_ok:
  assumes "Suc mx \<le> length (heap_p h)" and "windows base (Suc mx) h" and "HEAP_LEFT father \<le> mx"
  shows "\<exists>c. min_child mx (HEAP_LEFT father) h = Inr c \<and> c < Suc mx \<and> HEAP_FATHER c = father \<and> 0 < c \<and> father < c \<and>
    (\<forall>i. 0 < i \<longrightarrow> i < Suc mx \<longrightarrow> HEAP_FATHER i = father \<longrightarrow> ranks base h c \<le> ranks base h i)"
proof -
  let ?l = "HEAP_LEFT father"
  have f: "HEAP_FATHER ?l = father" "HEAP_FATHER (?l + 1) = father" "0 < ?l" "father < ?l"
    by (auto simp: HEAP_FATHER_def HEAP_LEFT_def)
  show ?thesis
  proof (cases "?l = mx")
    case True
    then show ?thesis using f assms by (auto simp: min_child_def HEAP_FATHER_iff)
  next
    case False
    have lt: "DN_KEY_LT (de_key (heap_p h ! (?l + 1))) (de_key (heap_p h ! ?l)) \<longleftrightarrow> ranks base h (?l + 1) < ranks base h ?l"
      unfolding ranks_def by (rule key_lt_rank) (use assms False in \<open>auto simp: windows_def\<close>)
    have "min_child mx ?l h = Inr (if ranks base h (?l + 1) < ranks base h ?l then ?l + 1 else ?l)"
      using False assms lt by (simp add: min_child_def)
    then show ?thesis using f False assms(3)
      by (intro exI[of _ "if ranks base h (?l + 1) < ranks base h ?l then ?l + 1 else ?l"]) (auto simp: HEAP_FATHER_iff)
  qed
qed

lemma fill_objs:
  assumes "hole < length (heap_p h)" and "c < n" and "c \<noteq> hole"
  shows "obj_at (fill hole c h) ` ({..<n} - {c}) \<subseteq> obj_at h ` ({..<n} - {hole})"
  using assms by (auto simp: fill_at)

lemma fill_moves:
  assumes "hole_inv base n hole h" and "c < n" and "c \<noteq> hole"
  shows "moved n hole h c (fill hole c h)"
proof -
  have l: "hole < n" "n \<le> length (heap_p h)" using assms(1) by (simp_all add: hole_inv_def)
  have t: "take n (heap_p (fill hole c h)) = (take n (heap_p h))[hole := heap_p h ! c]"
    using l by (simp add: take_update_swap)
  have m: "heap_p h ! hole \<in># mset (take n (heap_p h))" using l by (auto simp: in_set_conv_nth intro!: exI[of _ hole])
  have "mset (take n (heap_p (fill hole c h))) = add_mset (heap_p h ! c) (mset (take n (heap_p h)) - {#heap_p h ! hole#})"
    unfolding t by (subst mset_update) (use l in simp_all)
  moreover have "heap_p (fill hole c h) ! c = heap_p h ! c" using assms(3) by simp
  ultimately have "mset (take n (heap_p (fill hole c h))) - {#heap_p (fill hole c h) ! c#} = mset (take n (heap_p h)) - {#heap_p h ! hole#}"
    by simp
  moreover have "slots (fill hole c h) ob = slots h ob" if "ob \<notin> obj_at h ` ({..<n} - {hole})" for ob
  proof -
    have "ob \<noteq> obj_at h c" using that assms(2,3) by auto
    then show ?thesis using l by (simp add: fill_at)
  qed
  moreover have "obj_at (fill hole c h) ` ({..<n} - {c}) \<subseteq> obj_at h ` ({..<n} - {hole})"
    by (rule fill_objs) (use l assms(2,3) in simp_all)
  ultimately show ?thesis by (simp add: moved_def)
qed

lemma fill_hole_inv:
  assumes "hole_inv base n hole h" and "c < n" and "HEAP_FATHER c = hole" and "0 < c" and "hole < c"
    and "\<forall>i. 0 < i \<longrightarrow> i < n \<longrightarrow> HEAP_FATHER i = hole \<longrightarrow> ranks base h c \<le> ranks base h i"
  shows "hole_inv base n c (fill hole c h)"
proof -
  have l: "hole < length (heap_p h)" "hole < n" "n \<le> length (heap_p h)" using assms(1) by (auto simp: hole_inv_def)
  have i: "idx_at h ({..<n} - {hole})" "distinct_at h ({..<n} - {hole})" and w: "windows base n h"
    and o: "ord_hole n hole (ranks base h)" using assms(1) by (simp_all add: hole_inv_def)
  have "ord_hole n c (ranks base (fill hole c h))" unfolding fill_at(1)[OF l(1)]
    by (rule ord_hole_down) (use assms o in auto)
  moreover have "windows base n (fill hole c h)" using w assms(2) l by (auto simp: windows_def nth_list_update)
  moreover have dd: "distinct_at (fill hole c h) ({..<n} - {c})"
    using i(2) assms(2,5) by (auto simp: distinct_at_def fill_at[OF l(1)] inj_on_def)
  moreover have "obj_at h j \<noteq> obj_at h c" if "j < n" "j \<noteq> hole" "j \<noteq> c" "heap_ofs h > 0" for j
    using i(2) that assms(2,5) by (auto simp: distinct_at_def inj_on_def)
  then have "idx_at (fill hole c h) ({..<n} - {c})" using i(1) by (auto simp: idx_at_def fill_at[OF l(1)])
  ultimately show ?thesis using assms(2) l by (simp add: hole_inv_def)
qed

lemma moved_trans:
  assumes "moved n a h b h1" and "moved n b h1 c h2"
  shows "moved n a h c h2"
proof -
  have "slots h2 ob = slots h ob" if "ob \<notin> obj_at h ` ({..<n} - {a})" for ob
    using assms that unfolding moved_def by (metis subsetD)
  moreover have "obj_at h2 ` ({..<n} - {c}) \<subseteq> obj_at h ` ({..<n} - {a})"
    using assms unfolding moved_def by (metis subset_trans)
  ultimately show ?thesis using assms by (simp add: moved_def)
qed

lemma heap_down_ok:
  assumes "hole_inv base (Suc mx) hole h"
  shows "\<exists>hole' h'. heap_down mx hole h = Inr (hole', h') \<and> hole_inv base (Suc mx) hole' h' \<and> mx < HEAP_LEFT hole' \<and>
    moved (Suc mx) hole h hole' h'"
  using assms
proof (induction mx hole h rule: heap_down.induct)
  case (1 mx father h)
  have l: "father < length (heap_p h)" "Suc mx \<le> length (heap_p h)" using "1.prems" by (auto simp: hole_inv_def)
  show ?case
  proof (cases "HEAP_LEFT father \<le> mx")
    case False
    then show ?thesis using "1.prems" by (subst heap_down.simps) (auto simp: moved_def)
  next
    case True
    obtain c where c: "min_child mx (HEAP_LEFT father) h = Inr c" "c < Suc mx" "HEAP_FATHER c = father" "0 < c" "father < c"
      "\<forall>i. 0 < i \<longrightarrow> i < Suc mx \<longrightarrow> HEAP_FATHER i = father \<longrightarrow> ranks base h c \<le> ranks base h i"
      using min_child_ok[of mx h base father] True "1.prems" by (auto simp: hole_inv_def)
    have cl: "c < length (heap_p h)" using c(2) l by simp
    have e: "heap_down mx father h = heap_down mx c (fill father c h)"
      using True c(1) cl l by (subst heap_down.simps) (simp add: fill_def)
    obtain hole' h' where h': "heap_down mx c (fill father c h) = Inr (hole', h')" "hole_inv base (Suc mx) hole' h'"
      "mx < HEAP_LEFT hole'" "moved (Suc mx) c (fill father c h) hole' h'"
      using "1.IH"[OF True c(1) rd_in[OF cl] wr_in[OF l(1)], of "fill father c h"] fill_hole_inv[OF "1.prems" c(2-6)] l
      by (auto simp: fill_def)
    have "moved (Suc mx) father h hole' h'"
      by (rule moved_trans[OF fill_moves[OF "1.prems" c(2)] h'(4)]) (use c in auto)
    then show ?thesis using e h' by auto
  qed
qed

lemma RESET_OFFSET_in:
  "i < length (heap_p h) \<Longrightarrow>
   RESET_OFFSET i h = Inr (if heap_ofs h > 0 then h\<lparr>slots := (slots h)(obj_at h i := - 16)\<rparr> else h)"
  by (simp add: RESET_OFFSET_def obj_at_def)

lemma heap_inv_hole:
  assumes "heap_inv base h" and "i < elements h"
  defines "h1 \<equiv> (if heap_ofs h > 0 then h\<lparr>slots := (slots h)(obj_at h i := - 16)\<rparr> else h)"
  shows "hole_inv base (elements h) i h1" and "heap_ofs h > 0 \<Longrightarrow> obj_at h i \<notin> obj_at h1 ` ({..<elements h} - {i})"
proof -
  let ?n = "elements h"
  have s: "heap_p h1 = heap_p h" "heap_ofs h1 = heap_ofs h" "obj_at h1 = obj_at h" "ranks base h1 = ranks base h"
    by (auto simp: h1_def obj_at_def ranks_def fun_eq_iff)
  have ne: "obj_at h j \<noteq> obj_at h i" if "j < ?n" "j \<noteq> i" "heap_ofs h > 0" for j
    using assms(1,2) that by (auto simp: heap_inv_def distinct_at_def inj_on_def)
  show "heap_ofs h > 0 \<Longrightarrow> obj_at h i \<notin> obj_at h1 ` ({..<?n} - {i})"
    unfolding s by (rule notI) (erule imageE, drule sym, simp add: ne)
  have "idx_at h1 ({..<?n} - {i})" using assms(1) ne unfolding idx_at_def s by (auto simp: heap_inv_def idx_at_def h1_def)
  moreover have "distinct_at h1 ({..<?n} - {i})" using assms(1) unfolding distinct_at_def s
    by (auto simp: heap_inv_def distinct_at_def inj_on_def)
  moreover have "ord_hole ?n i (ranks base h1)" using ord_heap_hole assms(1,2) by (simp add: heap_inv_def s)
  ultimately show "hole_inv base ?n i h1" using assms(1,2) by (auto simp: hole_inv_def heap_inv_def windows_def s)
qed

text \<open>The hole has reached a leaf: it is the last entry, or is filled with the last entry.\<close>

lemma objs_take: "n \<le> length (heap_p h) \<Longrightarrow> de_object ` set (take n (heap_p h)) = obj_at h ` {..<n}"
  by (simp add: nth_image[symmetric] image_image obj_at_def lessThan_atLeast0)

lemma mset_take_last:
  "mx < length p \<Longrightarrow> mset (take (Suc mx) p) = add_mset (p ! mx) (mset (take mx p))"
  by (simp add: take_Suc_conv_app_nth)

lemma hole_last:
  assumes "hole_inv base (Suc mx) mx h" and "length (heap_p h) = heap_size h" and "heap_size h < 2 ^ 31" and "elements h = Suc mx"
  shows "heap_inv base (h\<lparr>elements := mx\<rparr>)" and "contents (h\<lparr>elements := mx\<rparr>) = mset (take (Suc mx) (heap_p h)) - {#heap_p h ! mx#}"
proof -
  have r: "ranks base (h\<lparr>elements := mx\<rparr>) = ranks base h" "obj_at (h\<lparr>elements := mx\<rparr>) = obj_at h" "{..<Suc mx} - {mx} = {..<mx}"
    by (auto simp: ranks_def obj_at_def fun_eq_iff)
  have "HEAP_FATHER i \<noteq> mx" if "i < mx" for i using that by (auto simp: HEAP_FATHER_def)
  then have "ord_heap mx (ranks base h)" using assms(1) by (auto simp: hole_inv_def ord_hole_def ord_heap_def)
  then show "heap_inv base (h\<lparr>elements := mx\<rparr>)"
    using assms by (auto simp: heap_inv_def hole_inv_def windows_def idx_at_def distinct_at_def r)
  show "contents (h\<lparr>elements := mx\<rparr>) = mset (take (Suc mx) (heap_p h)) - {#heap_p h ! mx#}"
    using assms(1) mset_take_last[of mx "heap_p h"] by (simp add: hole_inv_def contents_def)
qed

lemma hole_filled:
  assumes "hole_inv base (Suc mx) hole h" and "hole \<noteq> mx" and "mx < HEAP_LEFT hole"
    and "length (heap_p h) = heap_size h" and "heap_size h < 2 ^ 31" and "elements h = Suc mx"
  defines "h3 \<equiv> h\<lparr>elements := mx, heap_p := (heap_p h)[hole := heap_p h ! mx]\<rparr>"
  shows "\<exists>h'. heap_up hole h3 = Inr h' \<and> heap_inv base h' \<and> heap_ofs h' = heap_ofs h \<and> elements h' = mx \<and>
    contents h' = mset (take (Suc mx) (heap_p h)) - {#heap_p h ! hole#} \<and>
    (\<forall>ob. ob \<notin> obj_at h ` ({..<Suc mx} - {hole}) \<longrightarrow> slots h' ob = slots h ob)"
proof -
  have l: "hole < mx" "mx < length (heap_p h)" using assms(1,2) by (auto simp: hole_inv_def)
  have r: "ranks base h3 = (ranks base h)(hole := ranks base h mx)" "obj_at h3 = (obj_at h)(hole := obj_at h mx)"
    "slots h3 = slots h" "heap_ofs h3 = heap_ofs h"
    using l by (auto simp: h3_def ranks_def obj_at_def fun_eq_iff nth_list_update)
  have nf: "HEAP_FATHER i \<noteq> hole" if "0 < i" "i < mx" for i using that assms(3) by (auto simp: HEAP_FATHER_iff)
  then have "ord_up mx hole (ranks base h3)" using assms(1) by (auto simp: hole_inv_def ord_hole_def ord_up_def r)
  moreover have w: "windows base mx h3" using assms(1) l by (auto simp: hole_inv_def windows_def h3_def nth_list_update)
  moreover have "idx_at h3 ({..<mx} - {hole})" using assms(1) by (auto simp: hole_inv_def idx_at_def r)
  moreover have "obj_at h i \<noteq> obj_at h mx" if "i < mx" "i \<noteq> hole" "heap_ofs h > 0" for i
    using assms(1) l that by (auto simp: hole_inv_def distinct_at_def dest!: inj_onD[where x = i and y = mx])
  then have "distinct_at h3 {..<mx}" using assms(1) by (fastforce simp: hole_inv_def distinct_at_def inj_on_def r)
  ultimately obtain h' where h': "heap_up hole h3 = Inr h'" "rearranged mx h3 h'" "ord_heap mx (ranks base h')"
    "idx_at h' {..<mx}" "distinct_at h' {..<mx}"
    using heap_up_ok[of mx h3 hole base] l by (auto simp: h3_def)
  have w': "windows base mx h'" by (rule windows_rearranged[OF h'(2) w]) (use l in \<open>simp add: h3_def\<close>)
  have m: "heap_p h ! hole \<in># mset (take mx (heap_p h))" using l by (auto simp: in_set_conv_nth intro!: exI[of _ hole])
  have "mset (take mx (heap_p h3)) = add_mset (heap_p h ! mx) (mset (take mx (heap_p h)) - {#heap_p h ! hole#})"
    unfolding h3_def using l by (simp add: take_update_swap) (subst mset_update, simp_all)
  also have "\<dots> = mset (take (Suc mx) (heap_p h)) - {#heap_p h ! hole#}" using m mset_take_last[OF l(2)] by simp
  finally have c: "mset (take mx (heap_p h')) = mset (take (Suc mx) (heap_p h)) - {#heap_p h ! hole#}"
    using h'(2) by (simp add: rearranged_def)
  have "de_object ` set (take mx (heap_p h3)) = obj_at h3 ` {..<mx}" by (rule objs_take) (use l in \<open>simp add: h3_def\<close>)
  also have "\<dots> \<subseteq> obj_at h ` ({..<Suc mx} - {hole})" using l by (auto simp: r)
  finally have "slots h' ob = slots h ob" if "ob \<notin> obj_at h ` ({..<Suc mx} - {hole})" for ob
    using h'(2) that r(3) unfolding rearranged_def by (metis subsetD)
  then show ?thesis using h' w' c assms(4,5) l by (auto simp: heap_inv_def rearranged_def contents_def h3_def)
qed

lemma int_of_position: "n < 2 ^ 31 \<Longrightarrow> sint (ucast (of_nat n :: u64) :: u32) = int n"
proof -
  assume n: "n < 2 ^ 31"
  have "(ucast (of_nat n :: u64) :: u32) = of_nat n"
    by (simp add: word_unat_eq_iff unsigned_ucast_eq unsigned_of_nat take_bit_nat_eq_self n[THEN less_trans])
  then show ?thesis using sint_of_nat_small[of n, where 'a = 32] n by simp
qed

lemma heap_insert_position:
  assumes "n < 2 ^ 31"
  shows "heap_insert malloc (of_nat n) None h = rbind (heap_up n h) (\<lambda>h. Inr (0, h))"
  using int_of_position[OF assms] by (simp add: heap_insert_def)

lemma heap_extract_ok:
  assumes "heap_inv base h" and "i < elements h"
    and "obj = None \<and> i = 0 \<or> obj = Some (obj_at h i) \<and> heap_ofs h > 0"
  shows "\<exists>h'. heap_extract malloc obj h = Inr h' \<and> heap_inv base h' \<and> heap_ofs h' = heap_ofs h \<and>
    Suc (elements h') = elements h \<and> contents h' = contents h - {#heap_p h ! i#} \<and>
    (heap_ofs h > 0 \<longrightarrow> slots h' (obj_at h i) = - 16)"
proof -
  define mx where "mx = elements h - 1"
  have n: "elements h = Suc mx" using assms(2) by (simp add: mx_def)
  define h1 where "h1 = (if heap_ofs h > 0 then h\<lparr>slots := (slots h)(obj_at h i := - 16)\<rparr> else h)"
  have s1: "heap_p h1 = heap_p h" "heap_ofs h1 = heap_ofs h" "elements h1 = elements h" "heap_size h1 = heap_size h"
    "heap_ofs h > 0 \<Longrightarrow> slots h1 (obj_at h i) = - 16" by (auto simp: h1_def)
  have sz: "length (heap_p h) = heap_size h" "heap_size h < 2 ^ 31" "i < length (heap_p h)" "Suc mx \<le> heap_size h"
    using assms(1,2) n by (auto simp: heap_inv_def)
  have "slots h (obj_at h i) = int i" if "heap_ofs h > 0" using assms(1,2) that by (auto simp: heap_inv_def idx_at_def)
  then have f: "(case obj of None \<Rightarrow> Inr 0
               | Some ob \<Rightarrow> if heap_ofs h \<le> 0 then Inl Abort
                   else if slots h ob < 0 \<or> slots h ob \<ge> int (elements h) then Inl Abort
                   else Inr (nat (slots h ob))) = Inr i"
    using assms(2,3) by auto
  note hole = heap_inv_hole[OF assms(1,2), folded h1_def, unfolded n]
  obtain hole' h2 where h2: "heap_down mx i h1 = Inr (hole', h2)" "hole_inv base (Suc mx) hole' h2" "mx < HEAP_LEFT hole'"
    "moved (Suc mx) i h1 hole' h2" using heap_down_ok[OF hole(1)] by auto
  have s2: "length (heap_p h2) = heap_size h2" "heap_size h2 < 2 ^ 31" "elements h2 = Suc mx" "heap_ofs h2 = heap_ofs h"
    "mset (take (Suc mx) (heap_p h2)) - {#heap_p h2 ! hole'#} = contents h - {#heap_p h ! i#}"
    using h2(4) s1 sz n by (auto simp: moved_def contents_def)
  have sl: "obj_at h i \<notin> obj_at h2 ` ({..<Suc mx} - {hole'})" "slots h2 (obj_at h i) = - 16" if "heap_ofs h > 0"
    using h2(4) hole(2)[OF that] s1(5)[OF that] by (auto simp: moved_def)
  have hl: "hole' < Suc mx" "hole' < length (heap_p h2)" "mx < length (heap_p h2)" "hole' < 2 ^ 31"
    using h2(2) s2(1,2) by (auto simp: hole_inv_def)
  have e: "heap_extract malloc obj h = (if hole' \<noteq> mx
      then rbind (heap_up hole' (h2\<lparr>elements := mx, heap_p := (heap_p h2)[hole' := heap_p h2 ! mx]\<rparr>)) (\<lambda>h. Inr h)
      else Inr (h2\<lparr>elements := mx\<rparr>))"
    using n f h2(1) s2(3) hl RESET_OFFSET_in[OF sz(3)]
    by (simp add: heap_extract_def Let_def h1_def heap_insert_position[OF hl(4)] rbind_assoc)
  show ?thesis
  proof (cases "hole' = mx")
    case True
    then show ?thesis using e hole_last[of base mx h2] h2(2) s2 sl n by auto
  next
    case False
    then show ?thesis using e hole_filled[OF h2(2) False h2(3) s2(1-3)] s2(4,5) sl n by auto
  qed
qed

text \<open>The first entry has a smallest key.\<close>

lemma ord_heap_root: "ord_heap n r \<Longrightarrow> i < n \<Longrightarrow> r 0 \<le> r i"
proof (induction i rule: less_induct)
  case (less i)
  show ?case
  proof (cases "i = 0")
    case False
    then have "r 0 \<le> r (HEAP_FATHER i)" using less.IH[of "HEAP_FATHER i"] less.prems less_trans[OF father_less[of i]] by simp
    also have "\<dots> \<le> r i" using less.prems False by (simp add: ord_heap_def)
    finally show ?thesis .
  qed simp
qed

lemma heap_top_min:
  assumes "heap_inv base h" and "e \<in># contents h"
  shows "rank base (de_key (heap_p h ! 0)) \<le> rank base (de_key e)"
proof -
  obtain i where i: "i < elements h" "e = heap_p h ! i"
    using assms by (auto simp: contents_def in_set_conv_nth)
  then show ?thesis using ord_heap_root[of "elements h" "ranks base h" i] assms(1) by (simp add: heap_inv_def ranks_def)
qed

section \<open>Scanning\<close>

lemma distinct_at_iff:
  "n \<le> length (heap_p h) \<Longrightarrow> distinct_at h {..<n} \<longleftrightarrow> heap_ofs h \<le> 0 \<or> distinct (map de_object (take n (heap_p h)))"
  by (auto simp: distinct_at_def obj_at_def distinct_conv_nth inj_on_def)

lemma rearranged_extend:
  assumes "rearranged k h h'" and "k \<le> n"
  shows "mset (take n (heap_p h')) = mset (take n (heap_p h))"
proof -
  have "take n xs = take k xs @ take (n - k) (drop k xs)" for xs :: "dn_heap_entry list"
    using assms(2) by (metis take_add le_add_diff_inverse)
  then show ?thesis using assms(1) by (simp add: rearranged_def)
qed

lemma distinct_at_mset:
  assumes "mset (take n (heap_p h')) = mset (take n (heap_p h))" and "n \<le> length (heap_p h)" and "length (heap_p h') = length (heap_p h)"
    and "heap_ofs h' = heap_ofs h" and "distinct_at h {..<n}"
  shows "distinct_at h' {..<n}"
proof -
  have "mset (map de_object (take n (heap_p h'))) = mset (map de_object (take n (heap_p h)))" using assms(1) by simp
  then have "distinct (map de_object (take n (heap_p h'))) = distinct (map de_object (take n (heap_p h)))" by (rule mset_eq_imp_distinct_iff)
  then show ?thesis using assms distinct_at_iff[of n h] distinct_at_iff[of n h'] by simp
qed

lemma windows_iff: "n \<le> length (heap_p h) \<Longrightarrow> windows base n h \<longleftrightarrow> (\<forall>e \<in># mset (take n (heap_p h)). in_window base (de_key e))"
  by (auto simp: windows_def nth_image[symmetric])

lemma heapify_from_ok:
  assumes "length (heap_p h) = heap_size h" and "elements h \<le> heap_size h" and "heap_size h < 2 ^ 31"
    and "windows base (elements h) h" and "distinct_at h {..<elements h}"
    and "ord_heap i (ranks base h)" and "idx_at h {..<i}" and "i + n = elements h"
  shows "\<exists>h'. heapify_from malloc n i h = Inr h' \<and> heap_inv base h' \<and> contents h' = contents h \<and>
    elements h' = elements h \<and> heap_ofs h' = heap_ofs h"
  using assms
proof (induction n arbitrary: i h)
  case 0
  then show ?case by (simp add: heap_inv_def)
next
  case (Suc n)
  have i: "i < elements h" "i < 2 ^ 31" "Suc i \<le> length (heap_p h)" using Suc.prems by simp_all
  have "HEAP_FATHER j \<noteq> i" if "0 < j" "j < Suc i" for j using father_less[OF that(1)] that(2) by simp
  then have o: "ord_up (Suc i) i (ranks base h)" using Suc.prems(6) by (auto simp: ord_up_def ord_heap_def)
  have "idx_at h ({..<Suc i} - {i})" using Suc.prems(7) by (auto simp: idx_at_def)
  moreover have "windows base (Suc i) h" "distinct_at h {..<Suc i}"
    using Suc.prems(4,5) i(1) by (auto simp: windows_def distinct_at_def inj_on_def)
  ultimately obtain h' where h': "heap_up i h = Inr h'" "rearranged (Suc i) h h'" "ord_heap (Suc i) (ranks base h')" "idx_at h' {..<Suc i}"
    using heap_up_ok[OF i(3) _ _ o] by auto
  have m: "mset (take (elements h) (heap_p h')) = mset (take (elements h) (heap_p h))"
    by (rule rearranged_extend[OF h'(2)]) (use i(1) in simp)
  have s: "length (heap_p h') = length (heap_p h)" "heap_size h' = heap_size h" "elements h' = elements h" "heap_ofs h' = heap_ofs h"
    using h'(2) by (simp_all add: rearranged_def)
  have "windows base (elements h') h'" 
    using Suc.prems(1,2,4) windows_iff[of "elements h" h base] windows_iff[of "elements h" h' base] unfolding s(3) m by (simp add: s)
  moreover have "distinct_at h' {..<elements h'}" unfolding s(3)
    by (rule distinct_at_mset[OF m]) (use Suc.prems(1,2,5) s in simp_all)
  ultimately obtain h'' where "heapify_from malloc n (Suc i) h' = Inr h''" "heap_inv base h''" "contents h'' = contents h'"
    "elements h'' = elements h'" "heap_ofs h'' = heap_ofs h'"
    using Suc.IH[of h' "Suc i"] h'(3,4) s Suc.prems by auto
  then show ?case using h'(1) s m by (simp add: heap_insert_position[OF i(2)] contents_def)
qed

lemma heapify_ok:
  assumes "length (heap_p h) = heap_size h" and "elements h \<le> heap_size h" and "heap_size h < 2 ^ 31"
    and "windows base (elements h) h" and "distinct_at h {..<elements h}"
  shows "\<exists>h'. heapify malloc h = Inr h' \<and> heap_inv base h' \<and> contents h' = contents h \<and>
    elements h' = elements h \<and> heap_ofs h' = heap_ofs h"
  unfolding heapify_def by (rule heapify_from_ok[OF assms]) (simp_all add: ord_heap_def idx_at_def)

text \<open>Deleting the entry at \<open>i\<close> puts the last one in its place.\<close>

lemma scan_del_ok:
  assumes "i < elements h" and "elements h \<le> length (heap_p h)"
  shows "\<exists>h'. scan_del i h = Inr h' \<and> elements h' = elements h - 1 \<and> length (heap_p h') = length (heap_p h) \<and>
    heap_size h' = heap_size h \<and> heap_ofs h' = heap_ofs h \<and> slots h' = slots h \<and>
    take i (heap_p h') = take i (heap_p h) \<and>
    add_mset (heap_p h ! i) (mset (drop i (take (elements h') (heap_p h')))) = mset (drop i (take (elements h) (heap_p h)))"
proof -
  define m where "m = elements h - 1"
  have m: "elements h = Suc m" "m < length (heap_p h)" "i \<le> m" using assms by (simp_all add: m_def)
  let ?p = "(heap_p h)[i := heap_p h ! m]"
  have "add_mset (heap_p h ! i) (mset (drop i (take m ?p))) = mset (drop i (take (Suc m) (heap_p h)))"
  proof (cases "i = m")
    case True
    then show ?thesis using m by (simp add: take_Suc_conv_app_nth)
  next
    case False
    have "drop i (take m ?p) = heap_p h ! m # drop (Suc i) (take m (heap_p h))"
      using m False by (subst Cons_nth_drop_Suc[symmetric]) (simp_all add: take_update_swap drop_update_cancel)
    moreover have "drop i (take (Suc m) (heap_p h)) = heap_p h ! i # drop (Suc i) (take m (heap_p h)) @ [heap_p h ! m]"
      using m False by (subst Cons_nth_drop_Suc[symmetric]) (simp_all add: take_Suc_conv_app_nth nth_append)
    ultimately show ?thesis by simp
  qed
  then show ?thesis using m by (simp add: scan_del_def Let_def)
qed

lemma scan_loop_ok:
  assumes "\<And>ob s. fst (fn ob s) = ret ob" and "\<And>ob. ret ob AND HEAP_SCAN_END = 0"
    and "elements h \<le> length (heap_p h)" and "i \<le> elements h"
  shows "\<exists>k h' s'. scan_loop fn i found h s = Inr (found + int k, h', s') \<and>
    length (heap_p h') = length (heap_p h) \<and> heap_size h' = heap_size h \<and> heap_ofs h' = heap_ofs h \<and>
    elements h' + k = elements h \<and> (k = 0 \<longrightarrow> h' = h) \<and>
    contents h' = mset (take i (heap_p h)) +
      filter_mset (\<lambda>e. ret (de_object e) AND HEAP_SCAN_DEL = 0) (mset (drop i (take (elements h) (heap_p h))))"
  using assms
proof (induction fn i found h s rule: scan_loop.induct)
  case (1 fn i found h s)
  note P = "1.prems"
  show ?case
  proof (cases "i < elements h")
    case False
    then show ?thesis using P by (subst scan_loop.simps) (auto simp: contents_def)
  next
    case True
    let ?e = "heap_p h ! i"
    have il: "i < length (heap_p h)" using True P by simp
    obtain s' where s': "fn (de_object ?e) s = (ret (de_object ?e), s')" using P(1)[of "de_object ?e" s] by (metis prod.collapse)
    have d: "mset (drop i (take (elements h) (heap_p h))) = add_mset ?e (mset (drop (Suc i) (take (elements h) (heap_p h))))"
      using True P by (subst Cons_nth_drop_Suc[symmetric]) simp_all
    show ?thesis
    proof (cases "ret (de_object ?e) AND HEAP_SCAN_DEL = 0")
      case False
      obtain h1 where h1: "scan_del i h = Inr h1" "elements h1 = elements h - 1" "length (heap_p h1) = length (heap_p h)"
        "heap_size h1 = heap_size h" "heap_ofs h1 = heap_ofs h" "take i (heap_p h1) = take i (heap_p h)"
        "add_mset ?e (mset (drop i (take (elements h1) (heap_p h1)))) = mset (drop i (take (elements h) (heap_p h)))"
        using scan_del_ok[OF True P(3)] by auto
      have le: "elements h1 \<le> length (heap_p h1)" "i \<le> elements h1" using h1(2,3) P(3) True by simp_all
      obtain k h' s'' where "scan_loop fn i (found + 1) h1 s' = Inr (found + 1 + int k, h', s'')"
        "length (heap_p h') = length (heap_p h1)" "heap_size h' = heap_size h1" "heap_ofs h' = heap_ofs h1" "elements h' + k = elements h1"
        "contents h' = mset (take i (heap_p h1)) +
          filter_mset (\<lambda>e. ret (de_object e) AND HEAP_SCAN_DEL = 0) (mset (drop i (take (elements h1) (heap_p h1))))"
        using "1.IH"(1)[OF True rd_in[OF il] s'[symmetric] False h1(1) _ P(1,2) le] P(2) by auto
      then show ?thesis using True False il s' h1 P(2)
        by (subst scan_loop.simps) (auto simp flip: h1(7) intro!: exI[of _ "Suc k"])
    next
      case keep: True
      have "take (Suc i) (heap_p h) = take i (heap_p h) @ [?e]" by (simp add: il take_Suc_conv_app_nth)
      then show ?thesis
        using "1.IH"(2)[OF True rd_in[OF il] s'[symmetric] _ _ P(1,2,3)] keep True il s' P(2) d by (subst scan_loop.simps) auto
    qed
  qed
qed

lemma distinct_iff_count: "distinct xs \<longleftrightarrow> (\<forall>a. count (mset xs) a \<le> 1)"
proof (induction xs)
  case (Cons x xs)
  have c: "count (mset (x # xs)) a = count (mset xs) a + (if a = x then 1 else 0)" for a by simp
  show ?case
  proof
    assume "distinct (x # xs)"
    then have "count (mset xs) x = 0" "\<forall>a. count (mset xs) a \<le> 1" using Cons by (simp_all add: count_mset_0_iff)
    then show "\<forall>a. count (mset (x # xs)) a \<le> 1" unfolding c by simp
  next
    assume a: "\<forall>a. count (mset (x # xs)) a \<le> 1"
    then have "count (mset xs) x = 0" using c[of x] by (metis One_nat_def add_le_same_cancel2 le_zero_eq)
    moreover have "count (mset xs) b \<le> 1" for b using a[rule_format, of b] c[of b] by (simp split: if_splits)
    ultimately show "distinct (x # xs)" using Cons by (simp add: count_mset_0_iff)
  qed
qed simp

lemma distinct_subseteq: "distinct xs \<Longrightarrow> mset ys \<subseteq># mset xs \<Longrightarrow> distinct ys"
  unfolding distinct_iff_count by (meson le_trans mset_subset_eq_count)

lemma heap_scan_ok:
  assumes "heap_inv base h" and "\<And>ob s. fst (fn ob s) = ret ob" and "\<And>ob. ret ob AND HEAP_SCAN_END = 0"
  shows "\<exists>k h' s'. heap_scan malloc fn h s = Inr (int k, h', s') \<and> heap_inv base h' \<and> heap_ofs h' = heap_ofs h \<and>
    contents h' = filter_mset (\<lambda>e. ret (de_object e) AND HEAP_SCAN_DEL = 0) (contents h) \<and> size (contents h') + k = size (contents h)"
proof -
  have el: "elements h \<le> length (heap_p h)" "length (heap_p h) = heap_size h" "heap_size h < 2 ^ 31" using assms(1) by (simp_all add: heap_inv_def)
  let ?keep = "\<lambda>e. ret (de_object e) AND HEAP_SCAN_DEL = 0"
  obtain k h1 s' where l: "scan_loop fn 0 0 h s = Inr (int k, h1, s')" "length (heap_p h1) = length (heap_p h)" "heap_size h1 = heap_size h"
    "heap_ofs h1 = heap_ofs h" "elements h1 + k = elements h" "k = 0 \<Longrightarrow> h1 = h" "contents h1 = filter_mset ?keep (contents h)"
    using scan_loop_ok[of fn ret h 0 0 s, OF assms(2,3) el(1)] by (auto simp: contents_def)
  have sz: "size (contents h1) + k = size (contents h)" using l(2,5) el(1) by (simp add: contents_def)
  show ?thesis
  proof (cases "k = 0")
    case True
    then show ?thesis using l sz assms(1) by (auto simp: heap_scan_def)
  next
    case False
    have e1: "elements h1 \<le> length (heap_p h1)" using l(2,5) el(1) by simp
    have "set_mset (contents h1) \<subseteq> set_mset (contents h)" unfolding l(7) by auto
    then have "windows base (elements h1) h1"
      using windows_iff[OF e1, of base] windows_iff[OF el(1), of base] assms(1) by (auto simp: heap_inv_def contents_def)
    moreover have "mset (map de_object (take (elements h1) (heap_p h1))) \<subseteq># mset (map de_object (take (elements h) (heap_p h)))"
      using l(7) by (simp add: contents_def image_mset_subseteq_mono)
    then have "distinct (map de_object (take (elements h) (heap_p h))) \<Longrightarrow> distinct (map de_object (take (elements h1) (heap_p h1)))"
      by (rule distinct_subseteq[rotated])
    then have "distinct_at h1 {..<elements h1}"
      using distinct_at_iff[OF e1] distinct_at_iff[OF el(1)] assms(1) l(4) by (auto simp: heap_inv_def)
    ultimately obtain h' where "heapify malloc h1 = Inr h'" "heap_inv base h'" "contents h' = contents h1" "heap_ofs h' = heap_ofs h1"
      using heapify_ok[of h1 base malloc] e1 l el by auto
    then show ?thesis using l sz False by (auto simp: heap_scan_def)
  qed
qed

section \<open>A queue ordered by priority\<close>

text \<open>What a user of the heap relies on, whatever its representation.\<close>

locale min_queue =
  fixes inv :: "'s \<Rightarrow> bool" and items :: "'s \<Rightarrow> 'e multiset" and prio :: "'e \<Rightarrow> nat"
    and top :: "'s \<Rightarrow> 'e" and pop :: "'s \<Rightarrow> 's"
  assumes top_in: "inv s \<Longrightarrow> items s \<noteq> {#} \<Longrightarrow> top s \<in># items s"
    and top_min: "inv s \<Longrightarrow> e \<in># items s \<Longrightarrow> prio (top s) \<le> prio e"
    and pop_inv: "inv s \<Longrightarrow> items s \<noteq> {#} \<Longrightarrow> inv (pop s)"
    and pop_items: "inv s \<Longrightarrow> items s \<noteq> {#} \<Longrightarrow> items (pop s) = items s - {#top s#}"
begin

fun drain :: "nat \<Rightarrow> 's \<Rightarrow> 'e list" where
  "drain 0 s = []"
| "drain (Suc n) s = top s # drain n (pop s)"

lemma drain_sorted:
  "inv s \<Longrightarrow> n = size (items s) \<Longrightarrow> mset (drain n s) = items s \<and> sorted (map prio (drain n s))"
proof (induction n arbitrary: s)
  case (Suc n)
  then have ne: "items s \<noteq> {#}" by auto
  note t = top_in[OF Suc.prems(1) ne] and p = pop_items[OF Suc.prems(1) ne]
  have "n = size (items (pop s))" using Suc.prems(2) t by (simp add: p size_Diff_singleton)
  then have "mset (drain n (pop s)) = items s - {#top s#}" "sorted (map prio (drain n (pop s)))"
    using Suc.IH[OF pop_inv[OF Suc.prems(1) ne]] p by simp_all
  moreover from this have "e \<in># items s" if "e \<in> set (drain n (pop s))" for e
    using that in_diffD by (metis set_mset_mset)
  ultimately show ?case using t top_min[OF Suc.prems(1)] by (auto simp: insert_DiffM)
qed simp

end

definition HEAP_TOP :: "dn_heap \<Rightarrow> dn_heap_entry" where
  "HEAP_TOP h = heap_p h ! 0"

definition heap_pop :: "heap_malloc \<Rightarrow> dn_heap \<Rightarrow> dn_heap" where
  "heap_pop malloc h = (case heap_extract malloc None h of Inr h' \<Rightarrow> h' | Inl e \<Rightarrow> h)"

lemma contents_empty: "heap_inv base h \<Longrightarrow> contents h = {#} \<longleftrightarrow> elements h = 0"
  by (auto simp: contents_def heap_inv_def)

lemma heap_pop_ok:
  assumes "heap_inv base h" and "contents h \<noteq> {#}"
  shows "heap_extract malloc None h = Inr (heap_pop malloc h) \<and> heap_inv base (heap_pop malloc h) \<and>
    contents (heap_pop malloc h) = contents h - {#HEAP_TOP h#}"
  using heap_extract_ok[OF assms(1), of 0 None malloc] assms contents_empty[OF assms(1)] by (auto simp: heap_pop_def HEAP_TOP_def)

interpretation hq: min_queue "heap_inv base" contents "\<lambda>e. rank base (de_key e)" HEAP_TOP "heap_pop malloc" for base malloc
proof
  fix h e
  assume inv: "heap_inv base h"
  show "HEAP_TOP h \<in># contents h" if "contents h \<noteq> {#}"
    using that inv contents_empty[OF inv] by (auto simp: HEAP_TOP_def contents_def heap_inv_def in_set_conv_nth intro!: exI[of _ 0])
  show "rank base (de_key (HEAP_TOP h)) \<le> rank base (de_key e)" if "e \<in># contents h"
    using heap_top_min[OF inv that] by (simp add: HEAP_TOP_def)
  show "heap_inv base (heap_pop malloc h)" "contents (heap_pop malloc h) = contents h - {#HEAP_TOP h#}" if "contents h \<noteq> {#}"
    using heap_pop_ok[OF inv that] by simp_all
qed

text \<open>Filling a heap and emptying it again, with the operations of the code.\<close>

fun insert_all :: "heap_malloc \<Rightarrow> dn_heap_entry list \<Rightarrow> dn_heap \<Rightarrow> dn_heap res" where
  "insert_all malloc [] h = Inr h"
| "insert_all malloc (e # es) h =
     rbind (heap_insert malloc (de_key e) (Some (de_object e)) h) (\<lambda>(r, h).
     if r \<noteq> 0 then Inl (Throw ''cannot allocate'') else insert_all malloc es h)"

fun extract_all :: "heap_malloc \<Rightarrow> nat \<Rightarrow> dn_heap \<Rightarrow> dn_heap_entry list res" where
  "extract_all malloc 0 h = Inr []"
| "extract_all malloc (Suc n) h =
     rbind (rd (heap_p h) 0) (\<lambda>e. rbind (heap_extract malloc None h) (\<lambda>h. rbind (extract_all malloc n h) (\<lambda>es. Inr (e # es))))"

lemma insert_all_ok:
  assumes "heap_inv base h" and "malloc_ok malloc" and "\<And>n. malloc n \<noteq> None" and "elements h + length es + 16 < 2 ^ 31"
    and "\<forall>e \<in> set es. in_window base (de_key e)" and "distinct (map de_object es)"
    and "heap_ofs h > 0 \<Longrightarrow> objects h \<inter> de_object ` set es = {}"
  shows "\<exists>h'. insert_all malloc es h = Inr h' \<and> heap_inv base h' \<and> contents h' = mset es + contents h"
  using assms
proof (induction es arbitrary: h)
  case (Cons e es)
  have n: "elements h + 16 < 2 ^ 31" using Cons.prems(4) by simp
  have w: "in_window base (de_key e)" using Cons.prems(5) by simp
  have o: "de_object e \<notin> objects h" if "heap_ofs h > 0" using Cons.prems(7)[OF that] by auto
  obtain h1 where h1: "heap_insert malloc (de_key e) (Some (de_object e)) h = Inr (0, h1)" "heap_inv base h1"
    "heap_ofs h1 = heap_ofs h" "contents h1 = add_mset e (contents h)"
    using heap_insert_ok[OF Cons.prems(1,2) n w o] Cons.prems(3) by auto
  have ob: "objects h = de_object ` set_mset (contents h)" for h by (simp add: objects_def contents_def)
  have "size (contents h) = elements h" if "heap_inv base h" for h using that by (auto simp: contents_def heap_inv_def)
  then have el: "elements h1 = Suc (elements h)" using h1(2,4) Cons.prems(1) by (metis size_add_mset)
  have "objects h1 \<inter> de_object ` set es = {}" if "heap_ofs h1 > 0"
    using Cons.prems(6,7) that h1(3) unfolding ob h1(4) by auto
  then obtain h' where "insert_all malloc es h1 = Inr h'" "heap_inv base h'" "contents h' = mset es + contents h1"
    using Cons.IH[OF h1(2) Cons.prems(2,3)] Cons.prems(4-6) el by auto
  then show ?case using h1 by simp
qed simp

lemma extract_all_drain:
  "heap_inv base h \<Longrightarrow> n = size (contents h) \<Longrightarrow> extract_all malloc n h = Inr (hq.drain malloc n h)"
proof (induction n arbitrary: h)
  case (Suc n)
  then have ne: "contents h \<noteq> {#}" by auto
  note p = heap_pop_ok[OF Suc.prems(1) ne, of malloc]
  have "0 < length (heap_p h)" using Suc.prems(1) ne contents_empty[OF Suc.prems(1)] by (auto simp: heap_inv_def)
  moreover have "n = size (contents (heap_pop malloc h))"
    using Suc.prems(2) p hq.top_in[OF Suc.prems(1) ne] by (simp add: size_Diff_singleton)
  ultimately show ?case using p Suc.IH[of "heap_pop malloc h"] by (simp flip: HEAP_TOP_def)
qed simp

lemma heap_init_ok:
  assumes "malloc_ok malloc" and "\<And>n. malloc n \<noteq> None" and "unat n < 2 ^ 31"
    and "h0 = \<lparr>heap_size = 0, elements = 0, heap_ofs = 0, heap_p = [], slots = m\<rparr>"
  shows "\<exists>h. heap_init malloc n ofs h0 = (0, h) \<and> heap_inv base h \<and> elements h = 0 \<and> heap_ofs h = ofs"
proof -
  obtain p where "malloc (unat (round_size n)) = Some p" using assms(2) by blast
  moreover from this have "length p = unat (round_size n)" using assms(1) by (simp add: malloc_ok_def)
  ultimately show ?thesis using round_size_bounds[OF assms(3)]
    by (auto simp: heap_init_def heap_resize_def Let_def assms(4) heap_inv_def windows_def ord_heap_def idx_at_def distinct_at_def)
qed

section \<open>Properties\<close>

text \<open>
  Property C28. The heap of the traffic shaper is a priority queue for times that wrap around.
  Take keys that lie less than \<open>2 ^ 63\<close> apart (in a window from some base on) and different
  objects, and an allocator that grants what is asked for. Initialising a heap, inserting the
  entries in any order and extracting the top until it is empty never fails, never accesses
  memory outside of the array, and gives exactly the entries inserted, earliest first.
\<close>
theorem dn_heap_sorts:
  assumes "malloc_ok malloc" and "\<forall>n. malloc n \<noteq> None" and "unat n < 2 ^ 31" and "length es + 16 < 2 ^ 31"
    and "\<forall>e \<in> set es. in_window base (de_key e)" and "distinct (map de_object es)"
    and "h0 = \<lparr>heap_size = 0, elements = 0, heap_ofs = 0, heap_p = [], slots = m\<rparr>"
  shows "\<exists>h1 h2 out. heap_init malloc n ofs h0 = (0, h1) \<and> insert_all malloc es h1 = Inr h2 \<and>
    extract_all malloc (length es) h2 = Inr out \<and> mset out = mset es \<and> sorted (map (\<lambda>e. rank base (de_key e)) out)"
proof -
  have a: "malloc n \<noteq> None" for n using assms(2) by blast
  obtain h1 where h1: "heap_init malloc n ofs h0 = (0, h1)" "heap_inv base h1" "elements h1 = 0"
    using heap_init_ok[OF assms(1) a assms(3,7)] by blast
  have c: "contents h1 = {#}" "objects h1 = {}" using h1(3) by (simp_all add: contents_def objects_def)
  obtain h2 where h2: "insert_all malloc es h1 = Inr h2" "heap_inv base h2" "contents h2 = mset es"
    using insert_all_ok[OF h1(2) assms(1) a _ assms(5,6)] h1(3) c assms(4) by auto
  have n: "length es = size (contents h2)" by (simp add: h2(3))
  show ?thesis using h1 h2 extract_all_drain[OF h2(2) n] hq.drain_sorted[OF h2(2) n] by auto
qed

definition example_entries :: "dn_heap_entry list" where
  "example_entries = [\<lparr>de_key = 3, de_object = 10\<rparr>, \<lparr>de_key = - 2, de_object = 11\<rparr>, \<lparr>de_key = 1, de_object = 12\<rparr>]"

definition example_malloc :: heap_malloc where
  "example_malloc n = Some (replicate n \<lparr>de_key = 0, de_object = 0\<rparr>)"

lemma dn_heap_sorts_witness:
  "\<exists>h1 h2 out. heap_init example_malloc 0 8 \<lparr>heap_size = 0, elements = 0, heap_ofs = 0, heap_p = [], slots = \<lambda>_. 0\<rparr> = (0, h1) \<and>
    insert_all example_malloc example_entries h1 = Inr h2 \<and>
    extract_all example_malloc (length example_entries) h2 = Inr out \<and> mset out = mset example_entries \<and>
    sorted (map (\<lambda>e. rank (- 5) (de_key e)) out)"
  by (rule dn_heap_sorts[OF _ _ _ _ _ _ refl])
    (simp_all add: malloc_ok_def example_malloc_def example_entries_def in_window_def)


definition example_heap :: dn_heap where
  "example_heap = \<lparr>heap_size = 3, elements = 2, heap_ofs = 8,
     heap_p = [\<lparr>de_key = - 2, de_object = 11\<rparr>, \<lparr>de_key = 3, de_object = 10\<rparr>, \<lparr>de_key = 0, de_object = 0\<rparr>],
     slots = (\<lambda>_. 0)(10 := 1)\<rparr>"

lemma example_heap_inv: "heap_inv (- 5) example_heap"
  by (auto simp: heap_inv_def example_heap_def windows_def in_window_def ord_heap_def ranks_def rank_def idx_at_def
      distinct_at_def inj_on_def obj_at_def HEAP_FATHER_def less_2_cases_iff)


text \<open>
  \<open>heap_scan\<close> with a callback that decides by the object which entries to delete,
  whatever else it does, removes exactly these entries, reports their number and rebuilds the
  heap: the invariant holds again, with every remaining object at the position it has stored.
\<close>
theorem dn_heap_scan_filters:
  assumes "heap_inv base h" and "\<forall>ob s. fst (fn ob s) = ret ob" and "\<forall>ob. ret ob AND HEAP_SCAN_END = 0"
  shows "\<exists>k h' s'. heap_scan malloc fn h s = Inr (int k, h', s') \<and> heap_inv base h' \<and>
    contents h' = filter_mset (\<lambda>e. ret (de_object e) AND HEAP_SCAN_DEL = 0) (contents h) \<and>
    size (contents h') + k = size (contents h)"
  using heap_scan_ok[OF assms(1), of fn ret malloc s] assms(2,3) by blast

lemma dn_heap_scan_filters_witness:
  "\<exists>k h' s'. heap_scan example_malloc (\<lambda>ob s. (if ob = 11 then 1 else 0, Suc s)) example_heap 0 = Inr (int k, h', s') \<and>
    heap_inv (- 5) h' \<and>
    contents h' = filter_mset (\<lambda>e. (if de_object e = 11 then 1 else 0) AND HEAP_SCAN_DEL = 0) (contents example_heap) \<and>
    size (contents h') + k = size (contents example_heap)"
  by (rule dn_heap_scan_filters[OF example_heap_inv]) (simp_all add: HEAP_SCAN_END_def)

end
