(* ===== verification/Dn_Hash.thy ===== *)
theory Dn_Hash
  imports Dn_Heap
begin

text \<open>
  The second part of \<open>src/3rd/freebsd/netpfil/ipfw/dn_heap.c\<close>: the hash table in which the traffic
  shaper of the network stack keeps flows and queues. Objects are numbers that are not 0 (0 is \<open>NULL\<close>)
  and are chained through a field of their own: \<open>link\<close> is the memory at the offset \<open>ofs\<close> of the objects.
  A pointer to a pointer is the place it points to, the head of a chain or the link of an object.

  The callbacks are fields of the table, as in the code, without the argument that is only handed on to them.
  A chain that is a cycle would make a loop run for ever, hence the partial functions; that they return is
  part of what is proved.
\<close>

unbundle bit_operations_syntax

section \<open>The table\<close>

record dn_ht =
  buckets :: nat
  ht_entries :: int
  ht_hash :: "nat \<Rightarrow> u32 \<Rightarrow> u32"
  ht_match :: "nat \<Rightarrow> nat \<Rightarrow> u32 \<Rightarrow> bool"
  ht_newh :: "(nat \<Rightarrow> u32 \<Rightarrow> nat) option"
  ht_heads :: "nat list"
  link :: "nat \<Rightarrow> nat"

definition DNHT_SCAN_DEL :: u32 where "DNHT_SCAN_DEL = 0x0001"
definition DNHT_SCAN_END :: u32 where "DNHT_SCAN_END = 0x0002"
definition DNHT_MATCH_PTR :: u32 where "DNHT_MATCH_PTR = 0x0008"
definition DNHT_INSERT :: u32 where "DNHT_INSERT = 0x0010"
definition DNHT_REMOVE :: u32 where "DNHT_REMOVE = 0x0040"

text \<open>The rounding of \<open>dn_ht_init\<close>, for a number of buckets between 1 and 65536.\<close>

definition round_buckets :: "nat \<Rightarrow> nat" where
  "round_buckets b_ori =
     (let b_max = unat (round_size (of_nat b_ori)); b_min = b_max div 2
      in if b_min * 4000 div 3000 < b_ori then b_max else b_min)"

text \<open>\<open>malloc\<close> tells whether an array of the given length can be had, which is then cleared; \<open>lk\<close> is the
  content of the link fields. A table that is too small is freed.\<close>

definition dn_ht_init :: "(nat \<Rightarrow> bool) \<Rightarrow> (nat \<Rightarrow> nat) \<Rightarrow> dn_ht option \<Rightarrow> int \<Rightarrow> (nat \<Rightarrow> u32 \<Rightarrow> u32) option \<Rightarrow>
    (nat \<Rightarrow> nat \<Rightarrow> u32 \<Rightarrow> bool) option \<Rightarrow> (nat \<Rightarrow> u32 \<Rightarrow> nat) option \<Rightarrow> dn_ht option" where
  "dn_ht_init malloc lk ht bk h mt nh =
     (case (h, mt) of
        (Some h, Some mt) \<Rightarrow>
          if bk < 1 \<or> bk > 65536 then None
          else let b = round_buckets (nat bk);
                   ht = (case ht of None \<Rightarrow> None | Some t \<Rightarrow> if b \<le> buckets t then Some t else None);
                   ht = (case ht of
                           None \<Rightarrow> if malloc (b + 1)
                                   then Some \<lparr>buckets = 0, ht_entries = 0, ht_hash = h, ht_match = mt, ht_newh = nh,
                                              ht_heads = replicate (b + 1) 0, link = lk\<rparr>
                                   else None
                         | Some t \<Rightarrow> Some t)
               in map_option (\<lambda>t. t\<lparr>buckets := b, ht_hash := h, ht_match := mt, ht_newh := nh\<rparr>) ht
      | _ \<Rightarrow> None)"

datatype lval = Head nat | Link nat

fun deref :: "dn_ht \<Rightarrow> lval \<Rightarrow> nat res" where
  "deref h (Head i) = rd (ht_heads h) i"
| "deref h (Link p) = Inr (link h p)"

fun assign :: "dn_ht \<Rightarrow> lval \<Rightarrow> nat \<Rightarrow> dn_ht res" where
  "assign h (Head i) v = rbind (wr (ht_heads h) i v) (\<lambda>hs. Inr (h\<lparr>ht_heads := hs\<rparr>))"
| "assign h (Link p) v = Inr (h\<lparr>link := (link h)(p := v)\<rparr>)"

definition ht_found :: "dn_ht \<Rightarrow> nat \<Rightarrow> u32 \<Rightarrow> nat \<Rightarrow> bool" where
  "ht_found h key flags p \<longleftrightarrow> (if flags AND DNHT_MATCH_PTR \<noteq> 0 then key = p else ht_match h p key flags)"

partial_function (option) find_loop :: "dn_ht \<Rightarrow> nat \<Rightarrow> u32 \<Rightarrow> lval \<Rightarrow> (lval \<times> nat) res option" where
  "find_loop h key flags pp =
     (case deref h pp of
        Inl e \<Rightarrow> Some (Inl e)
      | Inr p \<Rightarrow> if p = 0 \<or> ht_found h key flags p then Some (Inr (pp, p)) else find_loop h key flags (Link p))"

declare find_loop.simps [code]

definition ht_slot :: "dn_ht \<Rightarrow> nat \<Rightarrow> u32 \<Rightarrow> nat" where
  "ht_slot h key flags = (if buckets h = 1 then 0 else unat (ht_hash h key flags AND of_nat (buckets h)))"

definition ht_unlink :: "lval \<Rightarrow> nat \<Rightarrow> dn_ht \<Rightarrow> dn_ht res" where
  "ht_unlink pp p h =
     rbind (assign h pp (link h p)) (\<lambda>h. Inr (h\<lparr>link := (link h)(p := 0), ht_entries := ht_entries h - 1\<rparr>))"

definition ht_push :: "nat \<Rightarrow> nat \<Rightarrow> dn_ht \<Rightarrow> dn_ht res" where
  "ht_push i p h =
     rbind (rd (ht_heads h) i) (\<lambda>q.
     rbind (wr (ht_heads h) i p) (\<lambda>hs.
     Inr (h\<lparr>ht_entries := ht_entries h + 1, link := (link h)(p := q), ht_heads := hs\<rparr>)))"

definition dn_ht_find :: "dn_ht option \<Rightarrow> nat \<Rightarrow> u32 \<Rightarrow> (nat \<times> dn_ht option) res option" where
  "dn_ht_find ht key flags =
     (case ht of
        None \<Rightarrow> Some (Inr (0, None))
      | Some h \<Rightarrow>
          let i = ht_slot h key flags in
          Option.bind (find_loop h key flags (Head i)) (\<lambda>r. Some (rbind r (\<lambda>(pp, p).
            if p \<noteq> 0
            then if flags AND DNHT_REMOVE \<noteq> 0 then rbind (ht_unlink pp p h) (\<lambda>h. Inr (p, Some h)) else Inr (p, Some h)
            else if flags AND DNHT_INSERT \<noteq> 0
            then let p = (case ht_newh h of Some f \<Rightarrow> f key flags | None \<Rightarrow> key) in
                 if p \<noteq> 0 then rbind (ht_push i p h) (\<lambda>h. Inr (p, Some h)) else Inr (0, Some h)
            else Inr (0, Some h)))))"

definition dn_ht_entries :: "dn_ht option \<Rightarrow> int" where
  "dn_ht_entries ht = (case ht of Some h \<Rightarrow> ht_entries h | None \<Rightarrow> 0)"

text \<open>The loop over one chain, the same in both scans. The flag of the result says that the callback ended
  the scan.\<close>

definition scan_step :: "u32 \<Rightarrow> lval \<Rightarrow> nat \<Rightarrow> int \<Rightarrow> dn_ht \<Rightarrow> (lval \<times> int \<times> dn_ht) res" where
  "scan_step ret curp cur found h =
     (if ret AND DNHT_SCAN_DEL \<noteq> 0
      then rbind (assign (h\<lparr>ht_entries := ht_entries h - 1\<rparr>) curp (link h cur)) (\<lambda>h. Inr (curp, found + 1, h))
      else Inr (Link cur, found, h))"

partial_function (option) scan_chain ::
  "(nat \<Rightarrow> 's \<Rightarrow> u32 \<times> 's) \<Rightarrow> lval \<Rightarrow> int \<Rightarrow> dn_ht \<Rightarrow> 's \<Rightarrow> (bool \<times> int \<times> dn_ht \<times> 's) res option" where
  "scan_chain fn curp found h s =
     (case deref h curp of
        Inl e \<Rightarrow> Some (Inl e)
      | Inr cur \<Rightarrow>
          if cur = 0 then Some (Inr (False, found, h, s))
          else case fn cur s of (ret, s) \<Rightarrow>
            (case scan_step ret curp cur found h of
               Inl e \<Rightarrow> Some (Inl e)
             | Inr (curp, found, h) \<Rightarrow>
                 if ret AND DNHT_SCAN_END \<noteq> 0 then Some (Inr (True, found, h, s)) else scan_chain fn curp found h s))"

declare scan_chain.simps [code]

fun scan_from :: "(nat \<Rightarrow> 's \<Rightarrow> u32 \<times> 's) \<Rightarrow> nat \<Rightarrow> nat \<Rightarrow> int \<Rightarrow> dn_ht \<Rightarrow> 's \<Rightarrow> (int \<times> dn_ht \<times> 's) res option" where
  \<comment> \<open>\<open>n\<close> more turns of the loop from \<open>i\<close> on\<close>
  "scan_from fn 0 i found h s = Some (Inr (found, h, s))"
| "scan_from fn (Suc n) i found h s =
     Option.bind (scan_chain fn (Head i) found h s) (\<lambda>r.
       case r of
         Inl e \<Rightarrow> Some (Inl e)
       | Inr (stop, found, h, s) \<Rightarrow> if stop then Some (Inr (found, h, s)) else scan_from fn n (i + 1) found h s)"

definition dn_ht_scan :: "dn_ht option \<Rightarrow> (nat \<Rightarrow> 's \<Rightarrow> u32 \<times> 's) option \<Rightarrow> 's \<Rightarrow> (int \<times> dn_ht option \<times> 's) res option" where
  "dn_ht_scan ht fn s =
     (case (ht, fn) of
        (Some h, Some fn) \<Rightarrow>
          map_option (\<lambda>r. rbind r (\<lambda>(found, h, s). Inr (found, Some h, s))) (scan_from fn (buckets h + 1) 0 0 h s)
      | _ \<Rightarrow> Some (Inr (0, ht, s)))"

definition dn_ht_scan_bucket :: "dn_ht option \<Rightarrow> int \<Rightarrow> (nat \<Rightarrow> 's \<Rightarrow> u32 \<times> 's) option \<Rightarrow> 's \<Rightarrow>
    (int \<times> int \<times> dn_ht option \<times> 's) res option" where
  \<comment> \<open>the results are the returned number and the bucket number afterwards\<close>
  "dn_ht_scan_bucket ht bucket fn s =
     (case (ht, fn) of
        (Some h, Some fn) \<Rightarrow>
          let bucket = (if bucket > int (buckets h) then 0 else bucket) in
          if bucket < 0 then Some (Inl Undef)
          else map_option (\<lambda>r. rbind r (\<lambda>(stop, found, h, s). Inr (found, bucket, Some h, s)))
                 (scan_chain fn (Head (nat bucket)) 0 h s)
      | _ \<Rightarrow> Some (Inr (0, bucket, ht, s)))"

definition do_del :: "nat \<Rightarrow> unit \<Rightarrow> u32 \<times> unit" where
  "do_del obj arg = (DNHT_SCAN_DEL, ())"

definition dn_ht_free :: "dn_ht option \<Rightarrow> u32 \<Rightarrow> dn_ht option res option" where
  \<comment> \<open>no table afterwards: it is freed\<close>
  "dn_ht_free ht flags =
     (case ht of
        None \<Rightarrow> Some (Inr None)
      | Some h \<Rightarrow>
          if flags AND DNHT_REMOVE \<noteq> 0
          then map_option (\<lambda>r. rbind r (\<lambda>(found, h, s). Inr h)) (dn_ht_scan ht (Some do_del) ())
          else Some (Inr None))"


section \<open>Chains in the memory\<close>

primrec path :: "(nat \<Rightarrow> nat) \<Rightarrow> nat \<Rightarrow> nat list \<Rightarrow> bool" where
  "path l p [] \<longleftrightarrow> p = 0"
| "path l p (x # xs) \<longleftrightarrow> p = x \<and> x \<noteq> 0 \<and> path l (l x) xs"

lemma path_frame [simp]: "x \<notin> set xs \<Longrightarrow> path (l(x := v)) p xs = path l p xs"
  by (induction xs arbitrary: p) auto

lemma paths_frame [simp]: "x \<notin> set (concat cs) \<Longrightarrow> list_all2 (path (l(x := v))) ps cs = list_all2 (path l) ps cs"
  by (induction ps cs rule: list_induct2') auto

lemma path_nonzero: "path l p xs \<Longrightarrow> 0 \<notin> set xs"
  by (induction xs arbitrary: p) auto

text \<open>Leaving out an object: the place before it is its predecessor's link, or the head.\<close>

lemma path_unlink:
  "path l p (as @ x # bs) \<Longrightarrow> distinct (as @ x # bs) \<Longrightarrow> as \<noteq> [] \<Longrightarrow> path (l(last as := l x)) p (as @ bs)"
proof (induction as arbitrary: p)
  case (Cons a as)
  show ?case
  proof (cases "as = []")
    case True
    then show ?thesis using Cons.prems by (auto simp del: fun_upd_apply) (simp add: fun_upd_def)
  next
    case False
    then have "a \<noteq> last as" using Cons.prems(2) last_in_set[OF False] by auto
    then show ?thesis using Cons False by auto
  qed
qed simp

text \<open>\<open>cs\<close> are the objects of the chains of a table.\<close>

definition chains :: "dn_ht \<Rightarrow> nat list list \<Rightarrow> bool" where
  "chains h cs \<longleftrightarrow>
     list_all2 (path (link h)) (ht_heads h) cs \<and> buckets h < length cs \<and> distinct (concat cs) \<and>
     ht_entries h = int (length (concat cs))"

lemma chains_split:
  assumes "chains h cs" and "i < length cs"
  obtains As c Bs ps p qs where "cs = As @ c # Bs" "length As = i" "ht_heads h = ps @ p # qs" "length ps = i"
    "list_all2 (path (link h)) ps As" "path (link h) p c" "list_all2 (path (link h)) qs Bs"
proof -
  have la: "list_all2 (path (link h)) (ht_heads h) cs" using assms(1) by (simp add: chains_def)
  have i: "i < length (ht_heads h)" using assms(2) list_all2_lengthD[OF la] by simp
  have "list_all2 (path (link h)) (take i (ht_heads h)) (take i cs)" "path (link h) (ht_heads h ! i) (cs ! i)"
    "list_all2 (path (link h)) (drop (Suc i) (ht_heads h)) (drop (Suc i) cs)"
    using la assms(2) i list_all2_takeI[OF la] list_all2_dropI[OF la] list_all2_nthD[OF la] by auto
  then show ?thesis using that[OF id_take_nth_drop[OF assms(2)] _ id_take_nth_drop[OF i]] assms(2) i by simp
qed

lemma heads_length: "chains h cs \<Longrightarrow> length (ht_heads h) = length cs"
  by (auto simp: chains_def dest: list_all2_lengthD)

lemma chains_head: "chains h cs \<Longrightarrow> i < length cs \<Longrightarrow> \<exists>p. rd (ht_heads h) i = Inr p \<and> path (link h) p (cs ! i)"
  by (erule (1) chains_split) (auto simp: nth_append)

lemma slot_bound: "chains h cs \<Longrightarrow> ht_slot h key flags < length cs"
proof -
  assume "chains h cs"
  then have b: "buckets h < length cs" by (simp add: chains_def)
  have "unat (x AND of_nat (buckets h) :: u32) \<le> buckets h" for x
  proof -
    have "unat (x AND of_nat (buckets h)) \<le> unat (of_nat (buckets h) :: u32)"
      using word_and_le1[of x "of_nat (buckets h)"] by (simp only: word_le_nat_alt)
    also have "\<dots> \<le> buckets h" by (simp only: unat_of_nat mod_less_eq_dividend)
    finally show ?thesis .
  qed
  then show ?thesis using b le_less_trans unfolding ht_slot_def by fastforce
qed


section \<open>Looking up, removing and inserting\<close>

lemma find_loop_hit:
  assumes "deref h pp = Inr p" and "path (link h) p (as @ x # bs)" and "\<forall>y\<in>set as. \<not> ht_found h key flags y" and "ht_found h key flags x"
  shows "find_loop h key flags pp = Some (Inr (if as = [] then pp else Link (last as), x))"
  using assms
proof (induction as arbitrary: p pp)
  case Nil
  then show ?case by (subst find_loop.simps) auto
next
  case (Cons a as)
  then have "find_loop h key flags (Link a) = Some (Inr (if as = [] then Link a else Link (last as), x))" by simp
  then show ?case using Cons.prems by (subst find_loop.simps) auto
qed

lemma find_loop_miss:
  assumes "deref h pp = Inr p" and "path (link h) p ys" and "\<forall>y\<in>set ys. \<not> ht_found h key flags y"
  shows "\<exists>pp'. find_loop h key flags pp = Some (Inr (pp', 0))"
  using assms
proof (induction ys arbitrary: p pp)
  case Nil
  then show ?case by (subst find_loop.simps) auto
next
  case (Cons a ys)
  then have "\<exists>pp'. find_loop h key flags (Link a) = Some (Inr (pp', 0))" by simp
  then show ?case using Cons.prems by (subst find_loop.simps) auto
qed

lemma set_chains_unlink:
  assumes "distinct (concat cs)" and "i < length cs" and "cs ! i = as @ x # bs"
  shows "set (concat (cs[i := as @ bs])) = set (concat cs) - {x}"
proof -
  have c: "cs = take i cs @ (as @ x # bs) # drop (Suc i) cs" using id_take_nth_drop[OF assms(2)] assms(3) by simp
  then have "cs[i := as @ bs] = take i cs @ (as @ bs) # drop (Suc i) cs" using assms(2) by (simp add: upd_conv_take_nth_drop)
  moreover have "distinct (concat (take i cs) @ (as @ x # bs) @ concat (drop (Suc i) cs))"
    using assms(1) c by (metis concat.simps(2) concat_append)
  moreover have "set (concat cs) = set (concat (take i cs) @ (as @ x # bs) @ concat (drop (Suc i) cs))"
    using c by (metis concat.simps(2) concat_append)
  ultimately show ?thesis by auto
qed

lemma set_chains_push: "i < length cs \<Longrightarrow> set (concat (cs[i := p # cs ! i])) = insert p (set (concat cs))"
proof -
  assume i: "i < length cs"
  have "set (concat (cs[i := p # cs ! i])) = insert p (set (concat (take i cs @ cs ! i # drop (Suc i) cs)))"
    using i by (simp add: upd_conv_take_nth_drop)
  then show ?thesis using id_take_nth_drop[OF i] by simp
qed

text \<open>The pointer to the place behind the objects \<open>as\<close> of chain \<open>i\<close>.\<close>

definition place :: "nat \<Rightarrow> nat list \<Rightarrow> lval" where
  "place i as = (if as = [] then Head i else Link (last as))"

definition same_cb :: "dn_ht \<Rightarrow> dn_ht \<Rightarrow> bool" where
  "same_cb h h' \<longleftrightarrow> buckets h' = buckets h \<and> ht_hash h' = ht_hash h \<and> ht_match h' = ht_match h \<and> ht_newh h' = ht_newh h"

lemma chains_skip:
  assumes "chains h cs" and "i < length cs" and "cs ! i = as @ x # bs"
  shows "\<exists>h'. assign (h\<lparr>ht_entries := ht_entries h - 1\<rparr>) (place i as) (link h x) = Inr h' \<and> chains h' (cs[i := as @ bs]) \<and> same_cb h h'"
  using assms(1,2)
proof (rule chains_split)
  fix As c Bs ps p qs
  assume s: "cs = As @ c # Bs" "length As = i" "ht_heads h = ps @ p # qs" "length ps = i"
    "list_all2 (path (link h)) ps As" "path (link h) p c" "list_all2 (path (link h)) qs Bs"
  have c: "c = as @ x # bs" using assms(3) s(1,2) by (simp add: nth_append)
  have d: "distinct (concat cs)" "buckets h < length cs" "ht_entries h = int (length (concat cs))"
    using assms(1) by (auto simp: chains_def)
  show ?thesis
  proof (cases "as = []")
    case True
    then show ?thesis using s c d by (auto simp: place_def same_cb_def chains_def list_update_append list_all2_append)
  next
    case False
    then have last: "last as \<in> set as" by simp
    have "path ((link h)(last as := link h x)) p (as @ bs)"
      using s(6) c d(1) False s(1) by (intro path_unlink) auto
    moreover have "last as \<notin> set (concat As)" "last as \<notin> set (concat Bs)" using last d(1) s(1) c by auto
    ultimately show ?thesis using False s c d
      by (auto simp: place_def same_cb_def chains_def list_update_append list_all2_append simp del: set_concat)
  qed
qed

lemma chains_unlink:
  assumes "chains h cs" and "i < length cs" and "cs ! i = as @ x # bs"
  shows "\<exists>h'. ht_unlink (place i as) x h = Inr h' \<and> chains h' (cs[i := as @ bs]) \<and> same_cb h h'"
proof -
  obtain h' where h': "assign (h\<lparr>ht_entries := ht_entries h - 1\<rparr>) (place i as) (link h x) = Inr h'" "chains h' (cs[i := as @ bs])" "same_cb h h'"
    using chains_skip[OF assms] by blast
  have "ht_unlink (place i as) x h = Inr (h'\<lparr>link := (link h')(x := 0)\<rparr>)"
    using h'(1) by (cases "place i as") (auto simp: ht_unlink_def rbind_eq_Inr_iff)
  moreover have "x \<notin> set (concat (cs[i := as @ bs]))"
    using set_chains_unlink[OF _ assms(2,3)] assms(1) by (simp add: chains_def del: set_concat)
  ultimately show ?thesis using h'(2,3) by (auto simp: chains_def same_cb_def simp del: set_concat)
qed

lemma chains_push:
  assumes "chains h cs" and "i < length cs" and "p \<noteq> 0" and "p \<notin> set (concat cs)"
  shows "\<exists>h'. ht_push i p h = Inr h' \<and> chains h' (cs[i := p # cs ! i]) \<and> same_cb h h'"
  using assms(1,2)
proof (rule chains_split)
  fix As c Bs ps q qs
  assume s: "cs = As @ c # Bs" "length As = i" "ht_heads h = ps @ q # qs" "length ps = i"
    "list_all2 (path (link h)) ps As" "path (link h) q c" "list_all2 (path (link h)) qs Bs"
  have "ht_push i p h = Inr (h\<lparr>ht_entries := ht_entries h + 1, link := (link h)(p := q), ht_heads := ps @ p # qs\<rparr>)"
    using s(3,4) by (simp add: ht_push_def list_update_append nth_append)
  moreover have "cs ! i = c" "cs[i := p # c] = As @ (p # c) # Bs" using s(1,2) by (auto simp: nth_append list_update_append)
  ultimately show ?thesis using s assms by (auto simp: chains_def same_cb_def list_all2_append)
qed

section \<open>A map from keys to objects\<close>

text \<open>The three uses of \<open>dn_ht_find\<close>, and what they do to a map: \<open>mk\<close> gives the object of a new key, 0 if
  there is none.\<close>

datatype ht_op = Lookup nat | Insert nat | Remove nat

definition ht_exec :: "ht_op \<Rightarrow> dn_ht option \<Rightarrow> (nat \<times> dn_ht option) res option" where
  "ht_exec x t = (case x of Lookup k \<Rightarrow> dn_ht_find t k 0 | Insert k \<Rightarrow> dn_ht_find t k DNHT_INSERT | Remove k \<Rightarrow> dn_ht_find t k DNHT_REMOVE)"

fun map_step :: "(nat \<Rightarrow> nat) \<Rightarrow> ht_op \<Rightarrow> (nat \<rightharpoonup> nat) \<Rightarrow> nat \<times> (nat \<rightharpoonup> nat)" where
  "map_step mk (Lookup k) m = (case m k of Some p \<Rightarrow> (p, m) | None \<Rightarrow> (0, m))"
| "map_step mk (Insert k) m =
     (case m k of Some p \<Rightarrow> (p, m) | None \<Rightarrow> if mk k = 0 then (0, m) else (mk k, m(k \<mapsto> mk k)))"
| "map_step mk (Remove k) m = (case m k of Some p \<Rightarrow> (p, m(k := None)) | None \<Rightarrow> (0, m))"

fun run_ops :: "(ht_op \<Rightarrow> 't \<Rightarrow> (nat \<times> 't) res option) \<Rightarrow> ht_op list \<Rightarrow> 't \<Rightarrow> (nat list \<times> 't) res option" where
  "run_ops exec [] t = Some (Inr ([], t))"
| "run_ops exec (x # xs) t =
     Option.bind (exec x t) (\<lambda>r. case r of
       Inl e \<Rightarrow> Some (Inl e)
     | Inr (p, t) \<Rightarrow> map_option (\<lambda>r. rbind r (\<lambda>(ps, t). Inr (p # ps, t))) (run_ops exec xs t))"

fun map_run :: "(nat \<Rightarrow> nat) \<Rightarrow> ht_op list \<Rightarrow> (nat \<rightharpoonup> nat) \<Rightarrow> nat list \<times> (nat \<rightharpoonup> nat)" where
  "map_run mk [] m = ([], m)"
| "map_run mk (x # xs) m =
     (case map_step mk x m of (p, m) \<Rightarrow> case map_run mk xs m of (ps, m) \<Rightarrow> (p # ps, m))"

text \<open>The contract of a table: every operation returns, with the result of the map.\<close>

locale object_map =
  fixes exec :: "ht_op \<Rightarrow> 't \<Rightarrow> (nat \<times> 't) res option" and rel :: "'t \<Rightarrow> (nat \<rightharpoonup> nat) \<Rightarrow> bool" and mk :: "nat \<Rightarrow> nat"
  assumes exec_map: "rel t m \<Longrightarrow> \<exists>t'. exec x t = Some (Inr (fst (map_step mk x m), t')) \<and> rel t' (snd (map_step mk x m))"
begin

lemma run_map: "rel t m \<Longrightarrow> \<exists>t'. run_ops exec xs t = Some (Inr (fst (map_run mk xs m), t')) \<and> rel t' (snd (map_run mk xs m))"
proof (induction xs arbitrary: t m)
  case (Cons x xs)
  obtain t1 where t1: "exec x t = Some (Inr (fst (map_step mk x m), t1))" "rel t1 (snd (map_step mk x m))"
    using exec_map[OF Cons.prems] by blast
  then show ?case using Cons.IH[OF t1(2)] by (auto simp: split_beta)
qed simp

end

text \<open>\<open>keyof\<close> tells the key of an object; the callbacks agree with it, whatever the flags.\<close>

definition callbacks :: "(nat \<Rightarrow> nat) \<Rightarrow> (nat \<Rightarrow> nat) \<Rightarrow> dn_ht \<Rightarrow> bool" where
  "callbacks keyof mk h \<longleftrightarrow>
     (\<forall>k f. f \<in> {0, DNHT_INSERT, DNHT_REMOVE} \<longrightarrow> ht_hash h k f = ht_hash h k 0 \<and> (\<forall>x. ht_match h x k f \<longleftrightarrow> keyof x = k)) \<and>
     (\<forall>k. mk k = (case ht_newh h of Some f \<Rightarrow> f k DNHT_INSERT | None \<Rightarrow> k)) \<and>
     (\<forall>k. mk k \<noteq> 0 \<longrightarrow> keyof (mk k) = k)"

definition ht_rel :: "(nat \<Rightarrow> nat) \<Rightarrow> (nat \<Rightarrow> nat) \<Rightarrow> dn_ht option \<Rightarrow> (nat \<rightharpoonup> nat) \<Rightarrow> bool" where
  "ht_rel keyof mk t m \<longleftrightarrow>
     (\<exists>h cs. t = Some h \<and> callbacks keyof mk h \<and> chains h cs \<and> length cs = buckets h + 1 \<and>
       (\<forall>i<length cs. \<forall>x\<in>set (cs ! i). ht_slot h (keyof x) 0 = i) \<and>
       (\<forall>k x. m k = Some x \<longleftrightarrow> x \<in> set (concat cs) \<and> keyof x = k))"

lemma same_fields:
  assumes "same_cb h h'"
  shows "ht_slot h' = ht_slot h" and "callbacks keyof mk h' = callbacks keyof mk h"
  using assms by (simp_all add: same_cb_def callbacks_def ht_slot_def fun_eq_iff)

lemma callbacks_found:
  assumes "callbacks keyof mk h" and "f \<in> {0, DNHT_INSERT, DNHT_REMOVE}"
  shows "ht_found h k f x \<longleftrightarrow> keyof x = k" and "ht_slot h k f = ht_slot h k 0"
  using assms by (auto simp: callbacks_def ht_found_def ht_slot_def DNHT_INSERT_def DNHT_REMOVE_def DNHT_MATCH_PTR_def)

lemma in_chain: "i < length cs \<Longrightarrow> x \<in> set (cs ! i) \<Longrightarrow> x \<in> set (concat cs)"
  by (auto intro: nth_mem)

text \<open>One call of \<open>dn_ht_find\<close>: where the search ends.\<close>

lemma find_in_table:
  assumes "callbacks keyof mk h" and "chains h cs" and "f \<in> {0, DNHT_INSERT, DNHT_REMOVE}"
    and pl: "\<forall>i<length cs. \<forall>x\<in>set (cs ! i). ht_slot h (keyof x) 0 = i"
    and m: "\<forall>k x. m k = Some x \<longleftrightarrow> x \<in> set (concat cs) \<and> keyof x = k"
  shows "case m k of
      Some x \<Rightarrow> \<exists>as bs. cs ! ht_slot h k f = as @ x # bs \<and> x \<noteq> 0 \<and>
        find_loop h k f (Head (ht_slot h k f)) = Some (Inr (place (ht_slot h k f) as, x))
    | None \<Rightarrow> \<exists>pp. find_loop h k f (Head (ht_slot h k f)) = Some (Inr (pp, 0))"
proof -
  let ?i = "ht_slot h k f"
  have i: "?i < length cs" using assms(2) by (rule slot_bound)
  then obtain p where p: "deref h (Head ?i) = Inr p" "path (link h) p (cs ! ?i)" using chains_head[OF assms(2)] by force
  note fnd = callbacks_found[OF assms(1,3)]
  show ?thesis
  proof (cases "m k")
    case None
    then have "\<forall>y\<in>set (cs ! ?i). keyof y \<noteq> k" using m in_chain[OF i] by (metis option.distinct(1))
    then show ?thesis using None find_loop_miss[OF p] fnd(1) by auto
  next
    case (Some x)
    then have x: "x \<in> set (concat cs)" "keyof x = k" using m by auto
    then obtain c where "c \<in> set cs" "x \<in> set c" by auto
    then obtain j where "j < length cs" "x \<in> set (cs ! j)" by (metis in_set_conv_nth)
    moreover from this have "j = ?i" using pl x(2) fnd(2) by auto
    ultimately have "x \<in> set (cs ! ?i)" by simp
    then obtain as bs where ab: "cs ! ?i = as @ x # bs" "x \<notin> set as" by (metis split_list_first)
    have "keyof y \<noteq> k" if "y \<in> set as" for y
    proof -
      have "y \<in> set (concat cs)" using that ab(1) in_chain[OF i] by simp
      then show ?thesis using m Some that ab(2) by (metis option.inject)
    qed
    then show ?thesis using Some ab find_loop_hit[of h "Head ?i" p as x bs k f, folded place_def] p x(2) fnd(1) path_nonzero[OF p(2)] by auto
  qed
qed

lemma ht_rel_unlink:
  assumes "callbacks keyof mk h" and "chains h cs" and "i < length cs" and "cs ! i = as @ x # bs"
    and len: "length cs = buckets h + 1"
    and pl: "\<forall>i<length cs. \<forall>x\<in>set (cs ! i). ht_slot h (keyof x) 0 = i"
    and m: "\<forall>k x. m k = Some x \<longleftrightarrow> x \<in> set (concat cs) \<and> keyof x = k"
  shows "\<exists>h'. ht_unlink (place i as) x h = Inr h' \<and> ht_rel keyof mk (Some h') (m(keyof x := None))"
proof -
  obtain h' where h': "ht_unlink (place i as) x h = Inr h'" "chains h' (cs[i := as @ bs])" "same_cb h h'"
    using chains_unlink[OF assms(2-4)] by blast
  have d: "distinct (concat cs)" using assms(2) by (simp add: chains_def)
  have x: "x \<in> set (concat cs)" using in_chain[OF assms(3)] assms(4) by simp
  have mx: "m (keyof x) = Some x" using m x by blast
  have "y = x" if "y \<in> set (concat cs)" "keyof y = keyof x" for y using m mx that by (metis option.inject)
  then have "(m(keyof x := None)) k = Some y \<longleftrightarrow> y \<in> set (concat (cs[i := as @ bs])) \<and> keyof y = k" for k y
    using m mx unfolding set_chains_unlink[OF d assms(3,4)] by (cases "k = keyof x") (auto simp del: set_concat)
  moreover have "\<forall>j<length (cs[i := as @ bs]). \<forall>x\<in>set (cs[i := as @ bs] ! j). ht_slot h' (keyof x) 0 = j"
    using pl same_fields(1)[OF h'(3)] assms(3,4) by (auto simp: nth_list_update)
  moreover have "length (cs[i := as @ bs]) = buckets h' + 1" using len h'(3) by (simp add: same_cb_def)
  ultimately show ?thesis using h' same_fields[OF h'(3)] assms(1) unfolding ht_rel_def by blast
qed

lemma ht_rel_push:
  assumes "callbacks keyof mk h" and "chains h cs" and "m k = None" and "mk k \<noteq> 0"
    and len: "length cs = buckets h + 1"
    and pl: "\<forall>i<length cs. \<forall>x\<in>set (cs ! i). ht_slot h (keyof x) 0 = i"
    and m: "\<forall>k x. m k = Some x \<longleftrightarrow> x \<in> set (concat cs) \<and> keyof x = k"
  shows "\<exists>h'. ht_push (ht_slot h k 0) (mk k) h = Inr h' \<and> ht_rel keyof mk (Some h') (m(k \<mapsto> mk k))"
proof -
  let ?i = "ht_slot h k 0"
  have i: "?i < length cs" using assms(2) by (rule slot_bound)
  have key: "keyof (mk k) = k" using assms(1,4) unfolding callbacks_def by blast
  then have new: "mk k \<notin> set (concat cs)" using m assms(3) by (metis option.distinct(1))
  obtain h' where h': "ht_push ?i (mk k) h = Inr h'" "chains h' (cs[?i := mk k # cs ! ?i])" "same_cb h h'"
    using chains_push[OF assms(2) i assms(4) new] by blast
  have "(m(k \<mapsto> mk k)) k' = Some y \<longleftrightarrow> y \<in> set (concat (cs[?i := mk k # cs ! ?i])) \<and> keyof y = k'" for k' y
    using m key assms(3) unfolding set_chains_push[OF i] by (metis fun_upd_apply insert_iff option.distinct(1) option.inject)
  moreover have "\<forall>j<length (cs[?i := mk k # cs ! ?i]). \<forall>x\<in>set (cs[?i := mk k # cs ! ?i] ! j). ht_slot h' (keyof x) 0 = j"
    using pl same_fields(1)[OF h'(3)] i key by (auto simp: nth_list_update)
  moreover have "length (cs[?i := mk k # cs ! ?i]) = buckets h' + 1" using len h'(3) by (simp add: same_cb_def)
  ultimately show ?thesis using h' same_fields[OF h'(3)] assms(1) unfolding ht_rel_def by blast
qed

lemma flag_simps [simp]:
  "(0 :: u32) AND DNHT_REMOVE = 0" "(0 :: u32) AND DNHT_INSERT = 0" "DNHT_INSERT AND DNHT_REMOVE = 0" "DNHT_REMOVE AND DNHT_INSERT = 0"
  "DNHT_INSERT \<noteq> 0" "DNHT_REMOVE \<noteq> 0"
  by (simp_all add: DNHT_INSERT_def DNHT_REMOVE_def)

lemma ht_exec_map:
  assumes "ht_rel keyof mk t m"
  shows "\<exists>t'. ht_exec x t = Some (Inr (fst (map_step mk x m), t')) \<and> ht_rel keyof mk t' (snd (map_step mk x m))"
proof -
  obtain h cs where t: "t = Some h" and cb: "callbacks keyof mk h" and ch: "chains h cs" and len: "length cs = buckets h + 1"
      and pl: "\<forall>i<length cs. \<forall>x\<in>set (cs ! i). ht_slot h (keyof x) 0 = i"
      and m: "\<forall>k x. m k = Some x \<longleftrightarrow> x \<in> set (concat cs) \<and> keyof x = k"
    using assms unfolding ht_rel_def by blast
  note find = find_in_table[OF cb ch _ pl m]
  show ?thesis
  proof (cases x)
    case (Lookup k)
    then show ?thesis using find[of 0 k] assms t by (cases "m k") (auto simp: ht_exec_def dn_ht_find_def)
  next
    case (Insert k)
    have sl: "ht_slot h k DNHT_INSERT = ht_slot h k 0" by (rule callbacks_found(2)[OF cb]) simp
    have mk: "mk k = (case ht_newh h of Some f \<Rightarrow> f k DNHT_INSERT | None \<Rightarrow> k)" using cb by (simp add: callbacks_def)
    show ?thesis
    proof (cases "m k")
      case None
      then show ?thesis using Insert find[of DNHT_INSERT k] assms t ht_rel_push[OF cb ch None _ len pl m] sl
        by (cases "mk k = 0") (auto simp: ht_exec_def dn_ht_find_def mk[symmetric])
    next
      case (Some p)
      then show ?thesis using Insert find[of DNHT_INSERT k] assms t by (auto simp: ht_exec_def dn_ht_find_def)
    qed
  next
    case (Remove k)
    show ?thesis
    proof (cases "m k")
      case None
      then show ?thesis using Remove find[of DNHT_REMOVE k] assms t by (auto simp: ht_exec_def dn_ht_find_def)
    next
      case (Some p)
      then have key: "keyof p = k" using m by blast
      from Some find[of DNHT_REMOVE k] obtain as bs where ab: "cs ! ht_slot h k DNHT_REMOVE = as @ p # bs" "p \<noteq> 0"
          "find_loop h k DNHT_REMOVE (Head (ht_slot h k DNHT_REMOVE)) =
            Some (Inr (place (ht_slot h k DNHT_REMOVE) as, p))" by auto
      show ?thesis using ht_rel_unlink[OF cb ch slot_bound[OF ch] ab(1) len pl m] ab(2,3) Remove Some t key
        by (auto simp: ht_exec_def dn_ht_find_def)
    qed
  qed
qed

interpretation ht: object_map ht_exec "ht_rel keyof mk" mk for keyof mk
  by unfold_locales (rule ht_exec_map)


section \<open>Scanning\<close>

text \<open>What a scan does to the objects of a chain and of several chains: the objects that stay, the state of the
  callback, and whether the callback ended the scan.\<close>

fun visit :: "(nat \<Rightarrow> 's \<Rightarrow> u32 \<times> 's) \<Rightarrow> nat list \<Rightarrow> 's \<Rightarrow> nat list \<times> 's \<times> bool" where
  "visit fn [] s = ([], s, False)"
| "visit fn (x # xs) s =
     (case fn x s of (ret, s) \<Rightarrow>
        case (if ret AND DNHT_SCAN_END \<noteq> 0 then (xs, s, True) else visit fn xs s) of (ks, s, e) \<Rightarrow>
          (if ret AND DNHT_SCAN_DEL \<noteq> 0 then ks else x # ks, s, e))"

fun visits :: "(nat \<Rightarrow> 's \<Rightarrow> u32 \<times> 's) \<Rightarrow> nat list list \<Rightarrow> 's \<Rightarrow> nat list list \<times> 's \<times> bool" where
  "visits fn [] s = ([], s, False)"
| "visits fn (c # cs) s =
     (case visit fn c s of (k, s, e) \<Rightarrow>
        case (if e then (cs, s, True) else visits fn cs s) of (ks, s, e) \<Rightarrow> (k # ks, s, e))"

lemma visit_length: "visit fn xs s = (ks, s', e) \<Longrightarrow> length ks \<le> length xs"
  by (induction fn xs s arbitrary: ks s' e rule: visit.induct) (fastforce split: prod.splits if_splits)+

lemma visits_length: "visits fn cs s = (ks, s', e) \<Longrightarrow> length ks = length cs"
  by (induction fn cs s arbitrary: ks s' e rule: visits.induct) (auto split: prod.splits if_splits)

lemma visit_subset: "visit fn xs s = (ks, s', e) \<Longrightarrow> set ks \<subseteq> set xs"
  by (induction fn xs s arbitrary: ks s' e rule: visit.induct) (fastforce split: prod.splits if_splits)+

lemma visits_subset: "visits fn cs s = (ks, s', e) \<Longrightarrow> i < length cs \<Longrightarrow> set (ks ! i) \<subseteq> set (cs ! i)"
proof (induction cs arbitrary: s ks s' e i)
  case (Cons c cs)
  obtain k s1 e1 where v: "visit fn c s = (k, s1, e1)" by (metis prod_cases3)
  obtain ls s2 e2 where w: "visits fn cs s1 = (ls, s2, e2)" by (metis prod_cases3)
  have "set (ls ! j) \<subseteq> set (cs ! j)" if "Suc j = i" for j using Cons.IH[OF w, of j] Cons.prems(2) that by auto
  then show ?case using Cons.prems visit_subset[OF v] v w by (cases i) (auto split: if_splits)
qed simp

lemma visit_append:
  "visit fn (xs @ ys) s =
     (case visit fn xs s of (ks, s, e) \<Rightarrow>
        case (if e then (ys, s, True) else visit fn ys s) of (ls, s, e) \<Rightarrow> (ks @ ls, s, e))"
  by (induction fn xs s rule: visit.induct) (auto split: prod.splits if_splits)

lemma visits_concat: "visits fn cs s = (ks, s', e) \<Longrightarrow> visit fn (concat cs) s = (concat ks, s', e)"
  by (induction fn cs s arbitrary: ks s' e rule: visits.induct) (auto simp: visit_append split: prod.splits if_splits)

lemma path_append: "path l p (as @ bs) \<Longrightarrow> path l (if as = [] then p else l (last as)) bs"
  by (induction as arbitrary: p) (auto split: if_splits)

lemma deref_place:
  assumes "chains h cs" and "i < length cs" and "cs ! i = as @ bs"
  shows "deref h (place i as) = Inr (case bs of [] \<Rightarrow> 0 | x # xs \<Rightarrow> x)"
proof -
  obtain p where "rd (ht_heads h) i = Inr p" "path (link h) p (as @ bs)" using chains_head[OF assms(1,2)] assms(3) by auto
  then show ?thesis using path_append[of "link h" p as bs] by (cases bs) (auto simp: place_def split: if_splits)
qed

lemma scan_chain_ok:
  assumes "chains h cs" and "i < length cs" and "cs ! i = as @ bs" and "0 \<notin> set bs" and "visit fn bs s = (ks, s', e)"
  shows "\<exists>h'. scan_chain fn (place i as) found h s = Some (Inr (e, found + int (length bs) - int (length ks), h', s')) \<and>
    chains h' (cs[i := as @ ks]) \<and> same_cb h h'"
  using assms
proof (induction bs arbitrary: h cs as s ks s' e found)
  case Nil
  have "cs[i := as] = cs" using Nil.prems(3) by auto
  then show ?case using Nil deref_place[OF Nil.prems(1-3)] by (subst scan_chain.simps) (auto simp: same_cb_def)
next
  case (Cons x bs)
  obtain ret s1 where f: "fn x s = (ret, s1)" by fastforce
  have x: "deref h (place i as) = Inr x" "x \<noteq> 0" using deref_place[OF Cons.prems(1-3)] Cons.prems(4) by auto
  define del where "del \<longleftrightarrow> ret AND DNHT_SCAN_DEL \<noteq> 0"
  define as1 where "as1 = (if del then as else as @ [x])"
  have "\<exists>h1. scan_step ret (place i as) x found h = Inr (place i as1, found + (if del then 1 else 0), h1) \<and>
      chains h1 (cs[i := as1 @ bs]) \<and> same_cb h h1"
  proof (cases del)
    case True
    then show ?thesis using chains_skip[OF Cons.prems(1-3)] by (auto simp: scan_step_def del_def as1_def)
  next
    case False
    moreover from this have "cs[i := as1 @ bs] = cs" using Cons.prems(3) list_update_id[of cs i] by (simp add: as1_def)
    ultimately show ?thesis using Cons.prems(1) by (simp add: scan_step_def del_def as1_def place_def same_cb_def)
  qed
  then obtain h1 where h1: "scan_step ret (place i as) x found h = Inr (place i as1, found + (if del then 1 else 0), h1)"
      "chains h1 (cs[i := as1 @ bs])" "same_cb h h1" by blast
  have unf: "scan_chain fn (place i as) found h s =
      (if ret AND DNHT_SCAN_END \<noteq> 0 then Some (Inr (True, found + (if del then 1 else 0), h1, s1))
       else scan_chain fn (place i as1) (found + (if del then 1 else 0)) h1 s1)"
    using x f h1(1) by (subst scan_chain.simps) simp
  show ?case
  proof (cases "ret AND DNHT_SCAN_END \<noteq> 0")
    case True
    then have "ks = (if del then bs else x # bs)" "s' = s1" "e" using Cons.prems(5) f by (auto simp: del_def split: if_splits)
    then show ?thesis using unf True h1(2,3) by (auto simp: as1_def)
  next
    case False
    obtain ks1 s2 e1 where v: "visit fn bs s1 = (ks1, s2, e1)" by (metis prod_cases3)
    then have ks: "ks = (if del then ks1 else x # ks1)" "s' = s2" "e = e1" using Cons.prems(5) f False by (auto simp: del_def)
    have "i < length (cs[i := as1 @ bs])" "cs[i := as1 @ bs] ! i = as1 @ bs" "0 \<notin> set bs" using Cons.prems(2,4) by auto
    from Cons.IH[OF h1(2) this v, of "found + (if del then 1 else 0)"] show ?thesis
      using unf False ks h1(3) by (cases del) (auto simp: as1_def same_cb_def algebra_simps)
  qed
qed

lemma scan_from_ok:
  assumes "chains h cs" and "i + n \<le> length cs" and "visits fn (take n (drop i cs)) s = (ks, s', e)"
  shows "\<exists>h'. scan_from fn n i found h s =
      Some (Inr (found + int (length (concat (take n (drop i cs)))) - int (length (concat ks)), h', s')) \<and>
    chains h' (take i cs @ ks @ drop (i + n) cs) \<and> same_cb h h'"
  using assms
proof (induction n arbitrary: i h cs s found ks s' e)
  case 0
  then show ?case by (simp add: same_cb_def)
next
  case (Suc n)
  then have i: "i < length cs" by simp
  then have tk: "take (Suc n) (drop i cs) = cs ! i # take n (drop (Suc i) cs)"
    by (metis Cons_nth_drop_Suc take_Suc_Cons)
  obtain k s1 e1 where v: "visit fn (cs ! i) s = (k, s1, e1)" by (metis prod_cases3)
  have "0 \<notin> set (cs ! i)" using chains_head[OF Suc.prems(1) i] path_nonzero by blast
  then obtain h1 where h1: "scan_chain fn (Head i) found h s = Some (Inr (e1, found + int (length (cs ! i)) - int (length k), h1, s1))"
      "chains h1 (cs[i := k])" "same_cb h h1"
    using scan_chain_ok[OF Suc.prems(1) i _ _ v, of "[]" found] by (auto simp: place_def)
  have up: "take (Suc i) (cs[i := k]) = take i cs @ [k]" "drop (Suc i) (cs[i := k]) = drop (Suc i) cs"
    "cs[i := k] = take i cs @ k # drop (Suc i) cs"
    using i by (simp_all add: take_Suc_conv_app_nth upd_conv_take_nth_drop)
  show ?case
  proof (cases e1)
    case True
    then have "ks = k # take n (drop (Suc i) cs)" "s' = s1" using Suc.prems(3) v tk by auto
    moreover have "drop (Suc i) cs = take n (drop (Suc i) cs) @ drop (i + Suc n) cs"
      by (metis append_take_drop_id drop_drop add.commute add_Suc_right)
    ultimately show ?thesis using True h1 up(3) tk by auto
  next
    case False
    obtain ks1 s2 e2 where v2: "visits fn (take n (drop (Suc i) cs)) s1 = (ks1, s2, e2)" by (metis prod_cases3)
    then have ks: "ks = k # ks1" "s' = s2" using Suc.prems(3) v False tk by auto
    have "\<exists>h'. scan_from fn n (Suc i) (found + int (length (cs ! i)) - int (length k)) h1 s1 =
        Some (Inr (found + int (length (cs ! i)) - int (length k) + int (length (concat (take n (drop (Suc i) (cs[i := k]))))) - int (length (concat ks1)), h', s2)) \<and>
      chains h' (take (Suc i) (cs[i := k]) @ ks1 @ drop (Suc i + n) (cs[i := k])) \<and> same_cb h1 h'"
      by (rule Suc.IH[OF h1(2)]) (use v2 up(2) Suc.prems(2) in auto)
    moreover have "drop (Suc i + n) (cs[i := k]) = drop (i + Suc n) cs" by simp
    ultimately show ?thesis using False h1(1,3) ks up(1,2) tk by (auto simp: same_cb_def algebra_simps)
  qed
qed

lemma dn_ht_scan_ok:
  assumes "chains h cs" and "visits fn (take (buckets h + 1) cs) s = (ks, s', e)"
  shows "\<exists>h'. dn_ht_scan (Some h) (Some fn) s =
      Some (Inr (int (length (concat (take (buckets h + 1) cs))) - int (length (concat ks)), Some h', s')) \<and>
    chains h' (ks @ drop (buckets h + 1) cs) \<and> same_cb h h'"
  using scan_from_ok[of h cs 0 "buckets h + 1" fn s ks s' e 0] assms
  by (auto simp: dn_ht_scan_def chains_def)


section \<open>The number of buckets\<close>

lemma smear_step:
  fixes n x :: u32
  assumes "\<And>i. bit x i \<longleftrightarrow> (\<exists>j<d. bit n (i + j))"
  shows "bit (x OR drop_bit d x) i \<longleftrightarrow> (\<exists>j<2 * d. bit n (i + j))"
proof -
  have "bit (x OR drop_bit d x) i \<longleftrightarrow> (\<exists>j<d. bit n (i + j)) \<or> (\<exists>j<d. bit n (i + (d + j)))"
    by (simp add: bit_or_iff bit_drop_bit_eq assms ac_simps)
  also have "\<dots> \<longleftrightarrow> (\<exists>j<2 * d. bit n (i + j))"
  proof
    assume "\<exists>j<2 * d. bit n (i + j)"
    then obtain j where j: "j < 2 * d" "bit n (i + j)" by blast
    then show "(\<exists>j<d. bit n (i + j)) \<or> (\<exists>j<d. bit n (i + (d + j)))"
      by (cases "j < d") (auto intro: exI[of _ "j - d"])
  next
    assume "(\<exists>j<d. bit n (i + j)) \<or> (\<exists>j<d. bit n (i + (d + j)))"
    then obtain j where "j < d \<and> bit n (i + j) \<or> j < d \<and> bit n (i + (d + j))" by blast
    then show "\<exists>j<2 * d. bit n (i + j)" by (auto intro: exI[of _ j] exI[of _ "d + j"])
  qed
  finally show ?thesis .
qed

lemma bit_round_size: "bit (round_size n) i \<longleftrightarrow> (\<exists>j<32. bit n (i + j))"
proof -
  have 1: "bit n i \<longleftrightarrow> (\<exists>j<1. bit n (i + j))" for i by simp
  note s1 = smear_step[OF 1, unfolded mult_1_right]
  note s2 = smear_step[OF s1] note s3 = smear_step[OF s2] note s4 = smear_step[OF s3] note s5 = smear_step[OF s4]
  show ?thesis unfolding round_size_def Let_def using s5[of i] by simp
qed

lemma round_size_mask:
  assumes "2 ^ K \<le> unat n" and "unat n < 2 ^ Suc K" and "K < 31"
  shows "unat (round_size n) = 2 ^ Suc K - 1"
proof -
  have low: "bit n j \<longleftrightarrow> j < 32 \<and> odd (unat n div 2 ^ j)" for j
    using bit_unsigned_iff[of n j, where 'a = nat] bit_imp_le_length[of n j] by (auto simp: bit_iff_odd[of "unat n"])
  have "unat n div 2 ^ K = 1" by (rule div_nat_eqI) (use assms in auto)
  then have K: "bit n K" using low assms(3) by simp
  have hi: "\<not> bit n j" if "K < j" for j
  proof -
    have "(2 :: nat) ^ Suc K \<le> 2 ^ j" using that by (intro power_increasing) auto
    then show ?thesis using low assms(2) by simp
  qed
  have "(\<exists>j<32. bit n (i + j)) \<longleftrightarrow> i \<le> K" for i
  proof
    assume "i \<le> K"
    then show "\<exists>j<32. bit n (i + j)" using K assms(3) by (intro exI[of _ "K - i"]) simp
  next
    assume "\<exists>j<32. bit n (i + j)"
    then obtain j where "bit n (i + j)" by blast
    then have "i + j \<le> K" using hi not_le_imp_less by blast
    then show "i \<le> K" by simp
  qed
  then have "round_size n = mask (Suc K)" by (intro bit_eqI) (auto simp: bit_round_size bit_mask_iff less_Suc_eq_le)
  moreover have "unat (mask (Suc K) :: u32) = 2 ^ Suc K - 1"
  proof -
    have "unat (mask (Suc K) :: u32) = mask (Suc K)"
      using assms(3) by (intro bit_eqI) (auto simp: bit_unsigned_iff bit_mask_iff)
    then show ?thesis by (simp add: mask_eq_exp_minus_1)
  qed
  ultimately show ?thesis by simp
qed

text \<open>The number of buckets is a power of two near the number asked for.\<close>

lemma round_buckets_near:
  assumes "1 \<le> b" and "b \<le> 65536"
  shows "\<exists>k. round_buckets b + 1 = 2 ^ k \<and> 3 * b \<le> 4 * 2 ^ k \<and> 2 * 2 ^ k \<le> 3 * b + 3"
proof -
  obtain K where K: "2 ^ K \<le> b" "b < 2 ^ Suc K" using ex_power_ivl1[of 2 b] assms(1) by auto
  have "(2 :: nat) ^ K < 2 ^ 17" using K(1) assms(2) by simp
  then have "K < 17" by (simp only: power_strict_increasing_iff)
  moreover have "unat (of_nat b :: u32) = b" using assms(2) by (simp add: unat_of_nat)
  ultimately have mx: "unat (round_size (of_nat b)) = 2 ^ Suc K - 1" using round_size_mask[of K "of_nat b"] K by simp
  have mn: "(2 ^ Suc K - 1) div 2 = (2 :: nat) ^ K - 1" by simp
  define B where "B = (2 :: nat) ^ K"
  have rb: "round_buckets b = (if (B - 1) * 4000 div 3000 < b then 2 * B - 1 else B - 1)"
    using mx mn by (simp add: round_buckets_def Let_def B_def)
  have p: "1 \<le> B" "B \<le> b" "b < 2 * B" using K by (auto simp: B_def)
  show ?thesis
  proof (cases "(B - 1) * 4000 div 3000 < b")
    case True
    then have "4 * (B - 1) < 3 * b" "round_buckets b + 1 = 2 * B" using rb p(1) by auto
    then show ?thesis using p by (intro exI[of _ "Suc K"]) (auto simp: B_def)
  next
    case False
    then have "3 * b \<le> 4 * (B - 1)" "round_buckets b + 1 = B" using rb p(1) by auto
    then show ?thesis using p by (intro exI[of _ K]) (auto simp: B_def)
  qed
qed

section \<open>Properties\<close>

lemma chains_init:
  assumes "dn_ht_init malloc lk None bk h mt nh = Some t"
  shows "chains t (replicate (buckets t + 1) [])"
proof -
  have "concat (replicate n []) = ([] :: nat list)" for n by (induction n) auto
  then show ?thesis using assms by (auto simp: dn_ht_init_def Let_def chains_def list_all2_conv_all_nth simp del: replicate.simps split: option.splits if_splits)
qed

lemma ht_rel_init:
  assumes "dn_ht_init malloc lk None bk h mt nh = Some t" and "callbacks keyof mk t"
  shows "ht_rel keyof mk (Some t) Map.empty"
  unfolding ht_rel_def using assms(2) chains_init[OF assms(1)]
  by (intro exI[of _ t] exI[of _ "replicate (buckets t + 1) []"]) (auto simp del: replicate.simps)

lemma ht_rel_entries:
  assumes "ht_rel keyof mk t m"
  shows "dn_ht_entries t = int (card (dom m))"
proof -
  obtain h cs where t: "t = Some h" and ch: "chains h cs"
      and m: "\<forall>k x. m k = Some x \<longleftrightarrow> x \<in> set (concat cs) \<and> keyof x = k"
    using assms unfolding ht_rel_def by blast
  have "inj_on keyof (set (concat cs))" using m by (intro inj_onI) (metis option.inject)
  moreover have "dom m = keyof ` set (concat cs)" using m by (auto simp: dom_def simp del: set_concat)
  ultimately have "card (dom m) = length (concat cs)"
    using ch by (simp add: card_image distinct_card chains_def del: set_concat)
  then show ?thesis using t ch by (simp add: dn_ht_entries_def chains_def)
qed

text \<open>
  Property C30. On a new table, every sequence of lookups, insertions and removals by \<open>dn_ht_find\<close> returns,
  with the objects that a map from keys to objects gives, and the counter of entries is the number of
  keys. Objects keep no duplicates and are found again wherever their chain is, as long as the callbacks
  agree on the key of an object. A new object that cannot be had (\<open>newh\<close> returns \<open>NULL\<close>) leaves the table
  as it is.
\<close>
theorem dn_ht_is_map:
  assumes "dn_ht_init malloc lk None bk h mt nh = Some t" and "callbacks keyof mk t"
  shows "\<exists>t'. run_ops ht_exec xs (Some t) = Some (Inr (fst (map_run mk xs Map.empty), t')) \<and>
    dn_ht_entries t' = int (card (dom (snd (map_run mk xs Map.empty))))"
  using ht.run_map[OF ht_rel_init[OF assms], of xs] ht_rel_entries by blast

lemma ht_rel_scan:
  assumes "ht_rel keyof mk t m"
  shows "\<exists>xs t'. distinct xs \<and> set xs = ran m \<and>
    dn_ht_scan t (Some fn) s = Some (Inr (int (length xs) - int (length (fst (visit fn xs s))), t', fst (snd (visit fn xs s)))) \<and>
    ht_rel keyof mk t' (\<lambda>k. Option.bind (m k) (\<lambda>x. if x \<in> set (fst (visit fn xs s)) then Some x else None))"
proof -
  obtain h cs where t: "t = Some h" and cb: "callbacks keyof mk h" and ch: "chains h cs" and len: "length cs = buckets h + 1"
      and pl: "\<forall>i<length cs. \<forall>x\<in>set (cs ! i). ht_slot h (keyof x) 0 = i"
      and m: "\<forall>k x. m k = Some x \<longleftrightarrow> x \<in> set (concat cs) \<and> keyof x = k"
    using assms unfolding ht_rel_def by blast
  obtain ks s' e where v: "visits fn cs s = (ks, s', e)" by (metis prod_cases3)
  have vc: "visit fn (concat cs) s = (concat ks, s', e)" using v by (rule visits_concat)
  have lk: "length ks = length cs" using v by (rule visits_length)
  obtain h' where h': "dn_ht_scan (Some h) (Some fn) s = Some (Inr (int (length (concat cs)) - int (length (concat ks)), Some h', s'))"
      "chains h' ks" "same_cb h h'"
    using dn_ht_scan_ok[OF ch, of fn s ks s' e] v len by auto
  have sub: "set (concat ks) \<subseteq> set (concat cs)" using visit_subset[OF vc] .
  let ?m = "\<lambda>k. Option.bind (m k) (\<lambda>x. if x \<in> set (concat ks) then Some x else None)"
  have "?m k = Some x \<longleftrightarrow> x \<in> set (concat ks) \<and> keyof x = k" for k x
  proof -
    have "?m k = Some x \<longleftrightarrow> m k = Some x \<and> x \<in> set (concat ks)" by (cases "m k") auto
    then show ?thesis using m sub by blast
  qed
  moreover have "\<forall>i<length ks. \<forall>x\<in>set (ks ! i). ht_slot h' (keyof x) 0 = i"
    using pl visits_subset[OF v] lk same_fields(1)[OF h'(3)] by (metis subsetD)
  moreover have "length ks = buckets h' + 1" using lk len h'(3) by (simp add: same_cb_def)
  ultimately have "ht_rel keyof mk (Some h') ?m" using h'(2) cb same_fields(2)[OF h'(3)] unfolding ht_rel_def by blast
  moreover have "set (concat cs) = ran m" using m by (auto simp: ran_def simp del: set_concat)
  moreover have "distinct (concat cs)" using ch by (simp add: chains_def)
  ultimately show ?thesis using h'(1) t vc by (intro exI[of _ "concat cs"] exI[of _ "Some h'"]) (simp del: set_concat)
qed

lemma visit_do_del: "visit do_del xs s = ([], (), False)"
  by (induction xs arbitrary: s) (simp_all add: do_del_def DNHT_SCAN_DEL_def DNHT_SCAN_END_def)

text \<open>\<open>dn_ht_free\<close> with \<open>DNHT_REMOVE\<close> empties the table and keeps it usable.\<close>

lemma dn_ht_free_empties:
  assumes "ht_rel keyof mk t m"
  shows "\<exists>t'. dn_ht_free t DNHT_REMOVE = Some (Inr t') \<and> ht_rel keyof mk t' Map.empty"
proof -
  obtain h where "t = Some h" using assms by (auto simp: ht_rel_def)
  moreover have "(\<lambda>k. Option.bind (m k) (\<lambda>x. None)) = Map.empty" by (auto simp: fun_eq_iff bind_eq_None_conv)
  ultimately show ?thesis using ht_rel_scan[OF assms, of do_del "()"] by (auto simp: dn_ht_free_def visit_do_del)
qed

text \<open>
  A scan of a table, whatever was done to the table before, calls the callback once for every
  object until the callback ends it, removes exactly the objects for which the callback asks, tells their
  number, and leaves a table on which all later operations behave as on the map without them.
\<close>
theorem dn_ht_scan_removes:
  assumes "dn_ht_init malloc lk None bk h mt nh = Some t" and "callbacks keyof mk t" and "map_run mk xs Map.empty = (ps, m)"
  shows "\<exists>t1 os t2. run_ops ht_exec xs (Some t) = Some (Inr (ps, t1)) \<and> distinct os \<and> set os = ran m \<and>
    dn_ht_scan t1 (Some fn) s =
      Some (Inr (int (length os) - int (length (fst (visit fn os s))), t2, fst (snd (visit fn os s)))) \<and>
    (\<forall>ys. \<exists>t3. run_ops ht_exec ys t2 =
      Some (Inr (fst (map_run mk ys (\<lambda>k. Option.bind (m k) (\<lambda>x. if x \<in> set (fst (visit fn os s)) then Some x else None))), t3)))"
proof -
  obtain t1 where t1: "run_ops ht_exec xs (Some t) = Some (Inr (ps, t1))" "ht_rel keyof mk t1 m"
    using ht.run_map[OF ht_rel_init[OF assms(1,2)], of xs] assms(3) by auto
  then show ?thesis using ht_rel_scan[OF t1(2), of fn s] ht.run_map by blast
qed

definition demo_ht :: "dn_ht" where
  "demo_ht = the (dn_ht_init (\<lambda>n. True) (\<lambda>x. 0) None 4 (Some (\<lambda>k f. of_nat (3 * k))) (Some (\<lambda>x k f. x mod 100 = k))
     (Some (\<lambda>k f. if k < 100 then k + 100 else 0)))"

lemma demo_ht_init:
  "dn_ht_init (\<lambda>n. True) (\<lambda>x. 0) None 4 (Some (\<lambda>k f. of_nat (3 * k))) (Some (\<lambda>x k f. x mod 100 = k))
     (Some (\<lambda>k f. if k < 100 then k + 100 else 0)) = Some demo_ht"
  by (simp add: demo_ht_def dn_ht_init_def Let_def)

lemma demo_ht_callbacks: "callbacks (\<lambda>x. x mod 100) (\<lambda>k. if k < 100 then k + 100 else 0) demo_ht"
  by (auto simp: demo_ht_def dn_ht_init_def Let_def callbacks_def)

theorem dn_ht_is_map_witness:
  "\<exists>t'. run_ops ht_exec [Insert 5, Insert 9, Lookup 5, Remove 5, Lookup 5, Insert 200] (Some demo_ht) =
      Some (Inr ([105, 109, 105, 105, 0, 0], t')) \<and> dn_ht_entries t' = 1"
  using dn_ht_is_map[OF demo_ht_init demo_ht_callbacks, of "[Insert 5, Insert 9, Lookup 5, Remove 5, Lookup 5, Insert 200]"]
  by simp

theorem dn_ht_scan_removes_witness:
  "\<exists>t1 os t2. run_ops ht_exec [Insert 5, Insert 9] (Some demo_ht) = Some (Inr ([105, 109], t1)) \<and> distinct os \<and> set os = {105, 109} \<and>
    dn_ht_scan t1 (Some (\<lambda>x s. (if x = 105 then DNHT_SCAN_DEL else 0, Suc s))) (0 :: nat) =
      Some (Inr (int (length os) - int (length (fst (visit (\<lambda>x s. (if x = 105 then DNHT_SCAN_DEL else 0, Suc s)) os 0))), t2,
        fst (snd (visit (\<lambda>x s. (if x = 105 then DNHT_SCAN_DEL else 0, Suc s)) os 0))))"
  using dn_ht_scan_removes[OF demo_ht_init demo_ht_callbacks, of "[Insert 5, Insert 9]" "[105, 109]" "[5 \<mapsto> 105, 9 \<mapsto> 109]"
      "\<lambda>x s. (if x = 105 then DNHT_SCAN_DEL else 0, Suc s)" "0 :: nat"]
  by (auto simp: insert_commute)

end
