(* ===== verification/In_Cksum.thy ===== *)
theory In_Cksum
  imports Prelude
begin

text \<open>
  \<open>src/3rd/freebsd/amd64/amd64/in_cksum.c\<close>: the Internet checksum of a chain of buffers, as the
  network stack computes it on a 64-bit little-endian machine.

  Memory is a partial map from addresses to bytes; the code reads aligned words of 32 bits, and a
  word with an unmapped byte is \<open>Undef\<close>. Lengths are C integers. The unions that take a number
  apart are written with masks and shifts.
\<close>

unbundle bit_operations_syntax

section \<open>Words in memory\<close>

type_synonym memory = "nat \<Rightarrow> byte option"

definition le32 :: "byte \<Rightarrow> byte \<Rightarrow> byte \<Rightarrow> byte \<Rightarrow> u32" where
  "le32 a b c d = ucast a + 256 * ucast b + 65536 * ucast c + 16777216 * ucast d"

definition ld32 :: "memory \<Rightarrow> nat \<Rightarrow> u32 res" where
  "ld32 mem a =
     (case (mem a, mem (a + 1), mem (a + 2), mem (a + 3)) of
        (Some b0, Some b1, Some b2, Some b3) \<Rightarrow> Inr (le32 b0 b1 b2 b3)
      | _ \<Rightarrow> Inl Undef)"

text \<open>Adding the words \<open>lw[k]\<close> for \<open>k\<close> in a list.\<close>

fun add_words :: "memory \<Rightarrow> nat \<Rightarrow> nat list \<Rightarrow> u64 \<Rightarrow> u64 res" where
  "add_words mem lw [] acc = Inr acc"
| "add_words mem lw (k # ks) acc = rbind (ld32 mem (lw + 4 * k)) (\<lambda>w. add_words mem lw ks (acc + ucast w))"

section \<open>Reduction\<close>

definition ADDCARRY :: "u64 \<Rightarrow> u64" where
  "ADDCARRY x = (if x > 65535 then x - 65535 else x)"

definition REDUCE32 :: "u64 \<Rightarrow> u64" where
  "REDUCE32 q = (q AND 0xffff) + (drop_bit 16 q AND 0xffff) + (drop_bit 32 q AND 0xffff) + (drop_bit 48 q AND 0xffff)"

definition REDUCE16 :: "u64 \<Rightarrow> u64" where
  "REDUCE16 q = (let l = REDUCE32 q in ADDCARRY ((l AND 0xffff) + (drop_bit 16 l AND 0xffff)))"

definition in_masks :: "u32 list" where
  "in_masks = [0x00000000, 0x000000FF, 0x0000FFFF, 0x00FFFFFF,
               0x00000000, 0x0000FF00, 0x00FFFF00, 0xFFFFFF00,
               0x00000000, 0x00FF0000, 0xFFFF0000, 0xFFFF0000,
               0x00000000, 0xFF000000, 0xFF000000, 0xFF000000]"

section \<open>The sum of a buffer\<close>

text \<open>The loops of \<open>in_cksumdata\<close>; each first decrements \<open>len\<close>.\<close>

function sum32_loop :: "memory \<Rightarrow> nat \<Rightarrow> int \<Rightarrow> u64 \<Rightarrow> u64 \<Rightarrow> (nat \<times> int \<times> u64 \<times> u64) res" where
  "sum32_loop mem lw len acc prefilled =
     (if len - 32 \<ge> 4
      then rbind (ld32 mem (lw + 4 * 8)) (\<lambda>prefilling.
           rbind (add_words mem lw [1, 2, 3, 4, 5, 6, 7] (acc + prefilled)) (\<lambda>acc.
           sum32_loop mem (lw + 32) (len - 32) acc (ucast prefilling)))
      else Inr (lw, len - 32, acc, prefilled))"
  by pat_completeness auto
termination by (relation "measure (\<lambda>(mem, lw, len, acc, p). nat len)") auto

function sum16_loop :: "memory \<Rightarrow> nat \<Rightarrow> int \<Rightarrow> u64 \<Rightarrow> (nat \<times> int \<times> u64) res" where
  "sum16_loop mem lw len acc =
     (if len - 16 \<ge> 0
      then rbind (add_words mem lw [0, 1, 2, 3] acc) (\<lambda>acc. sum16_loop mem (lw + 16) (len - 16) acc)
      else Inr (lw, len - 16, acc))"
  by pat_completeness auto
termination by (relation "measure (\<lambda>(mem, lw, len, acc). nat len)") auto

function sum4_loop :: "memory \<Rightarrow> nat \<Rightarrow> int \<Rightarrow> u64 \<Rightarrow> (nat \<times> int \<times> u64) res" where
  "sum4_loop mem lw len acc =
     (if len - 4 \<ge> 0
      then rbind (add_words mem lw [0] acc) (\<lambda>acc. sum4_loop mem (lw + 4) (len - 4) acc)
      else Inr (lw, len - 4, acc))"
  by pat_completeness auto
termination by (relation "measure (\<lambda>(mem, lw, len, acc). nat len)") auto

declare sum32_loop.simps [simp del] sum16_loop.simps [simp del] sum4_loop.simps [simp del]

text \<open>From the first aligned word on.\<close>

definition sum_aligned :: "memory \<Rightarrow> nat \<Rightarrow> int \<Rightarrow> u64 \<Rightarrow> u64 res" where
  "sum_aligned mem lw len acc =
     rbind (ld32 mem lw) (\<lambda>w.
     rbind (sum32_loop mem lw len acc (ucast w)) (\<lambda>(lw, len, acc, prefilled).
     rbind (if len \<ge> 0
            then rbind (add_words mem lw [1, 2, 3, 4, 5, 6, 7] (acc + prefilled)) (\<lambda>acc. Inr (lw + 32, len, acc))
            else Inr (lw, len + 32, acc)) (\<lambda>(lw, len, acc).
     rbind (sum16_loop mem lw len acc) (\<lambda>(lw, len, acc).
     rbind (sum4_loop mem lw (len + 16) acc) (\<lambda>(lw, len, acc).
     let len = len + 4 in
     if len > 0
     then rbind (rd in_masks (nat len)) (\<lambda>mask. rbind (ld32 mem lw) (\<lambda>w. Inr (REDUCE32 (acc + ucast (mask AND w)))))
     else Inr (REDUCE32 acc))))))"

definition in_cksumdata :: "memory \<Rightarrow> nat \<Rightarrow> int \<Rightarrow> u64 res" where
  "in_cksumdata mem buf len =
     (if buf mod 4 = 0 \<and> len = 20
      then rbind (add_words mem buf [0, 1, 2, 3, 4] 0) (\<lambda>acc. Inr (REDUCE32 acc))
      else let offset = buf mod 4 in
        if offset \<noteq> 0
        then let lw = buf - offset in
             if len < 0 then Inl Undef
             else rbind (rd in_masks (4 * offset + (if len \<ge> 3 then 3 else nat len))) (\<lambda>mask.
                  rbind (ld32 mem lw) (\<lambda>w.
                  let acc = ucast (w AND mask); len = len - (4 - int offset) in
                  if len \<le> 0 then Inr (REDUCE32 acc) else sum_aligned mem (lw + 4) len acc))
        else sum_aligned mem buf len 0)"

section \<open>The checksum of a chain\<close>

record mbuf =
  m_data :: nat
  m_len :: int

text \<open>The body of the loop, from \<open>skip_start\<close> on: sum, \<open>clen\<close> and \<open>len\<close>.\<close>

definition cksum_buf :: "memory \<Rightarrow> nat \<Rightarrow> int \<Rightarrow> u64 \<times> int \<times> int \<Rightarrow> (u64 \<times> int \<times> int) res" where
  "cksum_buf mem addr mlen st =
     (case st of (acc, clen, len) \<Rightarrow>
        let mlen = (if len < mlen then len else mlen) in
        rbind (in_cksumdata mem addr mlen) (\<lambda>d.
        Inr (acc + (if odd clen \<noteq> odd (int addr) then push_bit 8 d else d), clen + mlen, len - mlen)))"

fun cksum_loop :: "memory \<Rightarrow> mbuf list \<Rightarrow> u64 \<times> int \<times> int \<Rightarrow> (u64 \<times> int \<times> int) res" where
  "cksum_loop mem [] st = Inr st"
| "cksum_loop mem (m # ms) st =
     (if snd (snd st) = 0 then Inr st
      else if m_len m = 0 then cksum_loop mem ms st
      else rbind (cksum_buf mem (m_data m) (m_len m) st) (\<lambda>st. cksum_loop mem ms st))"

fun cksum_skip :: "memory \<Rightarrow> mbuf list \<Rightarrow> int \<Rightarrow> u64 \<times> int \<times> int \<Rightarrow> (u64 \<times> int \<times> int) res" where
  "cksum_skip mem [] skip st = cksum_loop mem [] st"
| "cksum_skip mem (m # ms) skip st =
     (if skip = 0 then cksum_loop mem (m # ms) st
      else if m_len m > skip
      then rbind (cksum_buf mem (m_data m + nat skip) (m_len m - skip) st) (\<lambda>st. cksum_loop mem ms st)
      else cksum_skip mem ms (skip - m_len m) st)"

definition in_cksum_skip :: "memory \<Rightarrow> mbuf list \<Rightarrow> int \<Rightarrow> int \<Rightarrow> u16 res" where
  "in_cksum_skip mem m len skip =
     rbind (cksum_skip mem m skip (0, 0, len - skip)) (\<lambda>(acc, clen, len). Inr (ucast (NOT (REDUCE16 acc) AND 0xffff)))"

definition in_cksum_hdr :: "memory \<Rightarrow> nat \<Rightarrow> u32 res" where
  "in_cksum_hdr mem ip = rbind (in_cksumdata mem ip 20) (\<lambda>acc. Inr (ucast (NOT (REDUCE16 acc) AND 0xffff)))"

definition in_addword :: "u16 \<Rightarrow> u16 \<Rightarrow> u16" where
  "in_addword a b = ucast (ADDCARRY (ucast a + ucast b))"

definition in_pseudo :: "u32 \<Rightarrow> u32 \<Rightarrow> u32 \<Rightarrow> u16" where
  "in_pseudo a b c = ucast (REDUCE16 (ucast a + ucast b + ucast c))"


section \<open>Sums up to end-around carry\<close>

text \<open>Two sums have the same checksum when they agree modulo \<open>65535\<close> and in whether they are zero.\<close>

definition oc :: "nat \<Rightarrow> nat \<Rightarrow> bool" where
  "oc x y \<longleftrightarrow> x mod 65535 = y mod 65535 \<and> (x = 0 \<longleftrightarrow> y = 0)"

lemma oc_refl [simp]: "oc x x"
  by (simp add: oc_def)

lemma oc_sym: "oc x y \<Longrightarrow> oc y x"
  by (auto simp: oc_def)

lemma oc_trans [trans]: "oc x y \<Longrightarrow> oc y z \<Longrightarrow> oc x z"
  by (simp add: oc_def)

lemma oc_add: "oc x x' \<Longrightarrow> oc y y' \<Longrightarrow> oc (x + y) (x' + y')"
  unfolding oc_def by (metis mod_add_cong add_is_0)

lemma oc_mult: "oc x y \<Longrightarrow> 0 < c \<Longrightarrow> oc (c * x) (c * y)"
  unfolding oc_def by (metis mod_mult_cong mult_is_0 less_not_refl)

lemma oc_65536: "oc (65536 * x) x"
proof -
  have "65536 * x = x + 65535 * x" by simp
  then have "65536 * x mod 65535 = x mod 65535" by (metis mod_mult_self2)
  then show ?thesis by (simp add: oc_def)
qed

lemma oc_unique: "oc x y \<Longrightarrow> x \<le> 65535 \<Longrightarrow> y \<le> 65535 \<Longrightarrow> x = y"
  by (cases "x = 65535"; cases "y = 65535") (auto simp: oc_def)

lemma oc_carry: "65535 < x \<Longrightarrow> oc (x - 65535) x"
  by (simp add: oc_def le_mod_geq)

lemma oc_digit: "oc y z \<Longrightarrow> oc (x + y) (x + 65536 * z)"
  by (rule oc_add[OF oc_refl oc_trans[OF _ oc_sym[OF oc_65536]]])

lemmas oc_digits = oc_digit[OF oc_refl]

section \<open>Reduction keeps the checksum\<close>

lemma unat_low16: "unat (q AND 0xffff) = unat q mod 65536" for q :: u64
  using unat_and_mask[of q 16] by (simp add: mask_eq_exp_minus_1)

lemma unat_add_small: "unat a + unat b < 2 ^ LENGTH('a) \<Longrightarrow> unat (a + b) = unat a + unat b" for a b :: "'a::len word"
  by (simp add: unat_word_ariths)

lemma REDUCE32_nat:
  "unat (REDUCE32 q) = unat q mod 65536 + unat q div 65536 mod 65536 + unat q div 65536 ^ 2 mod 65536 + unat q div 65536 ^ 3 mod 65536"
proof -
  have d: "unat (drop_bit 16 q AND 0xffff) = unat q div 65536 mod 65536" "unat (drop_bit 32 q AND 0xffff) = unat q div 65536 ^ 2 mod 65536"
    "unat (drop_bit 48 q AND 0xffff) = unat q div 65536 ^ 3 mod 65536" "unat (q AND 0xffff) = unat q mod 65536"
    by (simp_all add: unat_low16 unat_drop)
  have b: "x mod 65536 < 65536" for x :: nat by simp
  have four: "unat (A + B + C + D) = unat A + unat B + unat C + unat D"
    if "unat A < 65536" "unat B < 65536" "unat C < 65536" "unat D < 65536" for A B C D :: u64
  proof -
    have 1: "unat (A + B) = unat A + unat B" by (rule unat_add_small) (use that in simp)
    have 2: "unat (A + B + C) = unat (A + B) + unat C" by (rule unat_add_small) (use that 1 in simp)
    have "unat (A + B + C + D) = unat (A + B + C) + unat D" by (rule unat_add_small) (use that 1 2 in simp)
    then show ?thesis using 1 2 by simp
  qed
  show ?thesis unfolding REDUCE32_def by (subst four) (simp_all only: d b)
qed

lemma REDUCE32_ok: "oc (unat (REDUCE32 q)) (unat q)" "unat (REDUCE32 q) \<le> 262140"
proof -
  let ?x = "unat q"
  define a b c d where "a = ?x mod 65536" and "b = ?x div 65536 mod 65536" and "c = ?x div 65536 ^ 2 mod 65536" and "d = ?x div 65536 ^ 3 mod 65536"
  have "?x < 65536 ^ 4" using unsigned_less[of q, where 'a = nat] by simp
  then have "?x div 65536 ^ 3 < 65536" by (simp add: div_less_iff_less_mult)
  then have d: "d = ?x div 65536 ^ 3" by (simp add: d_def)
  have "?x = a + 65536 * (?x div 65536)" by (simp add: a_def)
  moreover have "?x div 65536 = b + 65536 * (?x div 65536 ^ 2)" unfolding b_def power2_eq_square div_mult2_eq by simp
  moreover have "?x div 65536 ^ 2 = c + 65536 * (?x div 65536 ^ 3)" unfolding c_def power3_eq_cube power2_eq_square div_mult2_eq by simp
  ultimately have x: "?x = a + 65536 * (b + 65536 * (c + 65536 * d))" using d by simp
  have "oc (a + (b + (c + d))) (a + 65536 * (b + 65536 * (c + 65536 * d)))" by (intro oc_digit oc_refl)
  then have "oc (a + (b + (c + d))) ?x" by (simp only: x[symmetric])
  moreover have "unat (REDUCE32 q) = a + (b + (c + d))"
    unfolding REDUCE32_nat a_def b_def c_def d_def by (simp only: add.assoc)
  ultimately show "oc (unat (REDUCE32 q)) ?x" by (simp only:)
  have "y mod 65536 \<le> 65535" for y :: nat using less_Suc_eq_le by fastforce
  from this[of ?x] this[of "?x div 65536"] this[of "?x div 65536 ^ 2"] this[of "?x div 65536 ^ 3"]
  show "unat (REDUCE32 q) \<le> 262140" unfolding REDUCE32_nat by linarith
qed

lemma REDUCE16_ok: "oc (unat (REDUCE16 q)) (unat q)" "unat (REDUCE16 q) \<le> 65535"
proof -
  let ?l = "REDUCE32 q"
  let ?s = "(?l AND 0xffff) + (drop_bit 16 ?l AND 0xffff)"
  have l: "unat ?l \<le> 262140" by (rule REDUCE32_ok)
  have hi: "unat ?l div 65536 \<le> 3" using div_le_mono[OF l, of 65536] by simp
  have hm: "unat ?l div 65536 mod 65536 = unat ?l div 65536" using hi by simp
  have s: "unat ?s = unat ?l mod 65536 + unat ?l div 65536"
    using hi mod_less_divisor[of 65536 "unat ?l"] hm by (subst unat_add_small) (simp_all add: unat_low16 unat_drop)
  have "oc (unat ?l mod 65536 + unat ?l div 65536) (unat ?l mod 65536 + 65536 * (unat ?l div 65536))" by (rule oc_digits)
  then have o: "oc (unat ?s) (unat q)" using REDUCE32_ok(1)[of q] oc_trans by (simp add: s)
  have b: "unat ?s \<le> 65538" using s hi mod_less_divisor[of 65536 "unat ?l"] by linarith
  have "unat (ADDCARRY ?s) = (if unat ?s > 65535 then unat ?s - 65535 else unat ?s)"
    by (simp add: ADDCARRY_def word_less_nat_alt unat_sub_if_size)
  then show "oc (unat (REDUCE16 q)) (unat q)" "unat (REDUCE16 q) \<le> 65535"
    using o b oc_carry[of "unat ?s"] by (auto simp: REDUCE16_def Let_def intro: oc_trans)
qed

section \<open>Bytes and words\<close>

text \<open>The sum of bytes as a sum of 16-bit words; the flag says whether the first byte is the high byte
  of its word.\<close>

fun wsum :: "bool \<Rightarrow> byte list \<Rightarrow> nat" where
  "wsum hi [] = 0"
| "wsum hi (b # bs) = (if hi then 256 else 1) * unat b + wsum (\<not> hi) bs"

lemma wsum_append: "wsum hi (xs @ ys) = wsum hi xs + wsum (hi \<noteq> odd (length xs)) ys"
  by (induction hi xs rule: wsum.induct) simp_all

lemma wsum_swap: "oc (256 * wsum hi xs) (wsum (\<not> hi) xs)"
proof (induction hi xs rule: wsum.induct)
  case (2 hi b bs)
  have "oc (256 * ((if hi then 256 else 1) * unat b)) ((if \<not> hi then 256 else 1) * unat b)"
    using oc_65536[of "unat b"] by (cases hi) simp_all
  then have "oc (256 * ((if hi then 256 else 1) * unat b) + 256 * wsum (\<not> hi) bs)
      ((if \<not> hi then 256 else 1) * unat b + wsum (\<not> \<not> hi) bs)" by (rule oc_add[OF _ 2])
  then show ?case by (simp add: distrib_left)
qed simp

definition bytes_at :: "memory \<Rightarrow> nat \<Rightarrow> nat \<Rightarrow> byte list" where
  "bytes_at mem a n = map (\<lambda>i. the (mem (a + i))) [0..<n]"

lemma bytes_at_simps [simp]: "bytes_at mem a 0 = []" "length (bytes_at mem a n) = n"
  by (simp_all add: bytes_at_def)

lemma bytes_at_Suc: "bytes_at mem a (Suc n) = the (mem a) # bytes_at mem (Suc a) n"
  by (rule nth_equalityI) (auto simp: bytes_at_def nth_Cons split: nat.splits simp del: upt_Suc)

lemma bytes_at_add: "bytes_at mem a (m + n) = bytes_at mem a m @ bytes_at mem (a + m) n"
  by (rule nth_equalityI) (auto simp: bytes_at_def nth_append)

definition wordat :: "memory \<Rightarrow> nat \<Rightarrow> u32" where
  "wordat mem a = le32 (the (mem a)) (the (mem (a + 1))) (the (mem (a + 2))) (the (mem (a + 3)))"

definition mapped :: "memory \<Rightarrow> nat \<Rightarrow> bool" where
  "mapped mem a \<longleftrightarrow> mem a \<noteq> None \<and> mem (a + 1) \<noteq> None \<and> mem (a + 2) \<noteq> None \<and> mem (a + 3) \<noteq> None"

lemma ld32_mapped: "mapped mem a \<Longrightarrow> ld32 mem a = Inr (wordat mem a)"
  by (auto simp: mapped_def ld32_def wordat_def)

lemma unat_le32: "unat (le32 a b c d) = unat a + 256 * (unat b + 256 * (unat c + 256 * unat d))"
proof -
  have b: "unat x < 256" for x :: byte using unsigned_less[of x, where 'a = nat] by simp
  have "le32 a b c d = of_nat (unat a + 256 * (unat b + 256 * (unat c + 256 * unat d)))"
    by (simp add: le32_def algebra_simps)
  moreover have "unat a + 256 * (unat b + 256 * (unat c + 256 * unat d)) < 2 ^ 32"
    using b[of a] b[of b] b[of c] b[of d] by simp
  ultimately show ?thesis using unat_of_nat_small[of "unat a + 256 * (unat b + 256 * (unat c + 256 * unat d))", where 'a = 32] by simp
qed

text \<open>The masks select consecutive bytes of a word.\<close>

lemma and_field:
  fixes w :: u32
  assumes "k + n \<le> 32"
  shows "unat (w AND push_bit k (mask n)) = unat w div 2 ^ k mod 2 ^ n * 2 ^ k"
proof -
  let ?v = "take_bit n (drop_bit k w)"
  have e: "w AND push_bit k (mask n) = push_bit k ?v" by (rule bit_eqI) (auto simp: bit_simps)
  have v: "unat ?v = unat w div 2 ^ k mod 2 ^ n"
    unfolding unsigned_take_bit_eq unat_drop by (rule take_bit_eq_mod)
  have "(2::nat) ^ n * 2 ^ k \<le> 2 ^ 32" using assms power_increasing[of "n + k" 32 "2::nat"] by (simp add: power_add)
  moreover have "unat ?v * 2 ^ k < 2 ^ n * 2 ^ k" unfolding v by simp
  ultimately have "take_bit 32 (unat ?v * 2 ^ k) = unat ?v * 2 ^ k" by (intro take_bit_nat_eq_self) linarith
  moreover have "unat (push_bit k ?v) = take_bit 32 (unat ?v * 2 ^ k)" 
    by (subst unsigned_push_bit_eq) (simp add: push_bit_eq_mult[where 'a = nat])
  ultimately show ?thesis unfolding e v by simp
qed

lemma in_masks_fields:
  "(0x00FFFFFF :: u32) = push_bit 0 (mask 24)" "(0x0000FFFF :: u32) = push_bit 0 (mask 16)" "(0x000000FF :: u32) = push_bit 0 (mask 8)"
  "(0x0000FF00 :: u32) = push_bit 8 (mask 8)" "(0x00FFFF00 :: u32) = push_bit 8 (mask 16)" "(0xFFFFFF00 :: u32) = push_bit 8 (mask 24)"
  "(0x00FF0000 :: u32) = push_bit 16 (mask 8)" "(0xFFFF0000 :: u32) = push_bit 16 (mask 16)" "(0xFF000000 :: u32) = push_bit 24 (mask 8)"
  by (simp_all add: mask_eq_exp_minus_1 push_bit_eq_mult)

lemma field_value:
  fixes lo f hi K M :: nat
  assumes "lo < K" and "f < M"
  shows "(lo + K * (f + M * hi)) div K mod M = f"
  using assms by simp

lemma byte_less: "unat x < 256" for x :: byte
  using unsigned_less[of x, where 'a = nat] by simp

lemma masked_fields:
  fixes a b c d :: byte
  defines "w \<equiv> le32 a b c d"
  shows "unat (w AND 0x00FFFFFF) = unat a + 256 * unat b + 65536 * unat c" "unat (w AND 0x0000FFFF) = unat a + 256 * unat b"
    "unat (w AND 0x000000FF) = unat a" "unat (w AND 0x0000FF00) = 256 * unat b" "unat (w AND 0x00FFFF00) = 256 * unat b + 65536 * unat c"
    "unat (w AND 0xFFFFFF00) = 256 * unat b + 65536 * unat c + 16777216 * unat d" "unat (w AND 0x00FF0000) = 65536 * unat c"
    "unat (w AND 0xFFFF0000) = 65536 * unat c + 16777216 * unat d" "unat (w AND 0xFF000000) = 16777216 * unat d"
proof -
  note b = byte_less[of a] byte_less[of b] byte_less[of c] byte_less[of d]
  have f: "unat (w AND push_bit k (mask n)) = 2 ^ k * f"
    if "k + n \<le> 32" "unat w = lo + 2 ^ k * (f + 2 ^ n * hi)" "lo < 2 ^ k" "f < 2 ^ n" for k n lo f hi
    unfolding and_field[OF that(1)] that(2) field_value[OF that(3,4)] by (rule mult.commute)
  have w: "unat w = unat a + 256 * (unat b + 256 * (unat c + 256 * unat d))" by (simp only: w_def unat_le32)
  show "unat (w AND 0x00FFFFFF) = unat a + 256 * unat b + 65536 * unat c" unfolding in_masks_fields
    by (subst f[where lo = 0 and f = "unat a + 256 * unat b + 65536 * unat c" and hi = "unat d"]) (use b w in simp_all)
  show "unat (w AND 0x0000FFFF) = unat a + 256 * unat b" unfolding in_masks_fields
    by (subst f[where lo = 0 and f = "unat a + 256 * unat b" and hi = "unat c + 256 * unat d"]) (use b w in simp_all)
  show "unat (w AND 0x000000FF) = unat a" unfolding in_masks_fields
    by (subst f[where lo = 0 and f = "unat a" and hi = "unat b + 256 * (unat c + 256 * unat d)"]) (use b w in simp_all)
  show "unat (w AND 0x0000FF00) = 256 * unat b" unfolding in_masks_fields
    by (subst f[where lo = "unat a" and f = "unat b" and hi = "unat c + 256 * unat d"]) (use b w in simp_all)
  show "unat (w AND 0x00FFFF00) = 256 * unat b + 65536 * unat c" unfolding in_masks_fields
    by (subst f[where lo = "unat a" and f = "unat b + 256 * unat c" and hi = "unat d"]) (use b w in simp_all)
  show "unat (w AND 0xFFFFFF00) = 256 * unat b + 65536 * unat c + 16777216 * unat d" unfolding in_masks_fields
    by (subst f[where lo = "unat a" and f = "unat b + 256 * unat c + 65536 * unat d" and hi = 0]) (use b w in simp_all)
  show "unat (w AND 0x00FF0000) = 65536 * unat c" unfolding in_masks_fields
    by (subst f[where lo = "unat a + 256 * unat b" and f = "unat c" and hi = "unat d"]) (use b w in simp_all)
  show "unat (w AND 0xFFFF0000) = 65536 * unat c + 16777216 * unat d" unfolding in_masks_fields
    by (subst f[where lo = "unat a + 256 * unat b" and f = "unat c + 256 * unat d" and hi = 0]) (use b w in simp_all)
  show "unat (w AND 0xFF000000) = 16777216 * unat d" unfolding in_masks_fields
    by (subst f[where lo = "unat a + 256 * unat b + 65536 * unat c" and f = "unat d" and hi = 0]) (use b w in simp_all)
qed

lemma oc_bytes:
  "oc (x + 256 * y) (x + 256 * y)" "oc (65536 * x) x" "oc (65536 * x + 16777216 * y) (x + 256 * y)"
  "oc (x + 256 * y + 65536 * z) (x + 256 * y + z)" "oc (256 * x + 65536 * y + 16777216 * z) (256 * x + y + 256 * z)"
  "oc (16777216 * x) (256 * x)" "oc (256 * x + 65536 * y) (256 * x + y)"
  "oc (x + 256 * (y + 256 * (z + 256 * v))) (x + 256 * y + z + 256 * v)"
proof -
  have o: "oc (u + 65536 * v) (u + v)" for u v by (rule oc_sym[OF oc_digits])
  show "oc (x + 256 * y) (x + 256 * y)" "oc (65536 * x) x" by (rule oc_refl oc_65536)+
  show "oc (65536 * x + 16777216 * y) (x + 256 * y)" using oc_65536[of "x + 256 * y"] by simp
  show "oc (x + 256 * y + 65536 * z) (x + 256 * y + z)" by (rule o)
  show "oc (256 * x + 65536 * y + 16777216 * z) (256 * x + y + 256 * z)" using o[of "256 * x" "y + 256 * z"] by (simp add: add.assoc)
  show "oc (16777216 * x) (256 * x)" using oc_65536[of "256 * x"] by simp
  show "oc (256 * x + 65536 * y) (256 * x + y)" by (rule o)
  show "oc (x + 256 * (y + 256 * (z + 256 * v))) (x + 256 * y + z + 256 * v)" using o[of "x + 256 * y" "z + 256 * v"] by (simp add: add.assoc)
qed

lemma word_ok: "oc (unat (le32 a b c d)) (wsum False [a, b, c, d])"
  using oc_bytes(8)[of "unat a" "unat b" "unat c" "unat d"] by (simp add: unat_le32 add.assoc)

text \<open>The first word of an unaligned buffer, and the last word of a buffer.\<close>

lemma head_word_ok:
  assumes "ofs \<in> {1, 2, 3}"
  shows "oc (unat (le32 a b c d AND in_masks ! (4 * ofs + (if n \<ge> 3 then 3 else n)))) (wsum (odd ofs) (take n (drop ofs [a, b, c, d])))"
proof -
  consider "n = 0" | "n = 1" | "n = 2" | m where "n = Suc (Suc (Suc m))" by (metis One_nat_def Suc_1 not0_implies_Suc)
  then show ?thesis
    by cases (use assms in \<open>auto simp: in_masks_def masked_fields oc_bytes add.assoc[symmetric]\<close>)
qed

lemma tail_word_ok:
  assumes "0 < n" and "n < 4"
  shows "oc (unat (in_masks ! n AND le32 a b c d)) (wsum False (take n [a, b, c, d]))"
proof -
  have "n \<in> {1, 2, 3}" using assms by auto
  then show ?thesis by (auto simp: in_masks_def masked_fields oc_bytes add.assoc[symmetric] and.commute[of "0xFF"] and.commute[of "0xFFFF"] and.commute[of "0xFFFFFF"])
qed

section \<open>The loops add consecutive words\<close>

definition Wsum :: "memory \<Rightarrow> nat \<Rightarrow> nat \<Rightarrow> nat" where
  "Wsum mem lw n = (\<Sum>k<n. unat (wordat mem (lw + 4 * k)))"

lemma Wsum_add: "Wsum mem lw (m + n) = Wsum mem lw m + Wsum mem (lw + 4 * m) n"
proof (induction n)
  case (Suc n)
  then show ?case by (simp add: Wsum_def distrib_left add.assoc)
qed (simp add: Wsum_def)

definition words_mapped :: "memory \<Rightarrow> nat \<Rightarrow> int \<Rightarrow> bool" where
  "words_mapped mem lw len \<longleftrightarrow> (\<forall>k. 4 * int k < len \<longrightarrow> mapped mem (lw + 4 * k))"

text \<open>\<open>m\<close> words have been added.\<close>

definition advanced :: "memory \<Rightarrow> nat \<Rightarrow> int \<Rightarrow> u64 \<Rightarrow> nat \<Rightarrow> int \<Rightarrow> u64 \<Rightarrow> bool" where
  "advanced mem lw len acc lw' len' acc' \<longleftrightarrow>
     (\<exists>m. lw' = lw + 4 * m \<and> len' = len - 4 * int m \<and> 0 \<le> len' \<and> acc' = acc + of_nat (Wsum mem lw m))"

lemma advanced_refl: "0 \<le> len \<Longrightarrow> advanced mem lw len acc lw len acc"
  unfolding advanced_def by (rule exI[of _ 0]) (simp add: Wsum_def)

lemma advanced_trans:
  assumes "advanced mem lw len acc lw1 len1 acc1" and "advanced mem lw1 len1 acc1 lw2 len2 acc2"
  shows "advanced mem lw len acc lw2 len2 acc2"
proof -
  obtain m n where "lw1 = lw + 4 * m" "len1 = len - 4 * int m" "acc1 = acc + of_nat (Wsum mem lw m)"
    "lw2 = lw1 + 4 * n" "len2 = len1 - 4 * int n" "0 \<le> len2" "acc2 = acc1 + of_nat (Wsum mem lw1 n)"
    using assms unfolding advanced_def by blast
  then show ?thesis unfolding advanced_def by (intro exI[of _ "m + n"]) (simp add: Wsum_add)
qed

lemma advanced_mapped: "advanced mem lw len acc lw' len' acc' \<Longrightarrow> words_mapped mem lw len \<Longrightarrow> words_mapped mem lw' len'"
proof -
  assume a: "advanced mem lw len acc lw' len' acc'" and w: "words_mapped mem lw len"
  obtain m where m: "lw' = lw + 4 * m" "len' = len - 4 * int m" using a by (auto simp: advanced_def)
  have "mapped mem (lw' + 4 * k)" if "4 * int k < len'" for k
    using w[unfolded words_mapped_def, rule_format, of "m + k"] that m by (simp add: algebra_simps)
  then show ?thesis by (simp add: words_mapped_def)
qed

lemma add_words_ok:
  "(\<And>k. k \<in> set ks \<Longrightarrow> mapped mem (lw + 4 * k)) \<Longrightarrow>
   add_words mem lw ks acc = Inr (acc + of_nat (\<Sum>k\<leftarrow>ks. unat (wordat mem (lw + 4 * k))))"
  by (induction ks arbitrary: acc) (simp_all add: ld32_mapped add.assoc)

lemma add_block:
  assumes "words_mapped mem lw len" and "4 * int n \<le> len" and "ks = [0..<n]"
  shows "\<exists>acc'. add_words mem lw ks acc = Inr acc' \<and> advanced mem lw len acc (lw + 4 * n) (len - 4 * int n) acc'"
proof -
  have "add_words mem lw ks acc = Inr (acc + of_nat (\<Sum>k\<leftarrow>ks. unat (wordat mem (lw + 4 * k))))"
    by (rule add_words_ok) (use assms in \<open>auto simp: words_mapped_def\<close>)
  moreover have "(\<Sum>k\<leftarrow>ks. unat (wordat mem (lw + 4 * k))) = Wsum mem lw n"
    unfolding Wsum_def assms(3) by (simp add: interv_sum_list_conv_sum_set_nat atLeast0LessThan)
  ultimately show ?thesis using assms(2) by (auto simp: advanced_def)
qed

lemma add_prefilled:
  assumes "words_mapped mem lw len" and "32 \<le> len"
  shows "\<exists>acc'. add_words mem lw [1, 2, 3, 4, 5, 6, 7] (acc + ucast (wordat mem lw)) = Inr acc' \<and>
    advanced mem lw len acc (lw + 32) (len - 32) acc'"
proof -
  have k: "[0..<8] = [0, 1, 2, 3, 4, 5, 6, 7]" by (simp add: upt_rec)
  have "mapped mem lw" using assms by (auto simp: words_mapped_def dest!: spec[of _ 0])
  then have "add_words mem lw [0..<8] acc = add_words mem lw [1, 2, 3, 4, 5, 6, 7] (acc + ucast (wordat mem lw))"
    unfolding k by (simp add: ld32_mapped)
  then show ?thesis using add_block[OF assms(1), of 8 "[0..<8]" acc] assms(2) by simp
qed

lemma sum32_loop_ok:
  assumes "words_mapped mem lw len" and "0 < len"
  shows "\<exists>lw' len' acc'. sum32_loop mem lw len acc (ucast (wordat mem lw)) = Inr (lw', len' - 32, acc', ucast (wordat mem lw')) \<and>
    advanced mem lw len acc lw' len' acc' \<and> len' < 36"
  using assms
proof (induction "nat len" arbitrary: lw len acc rule: less_induct)
  case less
  show ?case
  proof (cases "len - 32 \<ge> 4")
    case False
    then show ?thesis using advanced_refl[of len mem lw acc] less.prems
      by (subst sum32_loop.simps) (auto intro!: exI[of _ len])
  next
    case True
    obtain acc1 where a: "add_words mem lw [1, 2, 3, 4, 5, 6, 7] (acc + ucast (wordat mem lw)) = Inr acc1"
      "advanced mem lw len acc (lw + 32) (len - 32) acc1" using add_prefilled[OF less.prems(1), of acc] True by auto
    have "mapped mem (lw + 4 * 8)" using less.prems(1)[unfolded words_mapped_def, rule_format, of 8] True by simp
    then have l: "ld32 mem (lw + 4 * 8) = Inr (wordat mem (lw + 32))" by (simp add: ld32_mapped)
    obtain lw' len' acc' where "sum32_loop mem (lw + 32) (len - 32) acc1 (ucast (wordat mem (lw + 32))) =
        Inr (lw', len' - 32, acc', ucast (wordat mem lw'))" "advanced mem (lw + 32) (len - 32) acc1 lw' len' acc'" "len' < 36"
      using less.hyps[of "len - 32" "lw + 32" acc1] advanced_mapped[OF a(2) less.prems(1)] True by auto
    then show ?thesis using True a l advanced_trans[OF a(2)] by (subst sum32_loop.simps) (auto simp del: mult_numeral_1)
  qed
qed

lemma sum16_loop_ok:
  assumes "words_mapped mem lw len" and "0 \<le> len"
  shows "\<exists>lw' len' acc'. sum16_loop mem lw len acc = Inr (lw', len' - 16, acc') \<and> advanced mem lw len acc lw' len' acc' \<and> len' < 16"
  using assms
proof (induction "nat len" arbitrary: lw len acc rule: less_induct)
  case less
  show ?case
  proof (cases "len - 16 \<ge> 0")
    case False
    then show ?thesis using advanced_refl[of len mem lw acc] less.prems by (subst sum16_loop.simps) (auto intro!: exI[of _ len])
  next
    case True
    obtain acc1 where a: "add_words mem lw [0, 1, 2, 3] acc = Inr acc1" "advanced mem lw len acc (lw + 16) (len - 16) acc1"
      using add_block[OF less.prems(1), of 4 "[0, 1, 2, 3]" acc] True by (auto simp: upt_rec)
    from less.hyps[of "len - 16" "lw + 16" acc1] obtain lw' len' acc' where "sum16_loop mem (lw + 16) (len - 16) acc1 = Inr (lw', len' - 16, acc')"
      "advanced mem (lw + 16) (len - 16) acc1 lw' len' acc'" "len' < 16" using advanced_mapped[OF a(2) less.prems(1)] True by auto
    then show ?thesis using True a advanced_trans[OF a(2)] by (subst sum16_loop.simps) (auto simp del: add_words.simps)
  qed
qed

lemma sum4_loop_ok:
  assumes "words_mapped mem lw len" and "0 \<le> len"
  shows "\<exists>lw' len' acc'. sum4_loop mem lw len acc = Inr (lw', len' - 4, acc') \<and> advanced mem lw len acc lw' len' acc' \<and> len' < 4"
  using assms
proof (induction "nat len" arbitrary: lw len acc rule: less_induct)
  case less
  show ?case
  proof (cases "len - 4 \<ge> 0")
    case False
    then show ?thesis using advanced_refl[of len mem lw acc] less.prems by (subst sum4_loop.simps) (auto intro!: exI[of _ len])
  next
    case True
    obtain acc1 where a: "add_words mem lw [0] acc = Inr acc1" "advanced mem lw len acc (lw + 4) (len - 4) acc1"
      using add_block[OF less.prems(1), of 1 "[0]" acc] True by (auto simp: upt_rec)
    from less.hyps[of "len - 4" "lw + 4" acc1] obtain lw' len' acc' where "sum4_loop mem (lw + 4) (len - 4) acc1 = Inr (lw', len' - 4, acc')"
      "advanced mem (lw + 4) (len - 4) acc1 lw' len' acc'" "len' < 4" using advanced_mapped[OF a(2) less.prems(1)] True by auto
    then show ?thesis using True a advanced_trans[OF a(2)] by (subst sum4_loop.simps) (auto simp del: add_words.simps)
  qed
qed

section \<open>The sum of a buffer is that of its bytes\<close>

lemma bytes_at_4: "bytes_at mem a 4 = [the (mem a), the (mem (a + 1)), the (mem (a + 2)), the (mem (a + 3))]"
  by (simp add: bytes_at_def upt_rec numeral_3_eq_3)

lemma Wsum_ok: "oc (Wsum mem lw m) (wsum False (bytes_at mem lw (4 * m)))"
proof (induction m)
  case (Suc m)
  have "bytes_at mem lw (4 * Suc m) = bytes_at mem lw (4 * m) @ bytes_at mem (lw + 4 * m) 4"
    using bytes_at_add[of mem lw "4 * m" 4] by (simp add: add.commute)
  then have "wsum False (bytes_at mem lw (4 * Suc m)) = wsum False (bytes_at mem lw (4 * m)) + wsum False (bytes_at mem (lw + 4 * m) 4)"
    by (simp add: wsum_append)
  moreover have "oc (unat (wordat mem (lw + 4 * m))) (wsum False (bytes_at mem (lw + 4 * m) 4))"
    unfolding bytes_at_4 wordat_def by (rule word_ok)
  ultimately show ?case using oc_add[OF Suc] by (simp add: Wsum_def)
qed (simp add: Wsum_def)

lemma Wsum_bound: "Wsum mem lw m \<le> m * 2 ^ 32"
proof (induction m)
  case (Suc m)
  have "unat (wordat mem (lw + 4 * m)) < 2 ^ 32" using unsigned_less[of "wordat mem (lw + 4 * m)", where 'a = nat] by simp
  then show ?case using Suc by (simp add: Wsum_def)
qed (simp add: Wsum_def)

lemma unat_ucast_up: "unat (ucast w :: u64) = unat w" for w :: u32
  by (rule unat_ucast_small) (use unsigned_less[of w, where 'a = nat] in simp)

text \<open>The words and the rest, when the sum cannot overflow.\<close>

lemma tail_sum:
  assumes "advanced mem lw len acc lw' len' acc'" and "len' < 4" and "len < 2 ^ 31" and "unat acc < 2 ^ 32"
    and "x = (if 0 < len' then ucast (in_masks ! nat len' AND wordat mem lw') else 0)"
  shows "oc (unat (acc' + x :: u64)) (unat acc + wsum False (bytes_at mem lw (nat len)))"
proof -
  obtain m where m: "lw' = lw + 4 * m" "len' = len - 4 * int m" "0 \<le> len'" "acc' = acc + of_nat (Wsum mem lw m)"
    using assms(1) by (auto simp: advanced_def)
  have n: "nat len = 4 * m + nat len'" using m(2,3) by simp
  have "int m < 536870912" using m(2,3) assms(3) by simp
  then have mb: "m < 2 ^ 29" by simp
  have W: "Wsum mem lw m \<le> 2 ^ 61" using Wsum_bound[of mem lw m] mb by (simp add: less_imp_le order_trans[OF _ mult_le_mono1[of m "2 ^ 29"]])
  have xb: "unat x < 2 ^ 32" using unsigned_less[of "in_masks ! nat len' AND wordat mem lw'", where 'a = nat]
    unfolding assms(5) by (simp add: unat_ucast_up)
  have 1: "unat (of_nat (Wsum mem lw m) :: u64) = Wsum mem lw m" by (rule unat_of_nat_small) (use W in simp)
  have 2: "unat acc' = unat acc + Wsum mem lw m" unfolding m(4) by (subst unat_add_small) (use 1 W assms(4) in simp_all)
  have 3: "unat (acc' + x) = unat acc + (Wsum mem lw m + unat x)" by (subst unat_add_small) (use 2 W assms(4) xb in simp_all)
  have "oc (unat x) (wsum False (bytes_at mem lw' (nat len')))"
  proof (cases "0 < len'")
    case True
    have "nat len' < 4" "0 < nat len'" using True assms(2) by simp_all
    moreover have "bytes_at mem lw' (nat len') = take (nat len') (bytes_at mem lw' 4)"
      using \<open>nat len' < 4\<close> unfolding bytes_at_def by (simp add: take_map)
    ultimately show ?thesis using True tail_word_ok unfolding assms(5) bytes_at_4 wordat_def by (simp add: unat_ucast_up)
  next
    case False
    then show ?thesis using m(3) assms(5) by simp
  qed
  then have "oc (unat acc + (Wsum mem lw m + unat x)) (unat acc + (wsum False (bytes_at mem lw (4 * m)) + wsum False (bytes_at mem lw' (nat len'))))"
    by (intro oc_add oc_refl Wsum_ok)
  then show ?thesis unfolding 3 n bytes_at_add by (simp add: wsum_append m(1))
qed

lemma sum_aligned_ok:
  assumes "words_mapped mem lw len" and "0 < len" and "len < 2 ^ 31" and "unat acc < 2 ^ 32"
  shows "\<exists>r. sum_aligned mem lw len acc = Inr r \<and> unat r \<le> 262140 \<and>
    oc (unat r) (unat acc + wsum False (bytes_at mem lw (nat len)))"
proof -
  have l0: "ld32 mem lw = Inr (wordat mem lw)" using assms(1,2) by (auto simp: words_mapped_def ld32_mapped dest!: spec[of _ 0])
  obtain lw1 len1 acc1 where 1: "sum32_loop mem lw len acc (ucast (wordat mem lw)) = Inr (lw1, len1 - 32, acc1, ucast (wordat mem lw1))"
    "advanced mem lw len acc lw1 len1 acc1" "len1 < 36" using sum32_loop_ok[OF assms(1,2)] by blast
  note w1 = advanced_mapped[OF 1(2) assms(1)]
  have p1: "0 \<le> len1" using 1(2) by (auto simp: advanced_def)
  obtain lw2 len2 acc2 where 2: "(if len1 - 32 \<ge> 0
            then rbind (add_words mem lw1 [1, 2, 3, 4, 5, 6, 7] (acc1 + ucast (wordat mem lw1))) (\<lambda>acc. Inr (lw1 + 32, len1 - 32, acc))
            else Inr (lw1, len1 - 32 + 32, acc1)) = Inr (lw2, len2, acc2)" "advanced mem lw1 len1 acc1 lw2 len2 acc2"
    using add_prefilled[OF w1, of acc1] advanced_refl[OF p1, of mem lw1 acc1]
    by (cases "len1 - 32 \<ge> 0") (force simp del: add_words.simps)+
  note w2 = advanced_mapped[OF 2(2) w1]
  have p2: "0 \<le> len2" using 2(2) by (auto simp: advanced_def)
  obtain lw3 len3 acc3 where 3: "sum16_loop mem lw2 len2 acc2 = Inr (lw3, len3 - 16, acc3)" "advanced mem lw2 len2 acc2 lw3 len3 acc3"
    using sum16_loop_ok[OF w2 p2] by blast
  note w3 = advanced_mapped[OF 3(2) w2]
  have p3: "0 \<le> len3" using 3(2) by (auto simp: advanced_def)
  obtain lw4 len4 acc4 where 4: "sum4_loop mem lw3 len3 acc3 = Inr (lw4, len4 - 4, acc4)" "advanced mem lw3 len3 acc3 lw4 len4 acc4" "len4 < 4"
    using sum4_loop_ok[OF w3 p3] by blast
  note w4 = advanced_mapped[OF 4(2) w3]
  have all: "advanced mem lw len acc lw4 len4 acc4"
    by (rule advanced_trans[OF 1(2) advanced_trans[OF 2(2) advanced_trans[OF 3(2) 4(2)]]])
  let ?x = "if 0 < len4 then ucast (in_masks ! nat len4 AND wordat mem lw4) else 0 :: u64"
  have l4: "ld32 mem lw4 = Inr (wordat mem lw4)" if "0 < len4" using w4 that by (auto simp: words_mapped_def ld32_mapped dest!: spec[of _ 0])
  have m4: "rd in_masks (nat len4) = Inr (in_masks ! nat len4)" by (rule rd_in) (use 4(3) in \<open>simp add: in_masks_def nat_less_iff\<close>)
  have "sum_aligned mem lw len acc = Inr (REDUCE32 (acc4 + ?x))"
    unfolding sum_aligned_def using l0 1(1) 2(1) 3(1) 4(1) l4 m4 by (simp del: add_words.simps)
  moreover have "oc (unat (acc4 + ?x)) (unat acc + wsum False (bytes_at mem lw (nat len)))"
    by (rule tail_sum[OF all 4(3) assms(3,4) refl])
  ultimately show ?thesis using REDUCE32_ok oc_trans by blast
qed

text \<open>The aligned words that a buffer touches can be read.\<close>

definition buf_mapped :: "memory \<Rightarrow> nat \<Rightarrow> nat \<Rightarrow> bool" where
  "buf_mapped mem buf n \<longleftrightarrow> (\<forall>a. buf div 4 * 4 \<le> a \<and> a < (buf + n + 3) div 4 * 4 \<longrightarrow> mem a \<noteq> None)"

lemma buf_mapped_word:
  assumes "buf_mapped mem buf n" and "lw mod 4 = 0" and "buf div 4 * 4 \<le> lw" and "lw < buf + n"
  shows "mapped mem lw"
proof -
  have "lw + 4 \<le> (buf + n + 3) div 4 * 4" using assms(2,4) by presburger
  then show ?thesis using assms(1,3) unfolding buf_mapped_def mapped_def by simp
qed

lemma in_cksumdata_ok:
  assumes "buf_mapped mem buf (nat len)" and "0 < len" and "len < 2 ^ 31"
  shows "\<exists>r. in_cksumdata mem buf len = Inr r \<and> unat r \<le> 262140 \<and> oc (unat r) (wsum (odd buf) (bytes_at mem buf (nat len)))"
proof -
  define ofs where "ofs = buf mod 4"
  show ?thesis
  proof (cases "ofs = 0")
    case True
    have wm: "words_mapped mem buf len" unfolding words_mapped_def
      using buf_mapped_word[OF assms(1)] True assms(2) by (simp add: ofs_def)
    have ev: "even buf" using True unfolding ofs_def by presburger
    show ?thesis
    proof (cases "len = 20")
      case len: True
      obtain acc where a: "add_words mem buf [0, 1, 2, 3, 4] 0 = Inr acc" "advanced mem buf len 0 (buf + 20) 0 acc"
        using add_block[OF wm, of 5 "[0, 1, 2, 3, 4]" 0] len by (auto simp: upt_rec)
      have "oc (unat (acc + 0)) (unat (0 :: u64) + wsum False (bytes_at mem buf (nat len)))"
        by (rule tail_sum[OF a(2)]) (use assms(3) in simp_all)
      then show ?thesis using a(1) True len ev REDUCE32_ok[of acc] oc_trans
        by (auto simp: in_cksumdata_def ofs_def simp del: add_words.simps)
    next
      case False
      then show ?thesis using sum_aligned_ok[OF wm assms(2,3), of 0] True ev by (auto simp: in_cksumdata_def ofs_def)
    qed
  next
    case False
    define lw where "lw = buf - ofs"
    have o: "ofs \<in> {1, 2, 3}" "buf = lw + ofs" "lw mod 4 = 0" "buf div 4 * 4 = lw" using False unfolding ofs_def lw_def by (auto, presburger+)
    have odd: "odd buf = odd ofs" "even lw" using o(2,3) by presburger+
    let ?n = "nat len" let ?m = "in_masks ! (4 * ofs + (if len \<ge> 3 then 3 else nat len))"
    let ?h = "ucast (wordat mem lw AND ?m) :: u64"
    have ld: "ld32 mem lw = Inr (wordat mem lw)" using buf_mapped_word[OF assms(1) o(3)] o assms(2) by (auto intro: ld32_mapped)
    have rdm: "rd in_masks (4 * ofs + (if len \<ge> 3 then 3 else nat len)) = Inr ?m" using o(1) by (intro rd_in) (auto simp: in_masks_def)
    have ie: "(if len \<ge> 3 then 3 else nat len) = (if ?n \<ge> 3 then 3 else ?n)" by auto
    have bt: "take ?n (drop ofs (bytes_at mem lw 4)) = bytes_at mem buf (min ?n (4 - ofs))"
      unfolding bytes_at_def o(2) by (rule nth_equalityI) (auto simp: add.assoc)
    have hd: "oc (unat ?h) (wsum (odd buf) (bytes_at mem buf (min ?n (4 - ofs))))"
      using head_word_ok[OF o(1)] unfolding ie bt[symmetric] bytes_at_4 wordat_def odd unat_ucast_up .
    have e: "in_cksumdata mem buf len = (if len - (4 - int ofs) \<le> 0 then Inr (REDUCE32 ?h) else sum_aligned mem (lw + 4) (len - (4 - int ofs)) ?h)"
      using False assms(2) ld rdm unfolding in_cksumdata_def by (simp add: Let_def flip: ofs_def lw_def)
    show ?thesis
    proof (cases "len - (4 - int ofs) \<le> 0")
      case True
      then have "min ?n (4 - ofs) = ?n" using o(1) by auto
      then show ?thesis using e True hd REDUCE32_ok[of ?h] oc_trans by auto
    next
      case rest: False
      let ?l = "len - (4 - int ofs)"
      have wm: "words_mapped mem (lw + 4) ?l" unfolding words_mapped_def
        using buf_mapped_word[OF assms(1)] o by (simp add: nat_less_iff[symmetric])
      have n: "?n = (4 - ofs) + nat ?l" "min ?n (4 - ofs) = 4 - ofs" using rest o(1) by auto
      have "unat ?h < 2 ^ 32" using unsigned_less[of "wordat mem lw AND ?m", where 'a = nat] by (simp add: unat_ucast_up)
      from sum_aligned_ok[OF wm _ _ this] obtain r where r: "sum_aligned mem (lw + 4) ?l ?h = Inr r" "unat r \<le> 262140"
        "oc (unat r) (unat ?h + wsum False (bytes_at mem (lw + 4) (nat ?l)))" using rest assms(3) o(1) by auto
      have "bytes_at mem buf ?n = bytes_at mem buf (4 - ofs) @ bytes_at mem (lw + 4) (nat ?l)"
        unfolding n(1) bytes_at_add using o(1,2) by (auto simp: add.assoc)
      then have "wsum (odd buf) (bytes_at mem buf ?n) = wsum (odd buf) (bytes_at mem buf (4 - ofs)) + wsum False (bytes_at mem (lw + 4) (nat ?l))"
        using o(1) odd by (auto simp: wsum_append)
      then show ?thesis using r e rest oc_trans[OF r(3) oc_add[OF hd oc_refl]] n(2) by auto
    qed
  qed
qed

section \<open>Chains\<close>

definition chain_bytes :: "memory \<Rightarrow> mbuf list \<Rightarrow> byte list" where
  "chain_bytes mem ms = concat (map (\<lambda>m. bytes_at mem (m_data m) (nat (m_len m))) ms)"

lemma chain_bytes_simps [simp]:
  "chain_bytes mem [] = []" "chain_bytes mem (m # ms) = bytes_at mem (m_data m) (nat (m_len m)) @ chain_bytes mem ms"
  by (simp_all add: chain_bytes_def)

definition chain_ok :: "memory \<Rightarrow> mbuf list \<Rightarrow> bool" where
  "chain_ok mem ms \<longleftrightarrow> (\<forall>m \<in> set ms. 0 \<le> m_len m \<and> buf_mapped mem (m_data m) (nat (m_len m)))"

text \<open>The state after the bytes \<open>dat\<close>, with \<open>n\<close> more to come.\<close>

definition summed :: "byte list \<Rightarrow> nat \<Rightarrow> u64 \<times> int \<times> int \<Rightarrow> bool" where
  "summed dat n st \<longleftrightarrow>
     (case st of (acc, clen, len) \<Rightarrow> clen = int (length dat) \<and> len = int n \<and>
        oc (unat acc) (wsum False dat) \<and> unat acc \<le> 67108864 * length dat)"

lemma buf_mapped_mono: "buf_mapped mem buf n \<Longrightarrow> m \<le> n \<Longrightarrow> buf_mapped mem buf m"
proof -
  assume b: "buf_mapped mem buf n" "m \<le> n"
  have "(buf + m + 3) div 4 \<le> (buf + n + 3) div 4" by (rule div_le_mono) (use b in simp)
  then show ?thesis using b(1) unfolding buf_mapped_def by (meson less_le_trans mult_le_mono1)
qed

lemma cksum_buf_ok:
  assumes "summed dat n st" and "buf_mapped mem addr m" and "0 < m" and "0 < n" and "length dat + n < 2 ^ 31"
  shows "\<exists>st'. cksum_buf mem addr (int m) st = Inr st' \<and> summed (dat @ take n (bytes_at mem addr m)) (n - m) st'"
proof -
  obtain acc where st: "st = (acc, int (length dat), int n)" and o: "oc (unat acc) (wsum False dat)" and b: "unat acc \<le> 67108864 * length dat"
    using assms(1) by (auto simp: summed_def)
  define k where "k = min n m"
  have k: "(if int n < int m then int n else int m) = int k" "0 < k" "k \<le> m" "n - m = n - k" "k \<le> n" using assms(3,4) by (auto simp: k_def)
  let ?bs = "bytes_at mem addr k"
  have bs: "take n (bytes_at mem addr m) = ?bs" unfolding bytes_at_def k_def by (rule nth_equalityI) auto
  have kl: "int k < 2 ^ 31" using k(5) assms(5) by (metis add_lessD1 add.commute le_less_trans of_nat_less_iff of_nat_numeral of_nat_power)
  obtain d where d: "in_cksumdata mem addr (int k) = Inr d" "unat d \<le> 262140" "oc (unat d) (wsum (odd addr) ?bs)"
    using in_cksumdata_ok[of mem addr "int k"] buf_mapped_mono[OF assms(2) k(3)] k(2) kl by auto
  let ?sw = "odd (int (length dat)) \<noteq> odd (int addr)"
  let ?d = "if ?sw then push_bit 8 d else d"
  have p: "unat (push_bit 8 d) = 256 * unat d"
  proof -
    have "unat (push_bit 8 d) = take_bit 64 (unat d * 256)" by (subst unsigned_push_bit_eq) (simp add: push_bit_eq_mult[where 'a = nat])
    then show ?thesis using d(2) by (simp add: take_bit_nat_eq_self)
  qed
  have db: "unat ?d \<le> 67108864 * k" using p d(2) k(2) by (cases k) auto
  have "oc (256 * unat d) (wsum (\<not> odd addr) ?bs)" by (rule oc_trans[OF oc_mult[OF d(3)] wsum_swap]) simp
  then have "oc (unat ?d) (wsum (odd (length dat)) ?bs)" using p d(3) by (cases "odd (length dat)"; cases "odd addr") simp_all
  then have "oc (unat acc + unat ?d) (wsum False (dat @ ?bs))" using oc_add[OF o] by (simp add: wsum_append)
  moreover have "unat (acc + ?d) = unat acc + unat ?d"
    by (rule unat_add_small) (use b db assms(5) k(5) in simp)
  moreover have "unat acc + unat ?d \<le> 67108864 * length (dat @ ?bs)" using b db by simp
  moreover have "int n - int k = int (n - m)" using k(4,5) by simp
  ultimately show ?thesis using d(1) k(1) by (simp add: cksum_buf_def st summed_def bs Let_def)
qed

lemma cksum_loop_ok:
  assumes "summed dat n st" and "chain_ok mem ms" and "length dat + n < 2 ^ 31"
  shows "\<exists>st' n'. cksum_loop mem ms st = Inr st' \<and> summed (dat @ take n (chain_bytes mem ms)) n' st'"
  using assms
proof (induction ms arbitrary: dat n st)
  case Nil
  then show ?case by auto
next
  case (Cons m ms)
  have m: "0 \<le> m_len m" "buf_mapped mem (m_data m) (nat (m_len m))" "chain_ok mem ms" using Cons.prems(2) by (simp_all add: chain_ok_def)
  have sn: "snd (snd st) = int n" using Cons.prems(1) by (auto simp: summed_def)
  consider "n = 0" | "0 < n" "m_len m = 0" | "0 < n" "0 < m_len m" using m(1) by linarith
  then show ?case
  proof cases
    case 3
    let ?bs = "bytes_at mem (m_data m) (nat (m_len m))"
    obtain st1 where 1: "cksum_buf mem (m_data m) (m_len m) st = Inr st1" "summed (dat @ take n ?bs) (n - nat (m_len m)) st1"
      using cksum_buf_ok[OF Cons.prems(1) m(2) _ 3(1) Cons.prems(3)] 3(2) by auto
    have "length (dat @ take n ?bs) + (n - nat (m_len m)) < 2 ^ 31" using Cons.prems(3) by simp
    from Cons.IH[OF 1(2) m(3) this] show ?thesis using 1(1) 3 sn by simp
  qed (use Cons sn m in auto)
qed

lemma cksum_skip_ok:
  assumes "summed [] n st" and "chain_ok mem ms" and "0 < n" and "n < 2 ^ 31"
  shows "\<exists>st' n'. cksum_skip mem ms (int k) st = Inr st' \<and> summed (take n (drop k (chain_bytes mem ms))) n' st'"
  using assms
proof (induction ms arbitrary: k)
  case Nil
  then show ?case by auto
next
  case (Cons m ms)
  have m: "0 \<le> m_len m" "buf_mapped mem (m_data m) (nat (m_len m))" "chain_ok mem ms" using Cons.prems(2) by (simp_all add: chain_ok_def)
  let ?bs = "bytes_at mem (m_data m) (nat (m_len m))"
  consider "k = 0" | "0 < k" "int k < m_len m" | "0 < k" "m_len m \<le> int k" by linarith
  then show ?case
  proof cases
    case 1
    then show ?thesis using cksum_loop_ok[OF Cons.prems(1,2)] Cons.prems(4) by simp
  next
    case 2
    define j where "j = nat (m_len m) - k"
    have j: "m_len m - int k = int j" "0 < j" "nat (m_len m) = k + j" using 2 by (auto simp: j_def)
    have "m_data m div 4 \<le> (m_data m + k) div 4" by (rule div_le_mono) simp
    then have bm: "buf_mapped mem (m_data m + k) j" using m(2) unfolding buf_mapped_def j(3) by (simp add: add.assoc)
    obtain st1 where 1: "cksum_buf mem (m_data m + k) (int j) st = Inr st1" "summed ([] @ take n (bytes_at mem (m_data m + k) j)) (n - j) st1"
      using cksum_buf_ok[OF Cons.prems(1) bm j(2) Cons.prems(3)] Cons.prems(4) by auto
    have "length ([] @ take n (bytes_at mem (m_data m + k) j)) + (n - j) < 2 ^ 31" using Cons.prems(4) by simp
    moreover have "drop k ?bs = bytes_at mem (m_data m + k) j" unfolding j(3) bytes_at_add by simp
    ultimately show ?thesis using cksum_loop_ok[OF 1(2) m(3)] 1(1) 2 j by simp
  next
    case 3
    define k' where "k' = k - nat (m_len m)"
    have k': "int k - m_len m = int k'" "k = nat (m_len m) + k'" using 3 m(1) by (simp_all add: k'_def)
    have "cksum_skip mem (m # ms) (int k) st = cksum_skip mem ms (int k') st" using 3 by (simp add: k'(1))
    moreover have "drop k (chain_bytes mem (m # ms)) = drop k' (chain_bytes mem ms)" using k'(2) by simp
    ultimately show ?thesis using Cons.IH[OF Cons.prems(1) m(3) Cons.prems(3,4), of k'] by simp
  qed
qed

section \<open>The Internet checksum\<close>

text \<open>The specification (RFC 1071): the complement of the sum of the 16-bit words, with end-around carry,
  an odd last byte padded with zero. On this machine the words are little-endian.\<close>

fun words16 :: "byte list \<Rightarrow> nat list" where
  "words16 [] = []"
| "words16 [a] = [unat a]"
| "words16 (a # b # bs) = (unat a + 256 * unat b) # words16 bs"

definition ocadd :: "nat \<Rightarrow> nat \<Rightarrow> nat" where
  "ocadd x y = (if x + y > 65535 then x + y - 65535 else x + y)"

definition internet_checksum :: "byte list \<Rightarrow> u16" where
  "internet_checksum bs = NOT (of_nat (foldl ocadd 0 (words16 bs)))"

lemma words16_sum: "sum_list (words16 bs) = wsum False bs"
  by (induction bs rule: words16.induct) simp_all

lemma words16_bound: "w \<in> set (words16 bs) \<Longrightarrow> w \<le> 65535"
proof (induction bs rule: words16.induct)
  case (2 a)
  then show ?case using byte_less[of a] by simp
next
  case (3 a b bs)
  then show ?case using byte_less[of a] byte_less[of b] by auto
qed simp

lemma ocadd_fold:
  "x \<le> 65535 \<Longrightarrow> \<forall>w \<in> set ws. w \<le> 65535 \<Longrightarrow> foldl ocadd x ws \<le> 65535 \<and> oc (foldl ocadd x ws) (x + sum_list ws)"
proof (induction ws arbitrary: x)
  case (Cons w ws)
  have "ocadd x w \<le> 65535" "oc (ocadd x w) (x + w)" using Cons.prems oc_carry[of "x + w"] by (auto simp: ocadd_def)
  moreover from this have "foldl ocadd (ocadd x w) ws \<le> 65535" "oc (foldl ocadd (ocadd x w) ws) (ocadd x w + sum_list ws)"
    using Cons.IH[of "ocadd x w"] Cons.prems(2) by simp_all
  ultimately show ?case using oc_trans[OF _ oc_add[OF _ oc_refl]] by (simp add: add.assoc) (metis add.assoc)
qed simp

text \<open>Any small number that agrees with the sum of the words is the sum with carry.\<close>

lemma checksum_unique:
  assumes "oc r (wsum False bs)" and "r \<le> 65535"
  shows "foldl ocadd 0 (words16 bs) = r"
proof -
  have "foldl ocadd 0 (words16 bs) \<le> 65535 \<and> oc (foldl ocadd 0 (words16 bs)) (0 + sum_list (words16 bs))"
    by (rule ocadd_fold) (auto dest: words16_bound)
  then have "oc (foldl ocadd 0 (words16 bs)) (wsum False bs)" "foldl ocadd 0 (words16 bs) \<le> 65535" by (simp_all add: words16_sum)
  then show ?thesis using oc_unique[OF oc_trans[OF _ oc_sym[OF assms(1)]] _ assms(2)] by simp
qed

lemma complement16: "(ucast (NOT r AND 0xffff) :: u16) = NOT (of_nat (unat r))" for r :: u64
proof -
  have m: "(0xffff :: u64) = mask 16" by (simp add: mask_eq_exp_minus_1)
  have "(ucast (NOT r AND 0xffff) :: u16) = NOT (ucast r)" unfolding m by (rule bit_eqI) (auto simp: bit_simps)
  then show ?thesis by simp
qed

text \<open>
  Property C24. The checksum of a chain of buffers. However the data are cut into buffers, wherever
  these lie (also at odd addresses), and however many bytes at the start are skipped,
  \<open>in_cksum_skip\<close> returns the Internet checksum (RFC 1071) of the \<open>len - skip\<close> bytes behind the
  skipped ones, taken as one sequence. It reads no word that has no byte of a buffer in it.
\<close>
theorem in_cksum_chain:
  assumes "chain_ok mem ms" and "k < n" and "n < 2 ^ 31"
  shows "in_cksum_skip mem ms (int n) (int k) = Inr (internet_checksum (take (n - k) (drop k (chain_bytes mem ms))))"
proof -
  let ?bs = "take (n - k) (drop k (chain_bytes mem ms))"
  have "summed [] (n - k) (0, 0, int n - int k)" using assms(2) by (simp add: summed_def)
  from cksum_skip_ok[OF this assms(1), of k] obtain acc clen len n' where
    r: "cksum_skip mem ms (int k) (0, 0, int n - int k) = Inr (acc, clen, len)" "summed ?bs n' (acc, clen, len)"
    using assms(2) less_imp_diff_less[OF assms(3), of k] by auto
  have "oc (unat (REDUCE16 acc)) (wsum False ?bs)" using REDUCE16_ok(1)[of acc] r(2) oc_trans by (simp add: summed_def)
  then have "foldl ocadd 0 (words16 ?bs) = unat (REDUCE16 acc)" by (rule checksum_unique) (rule REDUCE16_ok)
  then show ?thesis using r(1) complement16[of "REDUCE16 acc"] by (simp add: in_cksum_skip_def internet_checksum_def)
qed

definition example_memory :: memory where
  "example_memory a = (if a < 16 then Some (of_nat (7 * a)) else None)"

definition example_chain :: "mbuf list" where
  "example_chain = [\<lparr>m_data = 1, m_len = 3\<rparr>, \<lparr>m_data = 4, m_len = 0\<rparr>, \<lparr>m_data = 7, m_len = 4\<rparr>]"

lemma example_chain_ok: "chain_ok example_memory example_chain"
  by (auto simp: chain_ok_def example_chain_def buf_mapped_def example_memory_def)

lemma in_cksum_chain_witness:
  "in_cksum_skip example_memory example_chain (int 7) (int 2) =
     Inr (internet_checksum (take (7 - 2) (drop 2 (chain_bytes example_memory example_chain)))) \<and>
   take (7 - 2) (drop 2 (chain_bytes example_memory example_chain)) = [21, 49, 56, 63, 70]"
proof -
  have "chain_bytes example_memory example_chain = [7, 14, 21, 49, 56, 63, 70]"
    by (simp add: example_chain_def bytes_at_def example_memory_def upt_rec)
  then show ?thesis using in_cksum_chain[OF example_chain_ok, of 2 7] by simp
qed

text \<open>The checksum of an IP header, and the two helpers for headers that are not in memory.\<close>

lemma in_cksum_hdr_ok:
  assumes "buf_mapped mem ip 20"
  shows "in_cksum_hdr mem ip = Inr (ucast (internet_checksum (if odd ip then 0 # bytes_at mem ip 20 else bytes_at mem ip 20)))"
proof -
  let ?bs = "if odd ip then 0 # bytes_at mem ip 20 else bytes_at mem ip 20"
  obtain r where r: "in_cksumdata mem ip 20 = Inr r" "oc (unat r) (wsum (odd ip) (bytes_at mem ip 20))"
    using in_cksumdata_ok[of mem ip 20] assms by auto
  have "oc (unat (REDUCE16 r)) (wsum False ?bs)" using oc_trans[OF REDUCE16_ok(1) r(2)] by (cases "odd ip") simp_all
  then have "foldl ocadd 0 (words16 ?bs) = unat (REDUCE16 r)" by (rule checksum_unique) (rule REDUCE16_ok)
  then have i: "internet_checksum ?bs = ucast (NOT (REDUCE16 r) AND 0xffff)" using complement16[of "REDUCE16 r"] by (simp add: internet_checksum_def)
  have m: "(0xffff :: u64) = mask 16" by (simp add: mask_eq_exp_minus_1)
  have "(ucast (ucast (x AND 0xffff) :: u16) :: u32) = ucast (x AND 0xffff)" for x :: u64
    unfolding m by (rule bit_eqI) (auto simp: bit_simps)
  then show ?thesis using r(1) i by (simp add: in_cksum_hdr_def)
qed

lemma in_addword_ok: "unat (in_addword a b) = ocadd (unat a) (unat b)"
proof -
  have u: "unat a \<le> 65535" "unat b \<le> 65535" using unsigned_less[of a, where 'a = nat] unsigned_less[of b, where 'a = nat] by simp_all
  have c: "unat (ucast x :: u64) = unat x" for x :: u16 by (rule unat_ucast_small) (use unsigned_less[of x, where 'a = nat] in simp)
  have s: "unat (ucast a + ucast b :: u64) = unat a + unat b" by (subst unat_add_small) (use u c in simp_all)
  have "unat (ADDCARRY (ucast a + ucast b)) = ocadd (unat a) (unat b)"
    by (simp add: ADDCARRY_def ocadd_def word_less_nat_alt unat_sub_if_size s)
  moreover have "ocadd (unat a) (unat b) < 2 ^ 16" using u by (auto simp: ocadd_def)
  ultimately show ?thesis unfolding in_addword_def by (subst unat_ucast_small) simp_all
qed

lemma unat_not16: "unat (NOT x) = 65535 - unat x" for x :: u16
proof -
  have "unat (- 1 - x) = unat (- 1 :: u16) - unat x" by (rule unat_sub) (simp add: word_le_nat_alt flip: word_le_nat_alt)
  moreover have "NOT x = - 1 - x" by (simp add: not_eq_complement)
  ultimately show ?thesis by (simp add: unsigned_minus_1_eq_mask mask_eq_exp_minus_1)
qed

lemma bytes_of_word: "unat (ucast c :: byte) + 256 * unat (ucast (drop_bit 8 c) :: byte) = unat c" for c :: u16
proof -
  have "unat c div 256 < 256" using unsigned_less[of c, where 'a = nat] by (simp add: div_less_iff_less_mult)
  then show ?thesis by (simp add: unsigned_ucast_eq unat_drop take_bit_eq_mod)
qed

text \<open>
  Property C25. What a sender protects, a receiver can verify. If the checksum of the data, computed
  with zero in its own field, is then stored in that field (at an even offset), the checksum
  computed by the receiver over all the data is zero, however sender and receiver have cut the
  data into buffers.
\<close>
theorem in_cksum_verifies:
  assumes "chain_ok mem ms" and "chain_bytes mem ms = xs @ [0, 0] @ ys" and "even (length xs)" and "length xs + length ys + 2 < 2 ^ 31"
    and "in_cksum_skip mem ms (int (length xs + length ys + 2)) 0 = Inr c"
    and "chain_ok mem' ms'" and "chain_bytes mem' ms' = xs @ [ucast c, ucast (drop_bit 8 c)] @ ys"
  shows "in_cksum_skip mem' ms' (int (length xs + length ys + 2)) 0 = Inr 0"
proof -
  let ?n = "length xs + length ys + 2"
  let ?z = "xs @ [0, 0] @ ys" let ?f = "xs @ [ucast c, ucast (drop_bit 8 c)] @ ys"
  have c: "c = internet_checksum ?z"
    using in_cksum_chain[OF assms(1), of 0 ?n] assms(2,4,5) by simp
  define s where "s = foldl ocadd 0 (words16 ?z)"
  have s: "s \<le> 65535 \<and> oc s (0 + sum_list (words16 ?z))" unfolding s_def by (rule ocadd_fold) (auto dest: words16_bound)
  then have os: "oc s (wsum False ?z)" by (simp add: words16_sum)
  have uc: "unat c = 65535 - s"
    unfolding c internet_checksum_def s_def[symmetric] using s
    by (simp add: unat_not16 unat_of_nat_small)
  have b: "unat (ucast c :: byte) + 256 * unat (ucast (drop_bit 8 c) :: byte) = unat c"
    by (rule bytes_of_word)
  have w: "wsum False (xs @ x @ ys) = wsum False xs + (wsum False x + wsum False ys)" if "even (length x)" for x
    using assms(3) that by (simp add: wsum_append)
  have "wsum False ?f = wsum False ?z + unat c" using w[of "[0, 0]"] w[of "[ucast c, ucast (drop_bit 8 c)]"] b by simp
  moreover have "oc 65535 (wsum False ?z + (65535 - s))"
    using oc_add[OF os oc_refl[of "65535 - s"]] s by simp
  ultimately have "foldl ocadd 0 (words16 ?f) = 65535" using checksum_unique[of 65535 ?f] uc by simp
  then have "internet_checksum ?f = 0" by (simp add: internet_checksum_def)
  then show ?thesis using in_cksum_chain[OF assms(6), of 0 ?n] assms(4,7) by simp
qed

definition array_memory :: "byte list \<Rightarrow> memory" where
  "array_memory bs a = (if a < length bs then Some (bs ! a) else None)"

lemma in_cksum_verifies_witness:
  "in_cksum_skip (array_memory [1, 2, 0, 0, 3, 9, 9, 9]) [\<lparr>m_data = 0, m_len = 5\<rparr>] 5 0 = Inr 0xfdfb \<and>
   in_cksum_skip (array_memory [1, 2, 0xfb, 7, 0xfd, 3, 9, 9]) [\<lparr>m_data = 0, m_len = 3\<rparr>, \<lparr>m_data = 4, m_len = 2\<rparr>] 5 0 = Inr 0"
proof -
  let ?m = "array_memory [1, 2, 0, 0, 3, 9, 9, 9]" let ?c = "[\<lparr>m_data = 0, m_len = 5\<rparr>]"
  let ?m' = "array_memory [1, 2, 0xfb, 7, 0xfd, 3, 9, 9]" let ?c' = "[\<lparr>m_data = 0, m_len = 3\<rparr>, \<lparr>m_data = 4, m_len = 2\<rparr>]"
  have ok: "chain_ok ?m ?c" "chain_ok ?m' ?c'" by (auto simp: chain_ok_def buf_mapped_def array_memory_def)
  have b: "chain_bytes ?m ?c = [1, 2] @ [0, 0] @ [3]" "chain_bytes ?m' ?c' = [1, 2] @ [ucast (0xfdfb :: u16), ucast (drop_bit 8 0xfdfb :: u16)] @ [3]"
    by (simp_all add: bytes_at_def array_memory_def upt_rec)
  have s: "in_cksum_skip ?m ?c (int (length [1, 2 :: byte] + length [3 :: byte] + 2)) 0 = Inr 0xfdfb" by code_simp
  show ?thesis using in_cksum_verifies[OF ok(1) b(1) _ _ s ok(2) b(2)] s by simp
qed

end
