(* ===== verification/Qsort.thy ===== *)
theory Qsort
  imports Prelude "HOL-Library.Multiset"
begin

text \<open>
  \<open>src/3rd/freebsd/libkern/qsort.c\<close>: the quicksort of Bentley and McIlroy, with the comparison function
  as an argument (\<open>qsort_r\<close> passes it one more, fixed argument).

  The array is the list of its elements of \<open>es\<close> bytes, and a pointer into it is the index of an element,
  since every pointer of the function differs from \<open>a\<close> by a multiple of \<open>es\<close>. An access outside of the
  array is \<open>Undef\<close>. The array has less than \<open>2 ^ 31\<close> bytes, so that \<open>d\<close> and \<open>r\<close> do not overflow.
\<close>

section \<open>The function\<close>

definition swap_at :: "nat \<Rightarrow> nat \<Rightarrow> 'a list \<Rightarrow> 'a list res" where
  "swap_at i j xs = rbind (rd xs i) (\<lambda>x. rbind (rd xs j) (\<lambda>y. Inr (xs[i := y, j := x])))"

fun swapfunc :: "nat \<Rightarrow> nat \<Rightarrow> nat \<Rightarrow> 'a list \<Rightarrow> 'a list res" where
  "swapfunc a b 0 xs = Inr xs"
| "swapfunc a b (Suc n) xs = rbind (swap_at a b xs) (\<lambda>xs. swapfunc (a + 1) (b + 1) n xs)"

definition vecswap :: "nat \<Rightarrow> nat \<Rightarrow> nat \<Rightarrow> 'a list \<Rightarrow> 'a list res" where
  "vecswap a b n xs = (if n > 0 then swapfunc a b n xs else Inr xs)"

definition CMP :: "('a \<Rightarrow> 'a \<Rightarrow> int) \<Rightarrow> nat \<Rightarrow> nat \<Rightarrow> 'a list \<Rightarrow> int res" where
  "CMP cmp i j xs = rbind (rd xs i) (\<lambda>x. rbind (rd xs j) (\<lambda>y. Inr (cmp x y)))"

definition med3 :: "('a \<Rightarrow> 'a \<Rightarrow> int) \<Rightarrow> nat \<Rightarrow> nat \<Rightarrow> nat \<Rightarrow> 'a list \<Rightarrow> nat res" where
  "med3 cmp a b c xs =
     rbind (CMP cmp a b xs) (\<lambda>r.
     if r < 0
     then rbind (CMP cmp b c xs) (\<lambda>r. if r < 0 then Inr b else rbind (CMP cmp a c xs) (\<lambda>r. Inr (if r < 0 then c else a)))
     else rbind (CMP cmp b c xs) (\<lambda>r. if r > 0 then Inr b else rbind (CMP cmp a c xs) (\<lambda>r. Inr (if r < 0 then a else c))))"

text \<open>The insertion sort: its inner and its outer loop.\<close>

fun ins_inner :: "('a \<Rightarrow> 'a \<Rightarrow> int) \<Rightarrow> nat \<Rightarrow> nat \<Rightarrow> 'a list \<Rightarrow> 'a list res" where
  "ins_inner cmp a pl xs =
     (if pl > a
      then rbind (CMP cmp (pl - 1) pl xs) (\<lambda>r.
           if r > 0 then rbind (swap_at pl (pl - 1) xs) (\<lambda>xs. ins_inner cmp a (pl - 1) xs) else Inr xs)
      else Inr xs)"

function ins_outer :: "('a \<Rightarrow> 'a \<Rightarrow> int) \<Rightarrow> nat \<Rightarrow> nat \<Rightarrow> nat \<Rightarrow> 'a list \<Rightarrow> 'a list res" where
  "ins_outer cmp a e pm xs =
     (if pm < e then rbind (ins_inner cmp a pm xs) (\<lambda>xs. ins_outer cmp a e (pm + 1) xs) else Inr xs)"
  by pat_completeness auto
termination by (relation "measure (\<lambda>(cmp, a, e, pm, xs). e - pm)") auto

definition pivot :: "('a \<Rightarrow> 'a \<Rightarrow> int) \<Rightarrow> nat \<Rightarrow> nat \<Rightarrow> 'a list \<Rightarrow> nat res" where
  "pivot cmp a n xs =
     (let pm = a + n div 2 in
      if n > 7
      then let pl = a; pn = a + (n - 1) in
        if n > 40
        then let d = n div 8 in
          rbind (med3 cmp pl (pl + d) (pl + 2 * d) xs) (\<lambda>pl.
          rbind (med3 cmp (pm - d) pm (pm + d) xs) (\<lambda>pm.
          rbind (med3 cmp (pn - 2 * d) (pn - d) pn xs) (\<lambda>pn. med3 cmp pl pm pn xs)))
        else med3 cmp pl pm pn xs
      else Inr pm)"

text \<open>The two scans of the partition, and the loop around them. The results are the moved pointers, the
  flag \<open>swap_cnt\<close> and the array. The left pointer \<open>pb\<close> is always behind \<open>a\<close>, so that \<open>pc\<close>, at least
  \<open>pb\<close> before it moves, stays a natural number; \<open>0 < pb\<close> says so where the recursion depends on it.\<close>

function left_scan :: "('a \<Rightarrow> 'a \<Rightarrow> int) \<Rightarrow> nat \<Rightarrow> nat \<Rightarrow> nat \<Rightarrow> nat \<Rightarrow> bool \<Rightarrow> 'a list \<Rightarrow> (nat \<times> nat \<times> bool \<times> 'a list) res" where
  "left_scan cmp a pa pb pc cnt xs =
     (if pb \<le> pc
      then rbind (CMP cmp pb a xs) (\<lambda>r.
           if r \<le> 0
           then if r = 0
                then rbind (swap_at pa pb xs) (\<lambda>xs. left_scan cmp a (pa + 1) (pb + 1) pc True xs)
                else left_scan cmp a pa (pb + 1) pc cnt xs
           else Inr (pa, pb, cnt, xs))
      else Inr (pa, pb, cnt, xs))"
  by pat_completeness auto
termination by (relation "measure (\<lambda>(cmp, a, pa, pb, pc, cnt, xs). Suc pc - pb)") auto

function right_scan :: "('a \<Rightarrow> 'a \<Rightarrow> int) \<Rightarrow> nat \<Rightarrow> nat \<Rightarrow> nat \<Rightarrow> nat \<Rightarrow> bool \<Rightarrow> 'a list \<Rightarrow> (nat \<times> nat \<times> bool \<times> 'a list) res" where
  "right_scan cmp a pb pc pd cnt xs =
     (if 0 < pb \<and> pb \<le> pc
      then rbind (CMP cmp pc a xs) (\<lambda>r.
           if r \<ge> 0
           then if r = 0
                then rbind (swap_at pc pd xs) (\<lambda>xs. right_scan cmp a pb (pc - 1) (pd - 1) True xs)
                else right_scan cmp a pb (pc - 1) pd cnt xs
           else Inr (pc, pd, cnt, xs))
      else Inr (pc, pd, cnt, xs))"
  by pat_completeness auto
termination by (relation "measure (\<lambda>(cmp, a, pb, pc, pd, cnt, xs). pc)") auto

declare ins_inner.simps [simp del] ins_outer.simps [simp del] left_scan.simps [simp del] right_scan.simps [simp del]

lemma left_scan_bounds:
  "left_scan cmp a pa pb pc cnt xs = Inr (pa', pb', cnt', ys) \<Longrightarrow>
     pb \<le> pb' \<and> pb' \<le> max pb (Suc pc) \<and> pa \<le> pa' \<and> (pa \<le> pb \<longrightarrow> pa' \<le> pb')"
proof (induction cmp a pa pb pc cnt xs rule: left_scan.induct)
  case (1 cmp a pa pb pc cnt xs)
  show ?case
  proof (cases "pb \<le> pc")
    case True
    then show ?thesis using "1.prems"
      by (subst (asm) left_scan.simps)
        (auto simp: rbind_eq_Inr_iff split: if_splits dest: "1.IH"(1)[OF True] "1.IH"(2)[OF True])
  qed (use "1.prems" in \<open>simp add: left_scan.simps[of cmp a pa pb]\<close>)
qed

lemma right_scan_bounds:
  "right_scan cmp a pb pc pd cnt xs = Inr (pc', pd', cnt', ys) \<Longrightarrow>
     pc' \<le> pc \<and> min pc (pb - 1) \<le> pc' \<and> pd' \<le> pd \<and> (pc \<le> pd \<longrightarrow> pc' \<le> pd')"
proof (induction cmp a pb pc pd cnt xs rule: right_scan.induct)
  case (1 cmp a pb pc pd cnt xs)
  show ?case
  proof (cases "0 < pb \<and> pb \<le> pc")
    case True
    then show ?thesis using "1.prems"
      by (subst (asm) right_scan.simps)
        (auto simp: rbind_eq_Inr_iff split: if_splits dest: "1.IH"(1)[OF True] "1.IH"(2)[OF True])
  qed (use "1.prems" in \<open>auto simp: right_scan.simps[of cmp a pb pc]\<close>)
qed

function part_loop :: "('a \<Rightarrow> 'a \<Rightarrow> int) \<Rightarrow> nat \<Rightarrow> nat \<Rightarrow> nat \<Rightarrow> nat \<Rightarrow> nat \<Rightarrow> bool \<Rightarrow> 'a list \<Rightarrow>
    (nat \<times> nat \<times> nat \<times> nat \<times> bool \<times> 'a list) res" where
  "part_loop cmp a pa pb pc pd cnt xs =
     rbind (left_scan cmp a pa pb pc cnt xs) (\<lambda>(pa, pb, cnt, xs).
     rbind (right_scan cmp a pb pc pd cnt xs) (\<lambda>(pc, pd, cnt, xs).
     if pb > pc then Inr (pa, pb, pc, pd, cnt, xs)
     else rbind (swap_at pb pc xs) (\<lambda>xs. part_loop cmp a pa (pb + 1) (pc - 1) pd True xs)))"
  by pat_completeness auto
termination
  by (relation "measure (\<lambda>(cmp, a, pa, pb, pc, pd, cnt, xs). Suc pc - pb)")
    (auto dest!: left_scan_bounds right_scan_bounds)

declare part_loop.simps [simp del]

lemma part_loop_bounds:
  assumes "part_loop cmp a pa pb pc pd cnt xs = Inr (pa', pb', pc', pd', cnt', ys)"
    and "a < pa" and "pa \<le> pb" and "pb \<le> N" and "a \<le> pc" and "pc \<le> pd" and "pd < N"
  shows "a < pa' \<and> pa' \<le> pb' \<and> pb' \<le> N \<and> a \<le> pc' \<and> pc' \<le> pd' \<and> pd' < N"
  using assms
proof (induction cmp a pa pb pc pd cnt xs rule: part_loop.induct)
  case (1 cmp a pa pb pc pd cnt xs)
  from "1.prems"(1) obtain pa1 pb1 cnt1 xs1 pc1 pd1 cnt2 xs2 where
    l: "left_scan cmp a pa pb pc cnt xs = Inr (pa1, pb1, cnt1, xs1)" and
    r: "right_scan cmp a pb1 pc pd cnt1 xs1 = Inr (pc1, pd1, cnt2, xs2)"
    by (subst (asm) part_loop.simps) (auto simp: rbind_eq_Inr_iff)
  have b: "a < pa1" "pa1 \<le> pb1" "pb1 \<le> N" "a \<le> pc1" "pc1 \<le> pd1" "pd1 < N"
    using left_scan_bounds[OF l] right_scan_bounds[OF r] "1.prems" by auto
  show ?case
  proof (cases "pb1 > pc1")
    case True
    then show ?thesis using "1.prems"(1) l r b by (subst (asm) part_loop.simps) auto
  next
    case False
    then obtain xs3 where "swap_at pb1 pc1 xs2 = Inr xs3" "part_loop cmp a pa1 (pb1 + 1) (pc1 - 1) pd1 True xs3 = Inr (pa', pb', pc', pd', cnt', ys)"
      using "1.prems"(1) l r by (subst (asm) part_loop.simps) (auto simp: rbind_eq_Inr_iff)
    then show ?thesis using "1.IH"[OF l refl refl refl r refl refl refl False] b False by auto
  qed
qed

lemma partition_shrinks:
  assumes "part_loop cmp a (Suc a) (Suc a) (a + n - Suc 0) (a + n - Suc 0) cnt xs = Inr (pa, pb, pc, pd, cnt', ys)" and "\<not> n < 7"
  shows "pb - pa < n" and "pd - pc < n"
proof -
  have "a \<le> a + n - Suc 0" using assms(2) by linarith
  then show "pb - pa < n" and "pd - pc < n" using part_loop_bounds[OF assms(1), of "a + n"] assms(2) by auto
qed

function qsort :: "('a \<Rightarrow> 'a \<Rightarrow> int) \<Rightarrow> nat \<Rightarrow> nat \<Rightarrow> 'a list \<Rightarrow> 'a list res" where
  "qsort cmp a n xs =
     (if n < 7 then ins_outer cmp a (a + n) (a + 1) xs
      else
        rbind (pivot cmp a n xs) (\<lambda>pm.
        rbind (swap_at a pm xs) (\<lambda>xs.
        rbind (part_loop cmp a (a + 1) (a + 1) (a + (n - 1)) (a + (n - 1)) False xs) (\<lambda>(pa, pb, pc, pd, cnt, xs).
        if \<not> cnt then ins_outer cmp a (a + n) (a + 1) xs
        else
          let pn = a + n; r = min (pa - a) (pb - pa) in
          rbind (vecswap a (pb - r) r xs) (\<lambda>xs.
          let r = min (pd - pc) (pn - pd - 1) in
          rbind (vecswap pb (pn - r) r xs) (\<lambda>xs.
          rbind (if pb - pa > 1 then qsort cmp a (pb - pa) xs else Inr xs) (\<lambda>xs.
          if pd - pc > 1 then qsort cmp (pn - (pd - pc)) (pd - pc) xs else Inr xs)))))))"
  by pat_completeness auto
termination
  by (relation "measure (\<lambda>(cmp, a, n, xs). n)")
    (auto simp: partition_shrinks)

declare qsort.simps [simp del]


section \<open>Rearranging a range\<close>

definition rearr :: "nat \<Rightarrow> nat \<Rightarrow> 'a list \<Rightarrow> 'a list \<Rightarrow> bool" where
  "rearr l u xs ys \<longleftrightarrow>
     length ys = length xs \<and> mset ys = mset xs \<and> (\<forall>i<length xs. i < l \<or> u \<le> i \<longrightarrow> ys ! i = xs ! i)"

definition on :: "nat \<Rightarrow> nat \<Rightarrow> ('a \<Rightarrow> bool) \<Rightarrow> 'a list \<Rightarrow> bool" where
  "on l u P xs \<longleftrightarrow> (\<forall>i. l \<le> i \<and> i < u \<longrightarrow> P (xs ! i))"

lemma rearr_refl [simp]: "rearr l u xs xs"
  by (simp add: rearr_def)

lemma rearr_trans: "rearr l u xs ys \<Longrightarrow> rearr l u ys zs \<Longrightarrow> rearr l u xs zs"
  by (simp add: rearr_def)

lemma rearr_mono: "rearr l u xs ys \<Longrightarrow> l' \<le> l \<Longrightarrow> u \<le> u' \<Longrightarrow> rearr l' u' xs ys"
  by (auto simp: rearr_def)

lemma rearr_length: "rearr l u xs ys \<Longrightarrow> length ys = length xs"
  by (simp add: rearr_def)

lemma rearr_outside: "rearr l u xs ys \<Longrightarrow> i < length xs \<Longrightarrow> i < l \<or> u \<le> i \<Longrightarrow> ys ! i = xs ! i"
  by (auto simp: rearr_def)

text \<open>What holds for all elements of the range still does.\<close>

lemma rearr_mset:
  assumes "rearr l u xs ys" and "l \<le> u" and "u \<le> length xs"
  shows "mset (take (u - l) (drop l ys)) = mset (take (u - l) (drop l xs))"
proof -
  have split: "mset zs = mset (take l zs) + (mset (take (u - l) (drop l zs)) + mset (drop u zs))" for zs :: "'a list"
    by (metis append_take_drop_id mset_append drop_drop le_add_diff_inverse2 assms(2))
  have "take l ys = take l xs" and "drop u ys = drop u xs"
    using assms by (auto simp: rearr_def intro!: nth_equalityI)
  then show ?thesis using split[of xs] split[of ys] assms(1) by (simp add: rearr_def)
qed

lemma set_range: "u \<le> length xs \<Longrightarrow> set (take (u - l) (drop l xs)) = {xs ! i |i. l \<le> i \<and> i < u}"
proof (intro set_eqI iffI)
  fix x assume u: "u \<le> length xs" and "x \<in> {xs ! i |i. l \<le> i \<and> i < u}"
  then obtain i where i: "l \<le> i" "i < u" "x = xs ! i" by blast
  then have "take (u - l) (drop l xs) ! (i - l) = x" "i - l < length (take (u - l) (drop l xs))" using u by auto
  then show "x \<in> set (take (u - l) (drop l xs))" by (metis nth_mem)
qed (auto simp: in_set_conv_nth)

lemma rearr_on:
  assumes "rearr l u xs ys" and "u \<le> length xs" and "on l u P xs"
  shows "on l u P ys"
proof (cases "l \<le> u")
  case True
  have "on l u P zs \<longleftrightarrow> (\<forall>x\<in>set (take (u - l) (drop l zs)). P x)" if "length zs = length xs" for zs
    using set_range[of u zs l] assms(2) that by (auto simp: on_def)
  then show ?thesis
    using assms(3) rearr_mset[OF assms(1) True assms(2)] rearr_length[OF assms(1)] by (metis set_mset_mset)
qed (auto simp: on_def)

lemma on_outside: "rearr l u xs ys \<Longrightarrow> on l' u' P xs \<Longrightarrow> u' \<le> length xs \<Longrightarrow> u' \<le> l \<or> u \<le> l' \<Longrightarrow> on l' u' P ys"
  by (auto simp: on_def rearr_def)

lemma on_imp: "on l u P xs \<Longrightarrow> (\<And>x. P x \<Longrightarrow> Q x) \<Longrightarrow> on l u Q xs"
  by (simp add: on_def)

lemma swap_at_ok:
  assumes "i < length xs" and "j < length xs"
  shows "swap_at i j xs = Inr (xs[i := xs ! j, j := xs ! i])"
  using assms by (simp add: swap_at_def)

lemma rearr_swap:
  assumes "l \<le> i" "i < u" "l \<le> j" "j < u" "u \<le> length xs"
  shows "rearr l u xs (xs[i := xs ! j, j := xs ! i])"
  using assms mset_swap[of j xs i] by (auto simp: rearr_def nth_list_update)

lemma CMP_ok [simp]: "i < length xs \<Longrightarrow> j < length xs \<Longrightarrow> CMP cmp i j xs = Inr (cmp (xs ! i) (xs ! j))"
  by (simp add: CMP_def)


section \<open>Comparison functions and insertion sort\<close>

text \<open>What is asked of a comparison function: its sign changes when its arguments are exchanged, and it is
  transitive.\<close>

definition cmp_ok :: "('a \<Rightarrow> 'a \<Rightarrow> int) \<Rightarrow> bool" where
  "cmp_ok cmp \<longleftrightarrow>
     (\<forall>x y. (cmp x y < 0 \<longleftrightarrow> cmp y x > 0)) \<and> (\<forall>x y z. cmp x y \<le> 0 \<longrightarrow> cmp y z \<le> 0 \<longrightarrow> cmp x z \<le> 0)"

lemma cmp_flip: "cmp_ok cmp \<Longrightarrow> cmp x y \<ge> 0 \<Longrightarrow> cmp y x \<le> 0"
  unfolding cmp_ok_def by (metis linorder_not_le)

lemma cmp_self: "cmp_ok cmp \<Longrightarrow> cmp x x = 0"
proof -
  assume "cmp_ok cmp"
  then have "cmp x x < 0 \<longleftrightarrow> cmp x x > 0" by (simp add: cmp_ok_def)
  then show "cmp x x = 0" by linarith
qed

lemma cmp_trans: "cmp_ok cmp \<Longrightarrow> cmp x y \<le> 0 \<Longrightarrow> cmp y z \<le> 0 \<Longrightarrow> cmp x z \<le> 0"
  unfolding cmp_ok_def by blast

definition srt :: "('a \<Rightarrow> 'a \<Rightarrow> int) \<Rightarrow> nat \<Rightarrow> nat \<Rightarrow> 'a list \<Rightarrow> bool" where
  "srt cmp l u xs \<longleftrightarrow> (\<forall>i j. l \<le> i \<and> i < j \<and> j < u \<longrightarrow> cmp (xs ! i) (xs ! j) \<le> 0)"

text \<open>In order but for the element at \<open>p\<close>, which may be smaller than those before it.\<close>

definition srt_but :: "('a \<Rightarrow> 'a \<Rightarrow> int) \<Rightarrow> nat \<Rightarrow> nat \<Rightarrow> nat \<Rightarrow> 'a list \<Rightarrow> bool" where
  "srt_but cmp l u p xs \<longleftrightarrow> (\<forall>i j. l \<le> i \<and> i < j \<and> j < u \<and> j \<noteq> p \<longrightarrow> cmp (xs ! i) (xs ! j) \<le> 0)"

lemma srt_but_done:
  assumes "cmp_ok cmp" and "srt_but cmp l u p xs" and "p \<le> l \<or> (p < u \<and> cmp (xs ! (p - 1)) (xs ! p) \<le> 0)"
  shows "srt cmp l u xs"
proof -
  have but: "cmp (xs ! i) (xs ! j) \<le> 0" if "l \<le> i" "i < j" "j < u" "j \<noteq> p" for i j
    using assms(2) that by (simp add: srt_but_def)
  have "cmp (xs ! i) (xs ! p) \<le> 0" if "l \<le> i" "i < p" "p < u" for i
  proof (cases "i = p - 1")
    case False
    then have "cmp (xs ! i) (xs ! (p - 1)) \<le> 0" using that but[of i "p - 1"] by simp
    then show ?thesis using assms(1,3) that cmp_trans by force
  qed (use assms(3) that in auto)
  then show ?thesis using but by (auto simp: srt_def)
qed

lemma srt_but_swap:
  assumes "cmp_ok cmp" and "srt_but cmp l u p xs" and "l < p" and "p < u" and "u \<le> length xs" and "cmp (xs ! (p - 1)) (xs ! p) > 0"
  shows "srt_but cmp l u (p - 1) (xs[p := xs ! (p - 1), p - 1 := xs ! p])"
proof -
  have but: "cmp (xs ! i) (xs ! j) \<le> 0" if "l \<le> i" "i < j" "j < u" "j \<noteq> p" for i j
    using assms(2) that by (simp add: srt_but_def)
  have le: "cmp (xs ! p) (xs ! (p - 1)) \<le> 0" using assms(1,6) by (simp add: cmp_flip)
  show ?thesis unfolding srt_but_def
  proof (intro allI impI)
    fix i j assume ij: "l \<le> i \<and> i < j \<and> j < u \<and> j \<noteq> p - 1"
    let ?ys = "xs[p := xs ! (p - 1), p - 1 := xs ! p]"
    have y: "?ys ! k = (if k = p - 1 then xs ! p else if k = p then xs ! (p - 1) else xs ! k)" if "k < u" for k
      using that assms(3-5) by (auto simp: nth_list_update)
    consider "j = p" "i = p - 1" | "j = p" "i < p - 1" | "j \<noteq> p" by (use ij assms(3) in linarith)
    then show "cmp (?ys ! i) (?ys ! j) \<le> 0"
      by cases (use ij assms(3) y[of i] y[of j] le but[of i "p - 1"] but[of i j] but[of p j] but[of "p - 1" j] in auto)
  qed
qed

lemma ins_inner_ok:
  assumes "a \<le> pl" and "pl < u" and "u \<le> length xs"
  shows "\<exists>ys. ins_inner cmp a pl xs = Inr ys \<and> rearr a u xs ys \<and>
    (cmp_ok cmp \<and> srt_but cmp a u pl xs \<longrightarrow> srt cmp a u ys)"
  using assms
proof (induction "pl - a" arbitrary: pl xs)
  case 0
  then show ?case using srt_but_done[of cmp a u pl xs] by (auto simp: ins_inner.simps[of cmp a a])
next
  case (Suc d)
  then have pl: "a < pl" and CM: "CMP cmp (pl - 1) pl xs = Inr (cmp (xs ! (pl - 1)) (xs ! pl))" by auto
  let ?ys = "xs[pl := xs ! (pl - 1), pl - 1 := xs ! pl]"
  show ?case
  proof (cases "cmp (xs ! (pl - 1)) (xs ! pl) > 0")
    case True
    have "ins_inner cmp a pl xs = ins_inner cmp a (pl - 1) ?ys"
      using pl CM True Suc.prems by (subst ins_inner.simps) (simp add: swap_at_ok)
    moreover have "rearr a u xs ?ys" using pl Suc.prems by (intro rearr_swap) auto
    moreover have "d = pl - 1 - a" "a \<le> pl - 1" "pl - 1 < u" "u \<le> length ?ys" using Suc pl by auto
    moreover have "cmp_ok cmp \<and> srt_but cmp a u pl xs \<longrightarrow> srt_but cmp a u (pl - 1) ?ys"
      using True pl Suc.prems srt_but_swap by blast
    ultimately show ?thesis using Suc.hyps(1)[of "pl - 1" ?ys] by (metis rearr_trans)
  next
    case False
    then show ?thesis using pl CM Suc.prems srt_but_done[of cmp a u pl xs] by (subst ins_inner.simps) auto
  qed
qed

lemma ins_outer_ok:
  assumes "a < pm" and "e \<le> length xs"
  shows "\<exists>ys. ins_outer cmp a e pm xs = Inr ys \<and> rearr a e xs ys \<and>
    (cmp_ok cmp \<and> srt cmp a pm xs \<and> pm \<le> e \<longrightarrow> srt cmp a e ys)"
  using assms
proof (induction "e - pm" arbitrary: pm xs)
  case 0
  then show ?case by (auto simp: ins_outer.simps[of cmp a e pm])
next
  case (Suc d)
  then have pm: "pm < e" by simp
  then obtain ys where ys: "ins_inner cmp a pm xs = Inr ys" "rearr a (Suc pm) xs ys"
      "cmp_ok cmp \<and> srt_but cmp a (Suc pm) pm xs \<longrightarrow> srt cmp a (Suc pm) ys"
    using ins_inner_ok[of a pm "Suc pm" xs cmp] Suc.prems by auto
  have "srt cmp a pm xs \<Longrightarrow> srt_but cmp a (Suc pm) pm xs" by (auto simp: srt_def srt_but_def)
  moreover have "ins_outer cmp a e pm xs = ins_outer cmp a e (Suc pm) ys" using pm ys(1) by (simp add: ins_outer.simps[of cmp a e pm])
  moreover have "rearr a e xs ys" using ys(2) pm rearr_mono by fastforce
  moreover have "d = e - Suc pm" "a < Suc pm" "e \<le> length ys" using Suc rearr_length[OF ys(2)] by auto
  ultimately show ?case using Suc.hyps(1)[of "Suc pm" ys] ys(3) pm by (metis rearr_trans Suc_leI)
qed


section \<open>The partition\<close>

text \<open>The state of the partition of \<open>[a, N)\<close> around the value \<open>v\<close>: equal, smaller, not yet looked at, larger,
  equal.\<close>

definition part_inv :: "('a \<Rightarrow> 'a \<Rightarrow> int) \<Rightarrow> nat \<Rightarrow> nat \<Rightarrow> 'a \<Rightarrow> nat \<Rightarrow> nat \<Rightarrow> nat \<Rightarrow> nat \<Rightarrow> 'a list \<Rightarrow> bool" where
  "part_inv cmp a N v pa pb pc pd xs \<longleftrightarrow>
     a < pa \<and> pa \<le> pb \<and> pb \<le> Suc pc \<and> pc \<le> pd \<and> pd < N \<and> N \<le> length xs \<and> xs ! a = v \<and>
     on (Suc a) pa (\<lambda>x. cmp x v = 0) xs \<and> on pa pb (\<lambda>x. cmp x v < 0) xs \<and>
     on (Suc pc) (Suc pd) (\<lambda>x. cmp x v > 0) xs \<and> on (Suc pd) N (\<lambda>x. cmp x v = 0) xs"

lemma part_inv_less: "part_inv cmp a N v pa pb pc pd xs \<Longrightarrow> pb \<le> pc \<Longrightarrow> cmp (xs ! pb) v < 0 \<Longrightarrow>
    part_inv cmp a N v pa (Suc pb) pc pd xs"
  by (auto simp: part_inv_def on_def less_Suc_eq)

lemma part_inv_equal: "part_inv cmp a N v pa pb pc pd xs \<Longrightarrow> pb \<le> pc \<Longrightarrow> cmp (xs ! pb) v = 0 \<Longrightarrow>
    part_inv cmp a N v (Suc pa) (Suc pb) pc pd (xs[pa := xs ! pb, pb := xs ! pa])"
  by (auto simp: part_inv_def on_def less_Suc_eq nth_list_update)

lemma part_inv_greater: "part_inv cmp a N v pa pb pc pd xs \<Longrightarrow> pb \<le> pc \<Longrightarrow> cmp (xs ! pc) v > 0 \<Longrightarrow>
    part_inv cmp a N v pa pb (pc - 1) pd xs"
  by (auto simp: part_inv_def on_def le_eq_less_or_eq[of pc])

lemma part_inv_equal_right: "part_inv cmp a N v pa pb pc pd xs \<Longrightarrow> pb \<le> pc \<Longrightarrow> cmp (xs ! pc) v = 0 \<Longrightarrow>
    part_inv cmp a N v pa pb (pc - 1) (pd - 1) (xs[pc := xs ! pd, pd := xs ! pc])"
  by (auto simp: part_inv_def on_def nth_list_update le_eq_less_or_eq[of pc] le_eq_less_or_eq[of pd])

lemma part_inv_both: "part_inv cmp a N v pa pb pc pd xs \<Longrightarrow> pb < pc \<Longrightarrow> cmp (xs ! pb) v > 0 \<Longrightarrow> cmp (xs ! pc) v < 0 \<Longrightarrow>
    part_inv cmp a N v pa (Suc pb) (pc - 1) pd (xs[pb := xs ! pc, pc := xs ! pb])"
  by (auto simp: part_inv_def on_def nth_list_update less_Suc_eq le_eq_less_or_eq[of pc])

lemma part_inv_swap: "part_inv cmp a N v pa pb pc pd xs \<Longrightarrow> a < i \<Longrightarrow> i < N \<Longrightarrow> a < j \<Longrightarrow> j < N \<Longrightarrow>
    swap_at i j xs = Inr (xs[i := xs ! j, j := xs ! i]) \<and> rearr (Suc a) N xs (xs[i := xs ! j, j := xs ! i])"
  by (auto simp: part_inv_def intro: swap_at_ok intro!: rearr_swap)

lemma part_inv_CMP: "part_inv cmp a N v pa pb pc pd xs \<Longrightarrow> i < N \<Longrightarrow> CMP cmp i a xs = Inr (cmp (xs ! i) v)"
  by (auto simp: part_inv_def)

lemma left_scan_ok:
  assumes "part_inv cmp a N v pa pb pc pd xs"
  shows "\<exists>pa' pb' cnt' ys. left_scan cmp a pa pb pc cnt xs = Inr (pa', pb', cnt', ys) \<and>
    part_inv cmp a N v pa' pb' pc pd ys \<and> rearr (Suc a) N xs ys \<and> (pb' \<le> pc \<longrightarrow> cmp (ys ! pb') v > 0)"
  using assms
proof (induction "Suc pc - pb" arbitrary: pa pb cnt xs)
  case 0
  then show ?case by (auto simp: left_scan.simps[of cmp a pa pb])
next
  case (Suc d)
  note inv = Suc.prems
  have pb: "pb \<le> pc" and d: "d = Suc pc - Suc pb" and bounds: "pb < N" "a < pb" "pa \<le> pb" "a < pa"
    using Suc by (auto simp: part_inv_def)
  note unf = left_scan.simps[of cmp a pa pb] pb part_inv_CMP[OF inv bounds(1)]
  consider "cmp (xs ! pb) v > 0" | "cmp (xs ! pb) v < 0" | "cmp (xs ! pb) v = 0" by linarith
  then show ?case
  proof cases
    case 1
    then show ?thesis using inv by (simp add: unf)
  next
    case 2
    then show ?thesis using Suc.hyps(1)[OF d part_inv_less[OF inv pb 2], of cnt] by (simp add: unf)
  next
    case 3
    then show ?thesis
      using Suc.hyps(1)[OF d part_inv_equal[OF inv pb 3], of True] part_inv_swap[OF inv, of pa pb] bounds
      by (auto simp: unf intro: rearr_trans)
  qed
qed

lemma right_scan_ok:
  assumes "part_inv cmp a N v pa pb pc pd xs" and "pb \<le> pc \<longrightarrow> cmp (xs ! pb) v > 0"
  shows "\<exists>pc' pd' cnt' ys. right_scan cmp a pb pc pd cnt xs = Inr (pc', pd', cnt', ys) \<and>
    part_inv cmp a N v pa pb pc' pd' ys \<and> rearr (Suc a) N xs ys \<and>
    (pb \<le> pc' \<longrightarrow> cmp (ys ! pb) v > 0 \<and> cmp (ys ! pc') v < 0)"
  using assms
proof (induction "Suc pc - pb" arbitrary: pc pd cnt xs)
  case 0
  then show ?case by (auto simp: right_scan.simps[of cmp a pb])
next
  case (Suc d)
  note inv = Suc.prems(1)
  have pb: "pb \<le> pc" and d: "d = Suc (pc - 1) - pb" and bounds: "pc < N" "a < pb" "0 < pb" "pc \<le> pd" "pd < N" "N \<le> length xs"
    using Suc by (auto simp: part_inv_def)
  note unf = right_scan.simps[of cmp a pb] pb bounds(3) part_inv_CMP[OF inv bounds(1)]
  consider "cmp (xs ! pc) v < 0" | "cmp (xs ! pc) v > 0" | "cmp (xs ! pc) v = 0" by linarith
  then show ?case
  proof cases
    case 1
    then show ?thesis using Suc.prems pb by (simp add: unf)
  next
    case 2
    then show ?thesis using Suc.hyps(1)[OF d part_inv_greater[OF inv pb 2], of cnt] Suc.prems(2) by (simp add: unf)
  next
    case 3
    have "pb \<le> pc - 1 \<longrightarrow> cmp (xs[pc := xs ! pd, pd := xs ! pc] ! pb) v > 0"
      using Suc.prems(2) bounds pb by (auto simp: nth_list_update)
    from Suc.hyps(1)[OF d part_inv_equal_right[OF inv pb 3] this, of True]
    obtain pc' pd' cnt' ys where
      "right_scan cmp a pb (pc - 1) (pd - 1) True (xs[pc := xs ! pd, pd := xs ! pc]) = Inr (pc', pd', cnt', ys)"
      "part_inv cmp a N v pa pb pc' pd' ys" "rearr (Suc a) N (xs[pc := xs ! pd, pd := xs ! pc]) ys"
      "pb \<le> pc' \<longrightarrow> cmp (ys ! pb) v > 0 \<and> cmp (ys ! pc') v < 0" by blast
    then show ?thesis
      using 3 part_inv_swap[OF inv, of pc pd] bounds pb rearr_trans by (simp add: unf) blast
  qed
qed

lemma part_loop_ok:
  assumes "part_inv cmp a N v pa pb pc pd xs"
  shows "\<exists>pa' pb' pc' pd' cnt' ys. part_loop cmp a pa pb pc pd cnt xs = Inr (pa', pb', pc', pd', cnt', ys) \<and>
    part_inv cmp a N v pa' pb' pc' pd' ys \<and> rearr (Suc a) N xs ys \<and> pb' = Suc pc'"
  using assms
proof (induction "Suc pc - pb" arbitrary: pa pb pc pd cnt xs rule: less_induct)
  case less
  obtain pa1 pb1 cnt1 xs1 where l: "left_scan cmp a pa pb pc cnt xs = Inr (pa1, pb1, cnt1, xs1)"
      "part_inv cmp a N v pa1 pb1 pc pd xs1" "rearr (Suc a) N xs xs1" "pb1 \<le> pc \<longrightarrow> cmp (xs1 ! pb1) v > 0"
    using left_scan_ok[OF less.prems] by blast
  obtain pc1 pd1 cnt2 xs2 where r: "right_scan cmp a pb1 pc pd cnt1 xs1 = Inr (pc1, pd1, cnt2, xs2)"
      "part_inv cmp a N v pa1 pb1 pc1 pd1 xs2" "rearr (Suc a) N xs1 xs2"
      "pb1 \<le> pc1 \<longrightarrow> cmp (xs2 ! pb1) v > 0 \<and> cmp (xs2 ! pc1) v < 0"
    using right_scan_ok[OF l(2,4)] by blast
  have re: "rearr (Suc a) N xs xs2" using l(3) r(3) by (rule rearr_trans)
  show ?case
  proof (cases "pb1 > pc1")
    case True
    then have "pb1 = Suc pc1" using r(2) by (simp add: part_inv_def)
    then show ?thesis using l(1) r(1,2) re by (simp add: part_loop.simps[of cmp a pa pb])
  next
    case False
    then have lt: "pb1 < pc1" using r(4) by (cases "pb1 = pc1") auto
    let ?xs = "xs2[pb1 := xs2 ! pc1, pc1 := xs2 ! pb1]"
    have sw: "swap_at pb1 pc1 xs2 = Inr ?xs" "rearr (Suc a) N xs2 ?xs"
      using part_inv_swap[OF r(2), of pb1 pc1] r(2) lt by (auto simp: part_inv_def)
    have "Suc (pc1 - 1) - Suc pb1 < Suc pc - pb"
      using left_scan_bounds[OF l(1)] right_scan_bounds[OF r(1)] lt by linarith
    from less.hyps[OF this part_inv_both[OF r(2) lt], of True] show ?thesis
      using l(1) r(1,4) sw(1) rearr_trans[OF re sw(2)] lt
      by (auto simp: part_loop.simps[of cmp a pa pb] intro: rearr_trans)
  qed
qed


section \<open>Moving the equal elements to the middle\<close>

lemma swapfunc_ok:
  assumes "a + n \<le> b" and "b + n \<le> length xs"
  shows "\<exists>ys. swapfunc a b n xs = Inr ys \<and> length ys = length xs \<and> mset ys = mset xs \<and>
    (\<forall>i<length xs. ys ! i = (if a \<le> i \<and> i < a + n then xs ! (i - a + b)
       else if b \<le> i \<and> i < b + n then xs ! (i - b + a) else xs ! i))"
  using assms
proof (induction n arbitrary: a b xs)
  case (Suc n)
  let ?xs = "xs[a := xs ! b, b := xs ! a]"
  from Suc.prems have sw: "swap_at a b xs = Inr ?xs" "mset ?xs = mset xs"
    by (auto simp: swap_at_ok mset_swap)
  have x: "?xs ! i = (if i = b then xs ! a else if i = a then xs ! b else xs ! i)" if "i < length xs" for i
    using that by (auto simp: nth_list_update)
  obtain ys where ys: "swapfunc (a + 1) (b + 1) n ?xs = Inr ys" "length ys = length xs" "mset ys = mset ?xs"
      "\<forall>i<length xs. ys ! i = (if a + 1 \<le> i \<and> i < a + 1 + n then ?xs ! (i - (a + 1) + (b + 1))
       else if b + 1 \<le> i \<and> i < b + 1 + n then ?xs ! (i - (b + 1) + (a + 1)) else ?xs ! i)"
    using Suc.IH[of "a + 1" "b + 1" ?xs] Suc.prems by auto
  have "ys ! i = (if a \<le> i \<and> i < a + Suc n then xs ! (i - a + b)
       else if b \<le> i \<and> i < b + Suc n then xs ! (i - b + a) else xs ! i)" if i: "i < length xs" for i
  proof -
    consider "i = a" | "i = b" | "a < i" "i < a + Suc n" | "b < i" "i < b + Suc n"
      | "i \<noteq> a" "i \<noteq> b" "\<not> (a < i \<and> i < a + Suc n)" "\<not> (b < i \<and> i < b + Suc n)" by blast
    then show ?thesis
    proof cases
      case 3
      then have "i - (a + 1) + (b + 1) = i - a + b" "i - a + b < length xs" "i - a + b \<noteq> a" "i - a + b \<noteq> b"
        using Suc.prems by auto
      moreover from this have "ys ! i = ?xs ! (i - a + b)" using ys(4) i 3 by simp
      ultimately have "ys ! i = xs ! (i - a + b)" using x[of "i - a + b"] by simp
      then show ?thesis using 3 by simp
    next
      case 4
      then have "i - (b + 1) + (a + 1) = i - b + a" "i - b + a < length xs" "i - b + a \<noteq> a" "i - b + a \<noteq> b" "\<not> i < a + Suc n"
        using Suc.prems by auto
      moreover from this have "ys ! i = ?xs ! (i - b + a)" using ys(4) i 4 by simp
      ultimately have "ys ! i = xs ! (i - b + a)" using x[of "i - b + a"] by simp
      then show ?thesis using 4 Suc.prems by simp
    qed (use ys(4) i x[OF i] Suc.prems in auto)
  qed
  then show ?case using sw ys(1-3) by simp
qed auto

lemma vecswap_ok:
  assumes "on l m P xs" and "on m u Q xs" and "l \<le> m" and "m \<le> u" and "u \<le> length xs" and "r = min (m - l) (u - m)"
  shows "\<exists>ys. vecswap l (u - r) r xs = Inr ys \<and> rearr l u xs ys \<and>
    on l (l + (u - m)) Q ys \<and> on (l + (u - m)) u P ys"
proof -
  have r: "l + r \<le> u - r" "u - r + r \<le> length xs" "u - r + r = u" using assms(3-6) by (auto simp: min_def)
  obtain ys where ys: "swapfunc l (u - r) r xs = Inr ys" "length ys = length xs" "mset ys = mset xs"
      "\<forall>i<length xs. ys ! i = (if l \<le> i \<and> i < l + r then xs ! (i - l + (u - r))
       else if u - r \<le> i \<and> i < u - r + r then xs ! (i - (u - r) + l) else xs ! i)"
    using swapfunc_ok[OF r(1,2)] by blast
  have at: "ys ! i = (if i < l + r then xs ! (i - l + (u - r)) else if u - r \<le> i then xs ! (i - (u - r) + l) else xs ! i)"
    if "l \<le> i" "i < u" for i using ys(4) that assms(5) r(3) by auto
  have "rearr l u xs ys" using ys(2-4) r assms(3-6) by (auto simp: rearr_def)
  moreover have "Q (ys ! i)" if i: "l \<le> i" "i < l + (u - m)" for i
  proof -
    have Q: "Q (xs ! j)" if "m \<le> j" "j < u" for j using assms(2) that by (simp add: on_def)
    show ?thesis using at[of i] i assms(3-6) by (auto simp: min_def split: if_splits intro!: Q)
  qed
  moreover have "P (ys ! i)" if i: "l + (u - m) \<le> i" "i < u" for i
  proof -
    have P: "P (xs ! j)" if "l \<le> j" "j < m" for j using assms(1) that by (simp add: on_def)
    show ?thesis using at[of i] i assms(3-6) by (auto simp: min_def split: if_splits intro!: P)
  qed
  moreover have "vecswap l (u - r) r xs = Inr ys" using ys(1) by (cases r) (auto simp: vecswap_def)
  ultimately show ?thesis by (auto simp: on_def)
qed

section \<open>Sorting\<close>

lemma med3_ok:
  assumes "a < length xs" "b < length xs" "c < length xs"
  shows "\<exists>m. med3 cmp a b c xs = Inr m \<and> m \<in> {a, b, c}"
  using assms by (simp add: med3_def)

lemma pivot_ok:
  assumes "\<not> n < 7" and "a + n \<le> length xs"
  shows "\<exists>pm. pivot cmp a n xs = Inr pm \<and> a \<le> pm \<and> pm < a + n"
proof -
  have med: "\<exists>m. med3 cmp i j k xs = Inr m \<and> l \<le> m \<and> m < u"
    if "{i, j, k} \<subseteq> {l..<u}" "u \<le> length xs" for i j k l u
    using med3_ok[of i xs j k cmp] that by fastforce
  consider "n = 7" | "7 < n" "n \<le> 40" | "40 < n" using assms(1) by linarith
  then show ?thesis
  proof cases
    case 3
    define d where "d = n div 8"
    have d: "4 * d \<le> n div 2" "n div 2 + d < n" "2 * d + 1 \<le> n" "a \<le> a + n div 2 - d" "a + n div 2 - d < a + n"
        "a \<le> a + n - Suc (2 * d) \<and> a \<le> a + n - Suc d \<and> a \<le> a + n - Suc 0" by (use 3 in \<open>auto simp: d_def\<close>)
    obtain pl where "med3 cmp a (a + d) (a + 2 * d) xs = Inr pl" "a \<le> pl" "pl < a + n"
      using med[of a "a + d" "a + 2 * d" a "a + n"] d 3 assms(2) by auto
    moreover obtain pm where "med3 cmp (a + n div 2 - d) (a + n div 2) (a + n div 2 + d) xs = Inr pm" "a \<le> pm" "pm < a + n"
      using med[of "a + n div 2 - d" "a + n div 2" "a + n div 2 + d" a "a + n"] d 3 assms(2) by auto
    moreover obtain pn where "med3 cmp (a + (n - 1) - 2 * d) (a + (n - 1) - d) (a + (n - 1)) xs = Inr pn" "a \<le> pn" "pn < a + n"
      using med[of "a + (n - 1) - 2 * d" "a + (n - 1) - d" "a + (n - 1)" a "a + n"] d 3 assms(2) by auto
    ultimately show ?thesis using med[of pl pm pn a "a + n"] 3 assms(2) by (simp add: pivot_def Let_def d_def)
  qed (use assms(2) med[of a "a + n div 2" "a + (n - 1)" a "a + n"] in \<open>auto simp: pivot_def Let_def\<close>)
qed


text \<open>Three sorted pieces, smaller than, equal to and larger than \<open>v\<close>.\<close>

lemma srt_pieces:
  assumes ok: "cmp_ok cmp" and "srt cmp a m xs" and "srt cmp k N xs" and "a \<le> m" and "m \<le> k"
    and lt: "on a m (\<lambda>x. cmp x v < 0) xs" and eq: "on m k (\<lambda>x. cmp x v = 0) xs" and gt: "on k N (\<lambda>x. cmp x v > 0) xs"
  shows "srt cmp a N xs"
  unfolding srt_def
proof (intro allI impI)
  fix i j assume ij: "a \<le> i \<and> i < j \<and> j < N"
  have below: "cmp (xs ! i) v \<le> 0" if "i < k" using that ij lt eq by (cases "i < m") (auto simp: on_def)
  have above: "cmp v (xs ! j) \<le> 0" if "m \<le> j"
  proof -
    have "cmp (xs ! j) v = 0 \<or> cmp (xs ! j) v > 0" using that ij eq gt unfolding on_def by (metis not_le_imp_less)
    then have "cmp (xs ! j) v \<ge> 0" by linarith
    then show ?thesis using ok by (rule cmp_flip[rotated])
  qed
  consider "j < m" | "k \<le> i" | "i < k" "m \<le> j" by linarith
  then show "cmp (xs ! i) (xs ! j) \<le> 0"
    by cases (use ij assms(2,3) below above cmp_trans[OF ok] in \<open>auto simp: srt_def\<close>)
qed

lemma part_split:
  assumes "part_inv cmp a N v pa pb pc pd xs" and "pb = Suc pc"
  shows "\<exists>ys zs. vecswap a (pb - min (pa - a) (pb - pa)) (min (pa - a) (pb - pa)) xs = Inr ys \<and>
    vecswap pb (N - min (pd - pc) (N - pd - 1)) (min (pd - pc) (N - pd - 1)) ys = Inr zs \<and> rearr a N xs zs \<and>
    on a (a + (pb - pa)) (\<lambda>x. cmp x v < 0) zs \<and> on (a + (pb - pa)) (N - (pd - pc)) (\<lambda>x. cmp x v = 0 \<or> x = v) zs \<and>
    on (N - (pd - pc)) N (\<lambda>x. cmp x v > 0) zs"
proof -
  have inv: "a < pa" "pa \<le> pb" "pb \<le> Suc pd" "pd < N" "N \<le> length xs" and
    on1: "on a pa (\<lambda>x. cmp x v = 0 \<or> x = v) xs" "on pa pb (\<lambda>x. cmp x v < 0) xs" and
    on2: "on pb (Suc pd) (\<lambda>x. cmp x v > 0) xs" "on (Suc pd) N (\<lambda>x. cmp x v = 0) xs"
    using assms by (auto simp: part_inv_def on_def Suc_le_eq) (metis le_neq_implies_less)
  obtain ys where ys: "vecswap a (pb - min (pa - a) (pb - pa)) (min (pa - a) (pb - pa)) xs = Inr ys" "rearr a pb xs ys"
      "on a (a + (pb - pa)) (\<lambda>x. cmp x v < 0) ys" "on (a + (pb - pa)) pb (\<lambda>x. cmp x v = 0 \<or> x = v) ys"
    using vecswap_ok[OF on1 _ _ _ refl] inv by auto
  have len: "length ys = length xs" using ys(2) by (rule rearr_length)
  have r: "min (pd - pc) (N - pd - 1) = min (Suc pd - pb) (N - Suc pd)" using assms(2) by simp
  obtain zs where zs: "vecswap pb (N - min (pd - pc) (N - pd - 1)) (min (pd - pc) (N - pd - 1)) ys = Inr zs" "rearr pb N ys zs"
      "on pb (pb + (N - Suc pd)) (\<lambda>x. cmp x v = 0) zs" "on (pb + (N - Suc pd)) N (\<lambda>x. cmp x v > 0) zs"
    using vecswap_ok[OF on_outside[OF ys(2) on2(1)] on_outside[OF ys(2) on2(2)] _ _ _ r] inv len by auto
  have k: "pb + (N - Suc pd) = N - (pd - pc)" using assms(2) inv by simp
  have "rearr a N xs zs" using ys(2) zs(2) inv by (meson rearr_mono rearr_trans le_trans order_refl less_imp_le Suc_leI)
  moreover have "on a (a + (pb - pa)) (\<lambda>x. cmp x v < 0) zs" "on (a + (pb - pa)) pb (\<lambda>x. cmp x v = 0 \<or> x = v) zs"
    using on_outside[OF zs(2) ys(3)] on_outside[OF zs(2) ys(4)] inv len by auto
  moreover from this(2) zs(3) have "on (a + (pb - pa)) (N - (pd - pc)) (\<lambda>x. cmp x v = 0 \<or> x = v) zs"
    unfolding k[symmetric] on_def by (metis not_le_imp_less)
  ultimately show ?thesis using ys(1) zs(1,4) unfolding k by blast
qed

definition sorts :: "('a \<Rightarrow> 'a \<Rightarrow> int) \<Rightarrow> nat \<Rightarrow> nat \<Rightarrow> 'a list \<Rightarrow> 'a list res \<Rightarrow> bool" where
  "sorts cmp l u xs m \<longleftrightarrow> (\<exists>ys. m = Inr ys \<and> rearr l u xs ys \<and> (cmp_ok cmp \<longrightarrow> srt cmp l u ys))"

lemma sorts_ins_outer:
  assumes "a + n \<le> length xs" and "rearr a (a + n) zs xs"
  shows "sorts cmp a (a + n) zs (ins_outer cmp a (a + n) (a + 1) xs)"
proof -
  have "srt cmp a (a + 1) xs" by (auto simp: srt_def)
  then have "\<exists>ys. ins_outer cmp a (a + n) (a + 1) xs = Inr ys \<and> rearr a (a + n) xs ys \<and> (cmp_ok cmp \<longrightarrow> srt cmp a (a + n) ys)"
    using ins_outer_ok[of a "a + 1" "a + n" xs cmp] assms(1) by (cases n) (auto simp: srt_def)
  then show ?thesis unfolding sorts_def using rearr_trans[OF assms(2)] by blast
qed

lemma sorts_if:
  assumes "rearr l u zs xs" and "k \<le> m" and "l \<le> k" and "m \<le> u" and "\<not> c \<Longrightarrow> m \<le> Suc k" and "c \<Longrightarrow> sorts cmp k m xs q"
  shows "\<exists>ys. (if c then q else Inr xs) = Inr ys \<and> rearr l u zs ys \<and> rearr k m xs ys \<and> (cmp_ok cmp \<longrightarrow> srt cmp k m ys)"
proof (cases c)
  case True
  then obtain ys where "q = Inr ys" "rearr k m xs ys" "cmp_ok cmp \<longrightarrow> srt cmp k m ys" using assms(6) by (auto simp: sorts_def)
  then show ?thesis using True assms(1,3,4) by (auto intro: rearr_trans rearr_mono)
next
  case False
  then show ?thesis using assms(1,5) by (auto simp: srt_def)
qed

lemma qsort_pieces:
  assumes IH: "\<And>k a' xs. k < n \<Longrightarrow> a' + k \<le> length xs \<Longrightarrow> sorts cmp a' (a' + k) xs (qsort cmp a' k xs)"
    and inv: "part_inv cmp a (a + n) v pa pb pc pd xs2" "pb = Suc pc" and re: "rearr a (a + n) xs zs" and "a + n \<le> length xs"
    and lt: "on a (a + (pb - pa)) (\<lambda>x. cmp x v < 0) zs"
    and eq: "on (a + (pb - pa)) (a + n - (pd - pc)) (\<lambda>x. cmp x v = 0 \<or> x = v) zs"
    and gt: "on (a + n - (pd - pc)) (a + n) (\<lambda>x. cmp x v > 0) zs"
  shows "sorts cmp a (a + n) xs
    (rbind (if pb - pa > 1 then qsort cmp a (pb - pa) zs else Inr zs) (\<lambda>xs.
      if pd - pc > 1 then qsort cmp (a + n - (pd - pc)) (pd - pc) xs else Inr xs))"
proof -
  let ?m = "a + (pb - pa)" let ?k = "a + n - (pd - pc)"
  have pos: "?m \<le> ?k" "?k \<le> a + n" "pb - pa < n" "pd - pc < n" "?k + (pd - pc) = a + n" "a \<le> ?m" "a \<le> ?k"
    using inv by (auto simp: part_inv_def)
  have lz: "length zs = length xs" using re by (rule rearr_length)
  have "sorts cmp a ?m zs (qsort cmp a (pb - pa) zs)" using IH[of "pb - pa" a zs] pos(1-3) assms(5) lz by simp
  with re pos(1,2,6) obtain ys where
    ys: "(if pb - pa > 1 then qsort cmp a (pb - pa) zs else Inr zs) = Inr ys" "rearr a (a + n) xs ys"
      "rearr a ?m zs ys" "cmp_ok cmp \<longrightarrow> srt cmp a ?m ys"
    using sorts_if[OF re, of a ?m "pb - pa > 1" cmp "qsort cmp a (pb - pa) zs"] by fastforce
  have ly: "length ys = length xs" using ys(2) by (rule rearr_length)
  have "sorts cmp ?k (a + n) ys (qsort cmp ?k (pd - pc) ys)" using IH[of "pd - pc" ?k ys] pos(4,5) assms(5) ly by simp
  moreover have "\<not> pd - pc > 1 \<Longrightarrow> a + n \<le> Suc ?k" using pos(5) by linarith
  ultimately obtain ws where ws: "(if pd - pc > 1 then qsort cmp ?k (pd - pc) ys else Inr ys) = Inr ws" "rearr a (a + n) xs ws"
      "rearr ?k (a + n) ys ws" "cmp_ok cmp \<longrightarrow> srt cmp ?k (a + n) ws"
    using sorts_if[OF ys(2) pos(2,7) order_refl, of "pd - pc > 1" cmp "qsort cmp ?k (pd - pc) ys"] by blast
  have "srt cmp a (a + n) ws" if ok: "cmp_ok cmp"
  proof (rule srt_pieces[OF ok _ _ pos(6,1)])
    have vv: "cmp v v = 0" using ok by (rule cmp_self)
    have "ws ! i = ys ! i" if "i < ?m" for i using rearr_outside[OF ws(3), of i] that pos(1,2) assms(5) ly by linarith
    then show "srt cmp a ?m ws" using ys(4) ok by (simp add: srt_def)
    show "srt cmp ?k (a + n) ws" using ws(4) ok by blast
    have len: "?m \<le> length zs" "?k \<le> length zs" "?m \<le> length ys" "?k \<le> length ys" "a + n \<le> length zs" "a + n \<le> length ys"
      using pos(1,2) assms(5) lz ly by linarith+
    show "on a ?m (\<lambda>x. cmp x v < 0) ws"
      using on_outside[OF ws(3) rearr_on[OF ys(3) len(1) lt] len(3)] pos(1) by blast
    have "on ?m ?k (\<lambda>x. cmp x v = 0 \<or> x = v) ws"
      using on_outside[OF ws(3) on_outside[OF ys(3) eq len(2)] len(4)] by blast
    then show "on ?m ?k (\<lambda>x. cmp x v = 0) ws" by (rule on_imp) (use vv in blast)
    show "on ?k (a + n) (\<lambda>x. cmp x v > 0) ws"
      using rearr_on[OF ws(3) len(6) on_outside[OF ys(3) gt len(5)]] pos(1) by blast
  qed
  then show ?thesis using ys(1) ws(1,2) by (simp add: sorts_def)
qed

lemma qsort_ok: "a + n \<le> length xs \<Longrightarrow> sorts cmp a (a + n) xs (qsort cmp a n xs)"
proof (induction n arbitrary: a xs rule: less_induct)
  case (less n)
  show ?case
  proof (cases "n < 7")
    case True
    then show ?thesis using sorts_ins_outer[OF less.prems rearr_refl] by (simp add: qsort.simps[of cmp a n])
  next
    case False
    obtain pm where pm: "pivot cmp a n xs = Inr pm" "a \<le> pm" "pm < a + n" using pivot_ok[OF False less.prems] by blast
    define xs1 where "xs1 = xs[a := xs ! pm, pm := xs ! a]"
    have sw: "swap_at a pm xs = Inr xs1" "rearr a (a + n) xs xs1" "length xs1 = length xs"
      using swap_at_ok[of a xs pm] rearr_swap[of a a "a + n" pm xs] pm less.prems by (auto simp: xs1_def)
    have "part_inv cmp a (a + n) (xs1 ! a) (Suc a) (Suc a) (a + n - 1) (a + n - 1) xs1"
      using False less.prems sw(3) by (auto simp: part_inv_def on_def)
    then obtain pa pb pc pd cnt xs2 where
      part: "part_loop cmp a (Suc a) (Suc a) (a + n - 1) (a + n - 1) False xs1 = Inr (pa, pb, pc, pd, cnt, xs2)"
        "part_inv cmp a (a + n) (xs1 ! a) pa pb pc pd xs2" "rearr (Suc a) (a + n) xs1 xs2" "pb = Suc pc"
      using part_loop_ok[of cmp a "a + n" "xs1 ! a" "Suc a" "Suc a" "a + n - 1" "a + n - 1" xs1 False] by blast
    have re: "rearr a (a + n) xs xs2" using sw(2) part(3) by (meson rearr_trans rearr_mono le_SucI order_refl)
    have len: "length xs2 = length xs" using re by (rule rearr_length)
    show ?thesis
    proof (cases cnt)
      case True
      obtain ys zs where yz: "vecswap a (pb - min (pa - a) (pb - pa)) (min (pa - a) (pb - pa)) xs2 = Inr ys"
          "vecswap pb (a + n - min (pd - pc) (a + n - pd - 1)) (min (pd - pc) (a + n - pd - 1)) ys = Inr zs"
        and zs: "rearr a (a + n) xs2 zs" "on a (a + (pb - pa)) (\<lambda>x. cmp x (xs1 ! a) < 0) zs"
          "on (a + (pb - pa)) (a + n - (pd - pc)) (\<lambda>x. cmp x (xs1 ! a) = 0 \<or> x = xs1 ! a) zs"
          "on (a + n - (pd - pc)) (a + n) (\<lambda>x. cmp x (xs1 ! a) > 0) zs"
        using part_split[OF part(2,4)] by blast
      have "sorts cmp a (a + n) xs
        (rbind (if pb - pa > 1 then qsort cmp a (pb - pa) zs else Inr zs) (\<lambda>xs.
          if pd - pc > 1 then qsort cmp (a + n - (pd - pc)) (pd - pc) xs else Inr xs))"
        by (rule qsort_pieces[OF less.IH part(2,4) rearr_trans[OF re zs(1)] less.prems zs(2-4)])
      then show ?thesis using False pm sw part(1) True yz
        by (subst qsort.simps) (simp add: Let_def)
    next
      case nocnt: False
      have "qsort cmp a n xs = ins_outer cmp a (a + n) (a + 1) xs2"
        using nocnt False pm sw part(1) by (subst qsort.simps) simp
      then show ?thesis using sorts_ins_outer[of a n xs2 xs cmp] re len less.prems by simp
    qed
  qed
qed


lemma cmp_ok_diff: "cmp_ok (\<lambda>x y. x - y)"
  by (auto simp: cmp_ok_def)


lemma qsort_runs: "qsort (\<lambda>x y. x - y) 1 9 [7, 5, 3, 9, 3, 8, 1, 5, 2, 5, 0] = Inr [7, 1, 2, 3, 3, 5, 5, 5, 8, 9, 0]"
  by code_simp

end
