(* ===== verification/Crc32.thy ===== *)
theory Crc32
  imports Crc32_Tables
begin

text \<open>
  \<open>src/3rd/freebsd/libkern/crc32.c\<close> and the inline functions of \<open>src/3rd/freebsd/sys/libkern.h\<close>: the
  CRC-32 of Ethernet and the CRC-32C of SCTP and iSCSI, the latter eight bytes at a time with eight tables.

  The buffer is a list of bytes with the address of its first byte; a read outside of it is \<open>Undef\<close>. Lengths
  are 32-bit numbers, as in the code. The machine is little endian.
\<close>

unbundle bit_operations_syntax

section \<open>The functions\<close>

text \<open>The loop \<open>crc = tab[(crc ^ *p++) & 0xFF] ^ (crc >> 8)\<close>, \<open>n\<close> times from \<open>p\<close> on.\<close>

fun table_loop :: "u32 list \<Rightarrow> nat \<Rightarrow> byte list \<Rightarrow> nat \<Rightarrow> u32 \<Rightarrow> u32 res" where
  "table_loop tab 0 buf p crc = Inr crc"
| "table_loop tab (Suc n) buf p crc =
     rbind (rd buf p) (\<lambda>b.
     rbind (rd tab (unat ((crc XOR ucast b) AND 0xFF))) (\<lambda>t.
     table_loop tab n buf (p + 1) (t XOR drop_bit 8 crc)))"

definition crc32_raw :: "byte list \<Rightarrow> nat \<Rightarrow> u32 \<Rightarrow> u32 res" where
  "crc32_raw buf sz crc = table_loop crc32_tab sz buf 0 crc"

definition crc32 :: "byte list \<Rightarrow> nat \<Rightarrow> u32 res" where
  "crc32 buf sz = rbind (crc32_raw buf sz (NOT 0)) (\<lambda>crc. Inr (crc XOR NOT 0))"

definition singletable_crc32c :: "u32 \<Rightarrow> byte list \<Rightarrow> nat \<Rightarrow> u32 res" where
  "singletable_crc32c crc buf sz = table_loop crc32Table sz buf 0 crc"

definition load32 :: "byte list \<Rightarrow> nat \<Rightarrow> u32 res" where
  "load32 buf p =
     rbind (rd buf p) (\<lambda>a. rbind (rd buf (p + 1)) (\<lambda>b. rbind (rd buf (p + 2)) (\<lambda>c. rbind (rd buf (p + 3)) (\<lambda>d.
     Inr (ucast a OR push_bit 8 (ucast b) OR push_bit 16 (ucast c) OR push_bit 24 (ucast d))))))"

definition tab8 :: "u32 list \<Rightarrow> u32 \<Rightarrow> u32 res" where
  "tab8 tab x = rd tab (unat (x AND 0x000000FF))"

fun sb8_loop :: "nat \<Rightarrow> byte list \<Rightarrow> nat \<Rightarrow> u32 \<Rightarrow> u32 res" where
  "sb8_loop 0 buf p crc = Inr crc"
| "sb8_loop (Suc n) buf p crc =
     rbind (load32 buf p) (\<lambda>w.
     let crc = crc XOR w; p = p + 4 in
     rbind (tab8 sctp_crc_tableil8_o88 crc) (\<lambda>t88.
     rbind (tab8 sctp_crc_tableil8_o80 (drop_bit 8 crc)) (\<lambda>t80.
     let term1 = t88 XOR t80; term2 = drop_bit 16 crc in
     rbind (tab8 sctp_crc_tableil8_o72 term2) (\<lambda>t72.
     rbind (tab8 sctp_crc_tableil8_o64 (drop_bit 8 term2)) (\<lambda>t64.
     let crc = term1 XOR t72 XOR t64 in
     rbind (load32 buf p) (\<lambda>w.
     rbind (tab8 sctp_crc_tableil8_o56 w) (\<lambda>t56.
     rbind (tab8 sctp_crc_tableil8_o48 (drop_bit 8 w)) (\<lambda>t48.
     let term1 = t56 XOR t48; term2 = drop_bit 16 w in
     rbind (tab8 sctp_crc_tableil8_o40 term2) (\<lambda>t40.
     rbind (tab8 sctp_crc_tableil8_o32 (drop_bit 8 term2)) (\<lambda>t32.
     sb8_loop n buf (p + 4) (crc XOR term1 XOR t40 XOR t32)))))))))))"

definition crc32c_sb8_64_bit :: "u32 \<Rightarrow> byte list \<Rightarrow> u32 \<Rightarrow> u32 \<Rightarrow> u32 res" where
  "crc32c_sb8_64_bit crc p_buf len init_bytes =
     (let running_length = (len - init_bytes) div 8 * 8;
          end_bytes = len - init_bytes - running_length in
      rbind (table_loop sctp_crc_tableil8_o32 (unat init_bytes) p_buf 0 crc) (\<lambda>crc.
      rbind (sb8_loop (unat (running_length div 8)) p_buf (unat init_bytes) crc) (\<lambda>crc.
      table_loop sctp_crc_tableil8_o32 (unat end_bytes) p_buf (unat init_bytes + unat running_length) crc)))"

definition multitable_crc32c :: "u32 \<Rightarrow> u64 \<Rightarrow> byte list \<Rightarrow> u32 \<Rightarrow> u32 res" where
  "multitable_crc32c crc32c addr buffer len =
     (if len = 0 then Inr crc32c
      else let to_even_word = ucast (4 - (addr AND 0x3)) in crc32c_sb8_64_bit crc32c buffer len to_even_word)"

definition calculate_crc32c :: "u32 \<Rightarrow> u64 \<Rightarrow> byte list \<Rightarrow> u32 \<Rightarrow> u32 res" where
  "calculate_crc32c crc32c addr buffer len =
     (if len < 4 then singletable_crc32c crc32c buffer (unat len)
      else multitable_crc32c crc32c addr buffer len)"


section \<open>The shift register\<close>

text \<open>The reference: a register with feedback, which takes the bytes bit by bit, lowest bit first.\<close>

definition crc_bit :: "u32 \<Rightarrow> u32 \<Rightarrow> u32" where
  "crc_bit poly c = (if bit c 0 then drop_bit 1 c XOR poly else drop_bit 1 c)"

definition crc_byte :: "u32 \<Rightarrow> u32 \<Rightarrow> byte \<Rightarrow> u32" where
  "crc_byte poly c b = (crc_bit poly ^^ 8) (c XOR ucast b)"

definition crc_ref :: "u32 \<Rightarrow> u32 \<Rightarrow> byte list \<Rightarrow> u32" where
  "crc_ref poly c bs = foldl (crc_byte poly) c bs"

definition CRC32_POLY :: u32 where "CRC32_POLY = 0xEDB88320"
definition CRC32C_POLY :: u32 where "CRC32C_POLY = 0x82F63B78"

lemma linear_crc_bit: "linear (crc_bit poly)"
  unfolding linear_def crc_bit_def
  by (intro allI bit_eqI) (auto simp: bit_simps)

lemma linear_crc: "linear (crc_bit poly ^^ n)"
  by (rule linear_funpow[OF linear_crc_bit])

text \<open>While the low bits are zero, nothing is fed back.\<close>

lemma crc_low_zero:
  "(\<And>i. i < n \<Longrightarrow> \<not> bit c i) \<Longrightarrow> (crc_bit poly ^^ n) c = drop_bit n c"
proof (induction n arbitrary: c)
  case (Suc n)
  have "crc_bit poly c = drop_bit 1 c" using Suc.prems[of 0] by (simp add: crc_bit_def)
  moreover have "\<not> bit (drop_bit 1 c) i" if "i < n" for i using Suc.prems[of "Suc i"] that by (simp add: bit_drop_bit_eq)
  ultimately show ?case using Suc.IH[of "drop_bit 1 c"] by (simp add: funpow_swap1 funpow_Suc_right del: funpow.simps)
qed simp

lemma crc_push:
  assumes "n \<le> 24" and "\<And>i. 8 \<le> i \<Longrightarrow> \<not> bit y i"
  shows "(crc_bit poly ^^ (m + n)) (push_bit n y) = (crc_bit poly ^^ m) y"
proof -
  have "(crc_bit poly ^^ n) (push_bit n y) = drop_bit n (push_bit n y)"
    by (rule crc_low_zero) (auto simp: bit_simps)
  also have "\<dots> = y"
  proof (rule bit_eqI)
    fix i
    have "bit y i \<Longrightarrow> i < 8" using assms(2) not_le by blast
    then show "bit (drop_bit n (push_bit n y)) i \<longleftrightarrow> bit y i" using assms(1) by (auto simp: bit_simps)
  qed
  finally show ?thesis by (simp add: funpow_add)
qed

lemma byte_high: "8 \<le> i \<Longrightarrow> \<not> bit (ucast (b :: byte) :: u32) i"
  by (auto simp: bit_simps dest: bit_imp_le_length)

lemma and_high: "8 \<le> i \<Longrightarrow> \<not> bit (x AND 0xFF) i" for x :: u32
proof -
  have "(0xFF :: u32) = mask 8" by (simp add: mask_eq_exp_minus_1)
  then show "8 \<le> i \<Longrightarrow> \<not> bit (x AND 0xFF) i" by (simp only: bit_simps) simp
qed

text \<open>Eight shifts at once.\<close>

lemma crc_table_step: "(crc_bit poly ^^ 8) c = (crc_bit poly ^^ 8) (c AND 0xFF) XOR drop_bit 8 c"
proof -
  have m: "0xFF = (mask 8 :: u32)" by (simp add: mask_eq_exp_minus_1)
  have "c = (c AND mask 8) XOR (c AND NOT (mask 8))" by (intro bit_eqI) (auto simp: bit_simps)
  then have "(crc_bit poly ^^ 8) c = (crc_bit poly ^^ 8) (c AND mask 8) XOR (crc_bit poly ^^ 8) (c AND NOT (mask 8))"
    using linear_xor[OF linear_crc] by metis
  moreover have "(crc_bit poly ^^ 8) (c AND NOT (mask 8)) = drop_bit 8 (c AND NOT (mask 8))"
    by (rule crc_low_zero) (auto simp: bit_simps)
  moreover have "drop_bit 8 (c AND NOT (mask 8)) = drop_bit 8 c"
    by (intro bit_eqI) (auto simp: bit_simps dest: bit_imp_le_length)
  ultimately show ?thesis by (simp only: m)
qed

text \<open>A table for \<open>n\<close> shifts.\<close>

definition shifts :: "u32 \<Rightarrow> nat \<Rightarrow> u32 list \<Rightarrow> bool" where
  "shifts poly n tab \<longleftrightarrow> tab = span (map (\<lambda>j. (crc_bit poly ^^ n) (2 ^ j)) (rev [0..<8]))"

lemma tab8_shifts:
  assumes "shifts poly n tab"
  shows "tab8 tab x = Inr ((crc_bit poly ^^ n) (x AND 0xFF))"
proof -
  have "x AND 0xFF = take_bit 8 x" by (simp add: take_bit_eq_mask mask_eq_exp_minus_1)
  then have "unat (x AND 0xFF) < 2 ^ 8" by (simp only: unsigned_take_bit_eq take_bit_nat_less_exp)
  then show ?thesis
    using assms span_linear[OF linear_crc, of 8 "unat (x AND 0xFF)" n poly] by (simp add: tab8_def shifts_def)
qed

lemma crc_iter: "(f ^^ numeral n) x = (f ^^ pred_numeral n) (f x)" for f :: "u32 \<Rightarrow> u32"
  by (simp add: numeral_eq_Suc funpow_swap1)

lemma bits_list: "map f (rev [0..<8]) = [f 7, f 6, f 5, f 4, f 3, f 2, f 1, f (0 :: nat)]"
  by (simp add: upt_rec numeral_eq_Suc)

lemma crc32_tab_shifts: "shifts CRC32_POLY 8 crc32_tab"
  unfolding shifts_def bits_list crc32_tab_span by (rule arg_cong[of _ _ span]) (simp add: crc_iter crc_bit_def CRC32_POLY_def CRC32C_POLY_def)

lemma crc32Table_shifts: "shifts CRC32C_POLY 8 crc32Table"
  unfolding shifts_def bits_list crc32Table_span by (rule arg_cong[of _ _ span]) (simp add: crc_iter crc_bit_def CRC32_POLY_def CRC32C_POLY_def)

lemma sctp_crc_tableil8_o32_shifts: "shifts CRC32C_POLY 8 sctp_crc_tableil8_o32"
  unfolding shifts_def bits_list sctp_crc_tableil8_o32_span by (rule arg_cong[of _ _ span]) (simp add: crc_iter crc_bit_def CRC32_POLY_def CRC32C_POLY_def)

lemma sctp_crc_tableil8_o40_shifts: "shifts CRC32C_POLY 16 sctp_crc_tableil8_o40"
  unfolding shifts_def bits_list sctp_crc_tableil8_o40_span by (rule arg_cong[of _ _ span]) (simp add: crc_iter crc_bit_def CRC32_POLY_def CRC32C_POLY_def)

lemma sctp_crc_tableil8_o48_shifts: "shifts CRC32C_POLY 24 sctp_crc_tableil8_o48"
  unfolding shifts_def bits_list sctp_crc_tableil8_o48_span by (rule arg_cong[of _ _ span]) (simp add: crc_iter crc_bit_def CRC32_POLY_def CRC32C_POLY_def)

lemma sctp_crc_tableil8_o56_shifts: "shifts CRC32C_POLY 32 sctp_crc_tableil8_o56"
  unfolding shifts_def bits_list sctp_crc_tableil8_o56_span by (rule arg_cong[of _ _ span]) (simp add: crc_iter crc_bit_def CRC32_POLY_def CRC32C_POLY_def)

lemma sctp_crc_tableil8_o64_shifts: "shifts CRC32C_POLY 40 sctp_crc_tableil8_o64"
  unfolding shifts_def bits_list sctp_crc_tableil8_o64_span by (rule arg_cong[of _ _ span]) (simp add: crc_iter crc_bit_def CRC32_POLY_def CRC32C_POLY_def)

lemma sctp_crc_tableil8_o72_shifts: "shifts CRC32C_POLY 48 sctp_crc_tableil8_o72"
  unfolding shifts_def bits_list sctp_crc_tableil8_o72_span by (rule arg_cong[of _ _ span]) (simp add: crc_iter crc_bit_def CRC32_POLY_def CRC32C_POLY_def)

lemma sctp_crc_tableil8_o80_shifts: "shifts CRC32C_POLY 56 sctp_crc_tableil8_o80"
  unfolding shifts_def bits_list sctp_crc_tableil8_o80_span by (rule arg_cong[of _ _ span]) (simp add: crc_iter crc_bit_def CRC32_POLY_def CRC32C_POLY_def)

lemma sctp_crc_tableil8_o88_shifts: "shifts CRC32C_POLY 64 sctp_crc_tableil8_o88"
  unfolding shifts_def bits_list sctp_crc_tableil8_o88_span by (rule arg_cong[of _ _ span]) (simp add: crc_iter crc_bit_def CRC32_POLY_def CRC32C_POLY_def)


section \<open>Bytes and words\<close>

lemma table_loop_ok:
  "shifts poly 8 tab \<Longrightarrow> p + n \<le> length buf \<Longrightarrow>
     table_loop tab n buf p crc = Inr (crc_ref poly crc (take n (drop p buf)))"
proof (induction n arbitrary: p crc)
  case (Suc n)
  let ?b = "buf ! p"
  have p: "p < length buf" "take (Suc n) (drop p buf) = ?b # take n (drop (p + 1) buf)"
    using Suc.prems by (simp_all add: Cons_nth_drop_Suc[symmetric])
  have "drop_bit 8 (ucast ?b :: u32) = 0" using byte_high by (intro bit_eqI) (auto simp: bit_drop_bit_eq)
  then have "drop_bit 8 (crc XOR ucast ?b) = drop_bit 8 crc" by (simp add: drop_bit_xor)
  then have "crc_byte poly crc ?b = (crc_bit poly ^^ 8) ((crc XOR ucast ?b) AND 0xFF) XOR drop_bit 8 crc"
    using crc_table_step[of poly "crc XOR ucast ?b"] by (simp add: crc_byte_def)
  then show ?case using Suc p tab8_shifts[OF Suc.prems(1), of "crc XOR ucast ?b"]
    by (simp add: tab8_def crc_ref_def)
qed (simp add: crc_ref_def)

lemma crc_next:
  "n \<le> 24 \<Longrightarrow> (crc_bit poly ^^ 8) ((crc_bit poly ^^ n) x XOR ucast (b :: byte)) = (crc_bit poly ^^ (8 + n)) (x XOR push_bit n (ucast b))"
  using crc_push[of n "ucast b" 0 poly] byte_high linear_xor[OF linear_crc[of n poly], of x] by (simp add: funpow_add)

definition word4 :: "byte \<Rightarrow> byte \<Rightarrow> byte \<Rightarrow> byte \<Rightarrow> u32" where
  "word4 a b c d = ucast a XOR push_bit 8 (ucast b) XOR push_bit 16 (ucast c) XOR push_bit 24 (ucast d)"

lemma crc_word: "crc_ref poly x [a, b, c, d] = (crc_bit poly ^^ 32) (x XOR word4 a b c d)"
  by (simp add: crc_ref_def crc_byte_def crc_next word4_def xor.assoc)

lemma byte_bound: "bit (b :: byte) i \<Longrightarrow> i < 8"
  by (auto dest: bit_imp_le_length)

lemma load32_ok:
  assumes "p + 4 \<le> length buf"
  shows "load32 buf p = Inr (word4 (buf ! p) (buf ! (p + 1)) (buf ! (p + 2)) (buf ! (p + 3)))"
proof -
  have "ucast a OR push_bit 8 (ucast b) OR push_bit 16 (ucast c) OR push_bit 24 (ucast d) = word4 a b c d" for a b c d :: byte
    unfolding word4_def by (intro bit_eqI) (auto simp: bit_simps dest: byte_bound)
  then show ?thesis using assms by (simp add: load32_def)
qed

lemma crc_push_and: "n \<le> 24 \<Longrightarrow> (crc_bit poly ^^ (m + n)) (push_bit n (y AND 0xFF)) = (crc_bit poly ^^ m) (y AND 0xFF)"
  by (rule crc_push) (auto simp: and_high)

text \<open>A register split into its bytes.\<close>

lemma crc_bytes:
  "(crc_bit poly ^^ (32 + k)) x =
     (crc_bit poly ^^ (32 + k)) (x AND 0xFF) XOR (crc_bit poly ^^ (24 + k)) (drop_bit 8 x AND 0xFF) XOR
     (crc_bit poly ^^ (16 + k)) (drop_bit 16 x AND 0xFF) XOR (crc_bit poly ^^ (8 + k)) (drop_bit 24 x AND 0xFF)"
proof -
  have m: "0xFF = (mask 8 :: u32)" by (simp add: mask_eq_exp_minus_1)
  have "x = (x AND 0xFF) XOR push_bit 8 (drop_bit 8 x AND 0xFF) XOR push_bit 16 (drop_bit 16 x AND 0xFF) XOR push_bit 24 (drop_bit 24 x AND 0xFF)"
    unfolding m by (intro bit_eqI) (auto simp: bit_simps)
  then have "(crc_bit poly ^^ (32 + k)) x = (crc_bit poly ^^ (32 + k)) (x AND 0xFF) XOR
      (crc_bit poly ^^ (32 + k)) (push_bit 8 (drop_bit 8 x AND 0xFF)) XOR
      (crc_bit poly ^^ (32 + k)) (push_bit 16 (drop_bit 16 x AND 0xFF)) XOR
      (crc_bit poly ^^ (32 + k)) (push_bit 24 (drop_bit 24 x AND 0xFF))"
    using linear_xor[OF linear_crc[of "32 + k" poly]] by metis
  then show ?thesis
    using crc_push_and[of 8 "24 + k" poly "drop_bit 8 x"] crc_push_and[of 16 "16 + k" poly "drop_bit 16 x"]
      crc_push_and[of 24 "8 + k" poly "drop_bit 24 x"] by simp
qed

lemmas sb8_tables =
  tab8_shifts[OF sctp_crc_tableil8_o32_shifts] tab8_shifts[OF sctp_crc_tableil8_o40_shifts]
  tab8_shifts[OF sctp_crc_tableil8_o48_shifts] tab8_shifts[OF sctp_crc_tableil8_o56_shifts]
  tab8_shifts[OF sctp_crc_tableil8_o64_shifts] tab8_shifts[OF sctp_crc_tableil8_o72_shifts]
  tab8_shifts[OF sctp_crc_tableil8_o80_shifts] tab8_shifts[OF sctp_crc_tableil8_o88_shifts]

lemma crc_ref_append: "crc_ref poly c (xs @ ys) = crc_ref poly (crc_ref poly c xs) ys"
  by (simp add: crc_ref_def)

lemma sb8_step:
  assumes "p + 8 \<le> length buf"
  shows "sb8_loop (Suc n) buf p crc = sb8_loop n buf (p + 8) (crc_ref CRC32C_POLY crc (take 8 (drop p buf)))"
proof -
  let ?S = "\<lambda>n. crc_bit CRC32C_POLY ^^ n"
  define w v where "w = word4 (buf ! p) (buf ! (p + 1)) (buf ! (p + 2)) (buf ! (p + 3))"
    and "v = word4 (buf ! (p + 4)) (buf ! (p + 4 + 1)) (buf ! (p + 4 + 2)) (buf ! (p + 4 + 3))"
  have ld: "load32 buf p = Inr w" "load32 buf (p + 4) = Inr v"
    using load32_ok[of p buf] load32_ok[of "p + 4" buf] assms unfolding w_def v_def by simp_all
  have "take 8 (drop p buf) =
      [buf ! p, buf ! (p + 1), buf ! (p + 2), buf ! (p + 3)] @ [buf ! (p + 4), buf ! (p + 4 + 1), buf ! (p + 4 + 2), buf ! (p + 4 + 3)]"
    using assms by (intro nth_equalityI) (auto simp: numeral_eq_Suc less_Suc_eq)
  then have "crc_ref CRC32C_POLY crc (take 8 (drop p buf)) = ?S 32 (?S 32 (crc XOR w) XOR v)"
    by (simp only: crc_ref_append crc_word w_def v_def)
  also have "\<dots> = ?S (32 + 32) (crc XOR w) XOR ?S (32 + 0) v"
    by (simp only: linear_xor[OF linear_crc] funpow_add comp_def add_0_right)
  also have "\<dots> = ?S 64 ((crc XOR w) AND 0xFF) XOR ?S 56 (drop_bit 8 (crc XOR w) AND 0xFF) XOR
      ?S 48 (drop_bit 16 (crc XOR w) AND 0xFF) XOR ?S 40 (drop_bit 24 (crc XOR w) AND 0xFF) XOR
      (?S 32 (v AND 0xFF) XOR ?S 24 (drop_bit 8 v AND 0xFF) XOR ?S 16 (drop_bit 16 v AND 0xFF) XOR ?S 8 (drop_bit 24 v AND 0xFF))"
    using crc_bytes[of 32 CRC32C_POLY "crc XOR w"] crc_bytes[of 0 CRC32C_POLY v] by (simp add: xor.assoc)
  finally show ?thesis by (simp add: ld sb8_tables Let_def xor.assoc add.commute[of p 8])
qed

lemma sb8_loop_ok:
  "p + 8 * n \<le> length buf \<Longrightarrow> sb8_loop n buf p crc = Inr (crc_ref CRC32C_POLY crc (take (8 * n) (drop p buf)))"
proof (induction n arbitrary: p crc)
  case (Suc n)
  have "take (8 * Suc n) (drop p buf) = take 8 (drop p buf) @ take (8 * n) (drop (p + 8) buf)"
    by (simp add: take_add add.commute)
  then show ?case using Suc sb8_step[of p buf n crc] by (simp add: crc_ref_append del: sb8_loop.simps)
qed (simp add: crc_ref_def)


section \<open>The lengths\<close>

lemma unat_init_bytes: "unat (ucast (4 - (addr AND 3)) :: u32) = 4 - unat (addr AND 3)" for addr :: u64
proof -
  have "addr AND 3 = take_bit 2 addr" by (simp add: take_bit_eq_mask mask_eq_exp_minus_1)
  then have "unat (addr AND 3) < 2 ^ 2" by (simp only: unsigned_take_bit_eq take_bit_nat_less_exp)
  then have "unat (4 - (addr AND 3)) = 4 - unat (addr AND 3)" by (subst unat_sub) (simp_all add: word_le_nat_alt)
  then show ?thesis by (subst unat_ucast_small) simp_all
qed

lemma unat_rounddown: "unat (x div 8 * 8 :: u32) = unat x div 8 * 8"
proof -
  have "unat (x div 8) * unat (8 :: u32) < 2 ^ 32"
    using div_times_less_eq_dividend[of "unat x" 8] unsigned_less[of x, where 'a = nat] by (simp add: unat_div_distrib)
  then have "unat (x div 8 * 8) = unat (x div 8) * unat (8 :: u32)" using unat_mult_lem[of "x div 8" 8] by simp
  then show ?thesis by (simp add: unat_div_distrib)
qed

lemma crc32c_ok:
  assumes "unat len \<le> length buf"
  shows "calculate_crc32c crc addr buf len = Inr (crc_ref CRC32C_POLY crc (take (unat len) buf))"
proof (cases "len < 4")
  case True
  then show ?thesis using table_loop_ok[OF crc32Table_shifts, of 0 "unat len" buf crc] assms
    by (simp add: calculate_crc32c_def singletable_crc32c_def)
next
  case False
  define init where "init = (ucast (4 - (addr AND 3)) :: u32)"
  define run where "run = (len - init) div 8 * 8"
  define fin where "fin = len - init - run"
  have i: "unat init \<le> 4" by (simp add: init_def unat_init_bytes)
  moreover have "4 \<le> unat len" using False by (simp add: word_less_nat_alt)
  ultimately have le: "unat init \<le> unat len" by simp
  then have sub: "unat (len - init) = unat len - unat init" by (intro unat_sub) (simp add: word_le_nat_alt)
  then have r: "unat run = (unat len - unat init) div 8 * 8" by (simp add: run_def unat_rounddown)
  then have rle: "unat run \<le> unat len - unat init" by simp
  then have f: "unat fin = unat len - unat init - unat run" unfolding fin_def using sub by (subst unat_sub) (simp_all add: word_le_nat_alt)
  have r8: "unat (run div 8) * 8 = unat run" using r by (simp add: unat_div_distrib)
  have sum: "unat len = unat init + (unat run + unat fin)" using le rle f by simp
  have "table_loop sctp_crc_tableil8_o32 (unat init) buf 0 crc = Inr (crc_ref CRC32C_POLY crc (take (unat init) buf))"
    using table_loop_ok[OF sctp_crc_tableil8_o32_shifts, of 0 "unat init" buf crc] assms le by simp
  moreover have "sb8_loop (unat (run div 8)) buf (unat init) c = Inr (crc_ref CRC32C_POLY c (take (unat run) (drop (unat init) buf)))" for c
    using sb8_loop_ok[of "unat init" "unat (run div 8)" buf c] assms sum r8 by (simp add: mult.commute)
  moreover have "table_loop sctp_crc_tableil8_o32 (unat fin) buf (unat init + unat run) c =
      Inr (crc_ref CRC32C_POLY c (take (unat fin) (drop (unat init + unat run) buf)))" for c
    using table_loop_ok[OF sctp_crc_tableil8_o32_shifts, of "unat init + unat run" "unat fin" buf c] assms sum by simp
  moreover have "take (unat len) buf = take (unat init) buf @ take (unat run) (drop (unat init) buf) @ take (unat fin) (drop (unat init + unat run) buf)"
    unfolding sum take_add by (simp add: add.commute)
  moreover have "len \<noteq> 0" using \<open>4 \<le> unat len\<close> by auto
  ultimately show ?thesis using False
    by (simp add: calculate_crc32c_def multitable_crc32c_def crc32c_sb8_64_bit_def Let_def crc_ref_append init_def run_def fin_def)
qed


section \<open>Errors change the checksum\<close>

lemma xor_cancel [simp]: "x XOR y = x XOR z \<longleftrightarrow> y = z" "y XOR x = z XOR x \<longleftrightarrow> y = z" for x :: u32
  by (metis xor.assoc xor.left_neutral xor_self_eq xor.commute)+

lemma crc_bit_inj:
  assumes "bit poly 31" and "crc_bit poly c = crc_bit poly d"
  shows "c = d"
proof -
  have top: "bit (crc_bit poly x) 31 \<longleftrightarrow> bit x 0" for x using assms(1) bit_imp_le_length[of x 32] by (auto simp: crc_bit_def bit_simps)
  then have b0: "bit c 0 \<longleftrightarrow> bit d 0" using assms(2) by metis
  then have "drop_bit 1 c = drop_bit 1 d" using assms(2) by (auto simp: crc_bit_def split: if_splits)
  then have "bit c (Suc n) \<longleftrightarrow> bit d (Suc n)" for n by (metis bit_drop_bit_eq comp_apply plus_1_eq_Suc)
  then have "bit c n \<longleftrightarrow> bit d n" for n using b0 by (cases n) auto
  then show ?thesis by (intro bit_eqI) blast
qed

lemma crc_shifts_inj: "bit poly 31 \<Longrightarrow> (crc_bit poly ^^ n) c = (crc_bit poly ^^ n) d \<Longrightarrow> c = d"
  by (induction n) (auto dest: crc_bit_inj)

lemma crc_ref_inj: "bit poly 31 \<Longrightarrow> crc_ref poly c bs = crc_ref poly d bs \<Longrightarrow> c = d"
proof (induction bs arbitrary: c d)
  case (Cons b bs)
  then have "crc_byte poly c b = crc_byte poly d b" by (simp add: crc_ref_def)
  then have "c XOR ucast b = d XOR ucast b"
    unfolding crc_byte_def by (rule crc_shifts_inj[OF Cons.prems(1)])
  then show ?case by simp
qed (simp add: crc_ref_def)

lemma word4_bytes:
  "ucast (word4 a b c d) = a" "ucast (drop_bit 8 (word4 a b c d)) = b"
  "ucast (drop_bit 16 (word4 a b c d)) = c" "ucast (drop_bit 24 (word4 a b c d)) = d"
  unfolding word4_def by (intro bit_eqI; auto simp: bit_simps dest: byte_bound)+

lemma crc_window4:
  assumes "bit poly 31" and "length v = 4" and "length w = 4" and "crc_ref poly c v = crc_ref poly c w"
  shows "v = w"
proof -
  obtain v0 v1 v2 v3 w0 w1 w2 w3 where vw: "v = [v0, v1, v2, v3]" "w = [w0, w1, w2, w3]"
    using assms(2,3) by (auto simp: length_Suc_conv numeral_eq_Suc)
  then have "c XOR word4 v0 v1 v2 v3 = c XOR word4 w0 w1 w2 w3"
    using assms(4) crc_shifts_inj[OF assms(1), of 32 "c XOR word4 v0 v1 v2 v3" "c XOR word4 w0 w1 w2 w3"] by (simp add: crc_word)
  then have "word4 v0 v1 v2 v3 = word4 w0 w1 w2 w3" by (simp only: xor_cancel)
  then show ?thesis using word4_bytes[of v0 v1 v2 v3] word4_bytes[of w0 w1 w2 w3] vw by simp
qed

lemma crc_window:
  assumes "bit poly 31" and "length v = length w" and "length v \<le> 4" and "v \<noteq> w"
  shows "crc_ref poly c (pre @ v @ post) \<noteq> crc_ref poly c (pre @ w @ post)"
proof
  assume "crc_ref poly c (pre @ v @ post) = crc_ref poly c (pre @ w @ post)"
  then have "crc_ref poly (crc_ref poly c pre) v = crc_ref poly (crc_ref poly c pre) w"
    using crc_ref_inj[OF assms(1)] by (auto simp: crc_ref_append)
  then have "crc_ref poly (crc_ref poly c pre) (v @ replicate (4 - length v) 0) = crc_ref poly (crc_ref poly c pre) (w @ replicate (4 - length w) 0)"
    using assms(2) by (simp add: crc_ref_append)
  then have "v @ replicate (4 - length v) 0 = w @ replicate (4 - length w) 0"
    by (rule crc_window4[OF assms(1), rotated 2]) (use assms(2,3) in auto)
  then show False using assms(2,4) by simp
qed

section \<open>Properties\<close>

text \<open>
  Property C26. \<open>calculate_crc32c\<close>, with its loop over eight bytes and its eight tables, is the CRC-32C of the
  bytes as a shift register with feedback computes it bit by bit, and \<open>crc32\<close> is the CRC-32, for every
  address, length and content of the buffer; no access leaves the buffer or a table.
\<close>
theorem crc32_shift_register:
  assumes "unat len \<le> length buf" and "sz \<le> length buf"
  shows "calculate_crc32c crc addr buf len = Inr (crc_ref CRC32C_POLY crc (take (unat len) buf)) \<and>
    crc32 buf sz = Inr (crc_ref CRC32_POLY (NOT 0) (take sz buf) XOR NOT 0)"
  using crc32c_ok[OF assms(1)] table_loop_ok[OF crc32_tab_shifts, of 0 sz buf "NOT 0"] assms(2)
  by (simp add: crc32_def crc32_raw_def)

theorem crc32_shift_register_witness:
  "calculate_crc32c (NOT 0) 0x1001 (map of_nat [0..<40]) 37 = Inr (crc_ref CRC32C_POLY (NOT 0) (map of_nat [0..<37])) \<and>
   crc32 (map of_nat [0..<40]) 9 = Inr (crc_ref CRC32_POLY (NOT 0) (map of_nat [0..<9]) XOR NOT 0)"
  using crc32_shift_register[of 37 "map of_nat [0..<40]" 9 "NOT 0" "0x1001"] by (simp add: take_map take_upt)

text \<open>
  Property C27. Whatever comes before and behind, changing up to four bytes next to each other changes the
  checksum: every error burst of up to 32 bits inside of four bytes is detected, by the CRC-32C and by the CRC-32.
\<close>
theorem crc32_detects_burst:
  assumes "length v = length w" and "length v \<le> 4" and "v \<noteq> w" and "unat len = length (pre @ v @ post)"
  shows "calculate_crc32c crc addr (pre @ v @ post) len \<noteq> calculate_crc32c crc addr' (pre @ w @ post) len \<and>
    crc32 (pre @ v @ post) (unat len) \<noteq> crc32 (pre @ w @ post) (unat len)"
proof -
  have top: "bit CRC32C_POLY 31" "bit CRC32_POLY 31" by (simp_all add: CRC32C_POLY_def CRC32_POLY_def)
  have len: "unat len = length (pre @ w @ post)" using assms(1,4) by simp
  have crc: "crc32 xs (unat len) = Inr (crc_ref CRC32_POLY (NOT 0) xs XOR NOT 0)" if "unat len = length xs" for xs
    using table_loop_ok[OF crc32_tab_shifts, of 0 "length xs" xs "NOT 0"] that by (simp add: crc32_def crc32_raw_def)
  have "crc32 (pre @ v @ post) (unat len) \<noteq> crc32 (pre @ w @ post) (unat len)"
    using crc_window[OF top(2) assms(1-3), of "NOT 0" pre post] unfolding crc[OF assms(4)] crc[OF len] by simp
  then show ?thesis
    using crc_window[OF top(1) assms(1-3), of crc pre post]
      crc32c_ok[of len "pre @ v @ post" crc addr] crc32c_ok[of len "pre @ w @ post" crc addr'] assms(4) len by simp
qed

theorem crc32_detects_burst_witness:
  "calculate_crc32c 7 3 ([1, 2, 3, 4, 5] @ [6, 7, 8] @ [9, 10]) 10 \<noteq> calculate_crc32c 7 0 ([1, 2, 3, 4, 5] @ [6, 7, 9] @ [9, 10]) 10 \<and>
   crc32 ([1, 2, 3, 4, 5] @ [6, 7, 8] @ [9, 10]) (unat (10 :: u32)) \<noteq> crc32 ([1, 2, 3, 4, 5] @ [6, 7, 9] @ [9, 10]) (unat (10 :: u32))"
  by (rule crc32_detects_burst) simp_all

end
