(* ===== verification/Spec2Isabelle.thy ===== *)
theory Spec2Isabelle
  imports Mqtt_Session Md5 Sha1 Sha2 Rmd160 Bpf_Filter Reactor Tcp_Session Inet Sbuf Epoll_Session Net_Queues Consistent_Hash Echo Dn_Hash In_Cksum Qsort Crc32
begin

text \<open>
  Verification of the \<open>pump\<close> network framework, its MQTT server, its Redis agent and the parts
  of the user-space network stack below it.

  \<^bold>\<open>The program.\<close> \<open>pump\<close> (\<open>src/src\<close>) is an event-driven C++ framework. A program is written as
  chains of flows (\<open>reactor/flow.hh\<close>): a flow is an action that runs once, when somebody triggers
  it, and then activates the next flow with its result or exception. Flows run on an immediate
  runner or on the task center (\<open>reactor/schedule.hh\<close>); the main loops (\<open>dpdk/engine.hh\<close>,
  \<open>epoll/task_proc.hh\<close>) alternate between the events of the kernel, due timers
  (\<open>timer/time_set.hh\<close>) and queued tasks.
  TCP sessions exist twice, over f-stack (\<open>dpdk/net/tcp_session.hh\<close>) and over epoll
  (\<open>epoll/net/tcp_session.hh\<close>); both receive into a ring buffer (\<open>common/packet_buffer.hh\<close>) and
  hand it to the flow that waits for a packet. Listener, connector and the channel between cores
  are queues on which flows wait. Three applications use this: an MQTT server (\<open>app/mqtt\<close>), an
  agent in front of Redis servers (\<open>app/redis_agent\<close>) and an echo server (\<open>app/echo\<close>). f-stack is the FreeBSD network stack
  (\<open>3rd/freebsd\<close>) compiled for user space; of it, self-contained components are verified.

  \<^bold>\<open>Conventions.\<close> \<open>Prelude\<close> has the machine integers as words of their width, the result type
  \<open>fault + 'a\<close> (an exception, a failed assertion, or undefined behaviour of C), and checked array
  access. A struct is a record, a shared pointer an id or the record itself, a callback a function
  on an explicit world. Code outside the repository is a parameter: the kernel's reads and writes,
  the clock, the allocator, \<open>boost\<close> and \<open>std::hash\<close>, drain functions. A loop that need not
  end is a \<open>partial_function (option)\<close>, whose result \<open>None\<close> means that it does not return:
  \<open>handle_timeout\<close>, \<open>send_loop\<close>, \<open>recv_loop\<close>, \<open>read_all\<close>, \<open>put_loop\<close>, \<open>read_proc\<close>,
  \<open>listener_schedule\<close>, and \<open>find_loop\<close> and \<open>scan_chain\<close> of the hash table, whose chains are
  links in a memory. For \<open>read_proc\<close> and \<open>listener_schedule\<close> it is shown when they do not return;
  that the others return is part of the theorems about them. The only fuel is that of the Redis decoder, one more than the
  number of bytes, which is enough because every nested array consumes at least its first byte.

  \<^bold>\<open>The framework.\<close>
  \<^item> \<open>Ringbuffer\<close> (\<open>common/packet_buffer.hh\<close>): the doubly mapped ring buffer with its 64-bit
    indices. Locale \<open>byte_fifo\<close> is what clients rely on; it is interpreted on the buffer.
    Committing appends, consuming and popping remove from the front, for every wrap-around.
  \<^item> \<open>Timer\<close> (\<open>timer/time_set.hh\<close>) and \<open>Reactor\<close> (\<open>flow.hh\<close>, \<open>schedule.hh\<close>, \<open>task_proc.hh\<close>): a
    timeout round ends and runs the due timers earliest first; the reactor is a step relation
    whose invariant gives that no action runs twice; a chain of flows refines the sequential
    calling of its functions; the task center is first in, first out.
  \<^item> \<open>Tcp_Session\<close>, \<open>Epoll_Session\<close>: the event handlers of both TCP sessions. Sending keeps the
    order of the bytes and completes every packet once; what receiving does is proved as it is
    in the code, which for f-stack overwrites unread bytes.
  \<^item> \<open>Tcp_Connector\<close> (\<open>dpdk/net/tcp_connector.hh\<close>): connecting with a timeout, on the flows of the
    reactor: the flow is triggered once, by the first of the two events, whatever interleaves.
  \<^item> \<open>Net_Queues\<close>: listener, Redis replies and the channel between cores. Locale \<open>rendezvous\<close>
    states what a queue on which flows wait promises, and is interpreted on the first two.
  \<^item> \<open>Consistent_Hash\<close>: both ring classes of \<open>common/consistent_hashing.hh\<close> and
    \<open>redis/redis_nodes.hh\<close>, over the locale \<open>ring\<close>.
  \<^item> \<open>Engine\<close> (\<open>dpdk/engine.hh\<close>, \<open>epoll/global\<close>, \<open>app/mqtt/main.cc\<close>, \<open>app/redis_agent/main.cc\<close>):
    the wait for the rings of the other cores, a turn of the main loop with its order of events,
    timers and tasks, and the procedures that accept connections. Locale \<open>accept_stages\<close> is what
    such a procedure relies on, interpreted on that of the MQTT server and that of the Redis agent;
    it rests on the \<open>rendezvous\<close> of the listener and gives that every connection is served, in order.

  \<^bold>\<open>The MQTT server.\<close>
  \<^item> \<open>Mqtt_Packet\<close> (\<open>mqtt_packet.hh\<close>): readers and builders of all packets over the buffer.
  \<^item> \<open>Cache\<close> (\<open>cache.hh\<close>) and \<open>Mqtt_Topic\<close> (\<open>mqtt_topic.hh\<close>): the hash table and the registry.
  \<^item> \<open>Mqtt_Session\<close> (\<open>mqtt_session.hh\<close>, \<open>mqtt_proc.hh\<close>, \<open>handle_*.hh\<close>): the session as a state
    machine between the points where its flows wait, with the tasks of the handlers. Safety
    (isolation before CONNECT, no failing task), effects of the handlers, and invariants.

  \<^bold>\<open>The Redis agent.\<close>
  \<^item> \<open>Resp\<close> (\<open>resped/resp_decoder.hh\<close>): the protocol decoder; it accepts the wire form of every
    reply and ends behind it, and on any bytes its result is well typed and inside of them.
  \<^item> \<open>Redis_Session\<close> (\<open>redis_session.hh\<close>, \<open>agent_session.hh\<close>, \<open>command/*.hh\<close>): reading, decoding
    and the queues of replies and commands.
  \<^item> \<open>Agent\<close> (\<open>redis_session.hh\<close>, \<open>main.cc\<close>, \<open>dpdk/net/tcp_listener.hh\<close>): the listener's construction
    and callback, connecting to a server, and forwarding commands and replies.

  \<^bold>\<open>The echo server.\<close>
  \<^item> \<open>Echo\<close> (\<open>app/echo/main.cc\<close>): the procedure that waits for a packet and sends it back, on the session
    of \<open>Tcp_Session\<close> and the ring buffer, with its flows, timers and tasks as explicit events. From socket to
    socket the bytes come back in order, for every interleaving in which data arrive in an empty buffer, and
    all of them in the end. Its accept procedure is the third interpretation of \<open>accept_stages\<close>.

  \<^bold>\<open>The network stack.\<close>
  \<^item> \<open>Md_Stream\<close>, \<open>Md5\<close> (with MD4), \<open>Sha1\<close>, \<open>Sha2\<close>, \<open>Rmd160\<close>: the digests; locale
    \<open>stream_digest\<close> gives once that updating piecewise is hashing the concatenation, and is
    interpreted on every digest, whose compression function is proved equal to the standard's.
  \<^item> \<open>Bpf_Filter\<close> (\<open>net/bpf_filter.c\<close>): the filter machine and its validator; accepted programs
    are safe, and chains of buffers are read like contiguous packets.
  \<^item> \<open>Strto\<close>, \<open>Inet\<close>, \<open>Sbuf\<close>: number conversion, addresses as text, string buffers.
  \<^item> \<open>In_Cksum\<close> (\<open>amd64/in_cksum.c\<close>): the Internet checksum over chains of buffers at any address,
    equal to that of RFC 1071 and accepted by the receiver.
  \<^item> \<open>Crc32_Tables\<close>, \<open>Crc32\<close> (\<open>libkern/crc32.c\<close>, \<open>sys/libkern.h\<close>): CRC-32 and CRC-32C with all their
    tables, equal to the shift register with feedback; every burst inside of four bytes is detected.
  \<^item> \<open>Dn_Heap\<close>, \<open>Dn_Hash\<close> (\<open>netpfil/ipfw/dn_heap.c\<close>): the heap of events, which is a queue by
    priority (locale \<open>min_queue\<close>) and keeps the positions of its objects, and the hash table with
    chains in memory, which refines a map (locale \<open>object_map\<close>).
  \<^item> \<open>Qsort\<close> (\<open>libkern/qsort.c\<close>): the sorting routine of Bentley and McIlroy on an array.

  \<^bold>\<open>Not modelled.\<close> Third-party code the sources only call (DPDK, \<open>moodycamel\<close>, \<open>fmt\<close>,
  \<open>plf_list.hh\<close>, \<open>app/redis_agent/resp\<close>); start-up code that only configures DPDK and CPUs
  (\<open>dpdk/init\<close>, the first functions of \<open>dpdk/engine.hh\<close>, \<open>common/cpu.hh\<close>); wrappers without behaviour of their own
  (\<open>ncpy_func.hh\<close>, \<open>unique_func.hh\<close>, \<open>apply.hh\<close>, \<open>defer.hh\<close>); templates no program uses
  (\<open>flow_pool.hh\<close>, \<open>keep_doing.hh\<close>, \<open>task_runner_apply.hh\<close>, \<open>net/wait_*.hh\<close>); the copies under \<open>bak\<close>; the rest of the FreeBSD tree,
  drivers and kernel subsystems whose behaviour is that of devices and locks.
\<close>

end
